(* ===== verification/Ci_Map.thy ===== *)
theory Ci_Map
  imports Prelude
begin

section \<open>Case-insensitive maps and sets of PHP symbol names\<close>

text \<open>
  Models \<open>src/ci_map.rs\<close>: the \<open>CiMap\<close> and \<open>CiSet\<close> that key their entries by the
  ASCII-lowercased name.  A Rust \<open>HashMap\<close> is an Isabelle map; its iteration order is
  unspecified, so the iterators are the sets of pairs they yield.  The locale
  \<open>folded_map\<close> is the contract the symbol indexes rely on, interpreted at the end on the
  operations of the code.
\<close>

subsection \<open>Folding\<close>

definition fold_name :: "str \<Rightarrow> str" where
  "fold_name key =
     (if list_ex is_ascii_uppercase key then to_ascii_lowercase key else key)"

definition windows :: "nat \<Rightarrow> 'a list \<Rightarrow> 'a list list" where
  "windows n xs = map (\<lambda>i. take n (drop i xs)) [0..<Suc (length xs) - n]"

definition contains_folded :: "str \<Rightarrow> str \<Rightarrow> bool" where
  "contains_folded s needle_lower =
     (if needle_lower = [] then True
      else if length s < length needle_lower then False
      else list_ex (\<lambda>w. eq_ignore_ascii_case w needle_lower)
             (windows (length needle_lower) s))"

lemma fold_name_eq [simp]: "fold_name key = to_ascii_lowercase key"
  by (auto simp: fold_name_def list_ex_iff intro!: to_ascii_lowercase_id [symmetric])

lemma contains_folded_iff:
  "contains_folded s needle \<longleftrightarrow>
     contains_str (to_ascii_lowercase s) (to_ascii_lowercase needle)"
proof -
  have win: "(\<exists>i < Suc (length s) - length needle.
        to_ascii_lowercase (take (length needle) (drop i s)) = to_ascii_lowercase needle)
      \<longleftrightarrow> (\<exists>a b. to_ascii_lowercase s = a @ to_ascii_lowercase needle @ b)" (is "?L \<longleftrightarrow> ?R")
    if "length needle \<le> length s"
  proof
    assume ?L
    then obtain i where i: "i < Suc (length s) - length needle"
      "to_ascii_lowercase (take (length needle) (drop i s)) = to_ascii_lowercase needle" by blast
    have "s = take i s @ take (length needle) (drop i s) @ drop (length needle) (drop i s)"
      by (metis append_take_drop_id)
    then have "to_ascii_lowercase s = to_ascii_lowercase (take i s) @
        to_ascii_lowercase (take (length needle) (drop i s)) @
        to_ascii_lowercase (drop (length needle) (drop i s))"
      by (metis to_ascii_lowercase_append)
    then show ?R unfolding i(2) by blast
  next
    assume ?R
    then obtain a b where ab: "to_ascii_lowercase s = a @ to_ascii_lowercase needle @ b" by blast
    have len: "length s = length a + length needle + length b"
      using arg_cong [OF ab, of length] by simp
    have "map lower_char (take (length needle) (drop (length a) s)) =
        take (length needle) (drop (length a) (to_ascii_lowercase s))"
      by (simp add: to_ascii_lowercase_def take_map drop_map)
    also have "\<dots> = to_ascii_lowercase needle" by (simp add: ab)
    finally have "to_ascii_lowercase (take (length needle) (drop (length a) s)) =
        to_ascii_lowercase needle" by (simp add: to_ascii_lowercase_def)
    then show ?L using len by (intro exI [of _ "length a"]) simp
  qed
  have short: "length needle \<le> length s"
    if "to_ascii_lowercase s = a @ to_ascii_lowercase needle @ b" for a b
    using arg_cong [OF that, of length] by simp
  show ?thesis
  proof (cases "needle \<noteq> [] \<and> length needle \<le> length s")
    case True
    then have "contains_folded s needle \<longleftrightarrow>
        (\<exists>i < Suc (length s) - length needle.
          to_ascii_lowercase (take (length needle) (drop i s)) = to_ascii_lowercase needle)"
      by (auto simp: contains_folded_def windows_def list_ex_iff eq_ignore_ascii_case_def)
    with True win show ?thesis by (simp add: contains_str_iff)
  next
    case False
    then show ?thesis
      using short by (auto simp: contains_folded_def contains_str_iff to_ascii_lowercase_def)
  qed
qed

subsection \<open>CiMap\<close>

record 'v ci_map =
  inner :: "str \<rightharpoonup> str \<times> 'v"

definition ci_new :: "'v ci_map" where
  "ci_new = \<lparr>inner = Map.empty\<rparr>"

definition ci_get :: "'v ci_map \<Rightarrow> str \<Rightarrow> 'v option" where
  "ci_get m key = map_option snd (inner m (fold_name key))"

definition ci_get_key_value :: "'v ci_map \<Rightarrow> str \<Rightarrow> (str \<times> 'v) option" where
  "ci_get_key_value m key = inner m (fold_name key)"

text \<open>\<open>get_mut\<close> hands out a mutable reference: a caller's write through it is \<open>f\<close>.\<close>

definition ci_get_mut :: "'v ci_map \<Rightarrow> str \<Rightarrow> ('v \<Rightarrow> 'v) \<Rightarrow> 'v ci_map" where
  "ci_get_mut m key f =
     (case inner m (fold_name key) of
        None \<Rightarrow> m
      | Some (k, v) \<Rightarrow> m\<lparr>inner := (inner m)(fold_name key \<mapsto> (k, f v))\<rparr>)"

definition ci_contains_key :: "'v ci_map \<Rightarrow> str \<Rightarrow> bool" where
  "ci_contains_key m key \<longleftrightarrow> inner m (fold_name key) \<noteq> None"

definition ci_insert :: "'v ci_map \<Rightarrow> str \<Rightarrow> 'v \<Rightarrow> 'v option \<times> 'v ci_map" where
  "ci_insert m key value =
     (let folded = fold_name key
      in (map_option snd (inner m folded),
          m\<lparr>inner := (inner m)(folded \<mapsto> (key, value))\<rparr>))"

definition ci_or_insert_with :: "'v ci_map \<Rightarrow> str \<Rightarrow> (unit \<Rightarrow> 'v) \<Rightarrow> 'v \<times> 'v ci_map" where
  "ci_or_insert_with m key f =
     (let folded = fold_name key
      in (case inner m folded of
            Some (k, v) \<Rightarrow> (v, m)
          | None \<Rightarrow> (f (), m\<lparr>inner := (inner m)(folded \<mapsto> (key, f ()))\<rparr>)))"

definition ci_try_insert_with ::
    "'v ci_map \<Rightarrow> str \<Rightarrow> (unit \<Rightarrow> 'v) \<Rightarrow> ((str \<times> 'v) + unit) \<times> 'v ci_map" where
  "ci_try_insert_with m key mk =
     (case inner m (fold_name key) of
        Some (k, v) \<Rightarrow> (Inl (key, v), m)
      | None \<Rightarrow> (Inr (), m\<lparr>inner := (inner m)(fold_name key \<mapsto> (key, mk ()))\<rparr>))"

definition ci_remove :: "'v ci_map \<Rightarrow> str \<Rightarrow> 'v option \<times> 'v ci_map" where
  "ci_remove m key =
     (map_option snd (inner m (fold_name key)),
      m\<lparr>inner := (inner m)(fold_name key := None)\<rparr>)"

definition ci_iter :: "'v ci_map \<Rightarrow> (str \<times> 'v) set" where
  "ci_iter m = ran (inner m)"

definition ci_iter_folded :: "'v ci_map \<Rightarrow> (str \<times> str \<times> 'v) set" where
  "ci_iter_folded m = {(folded, k, v). inner m folded = Some (k, v)}"

definition ci_keys :: "'v ci_map \<Rightarrow> str set" where
  "ci_keys m = fst ` ran (inner m)"

definition ci_values :: "'v ci_map \<Rightarrow> 'v set" where
  "ci_values m = snd ` ran (inner m)"

definition ci_retain :: "'v ci_map \<Rightarrow> (str \<Rightarrow> 'v \<Rightarrow> bool \<times> 'v) \<Rightarrow> 'v ci_map" where
  "ci_retain m f =
     m\<lparr>inner := (\<lambda>folded. case inner m folded of
          None \<Rightarrow> None
        | Some (k, v) \<Rightarrow> (let (keep, v') = f k v in if keep then Some (k, v') else None))\<rparr>"

definition ci_len :: "'v ci_map \<Rightarrow> nat" where
  "ci_len m = card (dom (inner m))"

definition ci_is_empty :: "'v ci_map \<Rightarrow> bool" where
  "ci_is_empty m \<longleftrightarrow> dom (inner m) = {}"

definition ci_clear :: "'v ci_map \<Rightarrow> 'v ci_map" where
  "ci_clear m = m\<lparr>inner := Map.empty\<rparr>"

fun ci_extend :: "'v ci_map \<Rightarrow> (str \<times> 'v) list \<Rightarrow> 'v ci_map" where
  "ci_extend m [] = m"
| "ci_extend m ((k, v) # kvs) = ci_extend (snd (ci_insert m k v)) kvs"

definition ci_from_iter :: "(str \<times> 'v) list \<Rightarrow> 'v ci_map" where
  "ci_from_iter kvs = ci_extend ci_new kvs"

lemmas ci_map_defs = ci_new_def ci_get_def ci_get_key_value_def ci_get_mut_def
  ci_contains_key_def ci_insert_def ci_or_insert_with_def ci_try_insert_with_def
  ci_remove_def ci_retain_def ci_clear_def ci_iter_def ci_iter_folded_def

subsection \<open>CiSet\<close>

record ci_set =
  members :: "str set"

definition cs_new :: ci_set where
  "cs_new = \<lparr>members = {}\<rparr>"

definition cs_contains :: "ci_set \<Rightarrow> str \<Rightarrow> bool" where
  "cs_contains s key \<longleftrightarrow> fold_name key \<in> members s"

definition cs_insert :: "ci_set \<Rightarrow> str \<Rightarrow> bool \<times> ci_set" where
  "cs_insert s key =
     (fold_name key \<notin> members s, s\<lparr>members := insert (fold_name key) (members s)\<rparr>)"

definition cs_remove :: "ci_set \<Rightarrow> str \<Rightarrow> bool \<times> ci_set" where
  "cs_remove s key =
     (fold_name key \<in> members s, s\<lparr>members := members s - {fold_name key}\<rparr>)"

definition cs_len :: "ci_set \<Rightarrow> nat" where
  "cs_len s = card (members s)"

definition cs_is_empty :: "ci_set \<Rightarrow> bool" where
  "cs_is_empty s \<longleftrightarrow> members s = {}"

definition cs_clear :: "ci_set \<Rightarrow> ci_set" where
  "cs_clear s = s\<lparr>members := {}\<rparr>"

lemmas ci_set_defs = cs_new_def cs_contains_def cs_insert_def cs_remove_def cs_clear_def

subsection \<open>The well-formedness invariant\<close>

text \<open>
  An entry is stored under the folded form of the spelling it keeps, and the table is
  finite: this is what makes \<open>get_key_value\<close> answer a spelling of the name asked for.
\<close>

definition ci_wf :: "'v ci_map \<Rightarrow> bool" where
  "ci_wf m \<longleftrightarrow> finite (dom (inner m)) \<and>
     (\<forall>folded k v. inner m folded = Some (k, v) \<longrightarrow> folded = fold_name k)"

lemma ci_wf_spelling:
  "ci_wf m \<Longrightarrow> inner m folded = Some (k, v) \<Longrightarrow> to_ascii_lowercase k = folded"
  by (fastforce simp: ci_wf_def)

lemma ci_wf_new [intro]: "ci_wf ci_new"
  by (simp add: ci_wf_def ci_new_def)

lemma ci_wf_insert [intro]: "ci_wf m \<Longrightarrow> ci_wf (snd (ci_insert m k v))"
  by (auto simp: ci_wf_def ci_insert_def Let_def)

lemma ci_wf_remove [intro]: "ci_wf m \<Longrightarrow> ci_wf (snd (ci_remove m k))"
  by (auto simp: ci_wf_def ci_remove_def split: if_splits)

lemma ci_wf_or_insert_with [intro]: "ci_wf m \<Longrightarrow> ci_wf (snd (ci_or_insert_with m k f))"
  by (auto simp: ci_wf_def ci_or_insert_with_def Let_def split: option.splits)

lemma ci_wf_try_insert_with [intro]: "ci_wf m \<Longrightarrow> ci_wf (snd (ci_try_insert_with m k f))"
  by (auto simp: ci_wf_def ci_try_insert_with_def split: option.splits)

lemma ci_wf_get_mut [intro]: "ci_wf m \<Longrightarrow> ci_wf (ci_get_mut m k f)"
  by (auto simp: ci_wf_def ci_get_mut_def split: option.splits)

lemma ci_wf_retain [intro]:
  assumes "ci_wf m" shows "ci_wf (ci_retain m f)"
proof -
  have "dom (inner (ci_retain m f)) \<subseteq> dom (inner m)"
    by (auto simp: ci_retain_def split: option.splits prod.splits if_splits)
  with assms show ?thesis
    by (auto simp: ci_wf_def ci_retain_def intro: finite_subset
        split: option.splits prod.splits if_splits)
qed

lemma ci_wf_extend [intro]: "ci_wf m \<Longrightarrow> ci_wf (ci_extend m kvs)"
  by (induction m kvs rule: ci_extend.induct) auto

lemma ci_wf_from_iter [intro]: "ci_wf (ci_from_iter kvs)"
  by (auto simp: ci_from_iter_def)

subsection \<open>The contract of a folded map\<close>

text \<open>
  What the symbol indexes rely on: a map looked up by name up to ASCII case.  The laws are
  those of a map on the case classes of names, together with the invariant.
\<close>

locale folded_map =
  fixes empty :: "'m"
    and lookup :: "'m \<Rightarrow> str \<Rightarrow> (str \<times> 'v) option"
    and store :: "str \<Rightarrow> 'v \<Rightarrow> 'm \<Rightarrow> 'm"
    and erase :: "str \<Rightarrow> 'm \<Rightarrow> 'm"
    and invar :: "'m \<Rightarrow> bool"
  assumes lookup_empty: "lookup empty k = None"
    and lookup_store: "lookup (store k v m) k' =
          (if eq_ignore_ascii_case k k' then Some (k, v) else lookup m k')"
    and lookup_erase: "lookup (erase k m) k' =
          (if eq_ignore_ascii_case k k' then None else lookup m k')"
    and lookup_spelling: "invar m \<Longrightarrow> lookup m k = Some (orig, v) \<Longrightarrow>
          eq_ignore_ascii_case orig k"
    and invar_empty: "invar empty"
    and invar_store: "invar m \<Longrightarrow> invar (store k v m)"
    and invar_erase: "invar m \<Longrightarrow> invar (erase k m)"
begin

lemma lookup_store_same: "eq_ignore_ascii_case k k' \<Longrightarrow> lookup (store k v m) k' = Some (k, v)"
  by (simp add: lookup_store)

lemma store_store:
  assumes "eq_ignore_ascii_case k k'"
  shows "lookup (store k' v' (store k v m)) = lookup (store k' v' m)"
proof
  fix x
  show "lookup (store k' v' (store k v m)) x = lookup (store k' v' m) x"
    using assms by (auto simp: lookup_store eq_ignore_ascii_case_def)
qed

lemma erase_store:
  assumes "eq_ignore_ascii_case k k'"
  shows "lookup (erase k' (store k v m)) = lookup (erase k' m)"
proof
  fix x
  show "lookup (erase k' (store k v m)) x = lookup (erase k' m) x"
    using assms by (auto simp: lookup_store lookup_erase eq_ignore_ascii_case_def)
qed

text \<open>Loading a list of bindings: the last binding of a case class wins, with its spelling.\<close>

definition last_binding :: "(str \<times> 'v) list \<Rightarrow> str \<Rightarrow> (str \<times> 'v) option" where
  "last_binding kvs x =
     (case filter (\<lambda>(k, v). eq_ignore_ascii_case k x) kvs of [] \<Rightarrow> None | bs \<Rightarrow> Some (last bs))"

lemma last_binding_Cons:
  "last_binding ((k, v) # kvs) x =
     (case last_binding kvs x of
        Some b \<Rightarrow> Some b
      | None \<Rightarrow> if eq_ignore_ascii_case k x then Some (k, v) else None)"
  by (auto simp: last_binding_def split: list.splits)

lemma lookup_load:
  "lookup (fold (\<lambda>(k, v). store k v) kvs m) x =
     (case last_binding kvs x of Some b \<Rightarrow> Some b | None \<Rightarrow> lookup m x)"
proof (induction kvs arbitrary: m)
  case Nil
  then show ?case by (simp add: last_binding_def)
next
  case (Cons kv kvs)
  then show ?case
    by (cases kv) (auto simp: last_binding_Cons lookup_store split: option.splits)
qed

end

interpretation cim: folded_map ci_new ci_get_key_value
  "\<lambda>k v m. snd (ci_insert m k v)" "\<lambda>k m. snd (ci_remove m k)" ci_wf
  by unfold_locales
    (auto simp: ci_map_defs eq_ignore_ascii_case_def Let_def split: if_splits
      intro: ci_wf_new [unfolded ci_map_defs] ci_wf_insert [unfolded ci_map_defs Let_def, simplified]
        ci_wf_remove [unfolded ci_map_defs, simplified] dest: ci_wf_spelling)

lemma ci_get_by_key_value: "ci_get m k = map_option snd (ci_get_key_value m k)"
  by (simp add: ci_map_defs)

lemma ci_extend_fold: "ci_extend m kvs = fold (\<lambda>(k, v) m. snd (ci_insert m k v)) kvs m"
  by (induction m kvs rule: ci_extend.induct) auto

text \<open>
  Case-insensitive lookup of an index built from a list of declarations: \<open>get\<close> and
  \<open>get_key_value\<close> on \<open>from_iter kvs\<close> answer the value and the spelling of the last
  binding whose name equals the one asked for up to ASCII case, and nothing when there is
  none.
\<close>

theorem ci_from_iter_lookup:
  "ci_get_key_value (ci_from_iter kvs) x =
     (case filter (\<lambda>(k, v). eq_ignore_ascii_case k x) kvs of
        [] \<Rightarrow> None | bs \<Rightarrow> Some (last bs))
   \<and> ci_get (ci_from_iter kvs) x =
     map_option snd (ci_get_key_value (ci_from_iter kvs) x)"
  using cim.lookup_load [of kvs ci_new x]
  by (simp add: ci_from_iter_def ci_extend_fold case_prod_unfold cim.last_binding_def
      cim.lookup_empty ci_get_by_key_value split: list.splits)

text \<open>
  \<open>CiMap\<close> inserts and removals act on the whole case class of a name and on nothing
  else, and each returns the value the class held before.
\<close>

theorem ci_insert_remove_spec:
  "ci_get (snd (ci_insert m k v)) x = (if eq_ignore_ascii_case k x then Some v else ci_get m x)
   \<and> ci_get (snd (ci_remove m k)) x = (if eq_ignore_ascii_case k x then None else ci_get m x)
   \<and> fst (ci_insert m k v) = ci_get m k \<and> fst (ci_remove m k) = ci_get m k
   \<and> ci_get (snd (ci_or_insert_with m k f)) x =
       (if eq_ignore_ascii_case k x \<and> ci_get m k = None then Some (f ()) else ci_get m x)"
  by (auto simp: ci_map_defs eq_ignore_ascii_case_def Let_def split: option.splits)

end
