(* ===== verification/Keywords.thy ===== *)
theory Keywords
  imports Prelude
begin

section \<open>Keyword and builtin-type name classifiers\<close>

text \<open>
  Models \<open>src/php_type/keywords.rs\<close>.  A \<open>matches!\<close> over string literals is membership in
  the list of those literals.  \<open>with_ascii_lowercase\<close> lowercases into a 48-byte stack
  buffer and hands the empty string to its callback for anything longer; the lemmas below
  show that no caller can tell this from lowercasing the whole name.
\<close>

subsection \<open>Patterns\<close>

definition int_refinement :: "str list" where
  "int_refinement =
     [''positive-int'', ''negative-int'', ''non-positive-int'', ''non-negative-int'',
      ''non-zero-int'']"

definition string_refinement :: "str list" where
  "string_refinement =
     [''non-empty-string'', ''numeric-string'', ''class-string'', ''interface-string'',
      ''literal-string'', ''callable-string'', ''truthy-string'', ''non-falsy-string'',
      ''trait-string'', ''enum-string'', ''lowercase-string'', ''uppercase-string'',
      ''non-empty-lowercase-string'', ''non-empty-uppercase-string'',
      ''non-empty-literal-string'']"

definition is_lowercase_only_pseudo_type :: "str \<Rightarrow> bool" where
  "is_lowercase_only_pseudo_type lower \<longleftrightarrow> lower \<in> set
     [''number'', ''real'', ''integer'', ''boolean'', ''double'', ''resource'', ''scalar'',
      ''numeric'']"

subsection \<open>Lowercasing on the stack\<close>

definition with_ascii_lowercase :: "str \<Rightarrow> (str \<Rightarrow> 'r) \<Rightarrow> 'r" where
  "with_ascii_lowercase name f =
     (if length name > 48 then f [] else f (to_ascii_lowercase name))"

definition with_keyword_lowercase :: "str \<Rightarrow> (str \<Rightarrow> 'r) \<Rightarrow> 'r" where
  "with_keyword_lowercase name f = with_ascii_lowercase name (\<lambda>lower.
     if lower \<noteq> name \<and> is_lowercase_only_pseudo_type lower then f name else f lower)"

subsection \<open>Classifiers\<close>

definition is_native_type_name_lower :: "str \<Rightarrow> bool" where
  "is_native_type_name_lower lower \<longleftrightarrow> lower \<in> set
     [''int'', ''float'', ''string'', ''bool'', ''array'', ''object'', ''callable'',
      ''iterable'', ''mixed'', ''void'', ''never'', ''null'', ''false'', ''true'',
      ''self'', ''static'', ''parent'']"

definition is_native_type_name :: "str \<Rightarrow> bool" where
  "is_native_type_name name = with_ascii_lowercase name is_native_type_name_lower"

definition is_scalar_name_lower :: "str \<Rightarrow> str \<Rightarrow> bool" where
  "is_scalar_name_lower name lower =
     (if lower \<in> set [''integer'', ''boolean'', ''double'', ''resource'', ''scalar'',
           ''numeric'']
      then name = lower
      else lower \<in> set ([''int'', ''float'', ''string'', ''bool'', ''void'', ''never'',
          ''null'', ''false'', ''true'', ''array'', ''callable'', ''iterable'', ''object'',
          ''self'', ''static'', ''parent'', ''$this''] @ string_refinement @
         [''model-property'', ''view-string'', ''array-key'', ''scalar'', ''numeric''] @
         int_refinement @
         [''non-empty-array'', ''non-empty-list'', ''list'', ''associative-array'',
          ''callable-array'', ''callable-object'', ''open-resource'', ''closed-resource'']))"

definition is_scalar_name :: "str \<Rightarrow> bool" where
  "is_scalar_name name =
     (if name = ''number'' then True
      else with_ascii_lowercase name (\<lambda>lower. is_scalar_name_lower name lower))"

definition is_keyword_type_lower :: "str \<Rightarrow> bool" where
  "is_keyword_type_lower lower \<longleftrightarrow> lower \<in> set
     [''non-zero-int'', ''int-mask'', ''int-mask-of'', ''literal-string'',
      ''callable-string'', ''uppercase-string'', ''non-empty-uppercase-string'',
      ''non-empty-literal-string'', ''view-string'', ''trait-string'', ''enum-string'',
      ''associative-array'', ''mixed'', ''empty-scalar'', ''non-empty-scalar'',
      ''non-empty-mixed'', ''empty'', ''callable-object'', ''callable-array'',
      ''closed-resource'', ''open-resource'', ''no-return'', ''noreturn'',
      ''never-return'', ''never-returns'', ''key-of'', ''value-of'', ''class'',
      ''__benevolent'', ''builder-of'', ''collection-of'', ''factory-of'', ''relation-of'']"

definition is_keyword_type :: "str \<Rightarrow> bool" where
  "is_keyword_type name =
     (if is_scalar_name name then True
      else with_ascii_lowercase name is_keyword_type_lower)"

definition is_unmodelled_pseudo_type :: "str \<Rightarrow> bool" where
  "is_unmodelled_pseudo_type name \<longleftrightarrow> CHR ''-'' \<in> set name \<and> \<not> is_keyword_type name"

definition unmodelled_refinement_base :: "str \<Rightarrow> str option" where
  "unmodelled_refinement_base name =
     (if name = ''literal-int'' then Some ''int''
      else if name = ''literal-float'' then Some ''float''
      else if name \<in> set [''lowercase-callable-string'', ''uppercase-callable-string'']
        then Some ''callable-string''
      else if name = ''stringable-object'' then Some ''object''
      else if name = ''pure-callable'' then Some ''callable''
      else if name = ''pure-closure'' then Some (backslash # ''Closure'')
      else None)"

definition is_primitive_scalar_name :: "str \<Rightarrow> bool" where
  "is_primitive_scalar_name name = with_keyword_lowercase name (\<lambda>lower. lower \<in> set
     [''int'', ''integer'', ''float'', ''double'', ''real'', ''string'', ''bool'',
      ''boolean'', ''void'', ''never'', ''null'', ''false'', ''true'', ''array'',
      ''callable'', ''iterable'', ''resource''])"

definition is_builtin_non_class_type :: "str \<Rightarrow> bool" where
  "is_builtin_non_class_type name \<longleftrightarrow> name \<in> set
     ([''int'', ''float'', ''string'', ''bool'', ''array'', ''object'', ''null'', ''void'',
       ''never'', ''mixed'', ''true'', ''false'', ''callable'', ''iterable'', ''resource'',
       ''numeric'', ''scalar''] @ int_refinement @ string_refinement @
      [''model-property'', ''array-key'', ''list'', ''non-empty-list'', ''non-empty-array'',
       ''empty'', ''no-return'', ''never-return'', ''never-returns'', ''number'',
       ''double'', ''boolean'', ''integer'', ''real''])"

definition is_array_like_name :: "str \<Rightarrow> bool" where
  "is_array_like_name name \<longleftrightarrow> to_ascii_lowercase name \<in> set
     [''array'', ''list'', ''non-empty-array'', ''non-empty-list'', ''iterable'']"

definition is_non_empty_array_name :: "str \<Rightarrow> bool" where
  "is_non_empty_array_name name \<longleftrightarrow>
     to_ascii_lowercase name \<in> set [''non-empty-array'', ''non-empty-list'']"

definition is_list_name :: "str \<Rightarrow> bool" where
  "is_list_name name \<longleftrightarrow> to_ascii_lowercase name \<in> set [''list'', ''non-empty-list'']"

definition is_class_like_name :: "str \<Rightarrow> bool" where
  "is_class_like_name name =
     (if backslash \<in> set name then True
      else if is_scalar_name name then False
      else (case name of [] \<Rightarrow> False | c # _ \<Rightarrow> is_ascii_alphabetic c \<or> c = CHR ''_''))"

subsection \<open>Canonical spellings\<close>

definition cased_keywords :: "str list" where
  "cased_keywords =
     [''int'', ''float'', ''string'', ''bool'', ''void'', ''never'',
      ''null'', ''false'', ''true'', ''mixed'', ''object'', ''array'', ''callable'',
      ''iterable'', ''resource'', ''self'', ''static'', ''parent''] @
     int_refinement @ string_refinement @
     [''non-empty-array'', ''non-empty-list'', ''non-empty-mixed'', ''associative-array'',
      ''closed-resource'', ''open-resource'', ''callable-object'', ''callable-array'',
      ''stringable-object'', ''array-key'', ''scalar'', ''numeric'']"

definition normalize_keyword_casing :: "str \<Rightarrow> str" where
  "normalize_keyword_casing name = with_keyword_lowercase name (\<lambda>lower.
     if lower = ''integer'' then ''int''
     else if lower = ''boolean'' then ''bool''
     else if lower \<in> set [''double'', ''real''] then ''float''
     else if lower \<in> set [''no-return'', ''noreturn'', ''never-return'', ''never-returns'']
       then ''never''
     else if lower \<in> set cased_keywords
       then lower
     else name)"

definition native_scalar_name :: "str \<Rightarrow> str option" where
  "native_scalar_name name = with_keyword_lowercase name (\<lambda>lower.
     if lower \<in> set [''int'', ''integer''] then Some ''int''
     else if lower \<in> set [''float'', ''double'', ''real''] then Some ''float''
     else if lower = ''string'' then Some ''string''
     else if lower \<in> set [''bool'', ''boolean''] then Some ''bool''
     else if lower = ''void'' then Some ''void''
     else if lower \<in> set [''never'', ''no-return'', ''noreturn'', ''never-return'',
          ''never-returns''] then Some ''never''
     else if lower = ''null'' then Some ''null''
     else if lower = ''false'' then Some ''false''
     else if lower = ''true'' then Some ''true''
     else if lower \<in> set [''array'', ''non-empty-array'', ''list'', ''non-empty-list'',
          ''associative-array''] then Some ''array''
     else if lower \<in> set [''callable'', ''callable-object'', ''callable-array'']
       then Some ''callable''
     else if lower = ''iterable'' then Some ''iterable''
     else if lower \<in> set [''resource'', ''closed-resource'', ''open-resource'']
       then Some ''resource''
     else if lower \<in> set [''mixed'', ''non-empty-mixed''] then Some ''mixed''
     else if lower = ''object'' then Some ''object''
     else if lower = ''self'' then Some ''self''
     else if lower \<in> set [''static'', ''$this''] then Some ''static''
     else if lower = ''parent'' then Some ''parent''
     else if lower \<in> set int_refinement then Some ''int''
     else if lower \<in> set string_refinement then Some ''string''
     else if lower \<in> set [''scalar'', ''numeric'', ''array-key'', ''empty-scalar'',
          ''non-empty-scalar'', ''empty''] then None
     else if lower = ''number'' \<and> name = ''number'' then None
     else Some name)"

subsection \<open>Plain class names\<close>

definition is_ident_start :: "char \<Rightarrow> bool" where
  "is_ident_start c \<longleftrightarrow> is_ascii_alphabetic c \<or> c = CHR ''_'' \<or> 128 \<le> (of_char c :: nat)"

fun plain_class_bytes :: "bool \<Rightarrow> char list \<Rightarrow> bool" where
  "plain_class_bytes prev_sep [] = True"
| "plain_class_bytes prev_sep (b # bs) =
     (let sep = (b = backslash) in
      if \<not> (is_ascii_alphanumeric b \<or> b = CHR ''_'' \<or> 128 \<le> (of_char b :: nat) \<or> sep)
         \<or> (sep \<and> prev_sep) then False
      else if prev_sep \<and> is_ascii_digit b then False
      else plain_class_bytes sep bs)"

definition is_plain_class_name :: "str \<Rightarrow> bool" where
  "is_plain_class_name name =
     (case name of [] \<Rightarrow> False
      | first # _ \<Rightarrow>
          if \<not> is_ident_start first \<or> last name = backslash then False
          else if \<not> plain_class_bytes False name then False
          else with_ascii_lowercase name (\<lambda>lower.
            \<not> is_keyword_type_lower lower
            \<and> \<not> is_scalar_name_lower name lower
            \<and> \<not> is_native_type_name_lower lower
            \<and> \<not> is_lowercase_only_pseudo_type lower
            \<and> lower \<notin> set [''list'', ''key'', ''min'', ''max'', ''new'', ''global'',
                 ''const'', ''readonly'']))"

subsection \<open>What the stack buffer computes\<close>

text \<open>The name a keyword test really compares: the lowercase copy, or the name itself.\<close>

definition keyword_key :: "str \<Rightarrow> str" where
  "keyword_key name = with_keyword_lowercase name (\<lambda>key. key)"

lemma with_keyword_lowercase_key: "with_keyword_lowercase name f = f (keyword_key name)"
  by (simp add: with_keyword_lowercase_def with_ascii_lowercase_def keyword_key_def)

lemma with_ascii_lowercase_key:
  "with_ascii_lowercase name f = f (with_ascii_lowercase name (\<lambda>key. key))"
  by (simp add: with_ascii_lowercase_def)

lemma keyword_key_cases:
  "keyword_key name = name \<or>
   (keyword_key name = to_ascii_lowercase name \<and>
     \<not> is_lowercase_only_pseudo_type (to_ascii_lowercase name)) \<or>
   (keyword_key name = [] \<and> 48 < length name)"
  by (auto simp: keyword_key_def with_keyword_lowercase_def with_ascii_lowercase_def)

text \<open>A keyword list the buffer is large enough for.\<close>

definition fits_buffer :: "str list \<Rightarrow> bool" where
  "fits_buffer kws \<longleftrightarrow> list_all (\<lambda>k. k \<noteq> [] \<and> length k \<le> 48) kws"

lemma with_ascii_lowercase_mem:
  assumes "fits_buffer kws"
  shows "with_ascii_lowercase name (\<lambda>lower. lower \<in> set kws) \<longleftrightarrow> to_ascii_lowercase name \<in> set kws"
proof (cases "length name > 48")
  case True
  have "to_ascii_lowercase name \<notin> set kws"
  proof
    assume "to_ascii_lowercase name \<in> set kws"
    with assms have "length (to_ascii_lowercase name) \<le> 48"
      by (auto simp: fits_buffer_def list_all_iff)
    with True show False by simp
  qed
  with True assms show ?thesis
    by (auto simp: with_ascii_lowercase_def fits_buffer_def list_all_iff)
next
  case False
  then show ?thesis by (simp add: with_ascii_lowercase_def)
qed

lemma native_fits: "is_native_type_name_lower = (\<lambda>l. l \<in> set
     [''int'', ''float'', ''string'', ''bool'', ''array'', ''object'', ''callable'',
      ''iterable'', ''mixed'', ''void'', ''never'', ''null'', ''false'', ''true'',
      ''self'', ''static'', ''parent''])"
  by (rule ext) (simp only: is_native_type_name_lower_def)

text \<open>
  Native type names are recognised in any casing: the classifier that lowercases into a
  fixed 48-byte buffer answers exactly whether the whole lowercased name is one of PHP's
  native type keywords, so no long name is cut off into a keyword.
\<close>

theorem is_native_type_name_any_casing:
  "is_native_type_name name \<longleftrightarrow> is_native_type_name_lower (to_ascii_lowercase name)"
  unfolding is_native_type_name_def native_fits
  by (subst with_ascii_lowercase_mem) (simp_all add: fits_buffer_def)

subsection \<open>Canonical spellings are stable\<close>

lemmas keyword_eval = str_eval with_keyword_lowercase_def with_ascii_lowercase_def
  is_lowercase_only_pseudo_type_def int_refinement_def string_refinement_def

lemma normalize_keyword_casing_range:
  "normalize_keyword_casing name \<in> insert name (set cased_keywords)"
  unfolding normalize_keyword_casing_def with_keyword_lowercase_key
  by (intro if_mem) (simp_all add: cased_keywords_def)

lemma keyword_key_lower:
  "to_ascii_lowercase t = t \<Longrightarrow> length t \<le> 48 \<Longrightarrow> keyword_key t = t"
  by (simp add: keyword_key_def with_keyword_lowercase_def with_ascii_lowercase_def)

lemma cased_keywords_lower:
  "list_all (\<lambda>t. to_ascii_lowercase t = t \<and> length t \<le> 48) cased_keywords"
  by (simp add: cased_keywords_def keyword_eval)

lemma cased_keywords_no_alias:
  "list_all (\<lambda>t. t \<notin> set [''integer'', ''boolean'', ''double'', ''real'', ''no-return'',
      ''noreturn'', ''never-return'', ''never-returns'']) cased_keywords"
  by (simp add: cased_keywords_def int_refinement_def string_refinement_def)

lemma cased_keywords_stable: "t \<in> set cased_keywords \<Longrightarrow> normalize_keyword_casing t = t"
  using cased_keywords_lower cased_keywords_no_alias
  by (auto simp: list_all_iff normalize_keyword_casing_def with_keyword_lowercase_key
      keyword_key_lower)

text \<open>
  Normalising the casing of a keyword is idempotent: a spelling it produced is left as
  it is, so normalising twice can never drift from one canonical name to another.
\<close>

theorem normalize_keyword_casing_idem:
  "normalize_keyword_casing (normalize_keyword_casing name) = normalize_keyword_casing name"
  using normalize_keyword_casing_range [of name] cased_keywords_stable by auto

definition native_targets :: "str list" where
  "native_targets = [''int'', ''float'', ''string'', ''bool'', ''void'', ''never'', ''null'',
     ''false'', ''true'', ''array'', ''callable'', ''iterable'', ''resource'', ''mixed'',
     ''object'', ''self'', ''static'', ''parent'']"

lemma native_scalar_name_range:
  "native_scalar_name name \<in> insert None (insert (Some name) (Some ` set native_targets))"
  unfolding native_scalar_name_def with_keyword_lowercase_key
  by (intro if_mem) (simp_all add: native_targets_def)

lemma native_targets_stable:
  "list_all (\<lambda>t. native_scalar_name t = Some t) native_targets"
  "list_all (\<lambda>t. is_native_type_name t \<or> t = ''resource'') native_targets"
  by (simp_all add: native_scalar_name_def native_targets_def is_native_type_name_def
      is_native_type_name_lower_def keyword_eval)

text \<open>
  Reducing a docblock name to a native type either passes the name through unchanged or
  answers a name PHP accepts in a native declaration (\<open>resource\<close> being the one pseudo-type
  it also keeps), and a second reduction changes nothing.
\<close>

theorem native_scalar_name_native:
  "native_scalar_name name = Some n \<Longrightarrow>
     native_scalar_name n = Some n \<and> (n = name \<or> is_native_type_name n \<or> n = ''resource'')"
  using native_scalar_name_range [of name] native_targets_stable
  by (auto simp: list_all_iff)

theorem native_scalar_name_native_witness:
  "native_scalar_name ''Positive-Int'' = Some ''int'' \<and>
   native_scalar_name ''int'' = Some ''int'' \<and>
   (''int'' = ''Positive-Int'' \<or> is_native_type_name ''int'' \<or> ''int'' = ''resource'')"
proof -
  have h: "native_scalar_name ''Positive-Int'' = Some ''int''" by code_simp
  from h native_scalar_name_native [OF h] show ?thesis by blast
qed

subsection \<open>Plain class names\<close>

lemma not_lowercase_only_scalar:
  "\<not> is_lowercase_only_pseudo_type l \<Longrightarrow> is_scalar_name_lower n l = is_scalar_name_lower l l"
  by (simp add: is_lowercase_only_pseudo_type_def is_scalar_name_lower_def)

definition reserved_lower :: "str \<Rightarrow> bool" where
  "reserved_lower l \<longleftrightarrow> is_keyword_type_lower l \<or> is_scalar_name_lower l l
     \<or> is_native_type_name_lower l \<or> is_lowercase_only_pseudo_type l"

lemma plain_class_bytes_no_dash: "plain_class_bytes p bs \<Longrightarrow> CHR ''-'' \<notin> set bs"
  by (induction p bs rule: plain_class_bytes.induct)
    (auto simp: Let_def is_ascii_alphanumeric_def is_ascii_alphabetic_def is_ascii_digit_def
      is_ascii_uppercase_def split: if_splits)

lemma dash_code: "x = CHR ''-'' \<longleftrightarrow> (of_char x :: nat) = 45"
proof -
  have "(of_char CHR ''-'' :: nat) = 45" and "char_of (45 :: nat) = CHR ''-''"
    by (simp, simp add: char_of_eq_iff)
  then show ?thesis by (metis char_of_char)
qed

lemma lower_char_dash: "lower_char c = CHR ''-'' \<longleftrightarrow> c = CHR ''-''"
  unfolding dash_code of_lower_char is_ascii_uppercase_def by auto

lemma to_ascii_lowercase_dash: "CHR ''-'' \<in> set (to_ascii_lowercase s) \<longleftrightarrow> CHR ''-'' \<in> set s"
  unfolding to_ascii_lowercase_def list.set_map image_iff
  using lower_char_dash by metis

lemma nil_not_reserved:
  "\<not> is_keyword_type_lower []" "\<not> is_scalar_name_lower n []" "\<not> is_native_type_name_lower []"
  "\<not> is_lowercase_only_pseudo_type []"
  by (simp_all add: is_keyword_type_lower_def is_scalar_name_lower_def string_refinement_def
      is_native_type_name_lower_def is_lowercase_only_pseudo_type_def int_refinement_def)

lemma plain_class_name_tests:
  assumes "is_plain_class_name n"
  shows "n \<noteq> []" and "is_ident_start (hd n)" and "plain_class_bytes False n"
    and "with_ascii_lowercase n (\<lambda>lower. \<not> is_keyword_type_lower lower
      \<and> \<not> is_scalar_name_lower n lower \<and> \<not> is_native_type_name_lower lower
      \<and> \<not> is_lowercase_only_pseudo_type lower \<and> lower \<noteq> ''list'')"
proof -
  obtain c cs where n: "n = c # cs"
    using assms by (cases n) (auto simp: is_plain_class_name_def)
  have t: "(if \<not> is_ident_start c \<or> last n = backslash then False
          else if \<not> plain_class_bytes False n then False
          else with_ascii_lowercase n (\<lambda>lower.
            \<not> is_keyword_type_lower lower \<and> \<not> is_scalar_name_lower n lower
            \<and> \<not> is_native_type_name_lower lower \<and> \<not> is_lowercase_only_pseudo_type lower
            \<and> lower \<notin> set [''list'', ''key'', ''min'', ''max'', ''new'', ''global'',
                 ''const'', ''readonly'']))"
    using assms unfolding is_plain_class_name_def n by (simp only: list.case)
  show "n \<noteq> []" using n by simp
  show "is_ident_start (hd n)" using t n by (metis list.sel(1))
  show "plain_class_bytes False n" using t by metis
  show "with_ascii_lowercase n (\<lambda>lower. \<not> is_keyword_type_lower lower
      \<and> \<not> is_scalar_name_lower n lower \<and> \<not> is_native_type_name_lower lower
      \<and> \<not> is_lowercase_only_pseudo_type lower \<and> lower \<noteq> ''list'')"
    using t unfolding with_ascii_lowercase_def by (metis (no_types, lifting) list.set_intros(1))
qed

lemma plain_not_reserved:
  assumes "is_plain_class_name n"
  defines "l \<equiv> with_ascii_lowercase n (\<lambda>lower. lower)"
  shows "\<not> is_keyword_type_lower l" and "\<not> is_scalar_name_lower n l"
    and "\<not> is_native_type_name_lower l" and "\<not> is_lowercase_only_pseudo_type l"
    and "CHR ''-'' \<notin> set l" and "l \<noteq> ''list''" and "keyword_key n = l"
proof -
  note test = plain_class_name_tests(4) [OF assms(1)]
  note body = plain_class_name_tests(3) [OF assms(1)]
  from test show "\<not> is_keyword_type_lower l" "\<not> is_scalar_name_lower n l"
    "\<not> is_native_type_name_lower l" "l \<noteq> ''list''" and low: "\<not> is_lowercase_only_pseudo_type l"
    by (simp_all add: l_def with_ascii_lowercase_def split: if_splits)
  from plain_class_bytes_no_dash [OF body] show "CHR ''-'' \<notin> set l"
    by (simp add: l_def with_ascii_lowercase_def to_ascii_lowercase_dash)
  from low show "keyword_key n = l"
    using nil_not_reserved(4)
    by (auto simp: l_def keyword_key_def with_keyword_lowercase_def with_ascii_lowercase_def)
qed

text \<open>Every key the two canonicalisers rewrite is reserved, or has a dash no class name has.\<close>

definition rewritten_keys :: "str list" where
  "rewritten_keys = [''integer'', ''double'', ''real'', ''boolean'', ''no-return'', ''noreturn'',
     ''never-return'', ''never-returns'', ''list'', ''$this'', ''empty-scalar'',
     ''non-empty-scalar'', ''empty'', ''number''] @ cased_keywords"

lemma rewritten_keys_reserved:
  "list_all (\<lambda>k. CHR ''-'' \<in> set k \<or> is_lowercase_only_pseudo_type k
     \<or> is_native_type_name_lower k \<or> k \<in> set [''noreturn'', ''empty'', ''list'', ''$this''])
   rewritten_keys"
  by (simp add: rewritten_keys_def cased_keywords_def int_refinement_def string_refinement_def
      is_lowercase_only_pseudo_type_def is_native_type_name_lower_def)

lemma plain_not_rewritten:
  assumes "is_plain_class_name n"
  shows "keyword_key n \<notin> set rewritten_keys"
proof -
  note p = plain_not_reserved [OF assms]
  have "is_keyword_type_lower ''noreturn''" "is_keyword_type_lower ''empty''"
    "is_scalar_name_lower n ''$this''"
    by (simp_all add: is_keyword_type_lower_def is_scalar_name_lower_def)
  with p(1,2,6,7) have "keyword_key n \<notin> set [''noreturn'', ''empty'', ''list'', ''$this'']"
    by (metis empty_iff empty_set set_ConsD)
  moreover have "CHR ''-'' \<in> set (keyword_key n) \<or> is_lowercase_only_pseudo_type (keyword_key n)
      \<or> is_native_type_name_lower (keyword_key n)
      \<or> keyword_key n \<in> set [''noreturn'', ''empty'', ''list'', ''$this'']"
    if "keyword_key n \<in> set rewritten_keys"
    using rewritten_keys_reserved that unfolding list_all_iff by (rule bspec)
  ultimately show ?thesis using p(3-5) unfolding p(7) by blast
qed

lemma native_scalar_name_fallthrough:
  "keyword_key n \<notin> set rewritten_keys \<Longrightarrow> native_scalar_name n = Some n"
  by (simp add: native_scalar_name_def with_keyword_lowercase_key rewritten_keys_def
      cased_keywords_def int_refinement_def string_refinement_def)

lemma normalize_keyword_casing_fallthrough:
  "keyword_key n \<notin> set rewritten_keys \<Longrightarrow> normalize_keyword_casing n = n"
  by (simp add: normalize_keyword_casing_def with_keyword_lowercase_key rewritten_keys_def)

text \<open>
  A name the fast path takes for a plain class reference is one for every classifier: it
  is no scalar, keyword or native type name, and neither canonicaliser rewrites it, so
  skipping the full PHPDoc parser cannot change what the name means.
\<close>

theorem plain_class_name_untouched:
  assumes "is_plain_class_name n"
  shows "\<not> is_scalar_name n \<and> \<not> is_keyword_type n \<and> \<not> is_native_type_name n
    \<and> native_scalar_name n = Some n \<and> normalize_keyword_casing n = n"
proof -
  note p = plain_not_reserved [OF assms]
  have "n \<noteq> ''number''"
    using plain_not_rewritten [OF assms]
    by (auto simp: rewritten_keys_def keyword_key_lower str_eval)
  with p(1-3) have "\<not> is_scalar_name n \<and> \<not> is_keyword_type n \<and> \<not> is_native_type_name n"
    unfolding is_scalar_name_def is_keyword_type_def is_native_type_name_def
    by (simp add: with_ascii_lowercase_key [of n "is_scalar_name_lower n"]
        with_ascii_lowercase_key [of n is_keyword_type_lower]
        with_ascii_lowercase_key [of n is_native_type_name_lower])
  with native_scalar_name_fallthrough normalize_keyword_casing_fallthrough
    plain_not_rewritten [OF assms]
  show ?thesis by blast
qed

theorem plain_class_name_untouched_witness:
  "is_plain_class_name (''App'' @ backslash # ''User'') \<and>
   native_scalar_name (''App'' @ backslash # ''User'') = Some (''App'' @ backslash # ''User'')"
proof -
  have h: "is_plain_class_name (''App'' @ backslash # ''User'')" by code_simp
  from h plain_class_name_untouched [OF h] show ?thesis by blast
qed

end
