(* ===== verification/Int_Text.thy ===== *)
theory Int_Text
  imports Prelude
begin

section \<open>Integers and their spellings\<close>

text \<open>
  The standard-library conversions the code uses between \<open>i64\<close>/\<open>u64\<close> values and text
  (\<open>str::parse\<close>, \<open>from_str_radix\<close>, \<open>to_string\<close>, \<open>checked_add\<close>), as total functions on
  \<open>int\<close> with the 64-bit range written out, and on top of them the code's own readers:
  PHP integer literals (\<open>src/php_type/parse.rs\<close>) and integer-like array keys
  (\<open>src/php_type/shape_keys.rs\<close>, \<open>src/php_type/parse.rs\<close>).
\<close>

subsection \<open>The 64-bit range\<close>

definition i64_min :: int where "i64_min = - 9223372036854775808"
definition i64_max :: int where "i64_max = 9223372036854775807"

definition in_i64 :: "int \<Rightarrow> bool" where
  "in_i64 n \<longleftrightarrow> i64_min \<le> n \<and> n \<le> i64_max"

definition i64_try_from :: "int \<Rightarrow> int option" where
  "i64_try_from n = (if in_i64 n then Some n else None)"

definition checked_add :: "int \<Rightarrow> int \<Rightarrow> int option" where
  "checked_add a b = i64_try_from (a + b)"

definition checked_sub :: "int \<Rightarrow> int \<Rightarrow> int option" where
  "checked_sub a b = i64_try_from (a - b)"

lemmas i64_defs = i64_min_def i64_max_def in_i64_def i64_try_from_def checked_add_def
  checked_sub_def

lemma i64_try_from_Some: "i64_try_from n = Some m \<longleftrightarrow> m = n \<and> in_i64 n"
  by (auto simp: i64_try_from_def)

subsection \<open>Reading digits\<close>

definition digit_value :: "char \<Rightarrow> nat" where
  "digit_value c =
     (if is_ascii_digit c then of_char c - 48
      else if is_ascii_uppercase c then of_char c - 55
      else if is_ascii_alphabetic c then of_char c - 87
      else 36)"

definition radix_value :: "nat \<Rightarrow> str \<Rightarrow> nat" where
  "radix_value radix s = foldl (\<lambda>acc c. acc * radix + digit_value c) 0 s"

definition from_digits :: "nat \<Rightarrow> str \<Rightarrow> nat option" where
  "from_digits radix s =
     (if s \<noteq> [] \<and> list_all (\<lambda>c. digit_value c < radix) s then Some (radix_value radix s)
      else None)"

text \<open>\<open>u64::from_str_radix\<close>: one optional plus sign, then digits, no overflow.\<close>

definition u64_from_str_radix :: "str \<Rightarrow> nat \<Rightarrow> nat option" where
  "u64_from_str_radix s radix =
     (case from_digits radix (case strip_prefix s ''+'' of Some r \<Rightarrow> r | None \<Rightarrow> s) of
        Some n \<Rightarrow> if n < 2 ^ 64 then Some n else None
      | None \<Rightarrow> None)"

text \<open>\<open>str::parse::<i64>\<close>: an optional sign, then decimal digits, in range.\<close>

definition parse_i64 :: "str \<Rightarrow> int option" where
  "parse_i64 s =
     (case s of
        [] \<Rightarrow> None
      | c # rest \<Rightarrow>
          (if c = CHR ''-'' then
             (case from_digits 10 rest of Some n \<Rightarrow> i64_try_from (- int n) | None \<Rightarrow> None)
           else
             (case from_digits 10 (if c = CHR ''+'' then rest else s) of
                Some n \<Rightarrow> i64_try_from (int n) | None \<Rightarrow> None)))"

subsection \<open>Writing digits\<close>

definition digit_char :: "nat \<Rightarrow> char" where
  "digit_char d = char_of (48 + d)"

fun show_nat :: "nat \<Rightarrow> str" where
  "show_nat n = (if n < 10 then [digit_char n] else show_nat (n div 10) @ [digit_char (n mod 10)])"

declare show_nat.simps [simp del]

definition show_int :: "int \<Rightarrow> str" where
  "show_int i = (if i < 0 then CHR ''-'' # show_nat (nat (- i)) else show_nat (nat i))"

subsection \<open>Reading back what was written\<close>

lemma digit_value_digit: "is_ascii_digit c \<Longrightarrow> digit_value c = of_char c - 48"
  by (simp add: digit_value_def)

lemma digit_value_less_10: "digit_value c < 10 \<longleftrightarrow> is_ascii_digit c"
  by (auto simp: digit_value_def str_eval)

lemma digit_char [simp]: "d < 10 \<Longrightarrow> is_ascii_digit (digit_char d)"
  "d < 10 \<Longrightarrow> digit_value (digit_char d) = d"
  by (simp_all add: digit_char_def digit_value_def is_ascii_digit_def)

lemma digit_char_value [simp]: "is_ascii_digit c \<Longrightarrow> digit_char (digit_value c) = c"
  by (auto simp: digit_char_def digit_value_def is_ascii_digit_def)

lemma radix_value_snoc [simp]:
  "radix_value r (s @ [c]) = radix_value r s * r + digit_value c"
  by (simp add: radix_value_def)

lemma radix_value_Nil [simp]: "radix_value r [] = 0"
  by (simp add: radix_value_def)

lemma show_nat_digits: "list_all is_ascii_digit (show_nat n)"
proof (induction n rule: show_nat.induct)
  case (1 n)
  then show ?case by (subst show_nat.simps) simp
qed

lemma show_nat_nonempty [simp]: "show_nat n \<noteq> []"
  by (subst show_nat.simps) simp

lemma radix_value_show_nat [simp]: "radix_value 10 (show_nat n) = n"
proof (induction n rule: show_nat.induct)
  case (1 n)
  have "radix_value 10 ([] @ [digit_char n]) = n" if "n < 10"
    unfolding radix_value_snoc using that by simp
  with 1 show ?case by (subst show_nat.simps) auto
qed

lemma from_digits_show_nat [simp]: "from_digits 10 (show_nat n) = Some n"
  using show_nat_digits [of n] by (auto simp: from_digits_def list_all_iff digit_value_less_10)

text \<open>A spelling without a leading zero is the one \<open>to_string\<close> writes.\<close>

definition canonical_digits :: "str \<Rightarrow> bool" where
  "canonical_digits s \<longleftrightarrow> s \<noteq> [] \<and> list_all is_ascii_digit s \<and> (s = ''0'' \<or> hd s \<noteq> CHR ''0'')"

lemma digit_char_0: "digit_char 0 = CHR ''0''"
proof -
  have "char_of (48 :: nat) = CHR ''0''" by (simp add: char_of_eq_iff)
  then show ?thesis by (simp add: digit_char_def)
qed

lemma digit_value_zero: "is_ascii_digit c \<Longrightarrow> digit_value c = 0 \<longleftrightarrow> c = CHR ''0''"
  by (metis digit_char(2) digit_char_0 digit_char_value zero_less_numeral)

lemma canonical_value_pos:
  assumes "list_all is_ascii_digit s" "s \<noteq> []" "hd s \<noteq> CHR ''0''"
  shows "0 < radix_value 10 s"
  using assms
proof (induction s rule: rev_induct)
  case (snoc c s)
  show ?case
  proof (cases "s = []")
    case True
    with snoc.prems have "digit_value c \<noteq> 0" by (simp add: digit_value_zero)
    with True show ?thesis using radix_value_snoc [of 10 "[]" c] by simp
  next
    case False
    with snoc show ?thesis by simp
  qed
qed simp

lemma show_nat_radix_value: "canonical_digits s \<Longrightarrow> show_nat (radix_value 10 s) = s"
proof (induction s rule: rev_induct)
  case Nil
  then show ?case by (simp add: canonical_digits_def)
next
  case (snoc c s)
  then have c: "is_ascii_digit c" by (simp add: canonical_digits_def)
  then have small: "digit_value c < 10" by (simp add: digit_value_less_10)
  show ?case
  proof (cases "s = []")
    case True
    with c small show ?thesis
      using radix_value_snoc [of 10 "[]" c] by (subst show_nat.simps) simp
  next
    case False
    with snoc.prems have digits: "list_all is_ascii_digit s" and hd: "hd s \<noteq> CHR ''0''"
      by (auto simp: canonical_digits_def)
    with False have "0 < radix_value 10 s" by (intro canonical_value_pos)
    moreover from False digits hd have "show_nat (radix_value 10 s) = s"
      by (intro snoc.IH) (simp add: canonical_digits_def)
    ultimately show ?thesis using c small by (subst show_nat.simps) simp
  qed
qed

lemma hd_show_nat: "0 < n \<Longrightarrow> hd (show_nat n) \<noteq> CHR ''0''"
proof (induction n rule: show_nat.induct)
  case (1 n)
  show ?case
  proof (cases "n < 10")
    case True
    then have "digit_value (digit_char n) = n" by simp
    with 1 True show ?thesis
      by (subst show_nat.simps) (auto simp: digit_value_def str_eval)
  next
    case False
    then have "0 < n div 10" by simp
    with False 1 show ?thesis by (subst show_nat.simps) simp
  qed
qed

lemma canonical_show_nat: "canonical_digits (show_nat n)"
proof (cases "n = 0")
  case True
  then show ?thesis
    by (subst True, subst show_nat.simps) (simp add: canonical_digits_def digit_char_0 str_eval)
next
  case False
  with hd_show_nat [of n] show_nat_digits [of n] show ?thesis by (simp add: canonical_digits_def)
qed

lemma digit_not_sign: "is_ascii_digit c \<Longrightarrow> c \<noteq> CHR ''-'' \<and> c \<noteq> CHR ''+''"
  by (auto simp: is_ascii_digit_def)

lemma parse_i64_show_int: "in_i64 i \<Longrightarrow> parse_i64 (show_int i) = Some i"
proof (cases "i < 0")
  case True
  assume "in_i64 i"
  with True show ?thesis by (simp add: parse_i64_def show_int_def i64_try_from_def)
next
  case False
  assume i: "in_i64 i"
  obtain c cs where s: "show_nat (nat i) = c # cs" by (meson neq_Nil_conv show_nat_nonempty)
  then have "is_ascii_digit c" using show_nat_digits [of "nat i"] by simp
  then have "c \<noteq> CHR ''-'' \<and> c \<noteq> CHR ''+''" by (rule digit_not_sign)
  with s i False show ?thesis
    using from_digits_show_nat [of "nat i"]
    by (simp add: parse_i64_def show_int_def i64_try_from_def)
qed

lemma show_int_inject: "show_int i = show_int j \<longleftrightarrow> i = j"
proof
  assume eq: "show_int i = show_int j"
  have sign: "hd (show_nat n) \<noteq> CHR ''-''" for n
    using show_nat_digits [of n] digit_not_sign by (cases "show_nat n") auto
  have nat: "show_nat m = show_nat n \<Longrightarrow> m = n" for m n
    by (metis radix_value_show_nat)
  show "i = j"
    using eq sign by (auto simp: show_int_def dest!: nat split: if_splits) (metis list.sel(1))+
qed simp

subsection \<open>PHP integer literals\<close>

text \<open>
  \<open>str::trim\<close> drops the characters of Unicode's \<open>White_Space\<close> property at both ends; on
  bytes these are the UTF-8 encodings below.
\<close>

definition ws_encodings :: "str list" where
  "ws_encodings =
     [[CHR 0x20], [CHR 0x0A], [CHR 0x0D], [CHR 0x09], [CHR 0x0B], [CHR 0x0C],
      [CHR 0xC2, CHR 0x85], [CHR 0xC2, CHR 0xA0], [CHR 0xE1, CHR 0x9A, CHR 0x80],
      [CHR 0xE2, CHR 0x80, CHR 0x80], [CHR 0xE2, CHR 0x80, CHR 0x81],
      [CHR 0xE2, CHR 0x80, CHR 0x82], [CHR 0xE2, CHR 0x80, CHR 0x83],
      [CHR 0xE2, CHR 0x80, CHR 0x84], [CHR 0xE2, CHR 0x80, CHR 0x85],
      [CHR 0xE2, CHR 0x80, CHR 0x86], [CHR 0xE2, CHR 0x80, CHR 0x87],
      [CHR 0xE2, CHR 0x80, CHR 0x88], [CHR 0xE2, CHR 0x80, CHR 0x89],
      [CHR 0xE2, CHR 0x80, CHR 0x8A], [CHR 0xE2, CHR 0x80, CHR 0xA8],
      [CHR 0xE2, CHR 0x80, CHR 0xA9], [CHR 0xE2, CHR 0x80, CHR 0xAF],
      [CHR 0xE2, CHR 0x81, CHR 0x9F], [CHR 0xE3, CHR 0x80, CHR 0x80]]"

definition leading_ws :: "str \<Rightarrow> nat" where
  "leading_ws s = (case find (starts_with s) ws_encodings of Some w \<Rightarrow> length w | None \<Rightarrow> 0)"

definition trailing_ws :: "str \<Rightarrow> nat" where
  "trailing_ws s = (case find (ends_with s) ws_encodings of Some w \<Rightarrow> length w | None \<Rightarrow> 0)"

fun trim_start :: "str \<Rightarrow> str" where
  "trim_start s =
     (if s = [] \<or> leading_ws s = 0 then s else trim_start (drop (leading_ws s) s))"

fun trim_end :: "str \<Rightarrow> str" where
  "trim_end s =
     (if s = [] \<or> trailing_ws s = 0 then s
      else trim_end (take (length s - trailing_ws s) s))"

declare trim_start.simps [simp del] trim_end.simps [simp del]

definition trim :: "str \<Rightarrow> str" where
  "trim s = trim_end (trim_start s)"

text \<open>\<open>parse_php_int_literal\<close> of \<open>parse.rs\<close>, its choice of radix first.\<close>

definition int_literal_radix :: "str \<Rightarrow> nat \<times> str" where
  "int_literal_radix clean =
     (case strip_prefix clean ''0x'' of Some rest \<Rightarrow> (16, rest) | None \<Rightarrow>
      (case strip_prefix clean ''0X'' of Some rest \<Rightarrow> (16, rest) | None \<Rightarrow>
      (case strip_prefix clean ''0b'' of Some rest \<Rightarrow> (2, rest) | None \<Rightarrow>
      (case strip_prefix clean ''0B'' of Some rest \<Rightarrow> (2, rest) | None \<Rightarrow>
      (case strip_prefix clean ''0o'' of Some rest \<Rightarrow> (8, rest) | None \<Rightarrow>
      (case strip_prefix clean ''0O'' of Some rest \<Rightarrow> (8, rest) | None \<Rightarrow>
       (if 1 < length clean \<and> starts_with clean ''0''
           \<and> list_all (\<lambda>b. is_ascii_digit b \<and> digit_value b \<le> 7) clean
        then (8, drop 1 clean) else (10, clean))))))))"

definition parse_php_int_literal :: "str \<Rightarrow> int option" where
  "parse_php_int_literal raw =
     (let trimmed = trim raw in
      if trimmed = [] then None
      else
        let (negative, body) =
          (case strip_prefix trimmed ''-'' of Some rest \<Rightarrow> (True, rest)
           | None \<Rightarrow> (case strip_prefix trimmed ''+'' of Some rest \<Rightarrow> (False, rest)
           | None \<Rightarrow> (False, trimmed)));
          clean = filter (\<lambda>c. c \<noteq> CHR ''_'') body;
          (radix, digits) = int_literal_radix clean
        in if \<not> (case digits of [] \<Rightarrow> False | c # _ \<Rightarrow> is_ascii_alphanumeric c) then None
           else (case u64_from_str_radix digits radix of
                   None \<Rightarrow> None
                 | Some magnitude \<Rightarrow>
                     i64_try_from (if negative then - int magnitude else int magnitude)))"

subsection \<open>Integer-like array keys\<close>

definition is_decimal_int_array_key :: "str \<Rightarrow> bool" where
  "is_decimal_int_array_key content \<longleftrightarrow>
     \<not> starts_with content ''+'' \<and>
     (case parse_i64 content of Some parsed \<Rightarrow> show_int parsed = content | None \<Rightarrow> False)"

definition is_canonical_int_key :: "str \<Rightarrow> bool" where
  "is_canonical_int_key key =
     (let digits = (case strip_prefix key ''-'' of Some rest \<Rightarrow> rest | None \<Rightarrow> key)
      in digits \<noteq> [] \<and> list_all is_ascii_digit digits
         \<and> (digits = ''0'' \<and> key = ''0'' \<or> \<not> starts_with digits ''0'')
         \<and> parse_i64 key \<noteq> None)"

definition canonical_int_key :: "str \<Rightarrow> int option" where
  "canonical_int_key key = (if is_canonical_int_key key then parse_i64 key else None)"

text \<open>\<open>trim_matches\<close> with PHP's whitespace set, as the string-offset tests use it.\<close>

definition php_ws :: "char list" where
  "php_ws = [CHR '' '', CHR 0x09, CHR 0x0A, CHR 0x0D, CHR 0x0B, CHR 0x0C]"

definition trim_matches_ws :: "str \<Rightarrow> str" where
  "trim_matches_ws s =
     rev (dropWhile (\<lambda>c. c \<in> set php_ws) (rev (dropWhile (\<lambda>c. c \<in> set php_ws) s)))"

definition strip_sign :: "str \<Rightarrow> str" where
  "strip_sign s = (case s of c # rest \<Rightarrow> if c = CHR ''+'' \<or> c = CHR ''-'' then rest else s | [] \<Rightarrow> s)"

definition may_be_set_string_offset :: "str \<Rightarrow> bool" where
  "may_be_set_string_offset key =
     (let digits = strip_sign (trim_matches_ws key)
      in digits \<noteq> [] \<and> list_all is_ascii_digit digits)"

definition may_read_string_offset :: "str \<Rightarrow> bool" where
  "may_read_string_offset key =
     (let digits = strip_sign (dropWhile (\<lambda>c. c \<in> set php_ws) key)
      in (case digits of [] \<Rightarrow> False | b # _ \<Rightarrow> is_ascii_digit b))"

subsection \<open>Correctness of the readers\<close>

lemma from_digits_digits:
  "list_all is_ascii_digit s \<Longrightarrow> s \<noteq> [] \<Longrightarrow> from_digits 10 s = Some (radix_value 10 s)"
  by (simp add: from_digits_def digit_value_less_10 list_all_iff)

lemma from_digits_Some:
  "from_digits 10 s = Some n \<longleftrightarrow> s \<noteq> [] \<and> list_all is_ascii_digit s \<and> n = radix_value 10 s"
  by (auto simp: from_digits_def digit_value_less_10 list_all_iff)

lemma starts_with_char [simp]:
  "starts_with s [c] \<longleftrightarrow> (case s of [] \<Rightarrow> False | d # _ \<Rightarrow> d = c)"
  by (cases s) (auto simp: starts_with_def)

lemma canonical_neg:
  assumes "list_all is_ascii_digit r" "r \<noteq> []" "hd r \<noteq> CHR ''0''"
  shows "show_int (- int (radix_value 10 r)) = CHR ''-'' # r"
proof -
  have "0 < radix_value 10 r" using assms by (rule canonical_value_pos)
  moreover have "show_nat (radix_value 10 r) = r"
    using assms by (intro show_nat_radix_value) (simp add: canonical_digits_def)
  ultimately show ?thesis by (simp add: show_int_def)
qed

lemma decimal_iff_canonical: "is_decimal_int_array_key key \<longleftrightarrow> is_canonical_int_key key"
proof (cases "\<exists>r. key = CHR ''-'' # r")
  case True
  then obtain r where key: "key = CHR ''-'' # r" by blast
  have "show_int (- int (radix_value 10 r)) = CHR ''-'' # r \<longleftrightarrow> hd r \<noteq> CHR ''0''"
    if "list_all is_ascii_digit r" "r \<noteq> []"
  proof
    assume eq: "show_int (- int (radix_value 10 r)) = CHR ''-'' # r"
    show "hd r \<noteq> CHR ''0''"
    proof (cases "radix_value 10 r = 0")
      case True
      with eq show ?thesis
        using show_nat_digits [of 0] digit_not_sign by (auto simp: show_int_def)
    next
      case False
      with eq have "show_nat (radix_value 10 r) = r" by (simp add: show_int_def)
      with False show ?thesis using hd_show_nat [of "radix_value 10 r"] by simp
    qed
  qed (rule canonical_neg [OF that])
  moreover have "\<not> starts_with r ''0'' \<longleftrightarrow> hd r \<noteq> CHR ''0''" if "r \<noteq> []"
    using that by (cases r) auto
  ultimately show ?thesis
    unfolding is_decimal_int_array_key_def is_canonical_int_key_def key
    by (auto simp: parse_i64_def strip_prefix_def from_digits_Some i64_try_from_Some
        split: option.splits)
next
  case False
  have "show_int (int (radix_value 10 key)) = key \<longleftrightarrow> key = ''0'' \<or> hd key \<noteq> CHR ''0''"
    if "list_all is_ascii_digit key" "key \<noteq> []"
    using that show_nat_radix_value [of key] canonical_show_nat [of "radix_value 10 key"]
    by (auto simp: show_int_def canonical_digits_def)
  then show ?thesis
    using False digit_not_sign
    unfolding is_decimal_int_array_key_def is_canonical_int_key_def
    by (cases key)
      (auto simp: parse_i64_def strip_prefix_def from_digits_Some i64_try_from_Some
        split: option.splits if_splits)
qed

lemma canonical_int_key_iff: "canonical_int_key key = Some i \<longleftrightarrow> key = show_int i \<and> in_i64 i"
proof -
  have plus: "\<not> starts_with (show_int i) ''+''"
    using show_nat_digits [of "nat i"] show_nat_nonempty [of "nat i"] digit_not_sign
    by (cases "show_nat (nat i)") (auto simp: show_int_def)
  have range: "in_i64 j" if "parse_i64 k = Some j" for k j
    using that by (auto simp: parse_i64_def i64_try_from_Some split: list.splits option.splits if_splits)
  have "canonical_int_key key = Some i \<longleftrightarrow> is_decimal_int_array_key key \<and> parse_i64 key = Some i"
    by (simp add: canonical_int_key_def decimal_iff_canonical)
  also have "\<dots> \<longleftrightarrow> key = show_int i \<and> in_i64 i"
    using plus range parse_i64_show_int unfolding is_decimal_int_array_key_def by auto
  finally show ?thesis .
qed

text \<open>
  The two tests the code has for "PHP stores this string key as an integer" agree: the
  round-trip test of \<open>shape_keys.rs\<close> (parse, print, compare) and the syntactic test of
  \<open>parse.rs\<close> (no leading zero, no sign on zero).  The keys they accept are exactly the
  decimal writings of the \<open>i64\<close> values, and the value read is the one written.
\<close>

theorem int_key_tests_agree:
  "(is_decimal_int_array_key key \<longleftrightarrow> is_canonical_int_key key) \<and>
   (canonical_int_key key = Some i \<longleftrightarrow> key = show_int i \<and> in_i64 i)"
  using decimal_iff_canonical canonical_int_key_iff by blast

text \<open>A text that neither starts nor ends with a whitespace byte is left alone by \<open>trim\<close>.\<close>

definition number_char :: "char \<Rightarrow> bool" where
  "number_char c \<longleftrightarrow> is_ascii_digit c \<or> c \<in> {CHR ''-'', CHR ''+'', CHR ''.''}"

lemma ws_not_number: "list_all (\<lambda>w. w \<noteq> [] \<and> \<not> number_char (hd w) \<and> \<not> number_char (last w)) ws_encodings"
  by (simp add: ws_encodings_def number_char_def is_ascii_digit_def)

lemma no_leading_ws:
  assumes "number_char (hd s)" "s \<noteq> []"
  shows "leading_ws s = 0"
proof -
  have "\<not> starts_with s w" if "w \<in> set ws_encodings" for w
  proof
    assume "starts_with s w"
    moreover have "w \<noteq> []" "\<not> number_char (hd w)"
      using that ws_not_number by (auto simp: list_all_iff)
    ultimately show False
      using assms by (auto simp: starts_with_iff)
  qed
  then have "find (starts_with s) ws_encodings = None" by (simp add: find_None_iff)
  then show ?thesis by (simp add: leading_ws_def)
qed

lemma no_trailing_ws:
  assumes "number_char (last s)" "s \<noteq> []"
  shows "trailing_ws s = 0"
proof -
  have "\<not> ends_with s w" if "w \<in> set ws_encodings" for w
  proof
    assume "ends_with s w"
    moreover have "w \<noteq> []" "\<not> number_char (last w)"
      using that ws_not_number by (auto simp: list_all_iff)
    ultimately show False
      using assms by (metis append_take_drop_id ends_with_def last_appendR)
  qed
  then have "find (ends_with s) ws_encodings = None" by (simp add: find_None_iff)
  then show ?thesis by (simp add: trailing_ws_def)
qed

lemma trim_number:
  "s \<noteq> [] \<Longrightarrow> number_char (hd s) \<Longrightarrow> number_char (last s) \<Longrightarrow> trim s = s"
  by (simp add: trim_def trim_start.simps [of s] trim_end.simps [of s] no_leading_ws no_trailing_ws)

lemma show_nat_last: "is_ascii_digit (last (show_nat n))" "is_ascii_digit (hd (show_nat n))"
  using show_nat_digits [of n] by (auto simp: list_all_iff)

lemma trim_show_int: "trim (show_int i) = show_int i"
  using show_nat_last by (intro trim_number) (auto simp: show_int_def number_char_def)

lemma show_nat_no_underscore: "filter (\<lambda>c. c \<noteq> CHR ''_'') (show_nat n) = show_nat n"
  using show_nat_digits [of n] by (auto simp: filter_id_conv list_all_iff is_ascii_digit_def)

lemma int_literal_radix_show_nat: "int_literal_radix (show_nat n) = (10, show_nat n)"
proof -
  obtain c cs where s: "show_nat n = c # cs" by (meson neq_Nil_conv show_nat_nonempty)
  have digits: "is_ascii_digit c" "list_all is_ascii_digit cs"
    using show_nat_digits [of n] s by auto
  have octal: "\<not> (1 < length (c # cs) \<and> c = CHR ''0'')"
    using canonical_show_nat [of n] s by (auto simp: canonical_digits_def)
  have no: "strip_prefix (c # cs) [CHR ''0'', x] = None" if "\<not> is_ascii_digit x" for x
    using that digits by (cases cs) (auto simp: strip_prefix_def starts_with_def)
  show ?thesis
    unfolding s int_literal_radix_def using octal
    by (auto simp: no is_ascii_digit_def)
qed

lemma u64_show_nat: "n < 2 ^ 64 \<Longrightarrow> u64_from_str_radix (show_nat n) 10 = Some n"
proof -
  assume n: "n < 2 ^ 64"
  have "strip_prefix (show_nat n) ''+'' = None"
    using show_nat_last(2) [of n] digit_not_sign
    by (cases "show_nat n") (auto simp: strip_prefix_def)
  with n show ?thesis by (simp add: u64_from_str_radix_def)
qed

lemma parse_php_int_show:
  assumes "in_i64 i"
  shows "parse_php_int_literal (show_int i) = Some i"
proof -
  let ?n = "nat \<bar>i\<bar>"
  have n: "?n < 2 ^ 64" using assms by (auto simp: i64_defs)
  obtain c cs where s: "show_nat ?n = c # cs" by (meson neq_Nil_conv show_nat_nonempty)
  then have c: "is_ascii_digit c" using show_nat_last(2) [of ?n] by simp
  then have "is_ascii_alphanumeric c" "c \<noteq> CHR ''-''" "c \<noteq> CHR ''+''"
    using digit_not_sign [OF c] by (auto simp: is_ascii_alphanumeric_def)
  moreover have "show_int i = (if i < 0 then CHR ''-'' # show_nat ?n else show_nat ?n)"
    by (simp add: show_int_def)
  then have "trim (show_int i) = (if i < 0 then CHR ''-'' # c # cs else c # cs)"
    using trim_show_int [of i] unfolding s by simp
  moreover have "filter (\<lambda>c. c \<noteq> CHR ''_'') (c # cs) = c # cs"
    "int_literal_radix (c # cs) = (10, c # cs)" "u64_from_str_radix (c # cs) 10 = Some ?n"
    using show_nat_no_underscore [of ?n] int_literal_radix_show_nat [of ?n] u64_show_nat [OF n] s
    by simp_all
  ultimately show ?thesis
    using assms unfolding parse_php_int_literal_def
    by (cases "i < 0") (simp_all add: Let_def strip_prefix_def i64_try_from_def
        del: filter.simps)
qed

text \<open>
  Writing an \<open>i64\<close> and reading it back as a PHP integer literal gives the same value,
  over the whole 64-bit range: \<open>i64::MIN\<close>, whose magnitude is one past \<open>i64::MAX\<close>,
  included.
\<close>

theorem parse_php_int_literal_show:
  assumes "in_i64 i"
  shows "parse_php_int_literal (show_int i) = Some i"
  using assms by (rule parse_php_int_show)

theorem parse_php_int_literal_show_witness:
  "in_i64 (- 9223372036854775808) \<and>
   parse_php_int_literal (show_int (- 9223372036854775808)) = Some (- 9223372036854775808)"
proof -
  have h: "in_i64 (- 9223372036854775808)" by (simp add: i64_defs)
  from h parse_php_int_literal_show [OF h] show ?thesis by blast
qed

end
