(* ===== verification/Php_Type.thy ===== *)
theory Php_Type
  imports Keywords Int_Text
begin

section \<open>PHP types\<close>

text \<open>
  The data model of \<open>src/php_type/mod.rs\<close>.  A \<open>PhpType\<close> is a handle on an interned
  \<open>TypeKind\<close> node, and structurally equal nodes share one allocation, so the handle is
  modelled by the node itself and pointer equality by equality.  The payload structs of
  \<open>TypeKind\<close> are datatypes over the type of the nested handle, so that one recursive
  datatype results.  The marker nodes (\<open>Benevolent\<close>, \<open>ListShape\<close>, ...) are seen through by
  \<open>kind\<close>, which every traversal of the code goes through.
\<close>

subsection \<open>Payloads\<close>

datatype literal_value = LInt str | LFloat str | LString str

datatype undecided_reading = BothBranches | ElseBranch | BenevolentBothBranches

datatype 'a generic_type = GenericType (g_name: str) (g_args: "'a list")

datatype 'a callable_param =
  CallableParam (type_hint: 'a) (param_optional: bool) (variadic: bool)

datatype 'a callable_type =
  CallableType (callable_kind: str) (params: "'a callable_param list")
    (return_type: "'a option")

datatype 'a conditional_type =
  ConditionalType (cond_param: str) (negated: bool) (condition: 'a) (then_type: 'a)
    (else_type: 'a) (undecided: undecided_reading)

datatype 'a shape_entry =
  ShapeEntry (entry_key: "str option") (value_type: 'a) (entry_optional: bool)

datatype 'a unsealed_shape =
  Unsealed (us_shape: 'a) (us_key: 'a) (us_value: 'a) (us_widened: 'a)

text \<open>\<open>QueryBuilderState\<close> of \<open>src/doctrine/query.rs\<close>.\<close>

datatype statement_kind = Select | Update | Delete

datatype from_part =
  FromPart (from_entity: str) (from_alias: str) (index_by: "str option") (joins: "str list")
    (join_aliases: "(str \<times> str) list")

datatype query_builder_state =
  QueryBuilderState (statement: statement_kind) (select: "str list") (froms: "from_part list")

subsection \<open>Type nodes\<close>

datatype php_type =
    Named str
  | StaticType str
  | ThisType str
  | Nullable php_type
  | UnionT "php_type list"
  | Intersection "php_type list"
  | Generic "php_type generic_type"
  | Array php_type
  | ArrayShape "php_type shape_entry list"
  | ObjectShape "php_type shape_entry list"
  | Callable "php_type callable_type"
  | Conditional "php_type conditional_type"
  | ClassString "php_type option"
  | InterfaceString "php_type option"
  | KeyOf php_type
  | ValueOf php_type
  | IntRange str str
  | IndexAccess php_type php_type
  | Literal literal_value
  | Raw str
  | Benevolent php_type
  | ListShape php_type
  | TemplateParam str php_type
  | UnsealedShape "php_type unsealed_shape"
  | ClassNameLiteral php_type
  | EnumCase php_type str
  | DqlBuilder php_type query_builder_state

fun kind :: "php_type \<Rightarrow> php_type" where
  "kind (Benevolent i) = i"
| "kind (ListShape i) = i"
| "kind (TemplateParam _ bound) = kind bound"
| "kind (UnsealedShape u) = us_widened u"
| "kind (ClassNameLiteral class_string) = class_string"
| "kind (EnumCase enum_type _) = enum_type"
| "kind (DqlBuilder class _) = class"
| "kind k = k"

definition callable_is_closure :: "'a callable_type \<Rightarrow> bool" where
  "callable_is_closure c =
     (let k = (case strip_prefix (callable_kind c) [backslash] of
                 Some r \<Rightarrow> r | None \<Rightarrow> callable_kind c)
      in eq_ignore_ascii_case k ''Closure'')"

subsection \<open>Asking about the markers\<close>

definition as_class_name_literal :: "php_type \<Rightarrow> str option" where
  "as_class_name_literal t =
     (case t of
        ClassNameLiteral class_string \<Rightarrow>
          (case kind class_string of
             ClassString (Some class) \<Rightarrow>
               (case kind class of Named name \<Rightarrow> Some name | _ \<Rightarrow> None)
           | _ \<Rightarrow> None)
      | _ \<Rightarrow> None)"

definition as_enum_case :: "php_type \<Rightarrow> (str \<times> str) option" where
  "as_enum_case t =
     (case t of
        EnumCase enum_type c \<Rightarrow>
          (case kind enum_type of Named name \<Rightarrow> Some (name, c) | _ \<Rightarrow> None)
      | _ \<Rightarrow> None)"

definition as_dql_builder :: "php_type \<Rightarrow> (php_type \<times> query_builder_state) option" where
  "as_dql_builder t = (case t of DqlBuilder class st \<Rightarrow> Some (class, st) | _ \<Rightarrow> None)"

definition is_dql_node :: "php_type \<Rightarrow> bool" where
  "is_dql_node t = (case t of DqlBuilder _ _ \<Rightarrow> True | _ \<Rightarrow> False)"

definition has_dql_builder :: "php_type \<Rightarrow> bool" where
  "has_dql_builder t =
     (case t of
        DqlBuilder _ _ \<Rightarrow> True
      | UnionT members \<Rightarrow> list_ex is_dql_node members
      | _ \<Rightarrow> False)"

definition is_exact_value_marker :: "php_type \<Rightarrow> bool" where
  "is_exact_value_marker t =
     (case t of
        ClassNameLiteral _ \<Rightarrow> True | EnumCase _ _ \<Rightarrow> True | DqlBuilder _ _ \<Rightarrow> True
      | _ \<Rightarrow> False)"

definition as_unsealed_shape :: "php_type \<Rightarrow> php_type unsealed_shape option" where
  "as_unsealed_shape t = (case t of UnsealedShape u \<Rightarrow> Some u | _ \<Rightarrow> None)"

definition as_template_param :: "php_type \<Rightarrow> (str \<times> php_type) option" where
  "as_template_param t = (case t of TemplateParam name bound \<Rightarrow> Some (name, bound) | _ \<Rightarrow> None)"

definition is_benevolent :: "php_type \<Rightarrow> bool" where
  "is_benevolent t = (case t of Benevolent _ \<Rightarrow> True | _ \<Rightarrow> False)"

definition benevolent :: "php_type \<Rightarrow> php_type" where
  "benevolent t =
     (if is_benevolent t then t
      else (case kind t of UnionT _ \<Rightarrow> Benevolent t | Nullable _ \<Rightarrow> Benevolent t | _ \<Rightarrow> t))"

definition strip_benevolence :: "php_type \<Rightarrow> php_type" where
  "strip_benevolence t = (case t of Benevolent i \<Rightarrow> i | _ \<Rightarrow> t)"

subsection \<open>Constructors\<close>

text \<open>The keyword types of \<open>src/php_type/constructors.rs\<close> and its direct constructors.\<close>

definition named :: "str \<Rightarrow> php_type" where "named name = Named name"

definition pt_int :: php_type where "pt_int = named ''int''"
definition pt_string :: php_type where "pt_string = named ''string''"
definition pt_float :: php_type where "pt_float = named ''float''"
definition pt_bool :: php_type where "pt_bool = named ''bool''"
definition pt_true :: php_type where "pt_true = named ''true''"
definition pt_false :: php_type where "pt_false = named ''false''"
definition pt_null :: php_type where "pt_null = named ''null''"
definition pt_void :: php_type where "pt_void = named ''void''"
definition pt_mixed :: php_type where "pt_mixed = named ''mixed''"
definition pt_never :: php_type where "pt_never = named ''never''"
definition pt_array :: php_type where "pt_array = named ''array''"
definition pt_object :: php_type where "pt_object = named ''object''"
definition pt_callable :: php_type where "pt_callable = named ''callable''"
definition pt_closure :: php_type where "pt_closure = named ''Closure''"
definition pt_iterable :: php_type where "pt_iterable = named ''iterable''"

lemmas keyword_types = named_def pt_int_def pt_string_def pt_float_def pt_bool_def pt_true_def
  pt_false_def pt_null_def pt_void_def pt_mixed_def pt_never_def pt_array_def pt_object_def
  pt_callable_def pt_closure_def pt_iterable_def

definition static_type :: "str \<Rightarrow> php_type" where "static_type bound = StaticType bound"
definition this_type :: "str \<Rightarrow> php_type" where "this_type bound = ThisType bound"

definition template_param :: "str \<Rightarrow> php_type \<Rightarrow> php_type" where
  "template_param name bound =
     (let bound = (case as_template_param bound of Some (_, i) \<Rightarrow> i | None \<Rightarrow> bound)
      in TemplateParam name bound)"

definition nullable :: "php_type \<Rightarrow> php_type" where "nullable t = Nullable t"
definition array_of :: "php_type \<Rightarrow> php_type" where "array_of elem = Array elem"
definition key_of :: "php_type \<Rightarrow> php_type" where "key_of t = KeyOf t"
definition value_of :: "php_type \<Rightarrow> php_type" where "value_of t = ValueOf t"
definition index_access :: "php_type \<Rightarrow> php_type \<Rightarrow> php_type" where
  "index_access target index = IndexAccess target index"
definition literal :: "literal_value \<Rightarrow> php_type" where "literal v = Literal v"
definition literal_int :: "str \<Rightarrow> php_type" where "literal_int raw = literal (LInt raw)"
definition literal_float :: "str \<Rightarrow> php_type" where "literal_float raw = literal (LFloat raw)"
definition literal_string_raw :: "str \<Rightarrow> php_type" where
  "literal_string_raw raw = literal (LString raw)"
definition raw_type :: "str \<Rightarrow> php_type" where "raw_type txt = Raw txt"
definition untyped :: php_type where "untyped = raw_type []"
definition intersection :: "php_type list \<Rightarrow> php_type" where
  "intersection members = Intersection members"
definition array_shape :: "php_type shape_entry list \<Rightarrow> php_type" where
  "array_shape entries = ArrayShape entries"
definition list_shape :: "php_type shape_entry list \<Rightarrow> php_type" where
  "list_shape entries = ListShape (array_shape entries)"

definition as_list_shape :: "php_type \<Rightarrow> php_type" where
  "as_list_shape t = (case t of ArrayShape _ \<Rightarrow> ListShape t | _ \<Rightarrow> t)"

definition object_shape :: "php_type shape_entry list \<Rightarrow> php_type" where
  "object_shape entries = ObjectShape entries"

definition generic :: "str \<Rightarrow> php_type list \<Rightarrow> php_type" where
  "generic name args = Generic (GenericType name args)"
definition enum_case :: "str \<Rightarrow> str \<Rightarrow> php_type" where
  "enum_case enum_name c = EnumCase (named enum_name) c"
definition dql_builder :: "php_type \<Rightarrow> query_builder_state \<Rightarrow> php_type" where
  "dql_builder class st = DqlBuilder class st"

definition of_callable :: "php_type callable_type \<Rightarrow> php_type" where
  "of_callable c = Callable c"
definition callable_spec ::
    "str \<Rightarrow> php_type callable_param list \<Rightarrow> php_type option \<Rightarrow> php_type" where
  "callable_spec k ps ret = of_callable (CallableType k ps ret)"
definition of_conditional :: "php_type conditional_type \<Rightarrow> php_type" where
  "of_conditional c = Conditional c"
definition conditional_answering_undecided ::
    "str \<Rightarrow> bool \<Rightarrow> php_type \<Rightarrow> php_type \<Rightarrow> php_type \<Rightarrow> undecided_reading \<Rightarrow> php_type" where
  "conditional_answering_undecided p neg c t e u = of_conditional (ConditionalType p neg c t e u)"
definition conditional :: "str \<Rightarrow> bool \<Rightarrow> php_type \<Rightarrow> php_type \<Rightarrow> php_type \<Rightarrow> php_type" where
  "conditional p neg c t e = conditional_answering_undecided p neg c t e BothBranches"
definition int_range :: "str \<Rightarrow> str \<Rightarrow> php_type" where "int_range lo hi = IntRange lo hi"
definition pt_list :: "php_type \<Rightarrow> php_type" where "pt_list elem = generic ''list'' [elem]"
definition generic_array :: "php_type \<Rightarrow> php_type \<Rightarrow> php_type" where
  "generic_array k v = generic ''array'' [k, v]"
definition generic_array_val :: "php_type \<Rightarrow> php_type" where
  "generic_array_val v = generic ''array'' [v]"

definition is_untyped :: "php_type \<Rightarrow> bool" where
  "is_untyped t = (case kind t of Raw s \<Rightarrow> s = [] | _ \<Rightarrow> False)"

subsection \<open>Sizes, for the recursions through \<open>kind\<close>\<close>

lemma size_kind: "size (kind t) \<le> size t"
proof (induction t rule: kind.induct)
  case (4 u)
  then show ?case by (cases u) simp
qed simp_all

text \<open>The types directly under a node.\<close>

fun node_children :: "php_type \<Rightarrow> php_type list" where
  "node_children (Nullable t) = [t]"
| "node_children (UnionT ts) = ts"
| "node_children (Intersection ts) = ts"
| "node_children (Generic g) = g_args g"
| "node_children (Array t) = [t]"
| "node_children (ArrayShape es) = map value_type es"
| "node_children (ObjectShape es) = map value_type es"
| "node_children (Callable c) =
     map type_hint (params c) @ (case return_type c of None \<Rightarrow> [] | Some r \<Rightarrow> [r])"
| "node_children (Conditional c) = [condition c, then_type c, else_type c]"
| "node_children (ClassString opt) = (case opt of None \<Rightarrow> [] | Some t \<Rightarrow> [t])"
| "node_children (InterfaceString opt) = (case opt of None \<Rightarrow> [] | Some t \<Rightarrow> [t])"
| "node_children (KeyOf t) = [t]"
| "node_children (ValueOf t) = [t]"
| "node_children (IndexAccess a b) = [a, b]"
| "node_children (Benevolent t) = [t]"
| "node_children (ListShape t) = [t]"
| "node_children (TemplateParam _ t) = [t]"
| "node_children (UnsealedShape u) = [us_shape u, us_key u, us_value u, us_widened u]"
| "node_children (ClassNameLiteral t) = [t]"
| "node_children (EnumCase t _) = [t]"
| "node_children (DqlBuilder t _) = [t]"
| "node_children _ = []"

lemma size_list_mem: "x \<in> set xs \<Longrightarrow> f x \<le> size_list f xs"
  by (induction xs) auto

lemma size_entry_values:
  "c \<in> set (map value_type (es :: php_type shape_entry list)) \<Longrightarrow>
     size c \<le> size_list (size_shape_entry size) es"
proof (induction es)
  case (Cons e es)
  then show ?case by (cases e) auto
qed simp

lemma size_param_hints:
  "c \<in> set (map type_hint (ps :: php_type callable_param list)) \<Longrightarrow>
     size c \<le> size_list (size_callable_param size) ps"
proof (induction ps)
  case (Cons p ps)
  then show ?case by (cases p) auto
qed simp

lemma node_children_size: "c \<in> set (node_children t) \<Longrightarrow> size c < size t"
proof (cases t)
  case (Generic g)
  moreover assume "c \<in> set (node_children t)"
  ultimately show ?thesis
    by (cases g) (auto dest!: size_list_mem [where f = size])
next
  case (Callable cc)
  moreover assume "c \<in> set (node_children t)"
  ultimately show ?thesis
    using size_param_hints [of c "params cc"]
    by (cases cc) (auto split: option.splits)
next
  case (ArrayShape es)
  moreover assume "c \<in> set (node_children t)"
  ultimately show ?thesis
    using size_entry_values [of c es] by simp
next
  case (ObjectShape es)
  moreover assume "c \<in> set (node_children t)"
  ultimately show ?thesis
    using size_entry_values [of c es] by simp
next
  case (Conditional cc)
  moreover assume "c \<in> set (node_children t)"
  ultimately show ?thesis by (cases cc) auto
next
  case (UnsealedShape u)
  moreover assume "c \<in> set (node_children t)"
  ultimately show ?thesis by (cases u) auto
qed (auto dest!: size_list_mem [where f = size] split: option.splits)

lemma kind_children_size: "c \<in> set (node_children (kind t)) \<Longrightarrow> size c < size t"
  using node_children_size size_kind less_le_trans by blast

lemma kind_child [termination_simp]:
  "kind t = Nullable i \<Longrightarrow> size i < size t"
  "kind t = Array i \<Longrightarrow> size i < size t"
  "kind t = KeyOf i \<Longrightarrow> size i < size t"
  "kind t = ValueOf i \<Longrightarrow> size i < size t"
  "kind t = ClassString (Some i) \<Longrightarrow> size i < size t"
  "kind t = InterfaceString (Some i) \<Longrightarrow> size i < size t"
  "kind t = IndexAccess i j \<Longrightarrow> size i < size t"
  "kind t = IndexAccess i j \<Longrightarrow> size j < size t"
  "kind t = UnionT ms \<Longrightarrow> m \<in> set ms \<Longrightarrow> size m < size t"
  "kind t = Intersection ms \<Longrightarrow> m \<in> set ms \<Longrightarrow> size m < size t"
  "kind t = Generic g \<Longrightarrow> m \<in> set (g_args g) \<Longrightarrow> size m < size t"
  "kind t = ArrayShape es \<Longrightarrow> e \<in> set es \<Longrightarrow> size (value_type e) < size t"
  "kind t = ObjectShape es \<Longrightarrow> e \<in> set es \<Longrightarrow> size (value_type e) < size t"
  "kind t = Callable c \<Longrightarrow> p \<in> set (params c) \<Longrightarrow> size (type_hint p) < size t"
  "kind t = Callable c \<Longrightarrow> return_type c = Some i \<Longrightarrow> size i < size t"
  "kind t = Conditional d \<Longrightarrow> size (condition d) < size t"
  "kind t = Conditional d \<Longrightarrow> size (then_type d) < size t"
  "kind t = Conditional d \<Longrightarrow> size (else_type d) < size t"
  by (rule kind_children_size; simp)+

lemma node_child [termination_simp]:
  "m \<in> set (g_args g) \<Longrightarrow> size (m :: php_type) < Suc (size_generic_type size g)"
  "e \<in> set es \<Longrightarrow> size (value_type e :: php_type) < Suc (size_list (size_shape_entry size) es)"
  "p \<in> set (params c) \<Longrightarrow> size (type_hint p :: php_type) < Suc (size_callable_type size c)"
  "return_type c = Some i \<Longrightarrow> size (i :: php_type) < Suc (size_callable_type size c)"
  "size (condition d :: php_type) < Suc (size_conditional_type size d)"
  "size (then_type d :: php_type) < Suc (size_conditional_type size d)"
  "size (else_type d :: php_type) < Suc (size_conditional_type size d)"
  "size (us_widened u :: php_type) < Suc (size_unsealed_shape size u)"
  "size (us_shape u :: php_type) < Suc (size_unsealed_shape size u)"
  "size (us_key u :: php_type) < Suc (size_unsealed_shape size u)"
  "size (us_value u :: php_type) < Suc (size_unsealed_shape size u)"
  using node_children_size [of m "Generic g"] node_children_size [of "value_type e" "ArrayShape es"]
    node_children_size [of "type_hint p" "Callable c"] node_children_size [of i "Callable c"]
    node_children_size [of _ "Conditional d"] node_children_size [of _ "UnsealedShape u"]
  by simp_all

text \<open>Induction along the nodes \<open>kind\<close> gives.\<close>

lemma kind_induct [case_names node]:
  assumes "\<And>t. (\<And>c. c \<in> set (node_children (kind t)) \<Longrightarrow> P c) \<Longrightarrow> P t"
  shows "P t"
  using assms kind_children_size by (induction t rule: measure_induct_rule [of size]) blast

end
