(* ===== verification/Class_Info.thy ===== *)
theory Class_Info
  imports Php_Type
begin

section \<open>Class declarations\<close>

text \<open>
  \<open>ClassInfo\<close> of \<open>src/types/class_info.rs\<close>, with the fields the modelled code reads: the
  name, the classes it names in its header and docblock, its methods (by name) and the
  namespace it was declared in.  \<open>fqn\<close> is the cached fully-qualified name.
\<close>

datatype class_like_kind = Class | Interface | Trait | Enum

record method_info =
  m_name :: str

record class_info =
  ci_kind :: class_like_kind
  ci_name :: str
  methods :: "method_info list"
  parent_class :: "str option"
  interfaces :: "str list"
  used_traits :: "str list"
  mixins :: "str list"
  extends_generics :: "(str \<times> php_type list) list"
  implements_generics :: "(str \<times> php_type list) list"
  use_generics :: "(str \<times> php_type list) list"
  file_namespace :: "str option"
  cached_fqn :: "str option"

definition compute_fqn :: "class_info \<Rightarrow> str" where
  "compute_fqn c =
     (case file_namespace c of
        Some ns \<Rightarrow> if ns \<noteq> [] \<and> ci_name c \<noteq> [] then ns @ backslash # ci_name c else ci_name c
      | None \<Rightarrow> ci_name c)"

definition fqn :: "class_info \<Rightarrow> str" where
  "fqn c = (case cached_fqn c of Some f \<Rightarrow> f | None \<Rightarrow> compute_fqn c)"

definition cache_fqn :: "class_info \<Rightarrow> class_info" where
  "cache_fqn c = c\<lparr>cached_fqn := Some (compute_fqn c)\<rparr>"

definition anonymous_class_prefix :: str where
  "anonymous_class_prefix = ''__anonymous@''"

definition cache_fqn_in_uri :: "class_info \<Rightarrow> str \<Rightarrow> class_info" where
  "cache_fqn_in_uri c uri =
     (if starts_with (ci_name c) anonymous_class_prefix
      then c\<lparr>cached_fqn := Some (compute_fqn c @ CHR ''@'' # uri)\<rparr>
      else cache_fqn c)"

text \<open>A class with only a name and the classes it depends on, for concrete instances.\<close>

definition plain_class :: "str \<Rightarrow> str option \<Rightarrow> str list \<Rightarrow> class_info" where
  "plain_class n parent ifaces =
     \<lparr>ci_kind = Class, ci_name = n, methods = [], parent_class = parent, interfaces = ifaces,
      used_traits = [], mixins = [], extends_generics = [], implements_generics = [],
      use_generics = [], file_namespace = None, cached_fqn = None\<rparr>"

text \<open>
  Caching never changes the name a named class answers to, because the namespace is not
  touched once it is stamped; an anonymous class gets one name per file.
\<close>

lemma fqn_cache_fqn: "cached_fqn c = None \<Longrightarrow> fqn (cache_fqn c) = fqn c"
  by (simp add: fqn_def cache_fqn_def)

lemma fqn_plain_class [simp]: "fqn (plain_class n p is) = n"
  by (simp add: fqn_def plain_class_def compute_fqn_def)

end
