(* ===== verification/Toposort.thy ===== *)
theory Toposort
  imports Class_Info "HOL-Library.AList" "HOL-Library.Multiset"
begin

section \<open>Dependency order of the class declarations\<close>

text \<open>
  \<open>src/toposort.rs\<close>: the eager population of the workspace processes the classes in the
  order \<open>toposort_classes\<close> gives.  The iterative depth-first search is kept as the code has
  it: an explicit stack of frames, each with its own dependency index, and the two sets
  \<open>visited\<close> and \<open>visiting\<close>.  The head of the list \<open>stack\<close> is the last element of the Rust
  vector.  The \<open>HashMap\<close> of dependencies is an association list updated by key; the order
  in which a hash map is iterated is the order of the list a caller passes.
\<close>

definition class_dependencies :: "class_info \<Rightarrow> str list" where
  "class_dependencies class =
     (case parent_class class of Some parent \<Rightarrow> [parent] | None \<Rightarrow> [])
     @ used_traits class
     @ interfaces class
     @ map fst (extends_generics class)
     @ map fst (implements_generics class)
     @ map fst (use_generics class)
     @ mixins class"

record dfs_frame =
  f_fqn :: str
  dep_index :: nat
  f_deps :: "str list"

record dfs =
  visited :: "str set"
  visiting :: "str set"
  stack :: "dfs_frame list"
  sorted_out :: "str list"

type_synonym dep_map = "(str \<times> str list) list"

definition new_frame :: "dep_map \<Rightarrow> str \<Rightarrow> dfs_frame" where
  "new_frame m name =
     \<lparr>f_fqn = name, dep_index = 0,
      f_deps = (case map_of m name of Some ds \<Rightarrow> ds | None \<Rightarrow> [])\<rparr>"

text \<open>One iteration of the \<open>while let\<close> loop, on a non-empty stack.\<close>

definition dfs_step :: "dep_map \<Rightarrow> dfs \<Rightarrow> dfs_frame \<Rightarrow> dfs_frame list \<Rightarrow> dfs" where
  "dfs_step m s frame rest =
     (if dep_index frame < length (f_deps frame) then
        let dep = f_deps frame ! dep_index frame;
            s' = s\<lparr>stack := frame\<lparr>dep_index := dep_index frame + 1\<rparr> # rest\<rparr>
        in if map_of m dep = None then s'
           else if dep \<in> visited s then s'
           else if dep \<in> visiting s then s'
           else s'\<lparr>visiting := insert dep (visiting s), stack := new_frame m dep # stack s'\<rparr>
      else
        s\<lparr>stack := rest, visiting := visiting s - {f_fqn frame},
          visited := insert (f_fqn frame) (visited s),
          sorted_out := sorted_out s @ [f_fqn frame]\<rparr>)"

text \<open>Work left: the classes not reached yet, then the dependencies left on the stack.\<close>

definition unreached :: "dep_map \<Rightarrow> dfs \<Rightarrow> nat" where
  "unreached m s = card (fst ` set m - (visited s \<union> visiting s))"

definition left_on_stack :: "dfs \<Rightarrow> nat" where
  "left_on_stack s = sum_list (map (\<lambda>f. Suc (length (f_deps f) - dep_index f)) (stack s))"

lemma dfs_step_decreases:
  assumes "stack s = frame # rest"
  shows "(dfs_step m s frame rest, s) \<in> measures [unreached m, left_on_stack]"
proof (cases "dep_index frame < length (f_deps frame)")
  case False
  then have "unreached m (dfs_step m s frame rest) \<le> unreached m s"
    unfolding unreached_def by (intro card_mono) (auto simp: dfs_step_def)
  moreover have "left_on_stack (dfs_step m s frame rest) < left_on_stack s"
    using False assms by (simp add: dfs_step_def left_on_stack_def)
  ultimately show ?thesis by auto
next
  case True
  let ?dep = "f_deps frame ! dep_index frame"
  show ?thesis
  proof (cases "map_of m ?dep = None \<or> ?dep \<in> visited s \<or> ?dep \<in> visiting s")
    case True
    with \<open>dep_index frame < _\<close> assms show ?thesis
      by (auto simp: dfs_step_def Let_def unreached_def left_on_stack_def)
  next
    case False
    then have dep: "?dep \<in> fst ` set m - (visited s \<union> visiting s)"
      by (auto simp: map_of_eq_None_iff)
    have "unreached m (dfs_step m s frame rest) < unreached m s"
      unfolding unreached_def
      using True False dep by (intro psubset_card_mono) (auto simp: dfs_step_def Let_def)
    then show ?thesis by simp
  qed
qed

function dfs_loop :: "dep_map \<Rightarrow> dfs \<Rightarrow> dfs" where
  "dfs_loop m s =
     (case stack s of
        [] \<Rightarrow> s
      | frame # rest \<Rightarrow> dfs_loop m (dfs_step m s frame rest))"
  by pat_completeness auto

termination
proof (relation "measures [\<lambda>(m, s). unreached m s, \<lambda>(m, s). left_on_stack s]")
  fix m :: dep_map and s :: dfs and frame :: dfs_frame and rest :: "dfs_frame list"
  assume "stack s = frame # rest"
  from dfs_step_decreases [OF this, of m]
  show "((m, dfs_step m s frame rest), m, s)
      \<in> measures [\<lambda>(m, s). unreached m s, \<lambda>(m, s). left_on_stack s]"
    by simp
qed simp

declare dfs_loop.simps [simp del]

definition dfs_start :: "dep_map \<Rightarrow> dfs \<Rightarrow> str \<Rightarrow> dfs" where
  "dfs_start m s start_fqn =
     (if start_fqn \<in> visited s then s
      else dfs_loop m (s\<lparr>visiting := insert start_fqn (visiting s),
                         stack := [new_frame m start_fqn]\<rparr>))"

definition dfs_init :: dfs where
  "dfs_init = \<lparr>visited = {}, visiting = {}, stack = [], sorted_out = []\<rparr>"

definition build_dep_map :: "(str \<times> class_info) list \<Rightarrow> dep_map" where
  "build_dep_map classes =
     foldl (\<lambda>m (name, class). AList.update name (class_dependencies class) m) [] classes"

definition toposort_classes :: "(str \<times> class_info) list \<Rightarrow> str list" where
  "toposort_classes classes =
     (let dep_map = build_dep_map classes;
          all_fqns = sort (map fst classes)
      in sorted_out (foldl (dfs_start dep_map) dfs_init all_fqns))"

definition toposort_from_uri_classes_index_except ::
  "(str \<times> class_info list) list \<Rightarrow> str set \<Rightarrow> str list" where
  "toposort_from_uri_classes_index_except uri_classes_index skip =
     toposort_classes
       (map (\<lambda>class. (fqn class, class))
          (concat (map snd (filter (\<lambda>(uri, _). uri \<notin> skip) uri_classes_index))))"

definition toposort_from_uri_classes_index :: "(str \<times> class_info list) list \<Rightarrow> str list" where
  "toposort_from_uri_classes_index uri_classes_index =
     toposort_from_uri_classes_index_except uri_classes_index {}"

subsection \<open>The dependency relation and the invariant of the search\<close>

definition edges :: "dep_map \<Rightarrow> (str \<times> str) set" where
  "edges m = {(c, d). \<exists>ds. map_of m c = Some ds \<and> d \<in> set ds \<and> map_of m d \<noteq> None}"

text \<open>
  A frame has dealt with a dependency when that class is emitted already, leads back to the
  frame's class (the edge closes a cycle), or is the frame directly above.
\<close>

definition frame_ok :: "dep_map \<Rightarrow> str set \<Rightarrow> str option \<Rightarrow> dfs_frame \<Rightarrow> bool" where
  "frame_ok m em up f \<longleftrightarrow>
     map_of m (f_fqn f) = Some (f_deps f) \<and>
     (\<forall>d \<in> set (take (dep_index f) (f_deps f)). map_of m d \<noteq> None \<longrightarrow>
        d \<in> em \<or> (d, f_fqn f) \<in> (edges m)\<^sup>* \<or> up = Some d)"

fun frames_ok :: "dep_map \<Rightarrow> str set \<Rightarrow> str option \<Rightarrow> dfs_frame list \<Rightarrow> bool" where
  "frames_ok m em up [] = True"
| "frames_ok m em up (f # fs) =
     (frame_ok m em up f \<and>
      (case fs of [] \<Rightarrow> True | g # _ \<Rightarrow> (f_fqn g, f_fqn f) \<in> edges m) \<and>
      frames_ok m em (Some (f_fqn f)) fs)"

definition schedule_ok :: "dep_map \<Rightarrow> str list \<Rightarrow> bool" where
  "schedule_ok m out \<longleftrightarrow> distinct out \<and>
     (\<forall>c \<in> set out. \<forall>d. (c, d) \<in> edges m \<longrightarrow> before out d c \<or> (d, c) \<in> (edges m)\<^sup>*)"

definition dfs_inv :: "dep_map \<Rightarrow> dfs \<Rightarrow> bool" where
  "dfs_inv m s \<longleftrightarrow>
     frames_ok m (visited s) None (stack s) \<and> distinct (map f_fqn (stack s)) \<and>
     visiting s = f_fqn ` set (stack s) \<and> visiting s \<inter> visited s = {} \<and>
     set (sorted_out s) = visited s \<and> visited s \<subseteq> dom (map_of m) \<and>
     schedule_ok m (sorted_out s)"

lemma frame_ok_mono:
  assumes "frame_ok m em up f" "em \<subseteq> em'"
    "\<And>a. up = Some a \<Longrightarrow> a \<in> em' \<or> up' = Some a"
  shows "frame_ok m em' up' f"
  using assms unfolding frame_ok_def by (metis subsetD)

lemma frames_ok_mono:
  assumes "frames_ok m em up fs" "em \<subseteq> em'"
    "\<And>a. up = Some a \<Longrightarrow> a \<in> em' \<or> up' = Some a"
  shows "frames_ok m em' up' fs"
  using assms
proof (induction fs arbitrary: up up')
  case (Cons f fs)
  then show ?case using frame_ok_mono [of m em up f em' up'] by auto
qed simp

lemma stack_reaches_top:
  "frames_ok m em up (f # fs) \<Longrightarrow> d \<in> f_fqn ` set (f # fs) \<Longrightarrow> (d, f_fqn f) \<in> (edges m)\<^sup>*"
proof (induction fs arbitrary: f up)
  case (Cons g fs)
  show ?case
  proof (cases "d = f_fqn f")
    case False
    then have "d \<in> f_fqn ` set (g # fs)" using Cons.prems(2) by auto
    moreover have "frames_ok m em (Some (f_fqn f)) (g # fs)" using Cons.prems(1) by simp
    ultimately have "(d, f_fqn g) \<in> (edges m)\<^sup>*" using Cons.IH by blast
    moreover have "(f_fqn g, f_fqn f) \<in> edges m" using Cons.prems(1) by simp
    ultimately show ?thesis by (rule rtrancl_into_rtrancl)
  qed simp
qed auto

lemma schedule_ok_snoc:
  assumes "schedule_ok m out" "c \<notin> set out"
    "\<And>d. (c, d) \<in> edges m \<Longrightarrow> d \<in> set out \<or> (d, c) \<in> (edges m)\<^sup>*"
  shows "schedule_ok m (out @ [c])"
  using assms unfolding schedule_ok_def by (auto intro: before_append1 before_last)

lemma new_frame_ok:
  assumes "map_of m name \<noteq> None"
  shows "frame_ok m em up (new_frame m name)" "f_fqn (new_frame m name) = name"
  using assms by (auto simp: frame_ok_def new_frame_def)

lemma dfs_step_inv:
  assumes inv: "dfs_inv m s" and st: "stack s = frame # rest"
  shows "dfs_inv m (dfs_step m s frame rest)"
proof -
  have fr: "frame_ok m (visited s) None frame"
    and fs: "frames_ok m (visited s) (Some (f_fqn frame)) rest"
    and top: "case rest of [] \<Rightarrow> True | g # _ \<Rightarrow> (f_fqn g, f_fqn frame) \<in> edges m"
    using inv st by (auto simp: dfs_inv_def)
  have deps: "map_of m (f_fqn frame) = Some (f_deps frame)" using fr by (simp add: frame_ok_def)
  show ?thesis
  proof (cases "dep_index frame < length (f_deps frame)")
    case False
    then have "take (dep_index frame) (f_deps frame) = f_deps frame" by simp
    then have all: "d \<in> visited s \<or> (d, f_fqn frame) \<in> (edges m)\<^sup>*" if "(f_fqn frame, d) \<in> edges m" for d
      using fr that deps by (auto simp: frame_ok_def edges_def)
    have "frames_ok m (insert (f_fqn frame) (visited s)) None rest"
      by (rule frames_ok_mono [OF fs]) auto
    moreover have "schedule_ok m (sorted_out s @ [f_fqn frame])"
      using inv st all by (intro schedule_ok_snoc) (auto simp: dfs_inv_def)
    ultimately show ?thesis
      using inv st False deps by (auto simp: dfs_inv_def dfs_step_def)
  next
    case True
    define dep where "dep = f_deps frame ! dep_index frame"
    let ?frame = "frame\<lparr>dep_index := dep_index frame + 1\<rparr>"
    have tk: "set (take (dep_index frame + 1) (f_deps frame)) =
        insert dep (set (take (dep_index frame) (f_deps frame)))"
      using True by (simp add: take_Suc_conv_app_nth dep_def)
    have adv: "frame_ok m (visited s) up ?frame"
      if "map_of m dep \<noteq> None \<Longrightarrow>
        dep \<in> visited s \<or> (dep, f_fqn frame) \<in> (edges m)\<^sup>* \<or> up = Some dep" for up
      using fr that tk unfolding frame_ok_def by auto
    show ?thesis
    proof (cases "map_of m dep = None \<or> dep \<in> visited s \<or> dep \<in> visiting s")
      case skip: True
      have "(dep, f_fqn frame) \<in> (edges m)\<^sup>*" if "dep \<in> visiting s"
        using stack_reaches_top [of m "visited s" None frame rest dep] that inv st
        by (simp add: dfs_inv_def)
      with skip have "frame_ok m (visited s) None ?frame" by (intro adv) auto
      moreover have "dfs_step m s frame rest = s\<lparr>stack := ?frame # rest\<rparr>"
        using True skip by (auto simp: dfs_step_def dep_def Let_def)
      ultimately show ?thesis using inv st fs top
        by (cases rest) (auto simp: dfs_inv_def)
    next
      case push: False
      then have known: "map_of m dep \<noteq> None" by simp
      have "frame_ok m (visited s) (Some dep) ?frame" by (rule adv) simp
      moreover have "(f_fqn frame, dep) \<in> edges m"
        using deps known True by (auto simp: edges_def dep_def)
      moreover have "dfs_step m s frame rest =
          s\<lparr>visiting := insert dep (visiting s), stack := new_frame m dep # ?frame # rest\<rparr>"
        using True push by (auto simp: dfs_step_def dep_def Let_def)
      ultimately show ?thesis
        using inv st fs top push new_frame_ok [OF known]
        by (cases rest) (auto simp: dfs_inv_def)
    qed
  qed
qed

lemma dfs_step_grows:
  "visited s \<union> visiting s \<subseteq>
     visited (dfs_step m s frame rest) \<union> visiting (dfs_step m s frame rest)"
  by (auto simp: dfs_step_def Let_def)

lemma dfs_loop_inv:
  "dfs_inv m s \<Longrightarrow>
     dfs_inv m (dfs_loop m s) \<and> stack (dfs_loop m s) = [] \<and>
     visited s \<union> visiting s \<subseteq> visited (dfs_loop m s)"
proof (induction m s rule: dfs_loop.induct)
  case (1 m s)
  show ?case
  proof (cases "stack s")
    case Nil
    then show ?thesis using 1(2) by (subst (1 2 3) dfs_loop.simps) (simp add: dfs_inv_def)
  next
    case (Cons frame rest)
    let ?s = "dfs_step m s frame rest"
    have "dfs_loop m s = dfs_loop m ?s" using Cons by (subst dfs_loop.simps) simp
    then show ?thesis
      using 1(1) [OF Cons dfs_step_inv [OF 1(2) Cons]] dfs_step_grows [of s m frame rest] by auto
  qed
qed

definition between_starts :: "dep_map \<Rightarrow> dfs \<Rightarrow> bool" where
  "between_starts m s \<longleftrightarrow> dfs_inv m s \<and> stack s = []"

lemma dfs_start_inv:
  assumes inv: "between_starts m s" and known: "map_of m start \<noteq> None"
  shows "between_starts m (dfs_start m s start) \<and>
    insert start (visited s) \<subseteq> visited (dfs_start m s start)"
proof (cases "start \<in> visited s")
  case False
  let ?s = "s\<lparr>visiting := insert start (visiting s), stack := [new_frame m start]\<rparr>"
  have "dfs_inv m ?s"
    using inv False new_frame_ok [OF known]
    by (auto simp: between_starts_def dfs_inv_def)
  from dfs_loop_inv [OF this] show ?thesis
    using False by (auto simp: dfs_start_def between_starts_def)
qed (use inv in \<open>auto simp: dfs_start_def between_starts_def\<close>)

lemma dfs_starts_inv:
  assumes "between_starts m s" "\<And>x. x \<in> set xs \<Longrightarrow> map_of m x \<noteq> None"
  shows "between_starts m (foldl (dfs_start m) s xs) \<and>
    set xs \<union> visited s \<subseteq> visited (foldl (dfs_start m) s xs)"
  using assms
proof (induction xs arbitrary: s)
  case (Cons x xs)
  have "map_of m x \<noteq> None" using Cons.prems by simp
  from dfs_start_inv [OF Cons.prems(1) this]
  show ?case using Cons.IH [of "dfs_start m s x"] Cons.prems(2) by auto
qed simp

lemma map_of_build_dep_map:
  "map_of (build_dep_map classes) =
     map_of (rev (map (\<lambda>(n, c). (n, class_dependencies c)) classes))"
proof -
  have "map_of (foldl (\<lambda>m (name, class). AList.update name (class_dependencies class) m) m0 classes)
      = map_of (rev (map (\<lambda>(n, c). (n, class_dependencies c)) classes) @ m0)" for m0
  proof (induction classes arbitrary: m0)
    case (Cons a classes)
    obtain n c where [simp]: "a = (n, c)" by (cases a)
    show ?case
      by (simp add: Cons.IH) (rule ext, simp add: map_add_def update_conv split: option.split)
  qed simp
  from this [of "[]"] show ?thesis by (simp add: build_dep_map_def)
qed

lemma dom_build_dep_map: "dom (map_of (build_dep_map classes)) = fst ` set classes"
  unfolding map_of_build_dep_map by (force simp: dom_map_of_conv_image_fst)

lemma toposort_schedule:
  "set (toposort_classes classes) = fst ` set classes \<and>
   schedule_ok (build_dep_map classes) (toposort_classes classes)"
proof -
  let ?m = "build_dep_map classes"
  let ?s = "foldl (dfs_start ?m) dfs_init (sort (map fst classes))"
  have known: "map_of ?m x \<noteq> None" if "x \<in> set (sort (map fst classes))" for x
    using that dom_build_dep_map [of classes] by auto
  have "between_starts ?m dfs_init"
    by (simp add: between_starts_def dfs_inv_def dfs_init_def schedule_ok_def)
  from dfs_starts_inv [OF this, of "sort (map fst classes)", OF known]
  have "dfs_inv ?m ?s" "fst ` set classes \<subseteq> visited ?s"
    by (simp_all add: between_starts_def)
  then show ?thesis
    using dom_build_dep_map [of classes]
    by (auto simp: toposort_classes_def Let_def dfs_inv_def)
qed

subsection \<open>What the order promises\<close>

text \<open>The dependencies that count: those of the last class of a name, among the classes given.\<close>

definition depends :: "(str \<times> class_info) list \<Rightarrow> (str \<times> str) set" where
  "depends classes =
     {(c, d). \<exists>class. map_of (rev classes) c = Some class \<and> d \<in> set (class_dependencies class) \<and>
        d \<in> fst ` set classes}"

lemma edges_build_dep_map: "edges (build_dep_map classes) = depends classes"
proof -
  have "map_of (rev (map (\<lambda>(n, c). (n, class_dependencies c)) classes)) c =
      map_option class_dependencies (map_of (rev classes) c)" for c
    using map_of_map [of class_dependencies "rev classes"]
    by (simp add: rev_map split_def comp_def fun_eq_iff)
  moreover have "map_of (build_dep_map classes) d \<noteq> None \<longleftrightarrow> d \<in> fst ` set classes" for d
    using dom_build_dep_map [of classes] by (auto simp: domIff)
  ultimately show ?thesis
    by (auto simp: edges_def depends_def map_of_build_dep_map)
qed

text \<open>
  The order lists every class name it was given exactly once, and no other name.
\<close>

theorem toposort_permutation:
  "distinct (toposort_classes classes) \<and> set (toposort_classes classes) = fst ` set classes"
  using toposort_schedule [of classes] by (simp add: schedule_ok_def)

text \<open>
  C9. Dependencies come first: a class is listed after every class of the input it depends
  on, unless that class depends on it in turn, directly or through others.  In an acyclic
  hierarchy the second case never arises.
\<close>

theorem toposort_dependencies_first:
  assumes "(c, d) \<in> depends classes" "(d, c) \<notin> (depends classes)\<^sup>*"
  shows "before (toposort_classes classes) d c"
proof -
  have "c \<in> fst ` set classes"
    using assms(1) by (auto simp: depends_def image_iff dest!: map_of_SomeD) force
  then show ?thesis
    using toposort_schedule [of classes] assms
    by (auto simp: schedule_ok_def edges_build_dep_map)
qed

theorem toposort_dependencies_first_witness:
  "before (toposort_classes [(''B'', plain_class ''B'' (Some ''A'') []),
                             (''A'', plain_class ''A'' None [])]) ''A'' ''B''"
proof (rule toposort_dependencies_first)
  let ?cs = "[(''B'', plain_class ''B'' (Some ''A'') []), (''A'', plain_class ''A'' None [])]"
  have "depends ?cs = {(''B'', ''A'')}"
    by (auto simp: depends_def class_dependencies_def plain_class_def split: if_splits)
  then show "(''B'', ''A'') \<in> depends ?cs" "(''A'', ''B'') \<notin> (depends ?cs)\<^sup>*"
    by (auto elim: converse_rtranclE)
qed

lemma new_frame_cong: "map_of m = map_of m' \<Longrightarrow> new_frame m = new_frame m'"
  by (simp add: new_frame_def fun_eq_iff)

lemma dfs_step_cong:
  "map_of m = map_of m' \<Longrightarrow> dfs_step m s frame rest = dfs_step m' s frame rest"
  using new_frame_cong [of m m'] unfolding dfs_step_def Let_def by simp

lemma dfs_loop_cong:
  "map_of m = map_of m' \<Longrightarrow> dfs_loop m s = dfs_loop m' s"
proof (induction m s rule: dfs_loop.induct)
  case (1 m s)
  show ?case
  proof (cases "stack s")
    case Nil
    then show ?thesis by (simp add: dfs_loop.simps [of m] dfs_loop.simps [of m'])
  next
    case (Cons frame rest)
    have "dfs_loop m (dfs_step m s frame rest) = dfs_loop m' (dfs_step m' s frame rest)"
      using 1(1) [OF Cons 1(2)] dfs_step_cong [OF 1(2)] by simp
    then show ?thesis using Cons by (simp add: dfs_loop.simps [of m s] dfs_loop.simps [of m' s])
  qed
qed

text \<open>
  The order does not depend on the order the declarations are enumerated in, which for a
  hash map changes from run to run, as long as no two of them share a name.
\<close>

theorem toposort_order_independent:
  assumes "distinct (map fst xs)" "mset xs = mset ys"
  shows "toposort_classes xs = toposort_classes ys"
proof -
  have ys: "distinct (map fst ys)"
    using assms by (metis mset_map mset_eq_imp_distinct_iff)
  let ?f = "\<lambda>(n, c). (n, class_dependencies c)"
  have "distinct (map fst (rev (map ?f zs)))" if "distinct (map fst zs)"
    for zs :: "(str \<times> class_info) list"
    using that by (simp add: rev_map [symmetric] comp_def split_def)
  moreover have "set (rev (map ?f xs)) = set (rev (map ?f ys))"
    using mset_eq_setD [OF assms(2)] by simp
  ultimately have "map_of (build_dep_map xs) = map_of (build_dep_map ys)"
    unfolding map_of_build_dep_map using assms(1) ys
    by (subst map_of_inject_set) blast+
  moreover have "sort (map fst xs) = sort (map fst ys)"
    by (rule properties_for_sort) (simp_all add: assms(2))
  ultimately show ?thesis
    using dfs_loop_cong [of "build_dep_map xs" "build_dep_map ys"]
      new_frame_cong [of "build_dep_map xs" "build_dep_map ys"]
    by (simp add: toposort_classes_def dfs_start_def [abs_def] Let_def cong: if_cong)
qed

theorem toposort_order_independent_witness:
  "toposort_classes [(''B'', plain_class ''B'' (Some ''A'') []), (''A'', plain_class ''A'' None [])] =
   toposort_classes [(''A'', plain_class ''A'' None []), (''B'', plain_class ''B'' (Some ''A'') [])]"
  by (rule toposort_order_independent) (simp_all add: add_mset_commute)

lemmas toposort_eval = toposort_classes_def build_dep_map_def class_dependencies_def
  plain_class_def dfs_start_def dfs_init_def dfs_loop.simps dfs_step_def new_frame_def Let_def

text \<open>
  The caveat on duplicates is needed: with one name declared twice, the declaration
  enumerated last decides its dependencies, and two enumerations of the same declarations
  give two orders.
\<close>

lemma toposort_duplicates_depend_on_order:
  "\<exists>xs ys. mset xs = mset ys \<and> toposort_classes xs \<noteq> toposort_classes ys"
proof -
  let ?a = "(''A'', plain_class ''A'' None [])" and ?b = "(''B'', plain_class ''B'' None [])"
  let ?a' = "(''A'', plain_class ''A'' (Some ''B'') [])"
  have "toposort_classes [?a, ?a', ?b] = [''B'', ''A'']" by (simp add: toposort_eval)
  moreover have "toposort_classes [?a', ?a, ?b] = [''A'', ''B'']" by (simp add: toposort_eval)
  moreover have "mset [?a, ?a', ?b] = mset [?a', ?a, ?b]" by (simp add: add_mset_commute)
  moreover have "[''B'', ''A''] \<noteq> [''A'', ''B'']" by simp
  ultimately show ?thesis by (intro exI [of _ "[?a, ?a', ?b]"] exI [of _ "[?a', ?a, ?b]"]) simp
qed

text \<open>
  The workspace wrapper orders exactly the classes of the files it was not told to skip.
\<close>

theorem toposort_workspace_members:
  "set (toposort_from_uri_classes_index_except index skip) =
     {fqn class | uri classes class. (uri, classes) \<in> set index \<and> uri \<notin> skip \<and> class \<in> set classes}"
  using toposort_permutation
  by (auto simp: toposort_from_uri_classes_index_except_def image_iff) force+

end
