(* ===== verification/Ancestry.thy ===== *)
theory Ancestry
  imports Class_Info
begin

section \<open>Walking the inheritance hierarchy\<close>

text \<open>
  \<open>src/inheritance/ancestry.rs\<close>: the bounded walks every feature uses to find the ancestor
  that declares a member, and the lists of used traits and of supertypes.  A class loader is
  a function from fully-qualified names; \<open>Fqn::new\<close> drops a leading backslash.  The
  closures \<open>declares\<close> are predicates.  The walks thread the set \<open>visited\<close> and the vector
  \<open>out\<close> as the code does.
\<close>

type_synonym class_loader = "str \<Rightarrow> class_info option"

definition fqn_new :: "str \<Rightarrow> str" where
  "fqn_new name = (case strip_prefix name [backslash] of Some r \<Rightarrow> r | None \<Rightarrow> name)"

definition load :: "class_loader \<Rightarrow> str \<Rightarrow> class_info option" where
  "load class_loader name = class_loader (fqn_new name)"

definition max_inheritance_depth :: nat where "max_inheritance_depth = 20"
definition max_trait_depth :: nat where "max_trait_depth = 20"

function ancestors_from :: "class_loader \<Rightarrow> nat \<Rightarrow> str option \<Rightarrow> (str \<times> class_info) list" where
  "ancestors_from L depth None = []"
| "ancestors_from L depth (Some name) =
     (if depth + 1 > max_inheritance_depth then []
      else case load L name of
             None \<Rightarrow> []
           | Some ancestor \<Rightarrow> (name, ancestor) # ancestors_from L (depth + 1) (parent_class ancestor))"
  by pat_completeness auto
termination
  by (relation "measure (\<lambda>(L, depth, next). max_inheritance_depth - depth)") auto

definition ancestors :: "class_info \<Rightarrow> class_loader \<Rightarrow> (str \<times> class_info) list" where
  "ancestors class L = ancestors_from L 0 (parent_class class)"

function find_declaring_trait_at ::
  "class_loader \<Rightarrow> (class_info \<Rightarrow> bool) \<Rightarrow> nat \<Rightarrow> str list \<Rightarrow> (str \<times> class_info) option" where
  "find_declaring_trait_at L declares depth [] = None"
| "find_declaring_trait_at L declares depth (name # trait_names) =
     (if depth > max_trait_depth then None
      else case load L name of
             None \<Rightarrow> find_declaring_trait_at L declares depth trait_names
           | Some used \<Rightarrow>
               if declares used then Some (name, used)
               else case find_declaring_trait_at L declares (depth + 1) (used_traits used) of
                      Some found \<Rightarrow> Some found
                    | None \<Rightarrow> find_declaring_trait_at L declares depth trait_names)"
  by pat_completeness auto
termination
  by (relation "measures [\<lambda>(L, declares, depth, names). Suc max_trait_depth - depth,
                          \<lambda>(L, declares, depth, names). length names]") auto

definition find_declaring_trait ::
  "str list \<Rightarrow> class_loader \<Rightarrow> (class_info \<Rightarrow> bool) \<Rightarrow> (str \<times> class_info) option" where
  "find_declaring_trait trait_names L declares = find_declaring_trait_at L declares 0 trait_names"

function collect_used_traits ::
  "class_loader \<Rightarrow> nat \<Rightarrow> str list \<Rightarrow> str set \<times> (str \<times> class_info) list
     \<Rightarrow> str set \<times> (str \<times> class_info) list" where
  "collect_used_traits L depth [] s = s"
| "collect_used_traits L depth (name # trait_names) s =
     (if depth > max_trait_depth then s
      else if name \<in> fst s then collect_used_traits L depth trait_names s
      else case load L name of
             None \<Rightarrow> collect_used_traits L depth trait_names (insert name (fst s), snd s)
           | Some used \<Rightarrow>
               collect_used_traits L depth trait_names
                 (collect_used_traits L (depth + 1) (used_traits used)
                    (insert name (fst s), snd s @ [(name, used)])))"
  by pat_completeness auto
termination
  by (relation "measures [\<lambda>(L, depth, names, s). Suc max_trait_depth - depth,
                          \<lambda>(L, depth, names, s). length names]") auto

definition used_traits_deep :: "str list \<Rightarrow> class_loader \<Rightarrow> (str \<times> class_info) list" where
  "used_traits_deep trait_names L = snd (collect_used_traits L 0 trait_names ({}, []))"

text \<open>\<open>Option\<close>'s slice view: no element or one.\<close>

definition as_slice :: "'a option \<Rightarrow> 'a list" where
  "as_slice o1 = (case o1 of None \<Rightarrow> [] | Some x \<Rightarrow> [x])"

function find_declaring_interfaces ::
  "class_loader \<Rightarrow> (class_info \<Rightarrow> bool) \<Rightarrow> nat \<Rightarrow> str list \<Rightarrow> str set
     \<Rightarrow> (str \<times> class_info) option \<times> str set" where
  "find_declaring_interfaces L declares depth [] visited = (None, visited)"
| "find_declaring_interfaces L declares depth (iface_name # names) visited =
     (if depth > max_inheritance_depth \<or> iface_name \<in> visited
      then find_declaring_interfaces L declares depth names visited
      else case load L iface_name of
             None \<Rightarrow> find_declaring_interfaces L declares depth names (insert iface_name visited)
           | Some iface \<Rightarrow>
               if declares iface then (Some (iface_name, iface), insert iface_name visited)
               else case find_declaring_interfaces L declares (depth + 1)
                           (interfaces iface @ as_slice (parent_class iface))
                           (insert iface_name visited) of
                      (Some found, visited') \<Rightarrow> (Some found, visited')
                    | (None, visited') \<Rightarrow> find_declaring_interfaces L declares depth names visited')"
  by pat_completeness auto
termination
  by (relation "measures [\<lambda>(L, declares, depth, names, visited). Suc max_inheritance_depth - depth,
                          \<lambda>(L, declares, depth, names, visited). length names]") auto

text \<open>The loop of \<open>find_declaring_ancestor\<close> over the parents: a match, or the interfaces gathered.\<close>

fun search_parents ::
  "class_loader \<Rightarrow> (class_info \<Rightarrow> bool) \<Rightarrow> (str \<times> class_info) list \<Rightarrow> str list
     \<Rightarrow> (str \<times> class_info) + str list" where
  "search_parents L declares [] ifaces = Inr ifaces"
| "search_parents L declares ((name, parent) # rest) ifaces =
     (if declares parent then Inl (name, parent)
      else case find_declaring_trait (used_traits parent) L declares of
             Some found \<Rightarrow> Inl found
           | None \<Rightarrow>
               search_parents L declares rest
                 (foldl (\<lambda>is i. if i \<in> set is then is else is @ [i]) ifaces (interfaces parent)))"

definition find_declaring_ancestor ::
  "class_info \<Rightarrow> class_loader \<Rightarrow> (class_info \<Rightarrow> bool) \<Rightarrow> (str \<times> class_info) option" where
  "find_declaring_ancestor class L declares =
     (case find_declaring_trait (used_traits class) L declares of
        Some found \<Rightarrow> Some found
      | None \<Rightarrow>
          (case search_parents L declares (ancestors class L) (interfaces class) of
             Inl found \<Rightarrow> Some found
           | Inr ifaces \<Rightarrow> fst (find_declaring_interfaces L declares 0 ifaces {})))"

definition supertype_names :: "class_info \<Rightarrow> str list" where
  "supertype_names class =
     (if ci_kind class = Interface
      then as_slice (parent_class class) @ interfaces class
      else interfaces class @ as_slice (parent_class class))"

text \<open>\<open>names\<close> is what is left of the chain of names the code iterates over.\<close>

function collect_supertypes ::
  "class_loader \<Rightarrow> nat \<Rightarrow> str list \<Rightarrow> str set \<times> (str \<times> class_info) list
     \<Rightarrow> str set \<times> (str \<times> class_info) list" where
  "collect_supertypes L depth [] s = s"
| "collect_supertypes L depth (name # names) s =
     (if depth > max_inheritance_depth then s
      else case load L name of
             None \<Rightarrow> collect_supertypes L depth names s
           | Some loaded \<Rightarrow>
               let key = to_ascii_lowercase (fqn loaded) in
               if key \<in> fst s then collect_supertypes L depth names s
               else collect_supertypes L depth names
                      (collect_supertypes L (depth + 1) (supertype_names loaded)
                         (insert key (fst s), snd s @ [(name, loaded)])))"
  by pat_completeness auto
termination
  by (relation "measures [\<lambda>(L, depth, names, s). Suc max_inheritance_depth - depth,
                          \<lambda>(L, depth, names, s). length names]") auto

definition supertypes :: "class_info \<Rightarrow> class_loader \<Rightarrow> (str \<times> class_info) list" where
  "supertypes class L =
     snd (collect_supertypes L 0 (supertype_names class) ({to_ascii_lowercase (fqn class)}, []))"

subsection \<open>The walk both lists share\<close>

text \<open>
  \<open>used_traits_deep\<close> and \<open>supertypes\<close> are one depth-first walk: load each name, skip it when
  its key was met before, list it, go through the names it leads to, and give up below a
  depth limit.  The interface states the loop's equations; what a walk lists is proved from
  them once.
\<close>

locale bounded_walk =
  fixes limit :: nat
    and load_name :: "str \<Rightarrow> 'c option"
    and children :: "'c \<Rightarrow> str list"
    and key :: "str \<Rightarrow> 'c \<Rightarrow> 'k"
    and skipped :: "str \<Rightarrow> 'k set"
    and walk :: "nat \<Rightarrow> str list \<Rightarrow> 'k set \<times> (str \<times> 'c) list \<Rightarrow> 'k set \<times> (str \<times> 'c) list"
  assumes walk_nil [simp]: "walk d [] s = s"
    and walk_deep: "limit < d \<Longrightarrow> walk d ns s = s"
    and walk_missing: "d \<le> limit \<Longrightarrow> load_name n = None \<Longrightarrow>
          \<exists>X \<subseteq> skipped n. walk d (n # ns) s = walk d ns (fst s \<union> X, snd s)"
    and walk_seen: "d \<le> limit \<Longrightarrow> load_name n = Some c \<Longrightarrow> key n c \<in> fst s \<Longrightarrow>
          walk d (n # ns) s = walk d ns s"
    and walk_new: "d \<le> limit \<Longrightarrow> load_name n = Some c \<Longrightarrow> key n c \<notin> fst s \<Longrightarrow>
          walk d (n # ns) s =
            walk d ns (walk (Suc d) (children c) (insert (key n c) (fst s), snd s @ [(n, c)]))"
    and skipped_key: "load_name n = None \<Longrightarrow> load_name m = Some c \<Longrightarrow> key m c \<notin> skipped n"
begin

lemma walk_induct [case_names nil deep missing seen new]:
  assumes "\<And>d s. P d [] s"
    and "\<And>d ns s. limit < d \<Longrightarrow> P d ns s"
    and "\<And>d n ns s X. d \<le> limit \<Longrightarrow> load_name n = None \<Longrightarrow> X \<subseteq> skipped n \<Longrightarrow>
          walk d (n # ns) s = walk d ns (fst s \<union> X, snd s) \<Longrightarrow> P d ns (fst s \<union> X, snd s) \<Longrightarrow>
          P d (n # ns) s"
    and "\<And>d n c ns s. d \<le> limit \<Longrightarrow> load_name n = Some c \<Longrightarrow> key n c \<in> fst s \<Longrightarrow> P d ns s \<Longrightarrow>
          P d (n # ns) s"
    and "\<And>d n c ns s s1. d \<le> limit \<Longrightarrow> load_name n = Some c \<Longrightarrow> key n c \<notin> fst s \<Longrightarrow>
          s1 = (insert (key n c) (fst s), snd s @ [(n, c)]) \<Longrightarrow>
          P (Suc d) (children c) s1 \<Longrightarrow> P d ns (walk (Suc d) (children c) s1) \<Longrightarrow> P d (n # ns) s"
  shows "P d ns s"
proof (induction "Suc limit - d" arbitrary: d ns s rule: less_induct)
  case (less d ns s)
  show ?case
  proof (cases "limit < d")
    case False
    show ?thesis
    proof (induction ns arbitrary: s)
      case (Cons n ns)
      have d: "d \<le> limit" using False by simp
      show ?case
      proof (cases "load_name n")
        case None
        then obtain X where "X \<subseteq> skipped n" "walk d (n # ns) s = walk d ns (fst s \<union> X, snd s)"
          using walk_missing [OF d] by blast
        then show ?thesis using assms(3) [OF d None] Cons.IH by blast
      next
        case (Some c)
        have "P (Suc d) (children c) s'" for s' using less [of "Suc d"] d by simp
        then show ?thesis
          using assms(4) [OF d Some _ Cons.IH] assms(5) [OF d Some _ refl _ Cons.IH] by blast
      qed
    qed (rule assms(1))
  qed (simp add: assms(2))
qed

lemma walk_grows: "fst s \<subseteq> fst (walk d ns s) \<and> set (snd s) \<subseteq> set (snd (walk d ns s))"
proof (induction d ns s rule: walk_induct)
  case (new d n c ns s s1)
  have "fst s \<subseteq> fst s1" "set (snd s) \<subseteq> set (snd s1)" using new.hyps(4) by auto
  moreover have "walk d (n # ns) s = walk d ns (walk (Suc d) (children c) s1)"
    using new.hyps by (simp add: walk_new)
  ultimately show ?case using new.IH by (metis subset_trans)
next
  case (seen d n c ns s)
  then show ?case by (simp only: walk_seen)
next
  case (missing d n ns s X)
  then show ?case by (metis Un_subset_iff fst_conv snd_conv)
qed (simp_all add: walk_deep)

definition listed :: "'k set \<Rightarrow> 'k set \<times> (str \<times> 'c) list \<Rightarrow> bool" where
  "listed v0 s \<longleftrightarrow>
     distinct (map (\<lambda>(n, c). key n c) (snd s)) \<and>
     (\<forall>(n, c) \<in> set (snd s). load_name n = Some c \<and> key n c \<in> fst s - v0) \<and>
     v0 \<subseteq> fst s \<and>
     (\<forall>n c. load_name n = Some c \<longrightarrow> key n c \<in> fst s \<longrightarrow>
        key n c \<in> v0 \<or> key n c \<in> (\<lambda>(n, c). key n c) ` set (snd s))"

lemma listed_new:
  assumes "listed v0 s" "load_name n = Some c" "key n c \<notin> fst s"
  shows "listed v0 (insert (key n c) (fst s), snd s @ [(n, c)])"
proof -
  have "key n c \<notin> v0" using assms unfolding listed_def by blast
  moreover have "key n c \<notin> (\<lambda>(n, c). key n c) ` set (snd s)"
    using assms(1, 3) by (auto simp: listed_def)
  ultimately show ?thesis using assms unfolding listed_def by simp blast
qed

lemma walk_listed: "listed v0 s \<Longrightarrow> listed v0 (walk d ns s)"
proof (induction d ns s rule: walk_induct)
  case (missing d n ns s X)
  have "key m c \<notin> X" if "load_name m = Some c" for m c
    using skipped_key missing.hyps(2, 3) that by blast
  then have "listed v0 (fst s \<union> X, snd s)"
    using missing.prems unfolding listed_def fst_conv snd_conv by blast
  with missing show ?case by simp
next
  case (new d n c ns s s1)
  have "listed v0 s1" using listed_new [OF new.prems new.hyps(2, 3)] new.hyps(4) by simp
  moreover have "walk d (n # ns) s = walk d ns (walk (Suc d) (children c) s1)"
    using new.hyps by (simp add: walk_new)
  ultimately show ?case using new.IH by simp
next
  case (seen d n c ns s)
  then show ?case by (simp only: walk_seen)
qed (simp_all add: walk_deep)

definition leads :: "(str \<times> str) set" where
  "leads = {(n, m). \<exists>c. load_name n = Some c \<and> m \<in> set (children c)}"

lemma walk_sound:
  "(m, c) \<in> set (snd (walk d ns s)) \<Longrightarrow>
     (m, c) \<in> set (snd s) \<or> (\<exists>r \<in> set ns. (r, m) \<in> leads\<^sup>*)"
proof (induction d ns s rule: walk_induct)
  case (new d n c' ns s s1)
  have step: "(n, r) \<in> leads" if "r \<in> set (children c')" for r
    using new.hyps that by (auto simp: leads_def)
  have "walk d (n # ns) s = walk d ns (walk (Suc d) (children c') s1)"
    using new.hyps by (simp add: walk_new)
  then have "(m, c) \<in> set (snd (walk (Suc d) (children c') s1)) \<or> (\<exists>r \<in> set ns. (r, m) \<in> leads\<^sup>*)"
    using new.IH(2) new.prems by simp
  then show ?case
    using new.IH(1) step new.hyps(4) by (fastforce intro: converse_rtrancl_into_rtrancl)
qed (auto simp: walk_deep walk_seen)

text \<open>
  With at most \<open>limit + 1\<close> keys to meet, the depth limit never cuts anything off: every
  level of the walk has added a key of its own.
\<close>

definition met :: "str \<Rightarrow> 'k set \<Rightarrow> bool" where
  "met n V \<longleftrightarrow> (\<forall>c. load_name n = Some c \<longrightarrow> key n c \<in> V)"

lemma met_mono: "met n V \<Longrightarrow> V \<subseteq> W \<Longrightarrow> met n W"
  by (auto simp: met_def)

definition closed_from :: "'k set \<Rightarrow> 'k set \<Rightarrow> bool" where
  "closed_from v w \<longleftrightarrow> (\<forall>n c. load_name n = Some c \<longrightarrow> key n c \<in> w - v \<longrightarrow> (\<forall>m \<in> set (children c). met m w))"

lemma closed_from_trans:
  "closed_from u v \<Longrightarrow> closed_from v w \<Longrightarrow> v \<subseteq> w \<Longrightarrow> closed_from u w"
  unfolding closed_from_def using met_mono by (metis DiffD1 DiffD2 DiffI)

lemma walk_complete:
  assumes K: "finite K" "card K \<le> Suc limit"
    and N: "\<And>n c. n \<in> N \<Longrightarrow> load_name n = Some c \<Longrightarrow> key n c \<in> K \<and> set (children c) \<subseteq> N"
    and same: "\<And>n c n' c'. load_name n = Some c \<Longrightarrow> load_name n' = Some c' \<Longrightarrow>
        key n c = key n' c' \<Longrightarrow> children c = children c'"
  shows "set ns \<subseteq> N \<Longrightarrow> d \<le> card (fst s \<inter> K) \<Longrightarrow>
    (\<forall>n \<in> set ns. met n (fst (walk d ns s))) \<and> closed_from (fst s) (fst (walk d ns s))"
proof (induction d ns s rule: walk_induct)
  case (nil d s)
  then show ?case by (simp add: closed_from_def)
next
  case (deep d ns s)
  have "fst s \<inter> K = K" using K deep by (intro card_seteq) auto
  then have "K \<subseteq> fst s" by blast
  then show ?case using deep N by (auto simp: walk_deep met_def closed_from_def)
next
  case (missing d n ns s X)
  have "card (fst s \<inter> K) \<le> card ((fst s \<union> X) \<inter> K)" using K(1) by (intro card_mono) auto
  with missing have IH: "\<forall>m \<in> set ns. met m (fst (walk d (n # ns) s))"
    and closed: "closed_from (fst s \<union> X) (fst (walk d (n # ns) s))" by simp_all
  have "closed_from (fst s) (fst s \<union> X)"
    using missing.hyps skipped_key unfolding closed_from_def by blast
  moreover have "fst s \<union> X \<subseteq> fst (walk d (n # ns) s)"
    using walk_grows [of "(fst s \<union> X, snd s)" d ns] missing.hyps(4) by simp
  ultimately have "closed_from (fst s) (fst (walk d (n # ns) s))"
    using closed closed_from_trans by blast
  moreover have "met n V" for V using missing.hyps(2) by (simp add: met_def)
  ultimately show ?case using IH by simp
next
  case (seen d n c ns s)
  then show ?case
    using walk_grows [of s d ns] by (auto simp: walk_seen met_def)
next
  case (new d n c ns s s1)
  let ?s2 = "walk (Suc d) (children c) s1"
  let ?s3 = "walk d ns ?s2"
  have n: "key n c \<in> K" "set (children c) \<subseteq> N" "set ns \<subseteq> N"
    using N [of n c] new.hyps new.prems by auto
  have "fst s1 \<inter> K = insert (key n c) (fst s \<inter> K)" using new.hyps n by auto
  then have c1: "Suc d \<le> card (fst s1 \<inter> K)" using new.prems new.hyps K(1) by simp
  have g: "fst s1 \<subseteq> fst ?s2" "fst ?s2 \<subseteq> fst ?s3" using walk_grows by blast+
  have "card (fst s1 \<inter> K) \<le> card (fst ?s2 \<inter> K)" using K(1) g by (intro card_mono) auto
  then have c2: "d \<le> card (fst ?s2 \<inter> K)" using c1 by simp
  have IH1: "\<forall>m \<in> set (children c). met m (fst ?s2)" "closed_from (fst s1) (fst ?s2)"
    using new.IH(1) n c1 by blast+
  have IH2: "\<forall>m \<in> set ns. met m (fst ?s3)" "closed_from (fst ?s2) (fst ?s3)"
    using new.IH(2) n c2 by blast+
  have "closed_from (fst s) (fst ?s2)"
    using IH1 same [OF new.hyps(2)] new.hyps(4) unfolding closed_from_def
    by (metis DiffD1 DiffD2 DiffI fst_conv insertE)
  then have "closed_from (fst s) (fst ?s3)" using IH2(2) g(2) closed_from_trans by blast
  moreover have "key n c \<in> fst ?s3" using new.hyps(4) g by auto
  then have "met n (fst ?s3)" by (simp add: met_def new.hyps(2))
  ultimately show ?case using IH2(1) new.hyps by (simp add: walk_new)
qed

lemma met_reachable:
  assumes "\<And>n. n \<in> S \<Longrightarrow> met n V"
    and "\<And>n c. load_name n = Some c \<Longrightarrow> key n c \<in> V \<Longrightarrow> (\<forall>m \<in> set (children c). met m V)"
    and "(r, m) \<in> leads\<^sup>*" "r \<in> S"
  shows "met m V"
  using assms(3)
proof induction
  case base
  then show ?case using assms(1, 4) by simp
next
  case (step n m)
  then obtain c where "load_name n = Some c" "m \<in> set (children c)" by (auto simp: leads_def)
  then show ?case using step.IH assms(2) [of n c] by (simp add: met_def)
qed

lemma walk_lists:
  assumes K: "finite K" "card K \<le> Suc limit"
    and N: "N = {m. \<exists>r \<in> set ns. (r, m) \<in> leads\<^sup>*}"
    and keys: "\<And>n c. n \<in> N \<Longrightarrow> load_name n = Some c \<Longrightarrow> key n c \<in> K"
    and same: "\<And>n c n' c'. load_name n = Some c \<Longrightarrow> load_name n' = Some c' \<Longrightarrow>
        key n c = key n' c' \<Longrightarrow> children c = children c'"
    and start: "\<And>n c. load_name n = Some c \<Longrightarrow> key n c \<in> v0 \<Longrightarrow> set (children c) \<subseteq> set ns"
  shows "distinct (map (\<lambda>(n, c). key n c) (snd (walk 0 ns (v0, [])))) \<and>
    (\<forall>(n, c) \<in> set (snd (walk 0 ns (v0, []))). n \<in> N \<and> load_name n = Some c) \<and>
    (\<lambda>(n, c). key n c) ` set (snd (walk 0 ns (v0, []))) =
      {key n c | n c. n \<in> N \<and> load_name n = Some c} - v0"
proof -
  let ?w = "walk 0 ns (v0, [])"
  have "(n, m) \<in> leads" if "load_name n = Some c" "m \<in> set (children c)" for n c m
    using that by (auto simp: leads_def)
  then have "set (children c) \<subseteq> N" if "n \<in> N" "load_name n = Some c" for n c
    using that N by (blast intro: rtrancl_into_rtrancl)
  then have N1: "key n c \<in> K \<and> set (children c) \<subseteq> N" if "n \<in> N" "load_name n = Some c" for n c
    using that keys by simp
  have "set ns \<subseteq> N" unfolding N by blast
  then have "(\<forall>n \<in> set ns. met n (fst ?w)) \<and> closed_from v0 (fst ?w)"
    using walk_complete [where N = N and ns = ns and d = 0 and s = "(v0, [])", OF K N1 same] by simp
  then have roots: "\<And>n. n \<in> set ns \<Longrightarrow> met n (fst ?w)"
    and closed: "closed_from v0 (fst ?w)" by blast+
  have all_met: "\<forall>m \<in> set (children c). met m (fst ?w)"
    if "load_name n = Some c" "key n c \<in> fst ?w" for n c
    using that closed start roots unfolding closed_from_def by blast
  have met: "met m (fst ?w)" if "m \<in> N" for m
    using that met_reachable [of "set ns" "fst ?w"] roots all_met unfolding N by blast
  have inv: "listed v0 ?w" by (rule walk_listed) (simp add: listed_def)
  have sound: "n \<in> N \<and> load_name n = Some c" if "(n, c) \<in> set (snd ?w)" for n c
    using walk_sound [OF that] that inv unfolding listed_def N by fastforce
  have "key n c \<in> (\<lambda>(n, c). key n c) ` set (snd ?w)"
    if "n \<in> N" "load_name n = Some c" "key n c \<notin> v0" for n c
    using met [OF that(1)] that inv unfolding listed_def met_def by blast
  moreover have "key n c \<notin> v0" if "(n, c) \<in> set (snd ?w)" for n c
    using inv that unfolding listed_def by blast
  ultimately have "(\<lambda>(n, c). key n c) ` set (snd ?w) =
      {key n c | n c. n \<in> N \<and> load_name n = Some c} - v0"
    using sound by (fastforce simp: image_iff)
  then show ?thesis using inv sound unfolding listed_def by blast
qed

end

lemma collect_used_traits_deep:
  "max_trait_depth < d \<Longrightarrow> collect_used_traits L d ns s = s"
  by (cases ns) simp_all

lemma collect_supertypes_deep:
  "max_inheritance_depth < d \<Longrightarrow> collect_supertypes L d ns s = s"
  by (cases ns) simp_all

interpretation traits: bounded_walk max_trait_depth "load L" used_traits "\<lambda>n c. n" "\<lambda>n. {n}"
    "collect_used_traits L" for L
proof unfold_locales
  fix d n ns and s :: "str set \<times> (str \<times> class_info) list"
  assume "d \<le> max_trait_depth" "load L n = None"
  then show "\<exists>X \<subseteq> {n}. collect_used_traits L d (n # ns) s = collect_used_traits L d ns (fst s \<union> X, snd s)"
    by (cases "n \<in> fst s") (force, auto intro!: exI [of _ "{n}"])
qed (auto simp: collect_used_traits_deep)

interpretation supers: bounded_walk max_inheritance_depth "load L" supertype_names
    "\<lambda>n c. to_ascii_lowercase (fqn c)" "\<lambda>n. {}" "collect_supertypes L" for L
  by unfold_locales (auto simp: collect_supertypes_deep Let_def)

text \<open>
  The interfaces a fruitless search of \<open>find_declaring_interfaces\<close> looks at, as a walk of that kind.
\<close>

definition iface_parents :: "class_info \<Rightarrow> str list" where
  "iface_parents c = interfaces c @ as_slice (parent_class c)"

function looked_at ::
  "class_loader \<Rightarrow> nat \<Rightarrow> str list \<Rightarrow> str set \<times> (str \<times> class_info) list
     \<Rightarrow> str set \<times> (str \<times> class_info) list" where
  "looked_at L depth [] s = s"
| "looked_at L depth (name # names) s =
     (if depth > max_inheritance_depth then s
      else if name \<in> fst s then looked_at L depth names s
      else case load L name of
             None \<Rightarrow> looked_at L depth names (insert name (fst s), snd s)
           | Some iface \<Rightarrow>
               looked_at L depth names
                 (looked_at L (depth + 1) (iface_parents iface) (insert name (fst s), snd s @ [(name, iface)])))"
  by pat_completeness auto
termination
  by (relation "measures [\<lambda>(L, depth, names, s). Suc max_inheritance_depth - depth,
                          \<lambda>(L, depth, names, s). length names]") auto

lemma looked_at_deep: "max_inheritance_depth < d \<Longrightarrow> looked_at L d ns s = s"
  by (cases ns) simp_all

interpretation ifaces: bounded_walk max_inheritance_depth "load L" iface_parents "\<lambda>n c. n" "\<lambda>n. {n}"
    "looked_at L" for L
proof unfold_locales
  fix d n ns and s :: "str set \<times> (str \<times> class_info) list"
  assume "d \<le> max_inheritance_depth" "load L n = None"
  then show "\<exists>X \<subseteq> {n}. looked_at L d (n # ns) s = looked_at L d ns (fst s \<union> X, snd s)"
    by (cases "n \<in> fst s") (force, auto intro!: exI [of _ "{n}"])
qed (auto simp: looked_at_deep)

lemma fruitless_search:
  "find_declaring_interfaces L P d ns vis = (None, vis') \<Longrightarrow>
     fst (looked_at L d ns (vis, out)) = vis' \<and>
     (\<forall>(n, c) \<in> set (snd (looked_at L d ns (vis, out))). (n, c) \<in> set out \<or> \<not> P c)"
proof (induction L P d ns vis arbitrary: vis' out rule: find_declaring_interfaces.induct)
  case (2 L P depth name names vis)
  show ?case
  proof (cases "depth > max_inheritance_depth")
    case True
    have "find_declaring_interfaces L P depth ns vis = (None, vis)" for ns
      using True by (induction ns) simp_all
    then show ?thesis using 2(5) True by (auto simp: looked_at_deep)
  next
    case depth: False
    show ?thesis
    proof (cases "name \<in> vis")
      case True
      then show ?thesis using 2(1) [of vis' out] 2(5) depth by simp
    next
      case False
      note go = depth False
      show ?thesis
      proof (cases "load L name")
        case None
        then show ?thesis using 2(2) [of vis' out] 2(5) go by simp
      next
        case (Some iface)
        then obtain vis1 where inner: "\<not> P iface"
          "find_declaring_interfaces L P (depth + 1) (iface_parents iface) (insert name vis) = (None, vis1)"
          "find_declaring_interfaces L P depth names vis1 = (None, vis')"
          using 2(5) go by (auto simp: iface_parents_def split: if_splits option.splits prod.splits)
        let ?s = "looked_at L (depth + 1) (iface_parents iface) (insert name vis, out @ [(name, iface)])"
        have one: "fst ?s = vis1 \<and> (\<forall>(n, c) \<in> set (snd ?s). (n, c) \<in> set (out @ [(name, iface)]) \<or> \<not> P c)"
          using 2(3) [OF _ Some inner(1), of vis1 "out @ [(name, iface)]"] inner(2) go by (simp add: iface_parents_def)
        then have "fst (looked_at L depth names (vis1, snd ?s)) = vis' \<and>
            (\<forall>(n, c) \<in> set (snd (looked_at L depth names (vis1, snd ?s))). (n, c) \<in> set (snd ?s) \<or> \<not> P c)"
          using 2(4) [OF _ Some inner(1), where vis' = vis' and out = "snd ?s"] inner(2,3) go
          by (simp add: iface_parents_def)
        moreover have "looked_at L depth (name # names) (vis, out) = looked_at L depth names (vis1, snd ?s)"
          using go Some one by (metis (no_types, lifting) fst_conv looked_at.simps(2) option.simps(5) prod.collapse snd_conv)
        ultimately show ?thesis using one inner(1) by fastforce
      qed
    qed
  qed
qed auto

subsection \<open>What the walks list and find\<close>

definition uses_trait :: "class_loader \<Rightarrow> (str \<times> str) set" where
  "uses_trait L = {(n, m). \<exists>c. load L n = Some c \<and> m \<in> set (used_traits c)}"

definition extends_type :: "class_loader \<Rightarrow> (str \<times> str) set" where
  "extends_type L = {(n, m). \<exists>c. load L n = Some c \<and> m \<in> set (supertype_names c)}"

definition extends_iface :: "class_loader \<Rightarrow> (str \<times> str) set" where
  "extends_iface L = {(n, m). \<exists>c. load L n = Some c \<and> m \<in> set (iface_parents c)}"

text \<open>The names a list of names leads to.\<close>

definition reached :: "(str \<times> str) set \<Rightarrow> str list \<Rightarrow> str set" where
  "reached R ns = {m. \<exists>r \<in> set ns. (r, m) \<in> R\<^sup>*}"

definition loaded_from :: "class_loader \<Rightarrow> str set \<Rightarrow> (str \<times> class_info) set" where
  "loaded_from L N = {(n, c). n \<in> N \<and> load L n = Some c}"

text \<open>
  \<open>used_traits_deep\<close> lists every trait the given names lead to that can be loaded,
  each once and with its declaration, and nothing else, in any hierarchy (cyclic ones
  included) that reaches no more than 21 traits, where the depth limit cannot cut in.
\<close>

theorem used_traits_deep_complete:
  assumes "finite (fst ` loaded_from L (reached (uses_trait L) names))"
    and "card (fst ` loaded_from L (reached (uses_trait L) names)) \<le> 21"
  shows "distinct (map fst (used_traits_deep names L)) \<and>
    set (used_traits_deep names L) = loaded_from L (reached (uses_trait L) names)"
proof -
  let ?N = "reached (uses_trait L) names"
  let ?K = "fst ` loaded_from L ?N"
  have "traits.leads L = uses_trait L" by (simp add: traits.leads_def uses_trait_def)
  then have N: "?N = {m. \<exists>r \<in> set names. (r, m) \<in> (traits.leads L)\<^sup>*}" by (simp add: reached_def)
  have "card ?K \<le> Suc max_trait_depth" using assms(2) by (simp add: max_trait_depth_def)
  from traits.walk_lists [OF assms(1) this N, of "{}"]
  have "distinct (map (\<lambda>(n, c). n) (used_traits_deep names L))"
    "\<forall>(n, c) \<in> set (used_traits_deep names L). (n, c) \<in> loaded_from L ?N"
    "(\<lambda>(n, c). n) ` set (used_traits_deep names L) = {n. \<exists>c. (n, c) \<in> loaded_from L ?N}"
    by (force simp: used_traits_deep_def loaded_from_def image_iff)+
  then show ?thesis
    by (auto simp: split_def image_iff loaded_from_def) force+
qed


text \<open>The loader of a table of declarations, for concrete hierarchies.\<close>

definition table_loader :: "class_info list \<Rightarrow> class_loader" where
  "table_loader cs = map_of (map (\<lambda>c. (fqn c, c)) cs)"

lemma load_table: "load (table_loader cs) n = Some c \<Longrightarrow> c \<in> set cs \<and> fqn c = fqn_new n"
  unfolding load_def table_loader_def by (drule map_of_SomeD) auto

lemma fqn_new_cases: "fqn_new n = n \<or> n = backslash # fqn_new n"
  by (cases n) (auto simp: fqn_new_def strip_prefix_def starts_with_def)

lemma loaded_names_table:
  "fst ` loaded_from (table_loader cs) N \<subseteq> set (map fqn cs @ map (\<lambda>c. backslash # fqn c) cs)"
proof
  fix n assume "n \<in> fst ` loaded_from (table_loader cs) N"
  then obtain c where "c \<in> set cs" "fqn c = fqn_new n" by (auto simp: loaded_from_def dest: load_table)
  then show "n \<in> set (map fqn cs @ map (\<lambda>c. backslash # fqn c) cs)"
    using fqn_new_cases [of n] by force
qed

definition example_traits :: class_loader where
  "example_traits = table_loader
     [(plain_class ''T'' None [])\<lparr>used_traits := [''U'']\<rparr>,
      (plain_class ''U'' None [])\<lparr>used_traits := [''T'']\<rparr>]"

theorem used_traits_deep_complete_witness:
  "distinct (map fst (used_traits_deep [''T''] example_traits)) \<and>
   set (used_traits_deep [''T''] example_traits) =
     loaded_from example_traits (reached (uses_trait example_traits) [''T''])"
proof (rule used_traits_deep_complete)
  let ?S = "fst ` loaded_from example_traits (reached (uses_trait example_traits) [''T''])"
  have sub: "?S \<subseteq> set [''T'', ''U'', backslash # ''T'', backslash # ''U'']"
    unfolding example_traits_def
    by (rule subset_trans [OF loaded_names_table]) (simp add: fqn_def plain_class_def compute_fqn_def)
  then show "finite ?S" using finite_subset by blast
  have "card ?S \<le> length [''T'', ''U'', backslash # ''T'', backslash # ''U'']"
    using card_mono [OF _ sub] card_length le_trans by blast
  then show "card ?S \<le> 21" by simp
qed

definition example_types :: class_loader where
  "example_types = table_loader
     [plain_class ''Dog'' (Some ''Animal'') [''Named''], plain_class ''Animal'' None [''Named''],
      plain_class ''Named'' None []]"


text \<open>No trait within what is left of the depth budget declares the member.\<close>

definition quiet :: "class_loader \<Rightarrow> (class_info \<Rightarrow> bool) \<Rightarrow> nat \<Rightarrow> str \<Rightarrow> bool" where
  "quiet L P d n \<longleftrightarrow>
     (\<forall>k m c. d + k \<le> max_trait_depth \<longrightarrow> (n, m) \<in> uses_trait L ^^ k \<longrightarrow> load L m = Some c \<longrightarrow> \<not> P c)"

lemma quiet_deep: "max_trait_depth < d \<Longrightarrow> quiet L P d n"
  by (simp add: quiet_def)

lemma quiet_unfold:
  assumes "d \<le> max_trait_depth"
  shows "quiet L P d n \<longleftrightarrow>
    (\<forall>c. load L n = Some c \<longrightarrow> \<not> P c \<and> (\<forall>t \<in> set (used_traits c). quiet L P (Suc d) t))"
proof (intro iffI allI impI conjI ballI)
  fix c assume q: "quiet L P d n" and c: "load L n = Some c"
  show "\<not> P c" using q c assms unfolding quiet_def by (metis add_0_right relpow_0_I)
  fix t assume "t \<in> set (used_traits c)"
  then have "(n, t) \<in> uses_trait L" using c by (auto simp: uses_trait_def)
  then have "(n, m) \<in> uses_trait L ^^ Suc k" if "(t, m) \<in> uses_trait L ^^ k" for m k
    using that by (rule relpow_Suc_I2)
  then show "quiet L P (Suc d) t" using q unfolding quiet_def by (metis add_Suc add_Suc_right)
next
  assume h: "\<forall>c. load L n = Some c \<longrightarrow> \<not> P c \<and> (\<forall>t \<in> set (used_traits c). quiet L P (Suc d) t)"
  show "quiet L P d n"
    unfolding quiet_def
  proof (intro allI impI)
    fix k m c assume k: "d + k \<le> max_trait_depth" "(n, m) \<in> uses_trait L ^^ k" "load L m = Some c"
    show "\<not> P c"
    proof (cases k)
      case 0
      then show ?thesis using k h by simp
    next
      case (Suc k')
      then obtain t where t: "(n, t) \<in> uses_trait L" "(t, m) \<in> uses_trait L ^^ k'"
        using k(2) relpow_Suc_D2 by metis
      then have "quiet L P (Suc d) t" using h by (auto simp: uses_trait_def)
      then show ?thesis using t k Suc unfolding quiet_def by (metis add_Suc add_Suc_right)
    qed
  qed
qed

lemma find_declaring_trait_at_None:
  "find_declaring_trait_at L P d ns = None \<longleftrightarrow> (\<forall>n \<in> set ns. quiet L P d n)"
proof (induction L P d ns rule: find_declaring_trait_at.induct)
  case (2 L P d n ns)
  show ?case
  proof (cases "d \<le> max_trait_depth")
    case False
    then show ?thesis by (simp add: quiet_deep)
  next
    case d: True
    show ?thesis
    proof (cases "load L n")
      case None
      then show ?thesis using 2 d by (simp add: quiet_unfold)
    next
      case (Some c)
      have "find_declaring_trait_at L P (Suc d) (used_traits c) = None \<longleftrightarrow>
          (\<forall>t \<in> set (used_traits c). quiet L P (Suc d) t)" if "\<not> P c"
        using 2(2) [OF _ Some that] d by simp
      moreover have "find_declaring_trait_at L P d ns = None \<longleftrightarrow> (\<forall>n \<in> set ns. quiet L P d n)"
        if "\<not> P c" "find_declaring_trait_at L P (Suc d) (used_traits c) = None"
        using 2(3) [OF _ Some] that d by simp
      ultimately show ?thesis
        using d Some by (auto simp: quiet_unfold [OF d, of L P n] split: option.split)
    qed
  qed
qed simp

lemma find_declaring_trait_at_Some:
  "find_declaring_trait_at L P d ns = Some (m, c) \<Longrightarrow>
     load L m = Some c \<and> P c \<and> m \<in> reached (uses_trait L) ns"
proof (induction L P d ns rule: find_declaring_trait_at.induct)
  case (2 L P d n ns)
  show ?case
  proof (cases "load L n")
    case None
    then show ?thesis using 2 by (auto simp: reached_def split: if_splits)
  next
    case (Some u)
    have "m \<in> reached (uses_trait L) (n # ns)" if "m \<in> reached (uses_trait L) (used_traits u)"
      using that Some unfolding reached_def uses_trait_def
      by (auto intro: converse_rtrancl_into_rtrancl)
    moreover have "n \<in> reached (uses_trait L) (n # ns)" by (auto simp: reached_def)
    moreover have "reached (uses_trait L) ns \<subseteq> reached (uses_trait L) (n # ns)"
      by (auto simp: reached_def)
    ultimately show ?thesis
      using 2 Some by (auto split: if_splits option.splits)
  qed
qed simp

text \<open>
  The trait search finds a declaring trait exactly when one is at most 20 \<open>use\<close> hops
  away, and what it returns is loaded from a name the hops lead to and declares the member.
\<close>

theorem find_declaring_trait_correct:
  "(find_declaring_trait ns L P = None \<longleftrightarrow>
     \<not> (\<exists>n \<in> set ns. \<exists>k \<le> 20. \<exists>m c. (n, m) \<in> uses_trait L ^^ k \<and> load L m = Some c \<and> P c)) \<and>
   (\<forall>m c. find_declaring_trait ns L P = Some (m, c) \<longrightarrow>
     load L m = Some c \<and> P c \<and> m \<in> reached (uses_trait L) ns)"
  using find_declaring_trait_at_None [of L P 0 ns] find_declaring_trait_at_Some [of L P 0 ns]
  by (auto simp: find_declaring_trait_def quiet_def max_trait_depth_def)

theorem find_declaring_trait_correct_witness:
  "let u = (plain_class ''U'' None [])\<lparr>used_traits := [''T'']\<rparr>
   in find_declaring_trait [''T''] example_traits (\<lambda>c. used_traits c = [''T'']) = Some (''U'', u) \<and>
      load example_traits ''U'' = Some u \<and>
      ''U'' \<in> reached (uses_trait example_traits) [''T'']"
proof -
  let ?u = "(plain_class ''U'' None [])\<lparr>used_traits := [''T'']\<rparr>"
  have "find_declaring_trait [''T''] example_traits (\<lambda>c. used_traits c = [''T'']) = Some (''U'', ?u)"
    by code_simp
  then show ?thesis
    using find_declaring_trait_correct
      [where ns = "[''T'']" and L = example_traits and P = "\<lambda>c. used_traits c = [''T'']"]
    by (simp only: Let_def)
qed

text \<open>What one level of the class chain offers: the parent itself, then its traits.\<close>

definition level_hit ::
  "class_loader \<Rightarrow> (class_info \<Rightarrow> bool) \<Rightarrow> str \<times> class_info \<Rightarrow> (str \<times> class_info) option" where
  "level_hit L P np =
     (if P (snd np) then Some np else find_declaring_trait (used_traits (snd np)) L P)"

lemma search_parents_eq:
  "search_parents L P ps is =
     (case find_map (level_hit L P) ps of
        Some found \<Rightarrow> Inl found
      | None \<Rightarrow> Inr (foldl (\<lambda>is i. if i \<in> set is then is else is @ [i]) is
                     (concat (map (\<lambda>(n, p). interfaces p) ps))))"
  by (induction L P ps "is" rule: search_parents.induct)
    (auto simp: level_hit_def split: option.split)

lemma find_declaring_interfaces_sound:
  "fst (find_declaring_interfaces L P d ns vis) = Some (m, c) \<Longrightarrow> load L m = Some c \<and> P c"
  by (induction L P d ns vis rule: find_declaring_interfaces.induct)
    (auto split: if_splits option.splits prod.splits)

lemma ancestors_from_loaded: "(n, c) \<in> set (ancestors_from L d p) \<Longrightarrow> load L n = Some c"
proof (induction L d p rule: ancestors_from.induct)
  case (2 L depth name)
  then show ?case by (cases "load L name") (auto split: if_splits)
qed simp

lemma found_interface_reached:
  "fst (find_declaring_interfaces L P d ns vis) = Some (m, c) \<Longrightarrow> m \<in> reached (extends_iface L) ns"
proof (induction L P d ns vis rule: find_declaring_interfaces.induct)
  case (2 L P depth name names vis)
  have more: "reached (extends_iface L) names \<subseteq> reached (extends_iface L) (name # names)"
    and start: "name \<in> reached (extends_iface L) (name # names)" by (auto simp: reached_def)
  show ?case
  proof (cases "depth > max_inheritance_depth \<or> name \<in> vis")
    case True
    then show ?thesis using 2(1) 2(5) more by auto
  next
    case go: False
    show ?thesis
    proof (cases "load L name")
      case None
      then show ?thesis using 2(2) 2(5) go more by auto
    next
      case (Some iface)
      show ?thesis
      proof (cases "P iface")
        case True
        then show ?thesis using 2(5) go Some start by simp
      next
        case False
        obtain r vis1 where inner:
          "find_declaring_interfaces L P (depth + 1) (iface_parents iface) (insert name vis) = (r, vis1)" by fastforce
        have "(name, k) \<in> extends_iface L" if "k \<in> set (iface_parents iface)" for k
          using that Some by (auto simp: extends_iface_def)
        then have below: "reached (extends_iface L) (iface_parents iface) \<subseteq> reached (extends_iface L) (name # names)"
          by (auto simp: reached_def intro: converse_rtrancl_into_rtrancl)
        show ?thesis
        proof (cases r)
          case None
          then show ?thesis
            using 2(4) [OF go \<open>load L name = Some iface\<close> False] 2(5) go \<open>load L name = Some iface\<close> False inner more
            by (auto simp: iface_parents_def)
        next
          case (Some found)
          then show ?thesis
            using 2(3) [OF go \<open>load L name = Some iface\<close> False] 2(5) go \<open>load L name = Some iface\<close> False inner below
            by (auto simp: iface_parents_def)
        qed
      qed
    qed
  qed
qed simp

text \<open>Every interface a class or one of its parents implements, each followed up its extends chain.\<close>

definition contracts :: "class_info \<Rightarrow> class_loader \<Rightarrow> (str \<times> class_info) set" where
  "contracts cls L = loaded_from L (reached (extends_iface L)
     (interfaces cls @ concat (map (\<lambda>(n, p). interfaces p) (ancestors cls L))))"

lemma gathered_set: "set (foldl (\<lambda>is i. if i \<in> set is then is else is @ [i]) is xs) = set is \<union> set xs"
  by (induction xs arbitrary: "is") auto

lemma no_interface_declares:
  assumes small: "finite (fst ` loaded_from L (reached (extends_iface L) ns))"
      "card (fst ` loaded_from L (reached (extends_iface L) ns)) \<le> 21"
    and none: "fst (find_declaring_interfaces L P 0 ns {}) = None"
    and c: "(n, c) \<in> loaded_from L (reached (extends_iface L) ns)"
  shows "\<not> P c"
proof -
  let ?N = "reached (extends_iface L) ns"
  have "ifaces.leads L = extends_iface L" by (simp add: ifaces.leads_def extends_iface_def)
  then have N: "?N = {m. \<exists>r \<in> set ns. (r, m) \<in> (ifaces.leads L)\<^sup>*}" by (simp add: reached_def)
  have "card (fst ` loaded_from L ?N) \<le> Suc max_inheritance_depth" using small(2) by (simp add: max_inheritance_depth_def)
  from ifaces.walk_lists [OF small(1) this N, of "{}"]
  have listed: "\<forall>(n, c) \<in> set (snd (looked_at L 0 ns ({}, []))). (n, c) \<in> loaded_from L ?N"
    "(\<lambda>(n, c). n) ` set (snd (looked_at L 0 ns ({}, []))) = {n. \<exists>c. (n, c) \<in> loaded_from L ?N}"
    by (force simp: loaded_from_def image_iff)+
  then have "n \<in> (\<lambda>(n, c). n) ` set (snd (looked_at L 0 ns ({}, [])))" using c by blast
  then obtain c' where "(n, c') \<in> set (snd (looked_at L 0 ns ({}, [])))" by auto
  moreover from this have "c' = c" using listed(1) c by (auto simp: loaded_from_def)
  moreover obtain vis where "find_declaring_interfaces L P 0 ns {} = (None, vis)" using none by (metis prod.collapse)
  ultimately show ?thesis using fruitless_search [of L P 0 ns "{}" vis "[]"] by auto
qed


lemma loaded_names_few:
  assumes "length cs \<le> 10"
  shows "finite (fst ` loaded_from (table_loader cs) N) \<and> card (fst ` loaded_from (table_loader cs) N) \<le> 21"
proof -
  let ?names = "map fqn cs @ map (\<lambda>c. backslash # fqn c) cs"
  have fin: "finite (fst ` loaded_from (table_loader cs) N)"
    using finite_subset [OF loaded_names_table] by blast
  have "card (fst ` loaded_from (table_loader cs) N) \<le> card (set ?names)"
    using card_mono [OF _ loaded_names_table] by blast
  also have "\<dots> \<le> length ?names" by (rule card_length)
  finally show ?thesis using fin assms by simp
qed


end
