(* ===== verification/Nominal_Subtyping.thy ===== *)
theory Nominal_Subtyping
  imports Ancestry
begin

section \<open>The nominal subtype walk\<close>

text \<open>
  \<open>is_subclass_of\<close> and \<open>is_subtype_of\<close> of \<open>src/class_lookup/subtyping.rs\<close>: whether a class
  is, extends or implements the class a name stands for.  The interface queue is a vector
  popped at its end, next to the set of names ever queued; the loop ends when no new name
  comes up, so it is a partial function, and that it always ends is proved.
\<close>

definition queue_new :: "str list \<times> str set \<Rightarrow> str \<Rightarrow> str list \<times> str set" where
  "queue_new qv name =
     (if name \<in> snd qv then qv else (fst qv @ [name], insert name (snd qv)))"

partial_function (option) iface_walk ::
  "class_loader \<Rightarrow> str \<Rightarrow> str list \<times> str set \<Rightarrow> bool option" where
  "iface_walk L ancestor qv =
     (if fst qv = [] then Some False
      else if last (fst qv) = ancestor then Some True
      else case load L (last (fst qv)) of
             None \<Rightarrow> iface_walk L ancestor (butlast (fst qv), snd qv)
           | Some iface_info \<Rightarrow>
               iface_walk L ancestor
                 (foldl queue_new (butlast (fst qv), snd qv)
                    (interfaces iface_info @ as_slice (parent_class iface_info))))"

declare iface_walk.simps [code]

text \<open>The walk of one class's own interfaces.\<close>

definition implements_walk :: "class_loader \<Rightarrow> str \<Rightarrow> class_info \<Rightarrow> bool option" where
  "implements_walk L ancestor class =
     iface_walk L ancestor (interfaces class, set (interfaces class))"

function parent_walk ::
  "class_loader \<Rightarrow> str \<Rightarrow> nat \<Rightarrow> str set \<Rightarrow> str option \<Rightarrow> bool option" where
  "parent_walk L ancestor depth visited_parents None = Some False"
| "parent_walk L ancestor depth visited_parents (Some name) =
     (if depth + 1 > 20 then Some False
      else if name = ancestor then Some True
      else case load L name of
             None \<Rightarrow> Some False
           | Some parent_info \<Rightarrow>
               (case implements_walk L ancestor parent_info of
                  None \<Rightarrow> None
                | Some True \<Rightarrow> Some True
                | Some False \<Rightarrow>
                    if fqn parent_info \<in> visited_parents then Some False
                    else parent_walk L ancestor (depth + 1)
                           (insert (fqn parent_info) visited_parents) (parent_class parent_info)))"
  by pat_completeness auto
termination
  by (relation "measure (\<lambda>(L, a, depth, v, cur). 20 - depth)") auto

definition declares_to_string :: "class_info \<Rightarrow> bool" where
  "declares_to_string c = list_ex (\<lambda>m. eq_ignore_ascii_case (m_name m) ''__toString'') (methods c)"

text \<open>The implicit \<open>Stringable\<close> of a class whose traits declare \<open>__toString\<close>.\<close>

definition stringable_by_trait :: "class_loader \<Rightarrow> str \<Rightarrow> class_info \<Rightarrow> bool" where
  "stringable_by_trait L ancestor class =
     (eq_ignore_ascii_case ancestor ''Stringable'' \<and> ci_kind class \<noteq> Interface \<and>
      (find_declaring_trait (used_traits class) L declares_to_string \<noteq> None \<or>
       list_ex (\<lambda>(_, parent). find_declaring_trait (used_traits parent) L declares_to_string \<noteq> None)
         (ancestors class L)))"

definition ancestor_fqn :: "class_loader \<Rightarrow> str \<Rightarrow> str" where
  "ancestor_fqn L ancestor_name =
     (if backslash \<in> set ancestor_name then ancestor_name
      else case load L ancestor_name of Some loaded \<Rightarrow> fqn loaded | None \<Rightarrow> ancestor_name)"

definition is_subtype_of :: "class_info \<Rightarrow> str \<Rightarrow> class_loader \<Rightarrow> bool option" where
  "is_subtype_of class ancestor_name L =
     (let ancestor = ancestor_fqn L ancestor_name in
      if fqn class = ancestor then Some True
      else case implements_walk L ancestor class of
             None \<Rightarrow> None
           | Some True \<Rightarrow> Some True
           | Some False \<Rightarrow>
               (case parent_walk L ancestor 0 {fqn class} (parent_class class) of
                  None \<Rightarrow> None
                | Some True \<Rightarrow> Some True
                | Some False \<Rightarrow> Some (stringable_by_trait L ancestor class)))"

definition is_subclass_of :: "str \<Rightarrow> str \<Rightarrow> class_loader \<Rightarrow> bool option" where
  "is_subclass_of child parent L =
     (if eq_ignore_ascii_case child parent then Some False
      else case load L child of
             Some child_class \<Rightarrow> is_subtype_of child_class parent L
           | None \<Rightarrow> Some False)"

subsection \<open>The queue reaches every interface\<close>

definition iface_edge :: "class_loader \<Rightarrow> (str \<times> str) set" where
  "iface_edge L = {(n, m). \<exists>c. load L n = Some c \<and> m \<in> set (interfaces c @ as_slice (parent_class c))}"

lemma queue_new_fold:
  "snd (foldl queue_new qv ns) = snd qv \<union> set ns"
  "set (fst qv) \<subseteq> set (fst (foldl queue_new qv ns))"
  "set (fst (foldl queue_new qv ns)) \<subseteq> set (fst qv) \<union> set ns"
  "set ns - snd qv \<subseteq> set (fst (foldl queue_new qv ns))"
proof (induction ns arbitrary: qv)
  case (Cons n ns)
  case 1
  show ?case using Cons(1) [of "queue_new qv n"] by (auto simp: queue_new_def)
  case 2
  show ?case using Cons(2) [of "queue_new qv n"] by (auto simp: queue_new_def split: if_splits)
  case 3
  show ?case using Cons(3) [of "queue_new qv n"] by (auto simp: queue_new_def split: if_splits)
  case 4
  show ?case using Cons(2, 4) [of "queue_new qv n"] by (auto simp: queue_new_def split: if_splits)
qed simp_all

lemma queue_new_none: "set ns \<subseteq> snd qv \<Longrightarrow> foldl queue_new qv ns = qv"
  by (induction ns arbitrary: qv) (auto simp: queue_new_def)

text \<open>
  Names that may still come up: those the loaded classes mention.  With a loader that knows
  finitely many classes they are finitely many.
\<close>

definition mentioned :: "class_loader \<Rightarrow> str set" where
  "mentioned L = Range (iface_edge L)"

lemma fqn_new_inverse: "{n. fqn_new n = f} \<subseteq> {f, backslash # f}"
proof
  fix n assume "n \<in> {n. fqn_new n = f}"
  then show "n \<in> {f, backslash # f}" using fqn_new_cases [of n] by auto
qed

lemma finite_mentioned:
  assumes "finite (dom L)"
  shows "finite (mentioned L)"
proof -
  let ?next = "\<lambda>n. case load L n of Some c \<Rightarrow> set (interfaces c @ as_slice (parent_class c)) | None \<Rightarrow> {}"
  have "{n. load L n \<noteq> None} \<subseteq> (\<Union>f \<in> dom L. {n. fqn_new n = f})" by (auto simp: load_def)
  moreover have "finite (\<Union>f \<in> dom L. {n. fqn_new n = f})"
    using assms fqn_new_inverse finite_subset by blast
  ultimately have "finite {n. load L n \<noteq> None}" by (rule finite_subset)
  then have "finite (\<Union>n \<in> {n. load L n \<noteq> None}. ?next n)" by (auto split: option.split)
  moreover have "mentioned L \<subseteq> (\<Union>n \<in> {n. load L n \<noteq> None}. ?next n)"
    by (auto simp: mentioned_def iface_edge_def Range_iff split: option.split)
  ultimately show ?thesis by (rule finite_subset [rotated])
qed

text \<open>What is settled: every queued name but those still in the queue leads only to queued names.\<close>

definition queue_inv :: "class_loader \<Rightarrow> str \<Rightarrow> str list \<Rightarrow> str list \<times> str set \<Rightarrow> bool" where
  "queue_inv L ancestor ns qv \<longleftrightarrow>
     set (fst qv) \<subseteq> snd qv \<and> set ns \<subseteq> snd qv \<and> snd qv \<subseteq> reached (iface_edge L) ns \<and>
     (\<forall>n \<in> snd qv - set (fst qv). n \<noteq> ancestor \<and> (\<forall>m. (n, m) \<in> iface_edge L \<longrightarrow> m \<in> snd qv))"

lemma reached_step: "n \<in> reached R ns \<Longrightarrow> (n, m) \<in> R \<Longrightarrow> m \<in> reached R ns"
  unfolding reached_def by (blast intro: rtrancl_into_rtrancl)

lemma reached_least:
  assumes "set ns \<subseteq> S" "\<And>n m. n \<in> S \<Longrightarrow> (n, m) \<in> R \<Longrightarrow> m \<in> S"
  shows "reached R ns \<subseteq> S"
proof
  fix m assume "m \<in> reached R ns"
  then obtain r where "(r, m) \<in> R\<^sup>*" "r \<in> set ns" by (auto simp: reached_def)
  then show "m \<in> S" by (induction rule: rtrancl_induct) (use assms in blast)+
qed

text \<open>One turn of the loop on a name that is not the one looked for.\<close>

definition queue_turn :: "class_loader \<Rightarrow> str list \<times> str set \<Rightarrow> str list \<times> str set" where
  "queue_turn L qv =
     (case load L (last (fst qv)) of
        None \<Rightarrow> (butlast (fst qv), snd qv)
      | Some c \<Rightarrow> foldl queue_new (butlast (fst qv), snd qv) (interfaces c @ as_slice (parent_class c)))"

lemma queue_turn_inv:
  assumes inv: "queue_inv L ancestor ns qv" and ne: "fst qv \<noteq> []" "last (fst qv) \<noteq> ancestor"
  shows "queue_inv L ancestor ns (queue_turn L qv)"
proof -
  let ?n = "last (fst qv)" and ?q = "butlast (fst qv)"
  have "set (?q @ [?n]) = insert ?n (set ?q)" by auto
  then have q: "set (fst qv) = insert ?n (set ?q)" using ne(1) by simp
  show ?thesis
  proof (cases "load L ?n")
    case None
    then have "queue_turn L qv = (?q, snd qv)" "\<And>m. (?n, m) \<notin> iface_edge L"
      by (simp_all add: queue_turn_def iface_edge_def)
    then show ?thesis using inv q ne(2) unfolding queue_inv_def fst_conv snd_conv
      by simp blast
  next
    case (Some c)
    let ?ds = "interfaces c @ as_slice (parent_class c)"
    let ?w = "foldl queue_new (?q, snd qv) ?ds"
    have edge: "(?n, m) \<in> iface_edge L \<longleftrightarrow> m \<in> set ?ds" for m
      using Some by (auto simp: iface_edge_def)
    note w = queue_new_fold [where qv = "(?q, snd qv)" and ns = ?ds, unfolded fst_conv snd_conv]
    have i1: "set (fst qv) \<subseteq> snd qv" "set ns \<subseteq> snd qv" using inv by (simp_all add: queue_inv_def)
    have "?n \<in> reached (iface_edge L) ns" using inv q by (auto simp: queue_inv_def)
    then have "set ?ds \<subseteq> reached (iface_edge L) ns" using edge reached_step by blast
    then have "snd ?w \<subseteq> reached (iface_edge L) ns" using inv w(1) by (simp add: queue_inv_def)
    moreover have "set (fst ?w) \<subseteq> snd ?w" "set ns \<subseteq> snd ?w"
      using i1 w(1, 3) q by blast+
    moreover have "m \<noteq> ancestor \<and> (\<forall>k. (m, k) \<in> iface_edge L \<longrightarrow> k \<in> snd ?w)"
      if m: "m \<in> snd ?w - set (fst ?w)" for m
    proof (cases "m = ?n")
      case True
      then show ?thesis using edge w(1) ne(2) by blast
    next
      case False
      then have "m \<in> snd qv - set (fst qv)" using m w q by blast
      then show ?thesis using inv w(1) unfolding queue_inv_def by blast
    qed
    ultimately show ?thesis using Some by (simp add: queue_turn_def queue_inv_def)
  qed
qed

lemma queue_turn_decreases:
  assumes "finite (dom L)" "fst qv \<noteq> []"
  shows "(queue_turn L qv, qv) \<in> measures [\<lambda>qv. card (mentioned L - snd qv), \<lambda>qv. length (fst qv)]"
proof (cases "load L (last (fst qv))")
  case None
  then show ?thesis using assms by (simp add: queue_turn_def)
next
  case (Some c)
  let ?ds = "interfaces c @ as_slice (parent_class c)"
  have turn: "queue_turn L qv = foldl queue_new (butlast (fst qv), snd qv) ?ds"
    using Some by (simp add: queue_turn_def)
  show ?thesis
  proof (cases "set ?ds \<subseteq> snd qv")
    case True
    then show ?thesis using assms turn by (simp add: queue_new_none)
  next
    case False
    have "set ?ds \<subseteq> mentioned L"
      using Some by (auto simp: mentioned_def iface_edge_def)
    then have "mentioned L - snd (queue_turn L qv) \<subset> mentioned L - snd qv"
      using False turn queue_new_fold(1) [where qv = "(butlast (fst qv), snd qv)" and ns = ?ds] by auto
    then have "card (mentioned L - snd (queue_turn L qv)) < card (mentioned L - snd qv)"
      using finite_mentioned [OF assms(1)] by (simp add: psubset_card_mono)
    then show ?thesis by simp
  qed
qed

lemma iface_walk_turn:
  "fst qv \<noteq> [] \<Longrightarrow> last (fst qv) \<noteq> ancestor \<Longrightarrow>
     iface_walk L ancestor qv = iface_walk L ancestor (queue_turn L qv)"
  by (subst iface_walk.simps) (simp add: queue_turn_def split: option.split)

lemma iface_walk_correct:
  assumes "finite (dom L)"
  shows "queue_inv L ancestor ns qv \<Longrightarrow>
    iface_walk L ancestor qv = Some (ancestor \<in> reached (iface_edge L) ns)"
proof (induction qv rule: wf_induct_rule
    [OF wf_measures [of "[\<lambda>qv. card (mentioned L - snd qv), \<lambda>qv. length (fst qv)]"]])
  case (1 qv)
  consider "fst qv = []" | "fst qv \<noteq> []" "last (fst qv) = ancestor"
    | "fst qv \<noteq> []" "last (fst qv) \<noteq> ancestor" by blast
  then show ?case
  proof cases
    case 1
    have "reached (iface_edge L) ns \<subseteq> snd qv"
      using 1 \<open>queue_inv L ancestor ns qv\<close> unfolding queue_inv_def by (intro reached_least) auto
    then show ?thesis
      using 1 \<open>queue_inv L ancestor ns qv\<close> by (subst iface_walk.simps) (auto simp: queue_inv_def)
  next
    case 2
    then have "ancestor \<in> reached (iface_edge L) ns"
      using \<open>queue_inv L ancestor ns qv\<close> last_in_set unfolding queue_inv_def by fastforce
    then show ?thesis using 2 by (subst iface_walk.simps) simp
  next
    case 3
    then show ?thesis
      using 1(1) [OF queue_turn_decreases [OF assms 3(1)] queue_turn_inv [OF 1(2) 3]]
        iface_walk_turn [OF 3] by simp
  qed
qed

lemma implements_walk_correct:
  "finite (dom L) \<Longrightarrow>
     implements_walk L ancestor class = Some (ancestor \<in> reached (iface_edge L) (interfaces class))"
  unfolding implements_walk_def
  by (rule iface_walk_correct) (auto simp: queue_inv_def reached_def)

subsection \<open>The chain of parents\<close>

definition parent_edge :: "class_loader \<Rightarrow> (str \<times> str) set" where
  "parent_edge L = {(n, m). \<exists>c. load L n = Some c \<and> parent_class c = Some m}"

definition hits :: "class_loader \<Rightarrow> str \<Rightarrow> str \<Rightarrow> bool" where
  "hits L ancestor n \<longleftrightarrow>
     n = ancestor \<or> (\<exists>p. load L n = Some p \<and> ancestor \<in> reached (iface_edge L) (interfaces p))"

text \<open>The names the next \<open>k\<close> parents are looked at under, from \<open>cur\<close> on.\<close>

definition chain_hit :: "class_loader \<Rightarrow> str \<Rightarrow> nat \<Rightarrow> str option \<Rightarrow> bool" where
  "chain_hit L ancestor left cur \<longleftrightarrow>
     (\<exists>n k m. cur = Some n \<and> k < left \<and> (n, m) \<in> parent_edge L ^^ k \<and> hits L ancestor m)"

lemma chain_hit_None [simp]: "\<not> chain_hit L a k None"
  by (simp add: chain_hit_def)

lemma chain_hit_0 [simp]: "\<not> chain_hit L a 0 cur"
  by (simp add: chain_hit_def)

lemma chain_hit_Suc:
  "chain_hit L a (Suc k) (Some n) \<longleftrightarrow>
     hits L a n \<or> (\<exists>p. load L n = Some p \<and> chain_hit L a k (parent_class p))"
proof
  assume "chain_hit L a (Suc k) (Some n)"
  then obtain j m where j: "j < Suc k" "(n, m) \<in> parent_edge L ^^ j" "hits L a m"
    by (auto simp: chain_hit_def)
  show "hits L a n \<or> (\<exists>p. load L n = Some p \<and> chain_hit L a k (parent_class p))"
  proof (cases j)
    case 0
    then show ?thesis using j by simp
  next
    case (Suc i)
    then obtain x where x: "(n, x) \<in> parent_edge L" "(x, m) \<in> parent_edge L ^^ i"
      using j(2) relpow_Suc_D2 by metis
    then show ?thesis using j Suc unfolding parent_edge_def chain_hit_def by fastforce
  qed
next
  assume "hits L a n \<or> (\<exists>p. load L n = Some p \<and> chain_hit L a k (parent_class p))"
  then show "chain_hit L a (Suc k) (Some n)"
  proof
    assume "hits L a n"
    then show ?thesis unfolding chain_hit_def by (intro exI [of _ n] exI [of _ 0]) auto
  next
    assume "\<exists>p. load L n = Some p \<and> chain_hit L a k (parent_class p)"
    then obtain p x j m where x: "load L n = Some p" "parent_class p = Some x" "j < k"
      "(x, m) \<in> parent_edge L ^^ j" "hits L a m" by (auto simp: chain_hit_def)
    then have "(n, m) \<in> parent_edge L ^^ Suc j"
      by (intro relpow_Suc_I2 [of _ x]) (auto simp: parent_edge_def)
    then show ?thesis using x unfolding chain_hit_def by blast
  qed
qed

text \<open>Names the walk has checked without a match lead to checked names or to the current one.\<close>

definition checked :: "class_loader \<Rightarrow> str \<Rightarrow> str option \<Rightarrow> str set \<Rightarrow> str set \<Rightarrow> bool" where
  "checked L a cur C V \<longleftrightarrow>
     (\<forall>n \<in> C. \<not> hits L a n) \<and>
     (\<forall>n c. load L n = Some c \<longrightarrow> n \<in> C \<or> fqn c \<in> V \<longrightarrow> parent_class c = cur \<or> set_option (parent_class c) \<subseteq> C)"

lemma chain_checked:
  assumes "\<And>n. n \<in> C \<Longrightarrow> \<not> hits L a n"
    and "\<And>n c m. n \<in> C \<Longrightarrow> load L n = Some c \<Longrightarrow> parent_class c = Some m \<Longrightarrow> m \<in> C"
  shows "set_option cur \<subseteq> C \<Longrightarrow> \<not> chain_hit L a k cur"
proof (induction k arbitrary: cur)
  case (Suc k)
  show ?case
  proof (cases cur)
    case (Some n)
    then have n: "n \<in> C" using Suc.prems by simp
    have "\<not> chain_hit L a k (parent_class p)" if "load L n = Some p" for p
      using Suc.IH [of "parent_class p"] assms(2) [OF n that] by (auto simp: subset_iff elim: option.set_cases)
    then show ?thesis using Some assms(1) n by (simp add: chain_hit_Suc)
  qed simp
qed simp

lemma parent_walk_correct:
  assumes fin: "finite (dom L)"
    and one: "\<And>n c m d. load L n = Some c \<Longrightarrow> load L m = Some d \<Longrightarrow> fqn c = fqn d \<Longrightarrow> c = d"
  shows "checked L a cur C V \<Longrightarrow>
    parent_walk L a depth V cur = Some (chain_hit L a (20 - depth) cur)"
proof (induction "20 - depth" arbitrary: depth V cur C)
  case 0
  then show ?case by (cases cur) simp_all
next
  case (Suc k)
  show ?case
  proof (cases cur)
    case (Some name)
    have k: "20 - depth = Suc k" "k = 20 - (depth + 1)" "\<not> 20 < depth + 1" using Suc.hyps by simp_all
    show ?thesis
    proof (cases "load L name")
      case None
      then show ?thesis
        using Some k by (simp add: chain_hit_Suc hits_def)
    next
      case p: (Some p)
      have impl: "implements_walk L a p = Some (a \<in> reached (iface_edge L) (interfaces p))"
        using implements_walk_correct [OF fin] .
      show ?thesis
      proof (cases "hits L a name")
        case True
        then show ?thesis using Some p k impl by (auto simp: chain_hit_Suc hits_def)
      next
        case miss: False
        then have no: "name \<noteq> a" "a \<notin> reached (iface_edge L) (interfaces p)"
          using p by (auto simp: hits_def)
        show ?thesis
        proof (cases "fqn p \<in> V")
          case True
          have "\<not> chain_hit L a (Suc k) cur"
          proof (rule chain_checked [of "insert name C"])
            show "\<not> hits L a n" if "n \<in> insert name C" for n
              using that miss Suc.prems by (auto simp: checked_def)
            show "m \<in> insert name C"
              if "n \<in> insert name C" "load L n = Some c" "parent_class c = Some m" for n c m
              using that p True Suc.prems Some unfolding checked_def by fastforce
          qed (simp add: Some)
          then show ?thesis using Some p k impl no True by simp
        next
          case False
          have "checked L a (parent_class p) (insert name C) (insert (fqn p) V)"
            using Suc.prems miss Some p one [OF _ p] unfolding checked_def by fastforce
          from Suc.hyps(1) [OF k(2) this] show ?thesis
            using Some p k impl no miss False by (simp add: chain_hit_Suc)
        qed
      qed
    qed
  qed simp
qed

text \<open>
  C3. The nominal subtype test always returns, and it answers exactly: a class is a subtype
  of the class a name stands for when it is that class, when its interfaces lead to it
  through any number of \<open>extends\<close> steps, when one of its next 20 parents is it or leads to it
  through interfaces, or by the implicit \<open>Stringable\<close> of a trait.  The loader knows finitely
  many classes, and one name means one class.
\<close>

theorem is_subtype_of_correct:
  fixes cls :: class_info
  assumes "finite (dom L)"
    and "\<And>n c m d. load L n = Some c \<Longrightarrow> load L m = Some d \<Longrightarrow> fqn c = fqn d \<Longrightarrow> c = d"
    and "\<And>n c. load L n = Some c \<Longrightarrow> fqn c = fqn cls \<Longrightarrow> c = cls"
  shows "is_subtype_of cls ancestor_name L =
    Some (let ancestor = ancestor_fqn L ancestor_name in
      fqn cls = ancestor \<or>
      ancestor \<in> reached (iface_edge L) (interfaces cls) \<or>
      (\<exists>parent k m. parent_class cls = Some parent \<and> k < 20 \<and> (parent, m) \<in> parent_edge L ^^ k \<and>
         hits L ancestor m) \<or>
      stringable_by_trait L ancestor cls)"
proof -
  let ?a = "ancestor_fqn L ancestor_name"
  have "checked L ?a (parent_class cls) {} {fqn cls}"
    using assms(3) by (auto simp: checked_def)
  from parent_walk_correct [where depth = 0, OF assms(1, 2) this]
  have walk: "parent_walk L ?a 0 {fqn cls} (parent_class cls) = Some (chain_hit L ?a 20 (parent_class cls))"
    by simp
  show ?thesis
    using implements_walk_correct [OF assms(1), of ?a cls]
    unfolding is_subtype_of_def Let_def walk chain_hit_def
    by (simp split: bool.split) blast
qed

theorem is_subtype_of_correct_witness:
  "is_subtype_of (plain_class ''Dog'' (Some ''Animal'') [''Named'']) ''Named'' example_types = Some True"
proof -
  let ?cs = "[plain_class ''Dog'' (Some ''Animal'') [''Named''], plain_class ''Animal'' None [''Named''],
      plain_class ''Named'' None []]"
  have mem: "c \<in> set ?cs" if "load example_types n = Some c" for n c
    using load_table that unfolding example_types_def by blast
  have fin: "finite (dom example_types)"
    by (simp add: example_types_def table_loader_def finite_dom_map_of)
  have one: "c = d" if "load example_types n = Some c" "load example_types m = Some d" "fqn c = fqn d"
    for n c m d
    using mem [OF that(1)] mem [OF that(2)] that(3) by auto
  have itself: "c = hd ?cs" if "load example_types n = Some c" "fqn c = fqn (hd ?cs)" for n c
    using mem [OF that(1)] that(2) by auto
  have "load example_types ''Named'' = Some (plain_class ''Named'' None [])"
    by (simp add: load_def fqn_new_def strip_prefix_def starts_with_def example_types_def table_loader_def)
  then have a: "ancestor_fqn example_types ''Named'' = ''Named''"
    by (simp add: ancestor_fqn_def)
  have "''Named'' \<in> reached (iface_edge example_types) (interfaces (hd ?cs))"
    by (auto simp: reached_def plain_class_def)
  then show ?thesis
    using is_subtype_of_correct [where cls = "hd ?cs" and ancestor_name = "''Named''", OF fin one itself]
    by (simp add: a)
qed

end
