(* ===== verification/Shape_Keys.thy ===== *)
theory Shape_Keys
  imports Php_Type
begin

section \<open>Array shape keys\<close>

text \<open>
  \<open>src/php_type/shape_keys.rs\<close>: what a key of an \<open>array{...}\<close> shape is at run time.  A key
  may be positional (the next free index), an integer or string spelled out, or a class
  constant.
\<close>

text \<open>\<open>str::rsplit_once("::")\<close>: around the last occurrence.  \<open>str::split\<close> on one character.\<close>

fun rsplit_colons :: "str \<Rightarrow> (str \<times> str) option" where
  "rsplit_colons [] = None"
| "rsplit_colons (c # cs) =
     (case rsplit_colons cs of
        Some (a, b) \<Rightarrow> Some (c # a, b)
      | None \<Rightarrow> if starts_with (c # cs) ''::'' then Some ([], drop 2 (c # cs)) else None)"

fun split_on :: "char \<Rightarrow> str \<Rightarrow> str list" where
  "split_on d [] = [[]]"
| "split_on d (c # cs) =
     (if c = d then [] # split_on d cs
      else case split_on d cs of part # parts \<Rightarrow> (c # part) # parts | [] \<Rightarrow> [[c]])"

definition not_ascii :: "char \<Rightarrow> bool" where
  "not_ascii c = (of_char c \<ge> (128 :: nat))"

definition class_name_shape_key :: "str \<Rightarrow> str" where
  "class_name_shape_key class = class @ ''::class''"

definition name_part_start :: "char \<Rightarrow> bool" where
  "name_part_start c = (is_ascii_alphabetic c \<or> c = CHR ''_'' \<or> not_ascii c)"

definition name_part_char :: "char \<Rightarrow> bool" where
  "name_part_char c = (is_ascii_alphanumeric c \<or> c = CHR ''_'' \<or> not_ascii c)"

definition is_class_name_spelling :: "str \<Rightarrow> bool" where
  "is_class_name_spelling txt =
     (let t = (case strip_prefix txt [backslash] of Some r \<Rightarrow> r | None \<Rightarrow> txt) in
      t \<noteq> [] \<and>
      list_all (\<lambda>part. part \<noteq> [] \<and> name_part_start (hd part) \<and> list_all name_part_char part)
        (split_on backslash t))"

definition class_name_key :: "str \<Rightarrow> str option" where
  "class_name_key key =
     (case rsplit_colons key of
        None \<Rightarrow> None
      | Some (class, constant) \<Rightarrow>
          if eq_ignore_ascii_case constant ''class'' \<and> is_class_name_spelling class
          then Some class else None)"

definition class_constant_key :: "str \<Rightarrow> (str \<times> str) option" where
  "class_constant_key key =
     (case rsplit_colons key of
        None \<Rightarrow> None
      | Some (class, constant) \<Rightarrow>
          if is_class_name_spelling class \<and> is_class_name_spelling constant \<and>
             backslash \<notin> set constant
          then Some (class, constant) else None)"

definition class_member_reference :: "str \<Rightarrow> (str \<times> str) option" where
  "class_member_reference txt =
     (case rsplit_colons txt of
        None \<Rightarrow> None
      | Some (class, member) \<Rightarrow>
          if is_class_name_spelling class \<and>
             (member \<noteq> [] \<and> list_all (\<lambda>c. name_part_char c \<or> c = CHR ''*'') member \<and>
              \<not> is_ascii_digit (hd member))
          then Some (class, member) else None)"

definition is_opaque_shape_key :: "str \<Rightarrow> bool" where
  "is_opaque_shape_key key = (class_name_key key = None \<and> class_constant_key key \<noteq> None)"

text \<open>
  The loop of \<open>runtime_shape_keys\<close>, with its cursor \<open>next\<close> and its flag \<open>shifted\<close>.
  \<open>checked_add\<close> past the largest \<open>i64\<close> makes the whole answer \<open>None\<close>.
\<close>

fun runtime_keys_from :: "int \<Rightarrow> bool \<Rightarrow> 'a shape_entry list \<Rightarrow> str list option" where
  "runtime_keys_from next_key shifted [] = Some []"
| "runtime_keys_from next_key shifted (entry # entries) =
     (case entry_key entry of
        None \<Rightarrow>
          if shifted then None
          else (case checked_add next_key 1 of
                  None \<Rightarrow> None
                | Some next' \<Rightarrow>
                    map_option (\<lambda>ks. show_int next_key # ks)
                      (runtime_keys_from next' (shifted \<or> entry_optional entry) entries))
      | Some key \<Rightarrow>
          (case canonical_int_key key of
             None \<Rightarrow> map_option (\<lambda>ks. key # ks) (runtime_keys_from next_key shifted entries)
           | Some index \<Rightarrow>
               (case checked_add index 1 of
                  None \<Rightarrow> None
                | Some after_index \<Rightarrow>
                    map_option (\<lambda>ks. key # ks)
                      (runtime_keys_from (max next_key after_index)
                         (shifted \<or> entry_optional entry) entries))))"

definition runtime_shape_keys :: "'a shape_entry list \<Rightarrow> str list option" where
  "runtime_shape_keys entries = runtime_keys_from 0 False entries"

subsection \<open>Spelling and reading back\<close>

lemma rsplit_colons_app:
  "rsplit_colons b = None \<Longrightarrow> \<not> starts_with (CHR '':'' # b) ''::'' \<Longrightarrow>
     rsplit_colons (a @ ''::'' @ b) = Some (a, b)"
proof (induction a)
  case Nil
  then show ?case by (simp add: starts_with_def)
qed simp

lemma rsplit_colons_join: "rsplit_colons s = Some (a, b) \<Longrightarrow> s = a @ ''::'' @ b"
proof (induction s arbitrary: a)
  case (Cons c cs)
  show ?case
  proof (cases "rsplit_colons cs")
    case None
    then have "starts_with (c # cs) ''::''" "a = []" "b = drop 2 (c # cs)"
      using Cons.prems by (auto split: if_splits)
    then show ?thesis by (cases cs) (auto simp: starts_with_def)
  next
    case (Some p)
    then show ?thesis using Cons by (cases p) auto
  qed
qed simp

text \<open>
  The key written for \<open>Foo::class\<close> is read back as naming \<open>Foo\<close>, for every spelling of
  a class name, and it is not one of the opaque constant keys.
\<close>

theorem class_name_shape_key_roundtrip:
  assumes "is_class_name_spelling class"
  shows "class_name_key (class_name_shape_key class) = Some class \<and>
    \<not> is_opaque_shape_key (class_name_shape_key class)"
proof -
  have "rsplit_colons (class @ ''::'' @ ''class'') = Some (class, ''class'')"
    by (rule rsplit_colons_app) (simp_all add: starts_with_def)
  then have "class_name_key (class_name_shape_key class) = Some class"
    using assms by (simp add: class_name_key_def class_name_shape_key_def eq_ignore_ascii_case_def)
  then show ?thesis by (simp add: is_opaque_shape_key_def)
qed

theorem class_name_shape_key_roundtrip_witness:
  "class_name_key (class_name_shape_key (''App'' @ backslash # ''User'')) =
     Some (''App'' @ backslash # ''User'')"
proof -
  have "is_class_name_spelling (''App'' @ backslash # ''User'')"
    by (simp add: is_class_name_spelling_def strip_prefix_def starts_with_def name_part_start_def
        name_part_char_def is_ascii_alphabetic_def is_ascii_alphanumeric_def str_eval)
  from class_name_shape_key_roundtrip [OF this] show ?thesis by simp
qed

text \<open>
  The cursor is past every integer key so far, so a positional entry never takes an index
  that is in use.
\<close>

definition fresh_keys :: "int \<Rightarrow> 'a shape_entry list \<Rightarrow> str list \<Rightarrow> bool" where
  "fresh_keys next_key es ks \<longleftrightarrow> length ks = length es \<and>
     (\<forall>i < length es. case entry_key (es ! i) of
        Some key \<Rightarrow> ks ! i = key
      | None \<Rightarrow> \<exists>n \<ge> next_key. ks ! i = show_int n \<and>
          (\<forall>j < i. \<forall>m. canonical_int_key (ks ! j) = Some m \<longrightarrow> m < n))"

lemma fresh_keys_Cons:
  assumes "fresh_keys next' es ks" "next_key \<le> next'"
    and "\<And>m. canonical_int_key k = Some m \<Longrightarrow> m < next'"
    and "case entry_key e of Some key \<Rightarrow> k = key | None \<Rightarrow> k = show_int next_key"
  shows "fresh_keys next_key (e # es) (k # ks)"
  unfolding fresh_keys_def
proof (intro conjI allI impI)
  show "length (k # ks) = length (e # es)" using assms(1) by (simp add: fresh_keys_def)
  fix i assume i: "i < length (e # es)"
  show "case entry_key ((e # es) ! i) of Some key \<Rightarrow> (k # ks) ! i = key
    | None \<Rightarrow> \<exists>n \<ge> next_key. (k # ks) ! i = show_int n \<and>
        (\<forall>j < i. \<forall>m. canonical_int_key ((k # ks) ! j) = Some m \<longrightarrow> m < n)"
  proof (cases i)
    case 0
    then show ?thesis using assms(4) by (auto split: option.splits)
  next
    case (Suc i')
    then have tail: "case entry_key (es ! i') of Some key \<Rightarrow> ks ! i' = key
      | None \<Rightarrow> \<exists>n \<ge> next'. ks ! i' = show_int n \<and>
          (\<forall>j < i'. \<forall>m. canonical_int_key (ks ! j) = Some m \<longrightarrow> m < n)"
      using assms(1) i unfolding fresh_keys_def by simp
    have none: "\<exists>n \<ge> next_key. (k # ks) ! i = show_int n \<and>
        (\<forall>j < i. \<forall>m. canonical_int_key ((k # ks) ! j) = Some m \<longrightarrow> m < n)"
      if "next' \<le> n" "ks ! i' = show_int n"
        and before: "\<forall>j < i'. \<forall>m. canonical_int_key (ks ! j) = Some m \<longrightarrow> m < n" for n
    proof (intro exI [of _ n] conjI allI impI)
      show "next_key \<le> n" "(k # ks) ! i = show_int n" using that assms(2) Suc by simp_all
      fix j m
      assume "j < i" "canonical_int_key ((k # ks) ! j) = Some m"
      then show "m < n" using before assms(3) \<open>next' \<le> n\<close> Suc by (cases j) force+
    qed
    show ?thesis
    proof (cases "entry_key (es ! i')")
      case None
      then obtain n where "next' \<le> n" "ks ! i' = show_int n"
        "\<forall>j < i'. \<forall>m. canonical_int_key (ks ! j) = Some m \<longrightarrow> m < n"
        using tail by auto
      from none [OF this] show ?thesis using None Suc by simp
    next
      case (Some key)
      then show ?thesis using tail Suc by simp
    qed
  qed
qed

lemma runtime_keys_from_fresh:
  "runtime_keys_from next_key shifted es = Some ks \<Longrightarrow> fresh_keys next_key es ks"
proof (induction next_key shifted es arbitrary: ks rule: runtime_keys_from.induct)
  case (1 next_key shifted)
  then show ?case by (simp add: fresh_keys_def)
next
  case (2 next_key shifted e es)
  show ?case
  proof (cases "entry_key e")
    case None
    then obtain ks' where ks: "ks = show_int next_key # ks'" "\<not> shifted"
      "runtime_keys_from (next_key + 1) (shifted \<or> entry_optional e) es = Some ks'"
      "checked_add next_key 1 = Some (next_key + 1)"
      using 2(4) by (auto simp: checked_add_def i64_try_from_def split: if_splits option.splits)
    have "fresh_keys (next_key + 1) es ks'" using 2(1) [OF None ks(2, 4)] ks(3) by simp
    show ?thesis
      unfolding ks(1)
      by (rule fresh_keys_Cons [OF \<open>fresh_keys (next_key + 1) es ks'\<close>])
        (auto simp: canonical_int_key_iff show_int_inject None)
  next
    case (Some key)
    show ?thesis
    proof (cases "canonical_int_key key")
      case None
      then obtain ks' where ks: "ks = key # ks'" "runtime_keys_from next_key shifted es = Some ks'"
        using 2(4) Some by auto
      then show ?thesis
        unfolding ks(1) using 2(2) [OF Some None] Some None
        by (intro fresh_keys_Cons [of next_key]) auto
    next
      case index: (Some index)
      then obtain ks' where ks: "ks = key # ks'" "checked_add index 1 = Some (index + 1)"
        "runtime_keys_from (max next_key (index + 1)) (shifted \<or> entry_optional e) es = Some ks'"
        using 2(4) Some by (auto simp: checked_add_def i64_try_from_def split: if_splits option.splits)
      then show ?thesis
        unfolding ks(1) using 2(3) [OF Some index ks(2)] Some index
        by (intro fresh_keys_Cons [of "max next_key (index + 1)"]) auto
    qed
  qed
qed

text \<open>
  Runtime keys of a shape: every entry gets a key, a spelled key is kept as written, and
  a positional entry gets a non-negative index larger than every integer key before it, as
  PHP's own appends do.
\<close>

theorem runtime_shape_keys_fresh:
  assumes "runtime_shape_keys es = Some ks"
  shows "length ks = length es \<and>
    (\<forall>i < length es. case entry_key (es ! i) of
        Some key \<Rightarrow> ks ! i = key
      | None \<Rightarrow> \<exists>n \<ge> 0. ks ! i = show_int n \<and>
          (\<forall>j < i. \<forall>m. canonical_int_key (ks ! j) = Some m \<longrightarrow> m < n))"
  using runtime_keys_from_fresh assms unfolding runtime_shape_keys_def fresh_keys_def by blast

theorem runtime_shape_keys_fresh_witness:
  "runtime_shape_keys [ShapeEntry (Some ''7'') pt_int False, ShapeEntry None pt_int False] =
     Some [''7'', ''8''] \<and>
   (\<exists>n. ''8'' = show_int n \<and> (\<forall>m. canonical_int_key ''7'' = Some m \<longrightarrow> m < n))"
proof -
  let ?es = "[ShapeEntry (Some ''7'') pt_int False, ShapeEntry None pt_int False]"
  have "show_int 7 = ''7''" "show_int 8 = ''8''"
    by (simp_all add: show_int_def show_nat.simps digit_char_def char_of_eq_iff)
  moreover have i64_seven: "in_i64 7" by (simp add: i64_defs)
  ultimately have "canonical_int_key ''7'' = Some 7" by (metis canonical_int_key_iff i64_seven)
  then have keys: "runtime_shape_keys ?es = Some [''7'', ''8'']"
    using \<open>show_int 8 = ''8''\<close> by (simp add: runtime_shape_keys_def i64_defs)
  from runtime_shape_keys_fresh [OF this, THEN conjunct2, rule_format, of 1]
  obtain n where "''8'' = show_int n" "\<forall>m. canonical_int_key ''7'' = Some m \<longrightarrow> m < n"
    by auto
  with keys show ?thesis by blast
qed

end
