(* ===== verification/Type_Predicates.thy ===== *)
theory Type_Predicates
  imports Shape_Keys
begin

section \<open>Questions about types\<close>

text \<open>
  \<open>src/php_type/predicates.rs\<close>: what a type is.  Each predicate looks at the node \<open>kind\<close>
  gives and goes into the nodes below it, as the methods do.  The ones that rebuild a union
  or compare up to equivalence are in the theories of those operations.
\<close>

definition is_self_ref_name :: "str \<Rightarrow> bool" where
  "is_self_ref_name name =
     (eq_ignore_ascii_case name ''self'' \<or> eq_ignore_ascii_case name ''static'' \<or>
      eq_ignore_ascii_case name ''$this'')"

definition strip_root :: "str \<Rightarrow> str" where
  "strip_root s = (case strip_prefix s [backslash] of Some r \<Rightarrow> r | None \<Rightarrow> s)"

subsection \<open>One node\<close>

definition is_empty_type :: "php_type \<Rightarrow> bool" where
  "is_empty_type t = (case kind t of Raw s \<Rightarrow> s = [] | Named s \<Rightarrow> s = [] | _ \<Rightarrow> False)"

definition is_empty_sentinel :: "php_type \<Rightarrow> bool" where
  "is_empty_sentinel t = (case kind t of Named s \<Rightarrow> s = ''__empty'' | _ \<Rightarrow> False)"

definition is_bare_primitive_scalar :: "php_type \<Rightarrow> bool" where
  "is_bare_primitive_scalar t = (case kind t of Named s \<Rightarrow> is_primitive_scalar_name s | _ \<Rightarrow> False)"

definition is_null :: "php_type \<Rightarrow> bool" where
  "is_null t = (case kind t of Named s \<Rightarrow> eq_ignore_ascii_case s ''null'' | _ \<Rightarrow> False)"

definition is_class_member_reference :: "php_type \<Rightarrow> bool" where
  "is_class_member_reference t =
     (case kind t of
        Raw txt \<Rightarrow> class_member_reference txt \<noteq> None
      | Named name \<Rightarrow> class_member_reference name \<noteq> None
      | _ \<Rightarrow> False)"

definition as_literal :: "php_type \<Rightarrow> literal_value option" where
  "as_literal t = (case kind t of Literal value \<Rightarrow> Some value | _ \<Rightarrow> None)"

definition is_string_literal :: "php_type \<Rightarrow> bool" where
  "is_string_literal t = (case as_literal t of Some (LString _) \<Rightarrow> True | _ \<Rightarrow> False)"

definition is_int_literal :: "php_type \<Rightarrow> bool" where
  "is_int_literal t = (case as_literal t of Some (LInt _) \<Rightarrow> True | _ \<Rightarrow> False)"

definition is_named :: "php_type \<Rightarrow> str \<Rightarrow> bool" where
  "is_named t name = (case kind t of Named n \<Rightarrow> n = name | _ \<Rightarrow> False)"

definition is_named_ci :: "php_type \<Rightarrow> str \<Rightarrow> bool" where
  "is_named_ci t name = (case kind t of Named n \<Rightarrow> eq_ignore_ascii_case n name | _ \<Rightarrow> False)"

definition class_name :: "php_type \<Rightarrow> str option" where
  "class_name t =
     (case kind t of Named name \<Rightarrow> if is_class_like_name name then Some name else None | _ \<Rightarrow> None)"

definition is_self_ref :: "php_type \<Rightarrow> bool" where
  "is_self_ref t = (case kind t of Named s \<Rightarrow> is_self_ref_name s | _ \<Rightarrow> False)"

definition is_empty_array_shape :: "php_type \<Rightarrow> bool" where
  "is_empty_array_shape t = (case kind t of ArrayShape entries \<Rightarrow> entries = [] | _ \<Rightarrow> False)"

definition accepts_empty_array :: "php_type \<Rightarrow> bool" where
  "accepts_empty_array t =
     (let named = (\<lambda>name. with_keyword_lowercase name
                     (\<lambda>lower. lower \<in> set [''array'', ''list'', ''iterable'']))
      in case kind t of
           Array _ \<Rightarrow> True
         | Named name \<Rightarrow> named name
         | Generic g \<Rightarrow> named (g_name g)
         | _ \<Rightarrow> False)"

definition is_bare_array :: "php_type \<Rightarrow> bool" where
  "is_bare_array t = (case kind t of Named s \<Rightarrow> eq_ignore_ascii_case s ''array'' | _ \<Rightarrow> False)"

definition unwrap_nullable :: "php_type \<Rightarrow> php_type" where
  "unwrap_nullable t = (case kind t of Nullable inner \<Rightarrow> inner | _ \<Rightarrow> t)"

definition atomic_members :: "php_type \<Rightarrow> php_type list" where
  "atomic_members t =
     (case kind t of
        UnionT members \<Rightarrow> members
      | Nullable inner \<Rightarrow> [inner, pt_null]
      | _ \<Rightarrow> [t])"

definition unwrap_class_string_inner :: "php_type \<Rightarrow> php_type option" where
  "unwrap_class_string_inner t = (case kind t of ClassString inner \<Rightarrow> inner | _ \<Rightarrow> None)"

definition is_never :: "php_type \<Rightarrow> bool" where
  "is_never t =
     (case kind t of
        Named s \<Rightarrow> to_ascii_lowercase s \<in> set
          [''never'', ''no-return'', ''noreturn'', ''never-return'', ''never-returns'']
      | _ \<Rightarrow> False)"

definition is_mixed :: "php_type \<Rightarrow> bool" where
  "is_mixed t = (case kind t of Named s \<Rightarrow> eq_ignore_ascii_case s ''mixed'' | _ \<Rightarrow> False)"

definition is_void :: "php_type \<Rightarrow> bool" where
  "is_void t = (case kind t of Named s \<Rightarrow> eq_ignore_ascii_case s ''void'' | _ \<Rightarrow> False)"

definition is_keyword :: "php_type \<Rightarrow> bool" where
  "is_keyword t = (case kind t of Named name \<Rightarrow> is_keyword_type name | _ \<Rightarrow> False)"

subsection \<open>Through nullable types and unions\<close>

fun is_bool :: "php_type \<Rightarrow> bool" where
  "is_bool t =
     (case kind t of
        Named s \<Rightarrow> with_keyword_lowercase s (\<lambda>lower. lower \<in> set [''bool'', ''boolean''])
      | Nullable inner \<Rightarrow> is_bool inner
      | _ \<Rightarrow> False)"
declare is_bool.simps [simp del]

fun is_true :: "php_type \<Rightarrow> bool" where
  "is_true t =
     (case kind t of
        Named s \<Rightarrow> eq_ignore_ascii_case s ''true''
      | Nullable inner \<Rightarrow> is_true inner
      | _ \<Rightarrow> False)"
declare is_true.simps [simp del]

fun is_false :: "php_type \<Rightarrow> bool" where
  "is_false t =
     (case kind t of
        Named s \<Rightarrow> eq_ignore_ascii_case s ''false''
      | Nullable inner \<Rightarrow> is_false inner
      | _ \<Rightarrow> False)"
declare is_false.simps [simp del]

fun is_int :: "php_type \<Rightarrow> bool" where
  "is_int t =
     (case kind t of
        Named s \<Rightarrow> with_keyword_lowercase s (\<lambda>lower. lower \<in> set [''int'', ''integer''])
      | Nullable inner \<Rightarrow> is_int inner
      | _ \<Rightarrow> False)"
declare is_int.simps [simp del]

fun is_string_type :: "php_type \<Rightarrow> bool" where
  "is_string_type t =
     (case kind t of
        Named s \<Rightarrow> eq_ignore_ascii_case s ''string''
      | Nullable inner \<Rightarrow> is_string_type inner
      | _ \<Rightarrow> False)"
declare is_string_type.simps [simp del]

fun is_float :: "php_type \<Rightarrow> bool" where
  "is_float t =
     (case kind t of
        Named s \<Rightarrow> with_keyword_lowercase s (\<lambda>lower. lower \<in> set [''float'', ''double'', ''real''])
      | Nullable inner \<Rightarrow> is_float inner
      | _ \<Rightarrow> False)"
declare is_float.simps [simp del]

fun is_object :: "php_type \<Rightarrow> bool" where
  "is_object t =
     (case kind t of
        Named s \<Rightarrow> eq_ignore_ascii_case s ''object''
      | Nullable inner \<Rightarrow> is_object inner
      | _ \<Rightarrow> False)"
declare is_object.simps [simp del]

fun is_array_key :: "php_type \<Rightarrow> bool" where
  "is_array_key t =
     (case kind t of
        Named s \<Rightarrow> eq_ignore_ascii_case s ''array-key''
      | Nullable inner \<Rightarrow> is_array_key inner
      | _ \<Rightarrow> False)"
declare is_array_key.simps [simp del]

fun is_iterable :: "php_type \<Rightarrow> bool" where
  "is_iterable t =
     (case kind t of
        Named s \<Rightarrow> eq_ignore_ascii_case s ''iterable''
      | Nullable inner \<Rightarrow> is_iterable inner
      | _ \<Rightarrow> False)"
declare is_iterable.simps [simp del]

fun is_resource :: "php_type \<Rightarrow> bool" where
  "is_resource t =
     (case kind t of
        Named s \<Rightarrow> s = ''resource''
      | Nullable inner \<Rightarrow> is_resource inner
      | _ \<Rightarrow> False)"
declare is_resource.simps [simp del]

fun is_callable :: "php_type \<Rightarrow> bool" where
  "is_callable t =
     (case kind t of
        Named s \<Rightarrow> eq_ignore_ascii_case (strip_root s) ''callable'' \<or>
          eq_ignore_ascii_case (strip_root s) ''Closure''
      | Callable _ \<Rightarrow> True
      | Nullable inner \<Rightarrow> is_callable inner
      | _ \<Rightarrow> False)"
declare is_callable.simps [simp del]

fun is_closure :: "php_type \<Rightarrow> bool" where
  "is_closure t =
     (case kind t of
        Named s \<Rightarrow> eq_ignore_ascii_case (strip_root s) ''Closure''
      | Callable c \<Rightarrow> callable_is_closure c
      | Nullable inner \<Rightarrow> is_closure inner
      | _ \<Rightarrow> False)"
declare is_closure.simps [simp del]

fun is_primitive_scalar :: "php_type \<Rightarrow> bool" where
  "is_primitive_scalar t =
     (case kind t of
        Named s \<Rightarrow> is_primitive_scalar_name s
      | Nullable inner \<Rightarrow> is_primitive_scalar inner
      | Generic g \<Rightarrow> is_primitive_scalar_name (g_name g)
      | Array _ \<Rightarrow> True
      | ArrayShape _ \<Rightarrow> True
      | Callable c \<Rightarrow> \<not> callable_is_closure c
      | IntRange _ _ \<Rightarrow> True
      | Literal _ \<Rightarrow> True
      | Raw _ \<Rightarrow> False
      | _ \<Rightarrow> False)"
declare is_primitive_scalar.simps [simp del]

fun accepts_null :: "php_type \<Rightarrow> bool" where
  "accepts_null t =
     (case kind t of
        Nullable _ \<Rightarrow> True
      | UnionT members \<Rightarrow> list_ex accepts_null members
      | Named s \<Rightarrow> eq_ignore_ascii_case s ''null'' \<or> eq_ignore_ascii_case s ''mixed''
      | _ \<Rightarrow> False)"
declare accepts_null.simps [simp del]

fun has_null_member :: "php_type \<Rightarrow> bool" where
  "has_null_member t =
     (case kind t of
        Nullable _ \<Rightarrow> True
      | UnionT members \<Rightarrow> list_ex has_null_member members
      | _ \<Rightarrow> is_null t)"
declare has_null_member.simps [simp del]

fun contains_mixed :: "php_type \<Rightarrow> bool" where
  "contains_mixed t =
     (is_mixed t \<or>
      (case kind t of
         UnionT members \<Rightarrow> list_ex contains_mixed members
       | Nullable inner \<Rightarrow> contains_mixed inner
       | _ \<Rightarrow> False))"
declare contains_mixed.simps [simp del]

fun is_string_subtype :: "php_type \<Rightarrow> bool" where
  "is_string_subtype t =
     (case kind t of
        Named s \<Rightarrow> to_ascii_lowercase s \<in> set (''string'' # string_refinement @ [''view-string''])
      | ClassString _ \<Rightarrow> True
      | InterfaceString _ \<Rightarrow> True
      | Literal l \<Rightarrow> (case l of LString _ \<Rightarrow> True | _ \<Rightarrow> False)
      | Nullable inner \<Rightarrow> is_string_subtype inner
      | Generic g \<Rightarrow> to_ascii_lowercase (g_name g) \<in> set
          [''class-string'', ''interface-string'', ''enum-string'', ''trait-string'', ''model-property'']
      | UnionT members \<Rightarrow> members \<noteq> [] \<and> list_all is_string_subtype members
      | Intersection members \<Rightarrow> list_ex is_string_subtype members
      | _ \<Rightarrow> False)"
declare is_string_subtype.simps [simp del]

fun is_view_string :: "php_type \<Rightarrow> bool" where
  "is_view_string t =
     (case kind t of
        Named name \<Rightarrow> eq_ignore_ascii_case name ''view-string''
      | Nullable inner \<Rightarrow> is_view_string inner
      | UnionT members \<Rightarrow>
          list_ex is_view_string members \<and>
          \<not> list_ex (\<lambda>m. \<not> is_view_string m \<and> is_string_subtype m) members
      | _ \<Rightarrow> False)"
declare is_view_string.simps [simp del]

fun is_int_subtype :: "php_type \<Rightarrow> bool" where
  "is_int_subtype t =
     (case kind t of
        Named s \<Rightarrow> with_keyword_lowercase s
          (\<lambda>lower. lower \<in> set ([''int'', ''integer''] @ int_refinement))
      | IntRange _ _ \<Rightarrow> True
      | Literal l \<Rightarrow> (case l of LInt _ \<Rightarrow> True | _ \<Rightarrow> False)
      | Nullable inner \<Rightarrow> is_int_subtype inner
      | UnionT members \<Rightarrow> members \<noteq> [] \<and> list_all is_int_subtype members
      | _ \<Rightarrow> False)"
declare is_int_subtype.simps [simp del]

fun is_float_subtype :: "php_type \<Rightarrow> bool" where
  "is_float_subtype t =
     (case kind t of
        Literal l \<Rightarrow> (case l of LFloat _ \<Rightarrow> True | _ \<Rightarrow> False)
      | UnionT members \<Rightarrow> members \<noteq> [] \<and> list_all is_float_subtype members
      | _ \<Rightarrow> is_float t)"
declare is_float_subtype.simps [simp del]

fun is_int_coercible_key :: "php_type \<Rightarrow> bool" where
  "is_int_coercible_key t =
     (case kind t of
        Named s \<Rightarrow> s = ''number'' \<or> with_keyword_lowercase s
          (\<lambda>lower. lower \<in> set ([''int'', ''integer'', ''float'', ''double'', ''real'', ''bool'',
              ''boolean'', ''true'', ''false''] @ int_refinement))
      | Literal l \<Rightarrow> (case l of LInt _ \<Rightarrow> True | LFloat _ \<Rightarrow> True | _ \<Rightarrow> False)
      | IntRange _ _ \<Rightarrow> True
      | UnionT members \<Rightarrow> members \<noteq> [] \<and> list_all is_int_coercible_key members
      | _ \<Rightarrow> False)"
declare is_int_coercible_key.simps [simp del]

fun is_parent_ref :: "php_type \<Rightarrow> bool" where
  "is_parent_ref t =
     (case kind t of
        Named s \<Rightarrow> eq_ignore_ascii_case s ''parent''
      | Generic g \<Rightarrow> eq_ignore_ascii_case (g_name g) ''parent''
      | Nullable inner \<Rightarrow> is_parent_ref inner
      | UnionT members \<Rightarrow> list_ex (\<lambda>m. \<not> is_null m) members \<and>
          list_all (\<lambda>m. is_null m \<or> is_parent_ref m) members
      | _ \<Rightarrow> False)"
declare is_parent_ref.simps [simp del]

fun is_late_static_bound :: "php_type \<Rightarrow> bool" where
  "is_late_static_bound t =
     (case kind t of
        Named s \<Rightarrow> eq_ignore_ascii_case s ''static'' \<or> s = ''$this''
      | Nullable inner \<Rightarrow> is_late_static_bound inner
      | UnionT members \<Rightarrow> list_ex (\<lambda>m. \<not> is_null m) members \<and>
          list_all (\<lambda>m. is_null m \<or> is_late_static_bound m) members
      | _ \<Rightarrow> False)"
declare is_late_static_bound.simps [simp del]

fun is_self_like :: "php_type \<Rightarrow> bool" where
  "is_self_like t =
     (case kind t of
        Named s \<Rightarrow> is_self_ref t \<or> eq_ignore_ascii_case s ''parent''
      | Generic g \<Rightarrow> is_self_ref_name (g_name g) \<or> eq_ignore_ascii_case (g_name g) ''parent''
      | Nullable inner \<Rightarrow> is_self_like inner
      | UnionT members \<Rightarrow> list_ex (\<lambda>m. \<not> is_null m) members \<and>
          list_all (\<lambda>m. is_null m \<or> is_self_like m) members
      | _ \<Rightarrow> False)"
declare is_self_like.simps [simp del]

fun is_array_like :: "php_type \<Rightarrow> bool" where
  "is_array_like t =
     (case kind t of
        Named s \<Rightarrow> is_array_like_name s
      | Generic g \<Rightarrow> is_array_like_name (g_name g)
      | Array _ \<Rightarrow> True
      | ArrayShape _ \<Rightarrow> True
      | Nullable inner \<Rightarrow> is_array_like inner
      | _ \<Rightarrow> False)"
declare is_array_like.simps [simp del]

fun is_object_like :: "php_type \<Rightarrow> bool" where
  "is_object_like t =
     (case kind t of
        Named s \<Rightarrow> eq_ignore_ascii_case s ''object'' \<or> \<not> is_scalar_name s
      | Generic g \<Rightarrow> \<not> is_scalar_name (g_name g)
      | ObjectShape _ \<Rightarrow> True
      | StaticType s \<Rightarrow> \<not> is_scalar_name s
      | ThisType s \<Rightarrow> \<not> is_scalar_name s
      | Nullable inner \<Rightarrow> is_object_like inner
      | _ \<Rightarrow> False)"
declare is_object_like.simps [simp del]

fun is_scalar :: "php_type \<Rightarrow> bool" where
  "is_scalar t =
     (case kind t of
        Named s \<Rightarrow> is_scalar_name s
      | Nullable inner \<Rightarrow> is_scalar inner
      | Generic g \<Rightarrow> is_scalar_name (g_name g)
      | Array _ \<Rightarrow> True
      | ArrayShape _ \<Rightarrow> True
      | ObjectShape _ \<Rightarrow> True
      | Callable _ \<Rightarrow> True
      | ClassString _ \<Rightarrow> True
      | InterfaceString _ \<Rightarrow> True
      | KeyOf _ \<Rightarrow> True
      | ValueOf _ \<Rightarrow> True
      | IntRange _ _ \<Rightarrow> True
      | Literal _ \<Rightarrow> True
      | _ \<Rightarrow> False)"
declare is_scalar.simps [simp del]

fun is_scalar_leaf :: "php_type \<Rightarrow> bool" where
  "is_scalar_leaf t =
     (case kind t of
        Generic g \<Rightarrow> is_scalar_name (g_name g) \<and> list_all is_scalar_leaf (g_args g)
      | Array inner \<Rightarrow> is_scalar_leaf inner
      | Nullable inner \<Rightarrow> is_scalar_leaf inner
      | ArrayShape entries \<Rightarrow> list_all (\<lambda>e. is_scalar_leaf (value_type e)) entries
      | ObjectShape entries \<Rightarrow> list_all (\<lambda>e. is_scalar_leaf (value_type e)) entries
      | _ \<Rightarrow> is_scalar t)"
declare is_scalar_leaf.simps [simp del]

fun base_name :: "php_type \<Rightarrow> str option" where
  "base_name t =
     (case kind t of
        Named s \<Rightarrow> if \<not> is_scalar_name s then Some (strip_root s) else None
      | StaticType s \<Rightarrow> Some (strip_root s)
      | ThisType s \<Rightarrow> Some (strip_root s)
      | Generic g \<Rightarrow> if \<not> is_scalar_name (g_name g) then Some (strip_root (g_name g)) else None
      | Nullable inner \<Rightarrow> base_name inner
      | _ \<Rightarrow> None)"
declare base_name.simps [simp del]

definition all_members_scalar :: "php_type \<Rightarrow> bool" where
  "all_members_scalar t =
     (case kind t of
        UnionT members \<Rightarrow> list_all is_scalar (filter (\<lambda>m. \<not> is_null m) members)
      | Nullable inner \<Rightarrow> is_scalar inner
      | _ \<Rightarrow> is_scalar t)"

definition all_members_primitive_scalar :: "php_type \<Rightarrow> bool" where
  "all_members_primitive_scalar t =
     (case kind t of
        UnionT members \<Rightarrow> list_all is_primitive_scalar (filter (\<lambda>m. \<not> is_null m) members)
      | Nullable inner \<Rightarrow> is_primitive_scalar inner
      | _ \<Rightarrow> is_primitive_scalar t)"

fun has_type_structure :: "php_type \<Rightarrow> bool" where
  "has_type_structure t =
     (case kind t of
        Named _ \<Rightarrow> False
      | Raw _ \<Rightarrow> False
      | Nullable inner \<Rightarrow> has_type_structure inner
      | UnionT members \<Rightarrow> list_ex has_type_structure members
      | Intersection members \<Rightarrow> list_ex has_type_structure members
      | _ \<Rightarrow> True)"
declare has_type_structure.simps [simp del]

fun has_type_parameters :: "php_type \<Rightarrow> bool" where
  "has_type_parameters t =
     (case kind t of
        Generic _ \<Rightarrow> True
      | Array _ \<Rightarrow> True
      | Nullable inner \<Rightarrow> has_type_parameters inner
      | UnionT members \<Rightarrow> list_ex has_type_parameters members
      | Intersection members \<Rightarrow> list_ex has_type_parameters members
      | _ \<Rightarrow> False)"
declare has_type_parameters.simps [simp del]

subsection \<open>Through the whole type\<close>

fun contains_conditional :: "php_type \<Rightarrow> bool" where
  "contains_conditional t =
     (case kind t of
        Conditional _ \<Rightarrow> True
      | Nullable inner \<Rightarrow> contains_conditional inner
      | Array inner \<Rightarrow> contains_conditional inner
      | ClassString (Some inner) \<Rightarrow> contains_conditional inner
      | InterfaceString (Some inner) \<Rightarrow> contains_conditional inner
      | KeyOf inner \<Rightarrow> contains_conditional inner
      | ValueOf inner \<Rightarrow> contains_conditional inner
      | UnionT members \<Rightarrow> list_ex contains_conditional members
      | Intersection members \<Rightarrow> list_ex contains_conditional members
      | Generic g \<Rightarrow> list_ex contains_conditional (g_args g)
      | ArrayShape entries \<Rightarrow> list_ex (\<lambda>e. contains_conditional (value_type e)) entries
      | ObjectShape entries \<Rightarrow> list_ex (\<lambda>e. contains_conditional (value_type e)) entries
      | Callable c \<Rightarrow> list_ex (\<lambda>p. contains_conditional (type_hint p)) (params c) \<or>
          (case return_type c of Some r \<Rightarrow> contains_conditional r | None \<Rightarrow> False)
      | IndexAccess base index \<Rightarrow> contains_conditional base \<or> contains_conditional index
      | _ \<Rightarrow> False)"
declare contains_conditional.simps [simp del]

fun contains_unevaluated :: "bool \<Rightarrow> php_type \<Rightarrow> bool" where
  "contains_unevaluated references t =
     (case kind t of
        KeyOf _ \<Rightarrow> True
      | ValueOf _ \<Rightarrow> True
      | IndexAccess _ _ \<Rightarrow> True
      | Raw _ \<Rightarrow> references \<and> is_class_member_reference t
      | Named _ \<Rightarrow> references \<and> is_class_member_reference t
      | Nullable inner \<Rightarrow> contains_unevaluated references inner
      | Array inner \<Rightarrow> contains_unevaluated references inner
      | ClassString (Some inner) \<Rightarrow> contains_unevaluated references inner
      | InterfaceString (Some inner) \<Rightarrow> contains_unevaluated references inner
      | UnionT members \<Rightarrow> list_ex (contains_unevaluated references) members
      | Intersection members \<Rightarrow> list_ex (contains_unevaluated references) members
      | Generic g \<Rightarrow> list_ex (contains_unevaluated references) (g_args g)
      | ArrayShape entries \<Rightarrow> list_ex (\<lambda>e. contains_unevaluated references (value_type e)) entries
      | ObjectShape entries \<Rightarrow> list_ex (\<lambda>e. contains_unevaluated references (value_type e)) entries
      | Callable c \<Rightarrow> list_ex (\<lambda>p. contains_unevaluated references (type_hint p)) (params c) \<or>
          (case return_type c of Some r \<Rightarrow> contains_unevaluated references r | None \<Rightarrow> False)
      | Conditional c \<Rightarrow> contains_unevaluated references (condition c) \<or>
          contains_unevaluated references (then_type c) \<or>
          contains_unevaluated references (else_type c)
      | _ \<Rightarrow> False)"
declare contains_unevaluated.simps [simp del]

definition contains_unevaluated_operator :: "php_type \<Rightarrow> bool" where
  "contains_unevaluated_operator t = contains_unevaluated True t"

definition contains_type_operator :: "php_type \<Rightarrow> bool" where
  "contains_type_operator t = contains_unevaluated False t"

text \<open>\<open>push_operand\<close> on an operand whose own operands are \<open>inner\<close>.\<close>

definition push_operand :: "php_type \<Rightarrow> str list \<Rightarrow> str list" where
  "push_operand operand inner =
     (case kind operand of Named name \<Rightarrow> [name] | Raw txt \<Rightarrow> [txt] | _ \<Rightarrow> inner)"

text \<open>The names pushed to \<open>out\<close>, in order.\<close>

fun unevaluated_operator_operands :: "php_type \<Rightarrow> str list" where
  "unevaluated_operator_operands t =
     (case kind t of
        KeyOf operand \<Rightarrow> push_operand operand (unevaluated_operator_operands operand)
      | ValueOf operand \<Rightarrow> push_operand operand (unevaluated_operator_operands operand)
      | IndexAccess base index \<Rightarrow>
          push_operand base (unevaluated_operator_operands base) @
          unevaluated_operator_operands index
      | Nullable inner \<Rightarrow> unevaluated_operator_operands inner
      | Array inner \<Rightarrow> unevaluated_operator_operands inner
      | ClassString (Some inner) \<Rightarrow> unevaluated_operator_operands inner
      | InterfaceString (Some inner) \<Rightarrow> unevaluated_operator_operands inner
      | UnionT members \<Rightarrow> concat (map unevaluated_operator_operands members)
      | Intersection members \<Rightarrow> concat (map unevaluated_operator_operands members)
      | Generic g \<Rightarrow> concat (map unevaluated_operator_operands (g_args g))
      | ArrayShape entries \<Rightarrow> concat (map (\<lambda>e. unevaluated_operator_operands (value_type e)) entries)
      | ObjectShape entries \<Rightarrow> concat (map (\<lambda>e. unevaluated_operator_operands (value_type e)) entries)
      | Callable c \<Rightarrow>
          concat (map (\<lambda>p. unevaluated_operator_operands (type_hint p)) (params c)) @
          (case return_type c of Some r \<Rightarrow> unevaluated_operator_operands r | None \<Rightarrow> [])
      | Conditional c \<Rightarrow>
          unevaluated_operator_operands (condition c) @
          unevaluated_operator_operands (then_type c) @
          unevaluated_operator_operands (else_type c)
      | _ \<Rightarrow> [])"
declare unevaluated_operator_operands.simps [simp del]

text \<open>
  The last two match on the node itself, markers included.  \<open>contains('<')\<close> and the like
  are membership of the byte.
\<close>

fun is_informative :: "php_type \<Rightarrow> bool" where
  "is_informative (Benevolent inner) = is_informative inner"
| "is_informative (ListShape inner) = is_informative inner"
| "is_informative (ClassNameLiteral inner) = is_informative inner"
| "is_informative (EnumCase inner _) = is_informative inner"
| "is_informative (DqlBuilder inner _) = is_informative inner"
| "is_informative (UnionT members) = list_ex is_informative members"
| "is_informative (Nullable inner) = is_informative inner"
| "is_informative (Intersection members) = list_ex is_informative members"
| "is_informative (Named s) =
     (let t = Named s in
      \<not> (is_bare_array t \<or> is_mixed t \<or> is_object t \<or> is_void t \<or> is_null t \<or> is_self_like t))"
| "is_informative (Raw s) =
     (CHR ''<'' \<in> set s \<or> CHR ''{'' \<in> set s \<or> ends_with s ''[]'')"
| "is_informative _ = True"

fun references_any_template_param :: "str list \<Rightarrow> php_type \<Rightarrow> bool" where
  "references_any_template_param ps t =
     (if ps = [] then False
      else case t of
        Benevolent inner \<Rightarrow> references_any_template_param ps inner
      | ListShape inner \<Rightarrow> references_any_template_param ps inner
      | ClassNameLiteral inner \<Rightarrow> references_any_template_param ps inner
      | EnumCase inner _ \<Rightarrow> references_any_template_param ps inner
      | DqlBuilder inner _ \<Rightarrow> references_any_template_param ps inner
      | UnsealedShape u \<Rightarrow> references_any_template_param ps (us_widened u)
      | Named name \<Rightarrow> name \<in> set ps
      | TemplateParam name bound \<Rightarrow> name \<in> set ps \<or> references_any_template_param ps bound
      | Nullable inner \<Rightarrow> references_any_template_param ps inner
      | UnionT members \<Rightarrow> list_ex (references_any_template_param ps) members
      | Intersection members \<Rightarrow> list_ex (references_any_template_param ps) members
      | Generic g \<Rightarrow> g_name g \<in> set ps \<or> list_ex (references_any_template_param ps) (g_args g)
      | Array inner \<Rightarrow> references_any_template_param ps inner
      | ClassString (Some inner) \<Rightarrow> references_any_template_param ps inner
      | InterfaceString (Some inner) \<Rightarrow> references_any_template_param ps inner
      | KeyOf inner \<Rightarrow> references_any_template_param ps inner
      | ValueOf inner \<Rightarrow> references_any_template_param ps inner
      | Conditional c \<Rightarrow> references_any_template_param ps (condition c) \<or>
          references_any_template_param ps (then_type c) \<or>
          references_any_template_param ps (else_type c)
      | Callable c \<Rightarrow>
          list_ex (\<lambda>p. references_any_template_param ps (type_hint p)) (params c) \<or>
          (case return_type c of Some r \<Rightarrow> references_any_template_param ps r | None \<Rightarrow> False)
      | ArrayShape entries \<Rightarrow> list_ex (\<lambda>e. references_any_template_param ps (value_type e)) entries
      | ObjectShape entries \<Rightarrow> list_ex (\<lambda>e. references_any_template_param ps (value_type e)) entries
      | IndexAccess base index \<Rightarrow>
          references_any_template_param ps base \<or> references_any_template_param ps index
      | _ \<Rightarrow> False)"
declare references_any_template_param.simps [simp del]

subsection \<open>How the answers relate\<close>

lemma list_ex_or: "list_ex (\<lambda>x. P x \<or> Q x) xs \<longleftrightarrow> list_ex P xs \<or> list_ex Q xs"
  by (induction xs) auto

text \<open>
  A type accepts null exactly when null is one of its alternatives or \<open>mixed\<close> is, at any
  depth of unions.
\<close>

theorem accepts_null_iff: "accepts_null t \<longleftrightarrow> has_null_member t \<or> contains_mixed t"
proof (induction t rule: kind_induct)
  case (node t)
  show ?case
  proof (cases "kind t")
    case (UnionT ms)
    then have "list_ex accepts_null ms = list_ex (\<lambda>m. has_null_member m \<or> contains_mixed m) ms"
      using node by (intro list_ex_cong) simp_all
    then show ?thesis
      using UnionT by (simp add: accepts_null.simps [of t] has_null_member.simps [of t]
          contains_mixed.simps [of t] is_mixed_def list_ex_or)
  qed (auto simp: accepts_null.simps [of t] has_null_member.simps [of t]
      contains_mixed.simps [of t] is_mixed_def is_null_def)
qed

lemma kw_lower:
  assumes "keyword_key s \<in> set kws" "list_all (\<lambda>k. k \<noteq> [] \<and> to_ascii_lowercase k = k) kws"
  shows "to_ascii_lowercase s \<in> set kws"
  using keyword_key_cases [of s] assms by (auto simp: list_all_iff)

definition int_names :: "str list" where
  "int_names = [''int'', ''integer''] @ int_refinement"

definition string_names :: "str list" where
  "string_names = ''string'' # string_refinement @ [''view-string'']"

definition float_names :: "str list" where
  "float_names = [''float'', ''double'', ''real'']"

lemma type_names_lower:
  "list_all (\<lambda>k. k \<noteq> [] \<and> to_ascii_lowercase k = k) int_names"
  "list_all (\<lambda>k. k \<noteq> [] \<and> to_ascii_lowercase k = k) float_names"
  by (simp_all add: int_names_def float_names_def keyword_eval)

lemma type_names_disjoint:
  "list_all (\<lambda>k. k \<notin> set string_names \<and> k \<notin> set float_names) int_names"
  "list_all (\<lambda>k. k \<notin> set float_names) string_names"
  by (simp_all add: int_names_def float_names_def string_names_def int_refinement_def
      string_refinement_def)

lemma subtype_name_cases:
  "kind t = Named s \<Longrightarrow> is_int_subtype t \<Longrightarrow> to_ascii_lowercase s \<in> set int_names"
  "kind t = Named s \<Longrightarrow> is_string_subtype t \<Longrightarrow> to_ascii_lowercase s \<in> set string_names"
  "kind t = Named s \<Longrightarrow> is_float_subtype t \<Longrightarrow> to_ascii_lowercase s \<in> set float_names"
  using kw_lower [OF _ type_names_lower(1)] kw_lower [OF _ type_names_lower(2)]
  by (simp_all only: is_int_subtype.simps [of t] is_string_subtype.simps [of t]
      is_float_subtype.simps [of t] is_float.simps [of t] php_type.case with_keyword_lowercase_key
      int_names_def string_names_def float_names_def)

lemma float_subtype: "is_float t \<Longrightarrow> is_float_subtype t"
  by (cases "kind t") (simp_all add: is_float_subtype.simps [of t] is_float.simps [of t])

text \<open>
  The three value families the checks sort scalars into do not overlap: no type is at
  once an integer and a string subtype, an integer and a float subtype, or a string and a
  float subtype.
\<close>

theorem scalar_families_disjoint:
  "\<not> (is_int_subtype t \<and> is_string_subtype t) \<and>
   \<not> (is_int_subtype t \<and> is_float_subtype t) \<and>
   \<not> (is_string_subtype t \<and> is_float_subtype t)"
proof (induction t rule: kind_induct)
  case (node t)
  note eqs = is_int_subtype.simps [of t] is_string_subtype.simps [of t]
    is_float_subtype.simps [of t] is_float.simps [of t]
  show ?case
  proof (cases "kind t")
    case (Named s)
    then show ?thesis
      using subtype_name_cases [OF Named] type_names_disjoint unfolding list_all_iff by blast
  next
    case (UnionT ms)
    then show ?thesis using node by (cases ms) (auto simp: eqs)
  next
    case (Nullable i)
    have "is_float_subtype i" if "is_float_subtype t"
      using that Nullable float_subtype [of i] by (simp add: eqs)
    then show ?thesis using node Nullable by (auto simp: eqs)
  next
    case (Literal l)
    then show ?thesis by (cases l) (simp_all add: eqs)
  qed (simp_all add: eqs)
qed

text \<open>
  What counts as scalar names no class: a scalar leaf is a scalar, and no base class name
  is read off a scalar.
\<close>

theorem scalar_names_no_class:
  "(is_scalar_leaf t \<longrightarrow> is_scalar t) \<and> (is_scalar t \<longrightarrow> base_name t = None)"
proof (induction t rule: kind_induct)
  case (node t)
  note eqs = is_scalar_leaf.simps [of t] is_scalar.simps [of t] base_name.simps [of t]
  show ?case
  proof (cases "kind t")
    case (Nullable i)
    then show ?thesis using node by (simp add: eqs)
  qed (simp_all add: eqs)
qed

theorem scalar_names_no_class_witness:
  "is_scalar_leaf (pt_list pt_int) \<and> is_scalar (pt_list pt_int) \<and> base_name (pt_list pt_int) = None"
proof -
  have "is_scalar_leaf (pt_list pt_int)"
    by (simp add: pt_list_def generic_def pt_int_def named_def is_scalar_leaf.simps is_scalar.simps
        is_scalar_name_def is_scalar_name_lower_def keyword_eval)
  then show ?thesis using scalar_names_no_class [of "pt_list pt_int"] by blast
qed

lemma list_ex_mono: "list_ex P xs \<Longrightarrow> (\<And>x. x \<in> set xs \<Longrightarrow> P x \<Longrightarrow> Q x) \<Longrightarrow> list_ex Q xs"
  by (auto simp: list_ex_iff)

text \<open>A type in which no operator is left to evaluate has no operands to read.\<close>

lemma no_operator_no_operands: "\<not> contains_unevaluated False t \<longrightarrow> unevaluated_operator_operands t = []"
proof (induction t rule: kind_induct)
  case (node t)
  note eqs = contains_unevaluated.simps [of False t] unevaluated_operator_operands.simps [of t]
  show ?case
  proof (cases "kind t")
    case (ClassString o1)
    then show ?thesis using node by (cases o1) (simp_all add: eqs)
  next
    case (InterfaceString o1)
    then show ?thesis using node by (cases o1) (simp_all add: eqs)
  next
    case (Callable c)
    then show ?thesis using node by (cases "return_type c") (auto simp: eqs list_ex_iff)
  qed (use node in \<open>auto simp: eqs list_ex_iff\<close>)
qed

lemma type_operator_mono: "contains_unevaluated False t \<longrightarrow> contains_unevaluated True t"
proof (induction t rule: kind_induct)
  case (node t)
  note eqs = contains_unevaluated.simps [of False t] contains_unevaluated.simps [of True t]
  show ?case
  proof (cases "kind t")
    case (ClassString o1)
    then show ?thesis using node by (cases o1) (simp_all add: eqs)
  next
    case (InterfaceString o1)
    then show ?thesis using node by (cases o1) (simp_all add: eqs)
  next
    case (Callable c)
    then show ?thesis using node by (cases "return_type c") (auto simp: eqs list_ex_iff)
  qed (use node in \<open>auto simp: eqs list_ex_iff\<close>)
qed

text \<open>
  The two "is anything left to evaluate?" tests agree with the operands they announce:
  the stricter test implies the wider one, and a type with no \<open>key-of\<close>, \<open>value-of\<close> or index
  access anywhere in it reports no operand.
\<close>

theorem operators_and_operands:
  "(contains_type_operator t \<longrightarrow> contains_unevaluated_operator t) \<and>
   (\<not> contains_type_operator t \<longrightarrow> unevaluated_operator_operands t = [])"
  using no_operator_no_operands type_operator_mono
  by (simp add: contains_type_operator_def contains_unevaluated_operator_def)

theorem operators_and_operands_witness:
  "contains_type_operator (key_of (named ''A'')) \<and> contains_unevaluated_operator (key_of (named ''A'')) \<and>
   unevaluated_operator_operands pt_int = []"
proof -
  have "contains_type_operator (key_of (named ''A''))"
    by (simp add: contains_type_operator_def contains_unevaluated.simps key_of_def)
  moreover have "\<not> contains_type_operator pt_int"
    by (simp add: contains_type_operator_def contains_unevaluated.simps pt_int_def named_def)
  ultimately show ?thesis
    using operators_and_operands [of "key_of (named ''A'')"] operators_and_operands [of pt_int] by blast
qed

text \<open>The alias \<open>real\<close>: a float for every value test, and a class for every name test.\<close>

lemma real_alias_is_class_like:
  "is_float (named ''real'') \<and> is_primitive_scalar (named ''real'') \<and>
   is_object_like (named ''real'') \<and> base_name (named ''real'') = Some ''real''"
  by (simp add: named_def is_float.simps is_primitive_scalar.simps is_object_like.simps
      base_name.simps is_scalar_name_def is_scalar_name_lower_def is_primitive_scalar_name_def
      strip_root_def strip_prefix_def starts_with_def keyword_eval)

end
