(* ===== verification/Php_Literal.thy ===== *)
theory Php_Literal
  imports Php_Type Int_Text
begin

section \<open>Literal values\<close>

text \<open>
  \<open>src/php_type/literal.rs\<close> with the reading of quoted strings it uses from \<open>src/text_scan.rs\<close>
  and of floats from \<open>src/php_type/parse.rs\<close>: what value a literal type stands for, when two
  literals are the same value (\<open>===\<close>), and when PHP 8's \<open>==\<close> holds between them.  Strings are
  lists of bytes; a \<open>f64\<close> is its sign, its mantissa below \<open>2^53\<close> and its exponent.
\<close>

subsection \<open>Quoted strings\<close>

abbreviation dquote :: char where "dquote \<equiv> CHR 0x22"

text \<open>The offset after the closing quote; one past the end when an escape ends the text.\<close>

function skip_string_from :: "char list \<Rightarrow> char \<Rightarrow> nat \<Rightarrow> nat" where
  "skip_string_from bytes q i =
     (if i < length bytes then
        if bytes ! i = backslash then skip_string_from bytes q (i + 2)
        else if bytes ! i = q then i + 1
        else skip_string_from bytes q (i + 1)
      else i)"
  by pat_completeness auto
termination by (relation "measure (\<lambda>(bytes, q, i). length bytes - i)") auto
declare skip_string_from.simps [simp del]

definition skip_string_forward :: "char list \<Rightarrow> nat \<Rightarrow> nat" where
  "skip_string_forward bytes pos = skip_string_from bytes (bytes ! pos) (pos + 1)"

text \<open>An odd number of backslashes right before the byte.\<close>

definition is_escaped :: "char list \<Rightarrow> nat \<Rightarrow> bool" where
  "is_escaped bytes index =
     odd (length (takeWhile (\<lambda>b. b = backslash) (rev (take index bytes))))"

definition is_whole_string_literal :: "str \<Rightarrow> bool" where
  "is_whole_string_literal bytes \<longleftrightarrow>
     2 \<le> length bytes \<and> bytes ! 0 \<in> {quote, dquote} \<and>
     skip_string_forward bytes 0 = length bytes \<and>
     bytes ! (length bytes - 1) = bytes ! 0 \<and> \<not> is_escaped bytes (length bytes - 1)"

definition unquote_php_string :: "str \<Rightarrow> str option" where
  "unquote_php_string raw =
     (if is_whole_string_literal raw then Some (butlast (tl raw)) else None)"

definition octal_digit :: "char \<Rightarrow> bool" where
  "octal_digit c \<longleftrightarrow> (48 :: nat) \<le> of_char c \<and> of_char c \<le> (55 :: nat)"

definition hex_digit :: "char \<Rightarrow> bool" where "hex_digit c \<longleftrightarrow> digit_value c < 16"

text \<open>\<open>char::from_u32\<close> followed by \<open>encode_utf8\<close>.\<close>

definition encode_utf8 :: "nat \<Rightarrow> char list option" where
  "encode_utf8 n =
     (if n \<ge> 0x110000 \<or> (0xD800 \<le> n \<and> n < 0xE000) then None
      else if n < 0x80 then Some [char_of n]
      else if n < 0x800 then Some [char_of (0xC0 + n div 64), char_of (0x80 + n mod 64)]
      else if n < 0x10000
      then Some [char_of (0xE0 + n div 4096), char_of (0x80 + n div 64 mod 64), char_of (0x80 + n mod 64)]
      else Some [char_of (0xF0 + n div 262144), char_of (0x80 + n div 4096 mod 64),
                 char_of (0x80 + n div 64 mod 64), char_of (0x80 + n mod 64)])"

text \<open>What an escape writes, and how many bytes after the escaped one it takes.\<close>

definition escape :: "bool \<Rightarrow> char \<Rightarrow> char list \<Rightarrow> (char list \<times> nat) option" where
  "escape double_quoted c more =
     (if \<not> double_quoted then
        Some (if c = backslash then ([backslash], 0) else if c = quote then ([quote], 0)
              else ([backslash, c], 0))
      else if c \<in> {backslash, dquote, CHR 0x24} then Some ([c], 0)
      else if c = CHR ''n'' then Some ([newline], 0)
      else if c = CHR ''t'' then Some ([CHR 0x09], 0)
      else if c = CHR ''r'' then Some ([CHR 0x0D], 0)
      else if c = CHR ''v'' then Some ([CHR 0x0B], 0)
      else if c = CHR ''e'' then Some ([CHR 0x1B], 0)
      else if c = CHR ''f'' then Some ([CHR 0x0C], 0)
      else if c = CHR ''x'' then
        let digits = takeWhile hex_digit (take 2 more)
        in Some (if digits = [] then ([backslash, c], 0)
                 else ([char_of (radix_value 16 digits)], length digits))
      else if c = CHR ''u'' \<and> more \<noteq> [] \<and> hd more = CHR 0x7B then
        let digits = takeWhile hex_digit (tl more); rest = drop (length digits) (tl more)
        in if digits \<noteq> [] \<and> radix_value 16 digits < 2 ^ 32 \<and> rest \<noteq> [] \<and> hd rest = CHR 0x7D
           then map_option (\<lambda>utf8. (utf8, 2 + length digits)) (encode_utf8 (radix_value 16 digits))
           else None
      else if octal_digit c then
        let digits = c # takeWhile octal_digit (take 2 more)
        in Some ([char_of (radix_value 8 digits mod 256)], length digits - 1)
      else Some ([backslash, c], 0))"

function decode_bytes :: "bool \<Rightarrow> char list \<Rightarrow> char list option" where
  "decode_bytes double_quoted bytes =
     (case bytes of
        [] \<Rightarrow> Some []
      | b # rest \<Rightarrow>
          if b \<noteq> backslash then map_option ((#) b) (decode_bytes double_quoted rest)
          else case rest of
            [] \<Rightarrow> Some [backslash]
          | c # more \<Rightarrow>
              (case escape double_quoted c more of
                 None \<Rightarrow> None
               | Some (out, n) \<Rightarrow> map_option (\<lambda>r. out @ r) (decode_bytes double_quoted (drop n more))))"
  by pat_completeness auto
termination by (relation "measure (\<lambda>(dq, bytes). length bytes)") auto
declare decode_bytes.simps [simp del]

text \<open>\<open>String::from_utf8\<close>: well-formed UTF-8, by the leading byte and the range of the second.\<close>

definition byte_in :: "nat \<Rightarrow> nat \<Rightarrow> char \<Rightarrow> bool" where
  "byte_in lo hi c \<longleftrightarrow> lo \<le> of_char c \<and> of_char c \<le> hi"

fun utf8_valid :: "char list \<Rightarrow> bool" where
  "utf8_valid (a # b # c # d # r) =
     (if byte_in 0 0x7F a then utf8_valid (b # c # d # r)
      else if byte_in 0xC2 0xDF a then byte_in 0x80 0xBF b \<and> utf8_valid (c # d # r)
      else if byte_in 0xE0 0xEF a then
        byte_in (if a = CHR 0xE0 then 0xA0 else 0x80) (if a = CHR 0xED then 0x9F else 0xBF) b \<and>
        byte_in 0x80 0xBF c \<and> utf8_valid (d # r)
      else byte_in 0xF0 0xF4 a \<and>
        byte_in (if a = CHR 0xF0 then 0x90 else 0x80) (if a = CHR 0xF4 then 0x8F else 0xBF) b \<and>
        byte_in 0x80 0xBF c \<and> byte_in 0x80 0xBF d \<and> utf8_valid r)"
| "utf8_valid [a, b, c] =
     (if byte_in 0 0x7F a then utf8_valid [b, c]
      else if byte_in 0xC2 0xDF a then byte_in 0x80 0xBF b \<and> utf8_valid [c]
      else byte_in 0xE0 0xEF a \<and>
        byte_in (if a = CHR 0xE0 then 0xA0 else 0x80) (if a = CHR 0xED then 0x9F else 0xBF) b \<and>
        byte_in 0x80 0xBF c)"
| "utf8_valid [a, b] =
     (if byte_in 0 0x7F a then utf8_valid [b] else byte_in 0xC2 0xDF a \<and> byte_in 0x80 0xBF b)"
| "utf8_valid [a] = byte_in 0 0x7F a"
| "utf8_valid [] = True"

definition from_utf8 :: "char list \<Rightarrow> str option" where
  "from_utf8 bytes = (if utf8_valid bytes then Some bytes else None)"

text \<open>The text between two equal quotes of the kind, and which kind.\<close>

definition between :: "char \<Rightarrow> str \<Rightarrow> str option" where
  "between q raw =
     (if 2 \<le> length raw \<and> hd raw = q \<and> last raw = q then Some (butlast (tl raw)) else None)"

definition decode_php_string_literal :: "str \<Rightarrow> str option" where
  "decode_php_string_literal raw =
     Option.bind
       (case between quote raw of
          Some r \<Rightarrow> Some (False, r)
        | None \<Rightarrow> map_option (Pair True) (between dquote raw))
       (\<lambda>(double_quoted, content).
          if backslash \<notin> set content then Some content
          else Option.bind (decode_bytes double_quoted content) from_utf8)"

subsection \<open>The literals\<close>

definition literal_string_value :: "str \<Rightarrow> literal_value" where
  "literal_string_value v =
     LString ([quote] @ concat (map (\<lambda>c. if c = backslash then [backslash, backslash]
       else if c = quote then [backslash, quote] else [c]) v) @ [quote])"

fun as_raw :: "literal_value \<Rightarrow> str" where
  "as_raw (LInt raw) = raw"
| "as_raw (LFloat raw) = raw"
| "as_raw (LString raw) = raw"

fun string_content :: "literal_value \<Rightarrow> str option" where
  "string_content (LString raw) =
     Some (case decode_php_string_literal raw of
             Some s \<Rightarrow> s
           | None \<Rightarrow> (case unquote_php_string raw of Some s \<Rightarrow> s | None \<Rightarrow> raw))"
| "string_content _ = None"

fun literal_i64 :: "literal_value \<Rightarrow> int option" where
  "literal_i64 (LInt raw) = parse_php_int_literal raw"
| "literal_i64 _ = None"

text \<open>The digits taken from the front of a text, and what follows them.\<close>

definition digits_of :: "str \<Rightarrow> str \<times> str" where
  "digits_of s = (takeWhile is_ascii_digit s, dropWhile is_ascii_digit s)"

definition strip_sign_char :: "str \<Rightarrow> bool \<times> str" where
  "strip_sign_char s =
     (case s of c # r \<Rightarrow> if c = CHR ''-'' then (True, r) else if c = CHR ''+'' then (False, r) else (False, s)
      | [] \<Rightarrow> (False, []))"

text \<open>
  A decimal number: its integer and fraction digits and its exponent, when the whole text is one.
  This is the grammar of PHP's numeric strings and, but for infinities and \<open>NaN\<close>, of Rust's
  \<open>f64\<close> parser.
\<close>

definition scan_decimal :: "str \<Rightarrow> (str \<times> str \<times> int) option" where
  "scan_decimal s =
     (let (int_digits, r1) = digits_of s;
          (frac_digits, r2) = (case r1 of
             c # r \<Rightarrow> if c = CHR ''.'' then digits_of r else ([], r1)
           | [] \<Rightarrow> ([], []))
      in if int_digits = [] \<and> frac_digits = [] then None
         else case r2 of
           [] \<Rightarrow> Some (int_digits, frac_digits, 0)
         | c # r \<Rightarrow>
             if c = CHR ''e'' \<or> c = CHR ''E'' then
               let (neg, r3) = strip_sign_char r; (exp_digits, r4) = digits_of r3
               in if exp_digits = [] \<or> r4 \<noteq> [] then None
                  else Some (int_digits, frac_digits,
                    (if neg then - int (radix_value 10 exp_digits) else int (radix_value 10 exp_digits)))
             else None)"

definition is_php_numeric_string :: "str \<Rightarrow> bool" where
  "is_php_numeric_string content \<longleftrightarrow>
     (let bytes = rev (dropWhile is_ascii_whitespace (rev (dropWhile is_ascii_whitespace content)))
      in bytes \<noteq> [] \<and> scan_decimal (snd (strip_sign_char bytes)) \<noteq> None)"

definition is_numeric_string :: "literal_value \<Rightarrow> bool" where
  "is_numeric_string v =
     (case string_content v of None \<Rightarrow> False | Some content \<Rightarrow> is_php_numeric_string content)"

subsection \<open>Floats\<close>

text \<open>
  \<open>str::parse::<f64>\<close>: the double nearest to the decimal written, ties to the even mantissa;
  \<open>Fin neg m e\<close> is \<open>m * 2^e\<close> with \<open>m < 2^53\<close> and \<open>e \<ge> -1074\<close>.
\<close>

datatype f64 = Fin bool nat int | Infinite bool | NaN

fun bit_length :: "nat \<Rightarrow> nat" where
  "bit_length n = (if n = 0 then 0 else Suc (bit_length (n div 2)))"
declare bit_length.simps [simp del]

definition div_half_even :: "nat \<Rightarrow> nat \<Rightarrow> nat" where
  "div_half_even n d =
     (let q = n div d; r = n mod d
      in if 2 * r < d \<or> (2 * r = d \<and> even q) then q else q + 1)"

definition round_f64 :: "bool \<Rightarrow> nat \<Rightarrow> nat \<Rightarrow> f64" where
  "round_f64 neg n d =
     (if n = 0 then Fin neg 0 0
      else
        let k = int (bit_length n) - int (bit_length d);
            log = (if n * 2 ^ nat (- k) \<ge> d * 2 ^ nat k then k else k - 1);
            e = max (- 1074) (log - 52);
            m = div_half_even (n * 2 ^ nat (- e)) (d * 2 ^ nat e);
            (m, e) = (if m = 2 ^ 53 then (2 ^ 52, e + 1) else (m, e))
        in if e > 971 then Infinite neg else Fin neg m e)"

definition decimal_f64 :: "bool \<Rightarrow> str \<times> str \<times> int \<Rightarrow> f64" where
  "decimal_f64 neg = (\<lambda>(int_digits, frac_digits, e).
     let m = radix_value 10 (int_digits @ frac_digits); e = e - int (length frac_digits)
     in round_f64 neg (m * 10 ^ nat e) (10 ^ nat (- e)))"

definition parse_f64_text :: "str \<Rightarrow> f64 option" where
  "parse_f64_text s =
     (let (neg, r) = strip_sign_char s; lower = to_ascii_lowercase r
      in if lower \<in> set [''inf'', ''infinity''] then Some (Infinite neg)
         else if lower = ''nan'' then Some NaN
         else map_option (decimal_f64 neg) (scan_decimal r))"

definition f64_of_int :: "int \<Rightarrow> f64" where
  "f64_of_int i = round_f64 (i < 0) (nat \<bar>i\<bar>) 1"

text \<open>\<open>==\<close> on doubles: the two zeros are equal, \<open>NaN\<close> is unequal to everything.\<close>

fun f64_eq :: "f64 \<Rightarrow> f64 \<Rightarrow> bool" where
  "f64_eq (Fin s m e) (Fin s' m' e') = ((m = 0 \<and> m' = 0) \<or> (s = s' \<and> m = m' \<and> e = e'))"
| "f64_eq (Infinite s) (Infinite s') = (s = s')"
| "f64_eq _ _ = False"

definition parse_php_float_literal :: "str \<Rightarrow> f64 option" where
  "parse_php_float_literal raw =
     (let clean = filter (\<lambda>c. c \<noteq> CHR ''_'') (trim raw)
      in if clean = [] then None else parse_f64_text clean)"

fun literal_f64 :: "literal_value \<Rightarrow> f64 option" where
  "literal_f64 (LFloat raw) = parse_php_float_literal raw"
| "literal_f64 _ = None"

subsection \<open>Comparing literals\<close>

definition both :: "('a \<Rightarrow> 'a \<Rightarrow> bool) \<Rightarrow> 'a option \<Rightarrow> 'a option \<Rightarrow> bool option" where
  "both eq x y = (case (x, y) of (Some a, Some b) \<Rightarrow> Some (eq a b) | _ \<Rightarrow> None)"

fun identical_to :: "literal_value \<Rightarrow> literal_value \<Rightarrow> bool option" where
  "identical_to (LInt a) (LInt b) = both (=) (literal_i64 (LInt a)) (literal_i64 (LInt b))"
| "identical_to (LFloat a) (LFloat b) = both f64_eq (literal_f64 (LFloat a)) (literal_f64 (LFloat b))"
| "identical_to (LString a) (LString b) =
     both (=) (string_content (LString a)) (string_content (LString b))"
| "identical_to _ _ = Some False"

fun numeric_reading :: "literal_value \<Rightarrow> f64 option" where
  "numeric_reading (LInt raw) = map_option f64_of_int (literal_i64 (LInt raw))"
| "numeric_reading (LFloat raw) = literal_f64 (LFloat raw)"
| "numeric_reading (LString raw) =
     Option.bind (string_content (LString raw))
       (\<lambda>content. if is_php_numeric_string content then parse_f64_text (trim content) else None)"

fun is_string_lit :: "literal_value \<Rightarrow> bool" where
  "is_string_lit (LString _) = True"
| "is_string_lit _ = False"

fun is_int_lit :: "literal_value \<Rightarrow> bool" where
  "is_int_lit (LInt _) = True"
| "is_int_lit _ = False"

definition loosely_equals :: "literal_value \<Rightarrow> literal_value \<Rightarrow> bool option" where
  "loosely_equals a b =
     (if is_int_lit a \<and> is_int_lit b then both (=) (literal_i64 a) (literal_i64 b)
      else if is_string_lit a \<and> is_string_lit b \<and> (\<not> is_numeric_string a \<or> \<not> is_numeric_string b)
      then both (=) (string_content a) (string_content b)
      else if is_string_lit a \<and> \<not> is_numeric_string a then Some False
      else if is_string_lit b \<and> \<not> is_numeric_string b then Some False
      else both f64_eq (numeric_reading a) (numeric_reading b))"

text \<open>\<open>literals_equal\<close> of \<open>src/php_type/subtype.rs\<close>.\<close>

definition same_reading :: "('a \<Rightarrow> 'a \<Rightarrow> bool) \<Rightarrow> 'a option \<Rightarrow> 'a option \<Rightarrow> str \<Rightarrow> str \<Rightarrow> bool" where
  "same_reading eq x y a b = (case (x, y) of (Some v, Some w) \<Rightarrow> eq v w | _ \<Rightarrow> a = b)"

fun literals_equal :: "literal_value \<Rightarrow> literal_value \<Rightarrow> bool" where
  "literals_equal (LInt a) (LInt b) =
     (a = b \<or> same_reading (=) (literal_i64 (LInt a)) (literal_i64 (LInt b)) a b)"
| "literals_equal (LFloat a) (LFloat b) =
     (a = b \<or> same_reading f64_eq (literal_f64 (LFloat a)) (literal_f64 (LFloat b)) a b)"
| "literals_equal (LString a) (LString b) =
     (a = b \<or> same_reading (=) (string_content (LString a)) (string_content (LString b)) a b)"
| "literals_equal _ _ = False"

subsection \<open>Writing a string and reading it back\<close>

lemma decode_escaped: "decode_bytes False (concat (map (\<lambda>c. if c = backslash then [backslash, backslash]
       else if c = quote then [backslash, quote] else [c]) v)) = Some v"
proof (induction v)
  case (Cons c v)
  then show ?case
    by (subst decode_bytes.simps) (auto simp: escape_def)
qed (simp add: decode_bytes.simps)

lemma escaped_plain: "backslash \<notin> set (concat (map (\<lambda>c. if c = backslash then [backslash, backslash]
       else if c = quote then [backslash, quote] else [c]) v)) \<Longrightarrow>
    concat (map (\<lambda>c. if c = backslash then [backslash, backslash]
       else if c = quote then [backslash, quote] else [c]) v) = v"
  by (induction v) (auto split: if_splits)

lemma literal_string_content: "utf8_valid v \<Longrightarrow> string_content (literal_string_value v) = Some v"
  using decode_escaped [of v] escaped_plain [of v]
  by (simp add: literal_string_value_def decode_php_string_literal_def between_def from_utf8_def)

subsection \<open>The order of the two equalities\<close>

lemma f64_eq_sym: "f64_eq x y = f64_eq y x"
  by (cases x; cases y) auto

lemma f64_eq_trans: "f64_eq x y \<Longrightarrow> f64_eq y z \<Longrightarrow> f64_eq x z"
  by (cases x; cases y; cases z) auto

lemma both_sym: "(\<And>x y. eq x y = eq y x) \<Longrightarrow> both eq x y = both eq y x"
  by (simp add: both_def split: option.split)

lemma same_reading_sym: "(\<And>x y. eq x y = eq y x) \<Longrightarrow> same_reading eq x y a b = same_reading eq y x b a"
  by (auto simp: same_reading_def split: option.split)

lemma both_eq_sym: "both (=) x y = both (=) y x"
  by (rule both_sym) (rule eq_commute)

lemma both_f64_sym: "both f64_eq x y = both f64_eq y x"
  by (rule both_sym) (rule f64_eq_sym)

lemma identical_sym: "identical_to a b = identical_to b a"
  by (cases a; cases b) (simp_all add: both_eq_sym both_f64_sym)

lemma loosely_sym: "loosely_equals a b = loosely_equals b a"
  by (auto simp: loosely_equals_def both_eq_sym both_f64_sym)

lemma literals_equal_identical: "identical_to a b = Some True \<Longrightarrow> literals_equal a b"
  by (cases a; cases b) (auto simp: both_def same_reading_def split: option.splits)

lemma same_reading_eq_sym: "same_reading (=) x y a b = same_reading (=) y x b a"
  by (rule same_reading_sym) (rule eq_commute)

lemma same_reading_f64_sym: "same_reading f64_eq x y a b = same_reading f64_eq y x b a"
  by (rule same_reading_sym) (rule f64_eq_sym)

lemma literals_equal_sym: "literals_equal a b \<Longrightarrow> literals_equal b a"
  by (cases a; cases b) (simp_all add: same_reading_eq_sym same_reading_f64_sym eq_commute)

subsection \<open>Numeric strings read as numbers\<close>

lemma ascii_ws_cases:
  assumes "is_ascii_whitespace c"
  shows "c = CHR 0x20 \<or> c = CHR 0x09 \<or> c = CHR 0x0A \<or> c = CHR 0x0C \<or> c = CHR 0x0D"
proof -
  have c: "c = char_of (of_char c :: nat)" by simp
  have "char_of (32 :: nat) = CHR 0x20" "char_of (9 :: nat) = CHR 0x09" "char_of (10 :: nat) = CHR 0x0A"
    "char_of (12 :: nat) = CHR 0x0C" "char_of (13 :: nat) = CHR 0x0D" by code_simp+
  then show ?thesis
    using assms c unfolding is_ascii_whitespace_def by (metis insertE singletonD)
qed

lemma ws_single: "list_all (\<lambda>c. [c] \<in> set (take 6 ws_encodings)) [CHR 0x20, CHR 0x09, CHR 0x0A, CHR 0x0C, CHR 0x0D]"
  by code_simp

lemma find_append: "find P xs = Some w \<Longrightarrow> find P (xs @ ys) = Some w"
  by (induction xs) auto

lemma find_single_ws:
  assumes "is_ascii_whitespace c" "P [c]"
  obtains w where "find P ws_encodings = Some w" "length w = 1"
proof -
  have "[c] \<in> set (take 6 ws_encodings)" using ascii_ws_cases [OF assms(1)] ws_single by auto
  then obtain w where w: "find P (take 6 ws_encodings) = Some w"
    using assms(2) by (metis find_None_iff not_None_eq)
  then have "w \<in> set (take 6 ws_encodings)" by (metis find_Some_iff nth_mem)
  moreover have "list_all (\<lambda>w. length w = 1) (take 6 ws_encodings)" by code_simp
  ultimately have "length w = 1" by (simp add: list_all_iff)
  then show thesis
    using that find_append [OF w, of "drop 6 ws_encodings"] by (simp only: append_take_drop_id)
qed

lemma leading_ascii_ws: "is_ascii_whitespace c \<Longrightarrow> leading_ws (c # r) = 1"
  using find_single_ws [of c "starts_with (c # r)"] by (fastforce simp: leading_ws_def starts_with_def)

lemma trailing_ascii_ws: "is_ascii_whitespace c \<Longrightarrow> trailing_ws (r @ [c]) = 1"
  using find_single_ws [of c "ends_with (r @ [c])"] by (fastforce simp: trailing_ws_def ends_with_def)

lemma trim_start_ws: "is_ascii_whitespace c \<Longrightarrow> trim_start (c # r) = trim_start r"
  using trim_start.simps [of "c # r"] by (simp add: leading_ascii_ws)

lemma trim_end_ws: "is_ascii_whitespace c \<Longrightarrow> trim_end (r @ [c]) = trim_end r"
  using trim_end.simps [of "r @ [c]"] by (simp add: trailing_ascii_ws)

lemma trim_start_all: "list_all is_ascii_whitespace w \<Longrightarrow> trim_start (w @ r) = trim_start r"
  by (induction w) (simp_all add: trim_start_ws)

lemma trim_end_all: "list_all is_ascii_whitespace w \<Longrightarrow> trim_end (r @ w) = trim_end r"
proof (induction w rule: rev_induct)
  case (snoc c w)
  then show ?case using trim_end_ws [of c "r @ w"] by simp
qed simp

lemma trim_number_ws:
  assumes "list_all is_ascii_whitespace w" "list_all is_ascii_whitespace w'"
    and "s \<noteq> []" "number_char (hd s)" "number_char (last s)"
  shows "trim (w @ s @ w') = s"
proof -
  have "trim_start (s @ w') = s @ w'"
    using assms(3, 4) by (simp add: trim_start.simps [of "s @ w'"] no_leading_ws)
  moreover have "trim_end s = s"
    using assms(3, 5) by (simp add: trim_end.simps [of s] no_trailing_ws)
  ultimately show ?thesis
    using trim_start_all [OF assms(1), of "s @ w'"] trim_end_all [OF assms(2), of s] by (simp add: trim_def)
qed

lemma digits_of_shape: "digits_of s = (d, r) \<Longrightarrow> s = d @ r \<and> list_all is_ascii_digit d"
  by (auto simp: digits_of_def list_all_iff dest: set_takeWhileD)

lemma last_digit: "list_all is_ascii_digit d \<Longrightarrow> d \<noteq> [] \<Longrightarrow> number_char (last d)"
  by (simp add: number_char_def list_all_iff)

lemma scan_decimal_ends:
  assumes "scan_decimal s \<noteq> None"
  shows "s \<noteq> []" "is_ascii_digit (hd s) \<or> hd s = CHR ''.''" "number_char (last s)"
proof -
  obtain d1 r1 where d1: "digits_of s = (d1, r1)" by fastforce
  obtain d2 r2 where d2: "(case r1 of c # r \<Rightarrow> if c = CHR ''.'' then digits_of r else ([], r1) | [] \<Rightarrow> ([], [])) = (d2, r2)"
    by fastforce
  have ne: "d1 \<noteq> [] \<or> d2 \<noteq> []" using assms d1 d2 by (auto simp: scan_decimal_def)
  have s: "s = d1 @ r1" "list_all is_ascii_digit d1" using digits_of_shape [OF d1] by simp_all
  have r1: "list_all is_ascii_digit d2" "r1 = r2 \<and> d2 = [] \<or> r1 = CHR ''.'' # d2 @ r2"
    using d2 by (auto split: list.splits if_splits dest: digits_of_shape)
  then show "s \<noteq> []" using s ne by auto
  show "is_ascii_digit (hd s) \<or> hd s = CHR ''.''"
    using s r1(2) ne by (cases d1) auto
  have front: "number_char (last (if r1 = r2 \<and> d2 = [] then d1 else d1 @ CHR ''.'' # d2))"
    using s(2) r1 ne last_digit [of d1] last_digit [of d2] by (auto simp: number_char_def)
  show "number_char (last s)"
  proof (cases r2)
    case Nil
    then show ?thesis using s(1) r1(2) front by auto
  next
    case (Cons c r)
    obtain neg r3 where r3: "strip_sign_char r = (neg, r3)" by fastforce
    obtain d4 r4 where d4: "digits_of r3 = (d4, r4)" by fastforce
    have "d4 \<noteq> []" "r4 = []" using assms d1 d2 Cons r3 d4 ne by (auto simp: scan_decimal_def split: if_splits)
    moreover have "r3 = d4 @ r4" "list_all is_ascii_digit d4" using digits_of_shape [OF d4] by simp_all
    moreover have "\<exists>p. r = p @ r3"
      using r3 by (auto simp: strip_sign_char_def split: list.splits if_splits intro: exI [of _ "[]"])
    ultimately have "r \<noteq> [] \<and> number_char (last r)" using last_digit [of d4] by auto
    then show ?thesis using s(1) r1(2) Cons by auto
  qed
qed

lemma f64_eq_refl: "x \<noteq> NaN \<Longrightarrow> f64_eq x x"
  by (cases x) auto

lemma round_not_nan: "round_f64 neg n d \<noteq> NaN"
  unfolding round_f64_def Let_def by (simp only: split: prod.split if_split) simp

lemma numeric_string_reads:
  assumes "is_php_numeric_string content"
  shows "\<exists>x. parse_f64_text (trim content) = Some x \<and> f64_eq x x"
proof -
  let ?w = "takeWhile is_ascii_whitespace content" and ?r = "dropWhile is_ascii_whitespace content"
  let ?core = "rev (dropWhile is_ascii_whitespace (rev ?r))"
    and ?w' = "rev (takeWhile is_ascii_whitespace (rev ?r))"
  have split: "content = ?w @ ?core @ ?w'"
    by (metis rev_append rev_rev_ident takeWhile_dropWhile_id)
  have ws: "list_all is_ascii_whitespace ?w" "list_all is_ascii_whitespace ?w'"
    by (auto simp: list_all_iff dest: set_takeWhileD)
  obtain neg body where body: "strip_sign_char ?core = (neg, body)" by fastforce
  have core: "?core \<noteq> []" "scan_decimal body \<noteq> None"
    using assms body by (simp_all add: is_php_numeric_string_def Let_def)
  note ends = scan_decimal_ends [OF core(2)]
  have "number_char (hd ?core)" "number_char (last ?core)"
    using body ends core(1)
    by (auto simp: strip_sign_char_def number_char_def split: list.splits if_splits)
  then have trim: "trim content = ?core"
    using trim_number_ws [OF ws core(1)] split by metis
  have "to_ascii_lowercase body \<noteq> ''nan''"
  proof
    assume "to_ascii_lowercase body = ''nan''"
    then have "lower_char (hd body) = CHR ''n''" using ends(1) by (cases body) (auto simp: to_ascii_lowercase_def)
    then show False using ends(2)
      by (auto simp: lower_char_def is_ascii_digit_def is_ascii_uppercase_def split: if_splits)
  qed
  moreover have "f64_eq (decimal_f64 neg x) (decimal_f64 neg x)" for x
    by (rule f64_eq_refl) (simp add: decimal_f64_def Let_def round_not_nan split: prod.split)
  ultimately show ?thesis
    using core(2) body by (auto simp: trim parse_f64_text_def Let_def)
qed

lemma identical_loosely: "identical_to a b = Some True \<Longrightarrow> loosely_equals a b = Some True"
proof (cases a; cases b)
  fix x y
  assume eq: "identical_to a b = Some True" and ab: "a = LString x" "b = LString y"
  then have content: "string_content a = string_content b" by (simp add: both_def)
  then have num: "is_numeric_string a = is_numeric_string b" by (simp add: is_numeric_string_def)
  show ?thesis
  proof (cases "is_numeric_string a")
    case False
    then show ?thesis using ab content num by (simp add: loosely_equals_def both_def)
  next
    case True
    obtain c where c: "string_content b = Some c" by (simp add: ab)
    then have "is_php_numeric_string c" using True num by (simp add: is_numeric_string_def)
    then show ?thesis
      using numeric_string_reads [of c] content c True num ab
      by (auto simp: loosely_equals_def both_def)
  qed
qed (auto simp: loosely_equals_def)

text \<open>
  C27. A string written as a literal type reads back as the same string, and the equalities of
  literals are ordered: values identical under \<open>===\<close> are equal under \<open>==\<close> and are one literal for
  the subtype test, and both comparisons are symmetric.
\<close>

theorem literal_equalities:
  "(utf8_valid v \<longrightarrow> string_content (literal_string_value v) = Some v) \<and>
   (identical_to a b = Some True \<longrightarrow> loosely_equals a b = Some True \<and> literals_equal a b) \<and>
   identical_to a b = identical_to b a \<and> loosely_equals a b = loosely_equals b a"
  using literal_string_content identical_loosely literals_equal_identical identical_sym loosely_sym by blast

lemma literal_equalities_witness:
  "string_content (literal_string_value [CHR ''a'', quote, backslash]) = Some [CHR ''a'', quote, backslash] \<and>
   loosely_equals (LString [quote, CHR ''1'', quote]) (LString [dquote, CHR ''1'', dquote]) = Some True"
proof -
  have "utf8_valid [CHR ''a'', quote, backslash]"
    "identical_to (LString [quote, CHR ''1'', quote]) (LString [dquote, CHR ''1'', dquote]) = Some True"
    by code_simp+
  then show ?thesis
    using literal_equalities [of "[CHR ''a'', quote, backslash]" "LString [quote, CHR ''1'', quote]"
      "LString [dquote, CHR ''1'', dquote]"] by blast
qed

end
