(* ===== verification/Int_Interval.thy ===== *)
theory Int_Interval
  imports Type_Predicates Named_Lattice
begin

section \<open>Intervals of integers\<close>

text \<open>
  \<open>src/type_engine/type_ops/int_interval.rs\<close>: the interval of integers a type can hold, the
  arithmetic on intervals, and the widening of a loop's variables.  A bound is an \<open>i64\<close>, or
  absent; the products of \<open>mul\<close> are computed in \<open>i128\<close>, which holds every product of two
  \<open>i64\<close>s, so they are integers here.
\<close>

record interval =
  iv_min :: "int option"
  iv_max :: "int option"

abbreviation iv :: "int option \<Rightarrow> int option \<Rightarrow> interval" where
  "iv lo hi \<equiv> \<lparr>iv_min = lo, iv_max = hi\<rparr>"

definition unbounded :: interval where "unbounded = iv None None"

definition exact :: "int \<Rightarrow> interval" where "exact v = iv (Some v) (Some v)"

text \<open>A bound that reads as the keyword, or that cannot be read, is absent.\<close>

definition parse_bound :: "str \<Rightarrow> str \<Rightarrow> int option" where
  "parse_bound bound keyword =
     (if eq_ignore_ascii_case bound keyword then None else parse_i64 (trim bound))"

definition of_int :: "php_type \<Rightarrow> interval option" where
  "of_int t =
     (case kind t of
        Literal l \<Rightarrow> (case l of LInt _ \<Rightarrow> map_option exact (literal_i64 l) | _ \<Rightarrow> None)
      | IntRange lo hi \<Rightarrow> Some (iv (parse_bound lo ''min'') (parse_bound hi ''max''))
      | Named n \<Rightarrow>
          (case refined_int_to_range (to_ascii_lowercase n) of
             Some (lo, hi) \<Rightarrow> Some (iv (parse_bound lo ''min'') (parse_bound hi ''max''))
           | None \<Rightarrow> if is_int_subtype t then Some unbounded else None)
      | _ \<Rightarrow> None)"

definition hull :: "interval \<Rightarrow> interval \<Rightarrow> interval" where
  "hull a b =
     iv (map_option (\<lambda>(x, y). min x y) (zip_option (iv_min a) (iv_min b)))
        (map_option (\<lambda>(x, y). max x y) (zip_option (iv_max a) (iv_max b)))"

fun of_operand :: "php_type \<Rightarrow> interval option" where
  "of_operand t =
     (case kind t of
        UnionT members \<Rightarrow>
          (case those (map of_operand members) of
             Some (first # rest) \<Rightarrow> Some (foldl hull first rest)
           | _ \<Rightarrow> None)
      | Nullable inner \<Rightarrow> map_option (\<lambda>i. hull i (exact 0)) (of_operand inner)
      | Named n \<Rightarrow>
          (if eq_ignore_ascii_case n ''null'' then Some (exact 0)
           else if eq_ignore_ascii_case n ''false'' then Some (exact 0)
           else if eq_ignore_ascii_case n ''true'' then Some (exact 1)
           else if eq_ignore_ascii_case n ''bool'' \<or> eq_ignore_ascii_case n ''boolean''
             then Some (iv (Some 0) (Some 1))
           else of_int t)
      | _ \<Rightarrow> of_int t)"
declare of_operand.simps [simp del]

fun pick :: "(int \<Rightarrow> int \<Rightarrow> int) \<Rightarrow> int option \<Rightarrow> int option \<Rightarrow> int option" where
  "pick tighter (Some a) (Some b) = Some (tighter a b)"
| "pick tighter bound None = bound"
| "pick tighter None bound = bound"

definition intersect :: "interval \<Rightarrow> interval \<Rightarrow> interval option" where
  "intersect a b =
     (let lo = pick max (iv_min a) (iv_min b); hi = pick min (iv_max a) (iv_max b)
      in case (lo, hi) of
           (Some l, Some h) \<Rightarrow> if l > h then None else Some (iv lo hi)
         | _ \<Rightarrow> Some (iv lo hi))"

definition ordered_against :: "int \<Rightarrow> bool \<Rightarrow> bool \<Rightarrow> interval option" where
  "ordered_against bound is_less or_equal =
     (case (is_less, or_equal) of
        (True, True) \<Rightarrow> Some (iv None (Some bound))
      | (True, False) \<Rightarrow> map_option (\<lambda>b. iv None (Some b)) (checked_sub bound 1)
      | (False, True) \<Rightarrow> Some (iv (Some bound) None)
      | (False, False) \<Rightarrow> map_option (\<lambda>b. iv (Some b) None) (checked_add bound 1))"

definition without_edge :: "interval \<Rightarrow> int \<Rightarrow> interval option option" where
  "without_edge i v =
     (if iv_min i = Some v \<and> iv_max i = Some v then Some None
      else if iv_min i = Some v then
        map_option (\<lambda>b. Some (iv (Some b) (iv_max i))) (checked_add v 1)
      else if iv_max i = Some v then
        map_option (\<lambda>b. Some (iv (iv_min i) (Some b))) (checked_sub v 1)
      else None)"

definition hull_of :: "interval list \<Rightarrow> interval" where
  "hull_of is = (case is of [] \<Rightarrow> unbounded | i # rest \<Rightarrow> foldl hull i rest)"

definition is_exceeded_by :: "interval \<Rightarrow> interval \<Rightarrow> bool \<times> bool" where
  "is_exceeded_by a b =
     ((case (iv_min a, iv_min b) of
         (None, _) \<Rightarrow> False | (Some _, None) \<Rightarrow> True | (Some mine, Some theirs) \<Rightarrow> theirs < mine),
      (case (iv_max a, iv_max b) of
         (None, _) \<Rightarrow> False | (Some _, None) \<Rightarrow> True | (Some mine, Some theirs) \<Rightarrow> theirs > mine))"

definition iv_add :: "interval \<Rightarrow> interval \<Rightarrow> interval" where
  "iv_add a b =
     iv (Option.bind (zip_option (iv_min a) (iv_min b)) (\<lambda>(x, y). checked_add x y))
        (Option.bind (zip_option (iv_max a) (iv_max b)) (\<lambda>(x, y). checked_add x y))"

definition iv_sub :: "interval \<Rightarrow> interval \<Rightarrow> interval" where
  "iv_sub a b =
     iv (Option.bind (zip_option (iv_min a) (iv_max b)) (\<lambda>(x, y). checked_sub x y))
        (Option.bind (zip_option (iv_max a) (iv_min b)) (\<lambda>(x, y). checked_sub x y))"

subsection \<open>Products\<close>

datatype bound = Neg_Inf | Finite int | Pos_Inf

instantiation bound :: linorder
begin

fun less_eq_bound :: "bound \<Rightarrow> bound \<Rightarrow> bool" where
  "less_eq_bound Neg_Inf b = True"
| "less_eq_bound (Finite x) (Finite y) = (x \<le> y)"
| "less_eq_bound (Finite x) b = (b = Pos_Inf)"
| "less_eq_bound Pos_Inf b = (b = Pos_Inf)"

definition less_bound :: "bound \<Rightarrow> bound \<Rightarrow> bool" where
  "less_bound a b = (a \<le> b \<and> \<not> b \<le> a)"

instance
proof
  fix x y z :: bound
  show "(x < y) = (x \<le> y \<and> \<not> y \<le> x)" by (rule less_bound_def)
  show "x \<le> x" by (cases x) simp_all
  show "x \<le> y \<Longrightarrow> y \<le> z \<Longrightarrow> x \<le> z" by (cases x; cases y; cases z) simp_all
  show "x \<le> y \<Longrightarrow> y \<le> x \<Longrightarrow> x = y" by (cases x; cases y) simp_all
  show "x \<le> y \<or> y \<le> x" by (cases x; cases y) auto
qed

end

definition low :: "int option \<Rightarrow> bound" where
  "low b = (case b of None \<Rightarrow> Neg_Inf | Some v \<Rightarrow> Finite v)"

definition high :: "int option \<Rightarrow> bound" where
  "high b = (case b of None \<Rightarrow> Pos_Inf | Some v \<Rightarrow> Finite v)"

fun signum :: "bound \<Rightarrow> int" where
  "signum Neg_Inf = - 1"
| "signum (Finite v) = sgn v"
| "signum Pos_Inf = 1"

fun bound_mul :: "bound \<Rightarrow> bound \<Rightarrow> bound" where
  "bound_mul (Finite a) (Finite b) = Finite (a * b)"
| "bound_mul a b =
     (let s = signum a * signum b
      in if s = 0 then Finite 0 else if s < 0 then Neg_Inf else Pos_Inf)"

fun finite_bound :: "bound \<Rightarrow> int option" where
  "finite_bound (Finite v) = i64_try_from v"
| "finite_bound _ = None"

definition iv_mul :: "interval \<Rightarrow> interval \<Rightarrow> interval" where
  "iv_mul a b =
     (let corners =
        [bound_mul (low (iv_min a)) (low (iv_min b)), bound_mul (low (iv_min a)) (high (iv_max b)),
         bound_mul (high (iv_max a)) (low (iv_min b)), bound_mul (high (iv_max a)) (high (iv_max b))]
      in iv (finite_bound (Min (set corners))) (finite_bound (Max (set corners))))"

definition into_type :: "interval \<Rightarrow> php_type" where
  "into_type i =
     (case (iv_min i, iv_max i) of
        (None, None) \<Rightarrow> pt_int
      | (lo, hi) \<Rightarrow>
          if lo \<noteq> None \<and> lo = hi then literal_int (show_int (the lo))
          else int_range (case lo of None \<Rightarrow> ''min'' | Some v \<Rightarrow> show_int v)
                         (case hi of None \<Rightarrow> ''max'' | Some v \<Rightarrow> show_int v))"

subsection \<open>The widening of a loop\<close>

definition union_members :: "php_type \<Rightarrow> php_type list" where
  "union_members t = (case kind t of UnionT members \<Rightarrow> members | _ \<Rightarrow> [t])"

definition int_alternatives_hull :: "php_type list \<Rightarrow> interval option" where
  "int_alternatives_hull types =
     (case List.map_filter of_int (concat (map union_members types)) of
        [] \<Rightarrow> None
      | i # is \<Rightarrow> Some (foldl hull i is))"

definition widened :: "interval \<Rightarrow> interval \<Rightarrow> interval" where
  "widened earlier later =
     (let (below, over) = is_exceeded_by earlier later
      in iv (if below then None else iv_min later) (if over then None else iv_max later))"

subsection \<open>The integers of an interval\<close>

definition ints :: "interval \<Rightarrow> int set" where
  "ints i = {v. in_i64 v \<and> (\<forall>l. iv_min i = Some l \<longrightarrow> l \<le> v) \<and> (\<forall>h. iv_max i = Some h \<longrightarrow> v \<le> h)}"

definition iv_ok :: "interval \<Rightarrow> bool" where
  "iv_ok i = (pred_option in_i64 (iv_min i) \<and> pred_option in_i64 (iv_max i))"

lemma in_ints:
  "v \<in> ints (iv lo hi) \<longleftrightarrow>
     in_i64 v \<and> (case lo of None \<Rightarrow> True | Some l \<Rightarrow> l \<le> v) \<and> (case hi of None \<Rightarrow> True | Some h \<Rightarrow> v \<le> h)"
  by (auto simp: ints_def split: option.splits)

lemma interval_cases: obtains lo hi where "i = iv lo hi"
  by (cases i) auto

lemma add_sound:
  assumes "x \<in> ints a" "y \<in> ints b" "in_i64 (x + y)"
  shows "x + y \<in> ints (iv_add a b)"
  using assms by (cases a; cases b)
    (auto simp: iv_add_def in_ints checked_add_def i64_try_from_Some split: option.splits
      bind_splits elim!: zip_option.elims)

lemma sub_sound:
  assumes "x \<in> ints a" "y \<in> ints b" "in_i64 (x - y)"
  shows "x - y \<in> ints (iv_sub a b)"
  using assms by (cases a; cases b)
    (auto simp: iv_sub_def in_ints checked_sub_def i64_try_from_Some split: option.splits
      bind_splits elim!: zip_option.elims)

lemma bound_mul_commute: "bound_mul a b = bound_mul b a"
  by (cases a; cases b) (simp_all add: mult.commute)

lemma bound_le_simps [simp]:
  "b \<le> Pos_Inf" "b \<le> Neg_Inf \<longleftrightarrow> b = Neg_Inf" "Pos_Inf \<le> b \<longleftrightarrow> b = Pos_Inf"
  by (cases b; simp)+

lemma mul_between:
  assumes "m \<le> Finite y" "Finite y \<le> n"
  shows "bound_mul c m \<le> bound_mul c (Finite y) \<or> bound_mul c n \<le> bound_mul c (Finite y)"
    and "bound_mul c (Finite y) \<le> bound_mul c m \<or> bound_mul c (Finite y) \<le> bound_mul c n"
proof -
  have "(bound_mul c m \<le> bound_mul c (Finite y) \<or> bound_mul c n \<le> bound_mul c (Finite y)) \<and>
      (bound_mul c (Finite y) \<le> bound_mul c m \<or> bound_mul c (Finite y) \<le> bound_mul c n)"
  proof (cases c)
    case (Finite k)
    consider "k = 0" | "k > 0" | "k < 0" by linarith
    then show ?thesis
      using assms by cases (cases m; cases n;
          auto simp: Finite mult_left_mono mult_left_mono_neg sgn_if)+
  next
    case Neg_Inf
    then show ?thesis using assms by (cases m; cases n) (auto simp: sgn_if Let_def)
  next
    case Pos_Inf
    then show ?thesis using assms by (cases m; cases n) (auto simp: sgn_if Let_def)
  qed
  then show "bound_mul c m \<le> bound_mul c (Finite y) \<or> bound_mul c n \<le> bound_mul c (Finite y)"
    and "bound_mul c (Finite y) \<le> bound_mul c m \<or> bound_mul c (Finite y) \<le> bound_mul c n"
    by simp_all
qed

lemma in_ints_bounds:
  "v \<in> ints i \<longleftrightarrow> in_i64 v \<and> low (iv_min i) \<le> Finite v \<and> Finite v \<le> high (iv_max i)"
  by (cases i) (auto simp: in_ints low_def high_def split: option.splits)

lemma finite_bound_low: "b \<le> Finite v \<Longrightarrow> low (finite_bound b) \<le> Finite v"
  by (cases b) (auto simp: low_def i64_try_from_def)

lemma finite_bound_high: "Finite v \<le> b \<Longrightarrow> Finite v \<le> high (finite_bound b)"
  by (cases b) (auto simp: high_def i64_try_from_def)

lemma mul_sound:
  assumes "x \<in> ints a" "y \<in> ints b" "in_i64 (x * y)"
  shows "x * y \<in> ints (iv_mul a b)"
proof -
  let ?la = "low (iv_min a)" and ?ha = "high (iv_max a)" and ?lb = "low (iv_min b)" and ?hb = "high (iv_max b)"
  let ?cs = "set [bound_mul ?la ?lb, bound_mul ?la ?hb, bound_mul ?ha ?lb, bound_mul ?ha ?hb]"
  have x: "?la \<le> Finite x" "Finite x \<le> ?ha" and y: "?lb \<le> Finite y" "Finite y \<le> ?hb"
    using assms(1, 2) by (simp_all add: in_ints_bounds)
  note in_x = mul_between [OF x, of "Finite y", unfolded bound_mul_commute [of "Finite y"]]
  have "\<exists>c \<in> ?cs. c \<le> Finite (x * y)"
    using in_x(1) mul_between(1) [OF y, of ?la] mul_between(1) [OF y, of ?ha]
    by (simp del: less_eq_bound.simps) (meson order_trans)
  then have "Min ?cs \<le> Finite (x * y)" using Min_le [of ?cs] by (meson List.finite_set order_trans)
  moreover have "\<exists>c \<in> ?cs. Finite (x * y) \<le> c"
    using in_x(2) mul_between(2) [OF y, of ?la] mul_between(2) [OF y, of ?ha]
    by (simp del: less_eq_bound.simps) (meson order_trans)
  then have "Finite (x * y) \<le> Max ?cs" using Max_ge [of ?cs] by (meson List.finite_set order_trans)
  ultimately show ?thesis
    using assms(3) finite_bound_low finite_bound_high
    by (simp add: in_ints_bounds iv_mul_def Let_def del: less_eq_bound.simps Min_insert Max_insert)
qed

text \<open>
  C20. Interval arithmetic is sound: a sum, difference or product of integers of two intervals
  that PHP can still hold as an integer lies in the interval computed, with overflowing and
  absent bounds, zero times an unbounded side and mixed signs included.
\<close>

theorem interval_arithmetic_sound:
  assumes "x \<in> ints a" "y \<in> ints b"
  shows "(in_i64 (x + y) \<longrightarrow> x + y \<in> ints (iv_add a b)) \<and>
    (in_i64 (x - y) \<longrightarrow> x - y \<in> ints (iv_sub a b)) \<and>
    (in_i64 (x * y) \<longrightarrow> x * y \<in> ints (iv_mul a b))"
  using assms add_sound sub_sound mul_sound by blast

theorem interval_arithmetic_sound_witness:
  "iv_mul (iv (Some (- 3)) None) (iv (Some 0) (Some i64_max)) = unbounded \<and>
   iv_mul (iv (Some (- 3)) (Some 2)) (iv (Some (- 5)) (Some 4)) = iv (Some (- 12)) (Some 15) \<and>
   15 \<in> ints (iv_mul (iv (Some (- 3)) (Some 2)) (iv (Some (- 5)) (Some 4)))"
proof -
  have "- 3 \<in> ints (iv (Some (- 3)) (Some 2))" "- 5 \<in> ints (iv (Some (- 5)) (Some 4))"
    by (simp_all add: in_ints i64_defs)
  from interval_arithmetic_sound [OF this]
  have "15 \<in> ints (iv_mul (iv (Some (- 3)) (Some 2)) (iv (Some (- 5)) (Some 4)))"
    by (simp add: i64_defs)
  then show ?thesis
    by (simp add: iv_mul_def low_def high_def unbounded_def i64_defs min_def max_def Let_def)
qed

subsection \<open>Hulls and intersections\<close>

lemma hull_ints: "ints a \<union> ints b \<subseteq> ints (hull a b)"
  by (cases "iv_min a"; cases "iv_min b"; cases "iv_max a"; cases "iv_max b")
     (auto simp: hull_def ints_def)

lemma foldl_hull_ints: "ints i \<union> (\<Union>j \<in> set js. ints j) \<subseteq> ints (foldl hull i js)"
proof (induction js arbitrary: i)
  case (Cons j js)
  have "ints i \<union> ints j \<subseteq> ints (hull i j)" by (rule hull_ints)
  with Cons.IH [of "hull i j"] show ?case by (simp only: foldl_Cons list.set UN_insert) blast
qed simp

lemma hull_of_ints: "i \<in> set is \<Longrightarrow> ints i \<subseteq> ints (hull_of is)"
proof (cases "is")
  case (Cons j js)
  assume "i \<in> set is"
  then have "ints i \<subseteq> ints j \<union> (\<Union>k \<in> set js. ints k)" unfolding Cons by auto
  also have "\<dots> \<subseteq> ints (foldl hull j js)" by (rule foldl_hull_ints)
  finally show ?thesis by (simp only: Cons hull_of_def list.case)
qed simp

lemma intersect_ints:
  "ints a \<inter> ints b = (case intersect a b of None \<Rightarrow> {} | Some i \<Rightarrow> ints i)"
  by (cases "iv_min a"; cases "iv_min b"; cases "iv_max a"; cases "iv_max b")
     (auto simp: intersect_def Let_def ints_def)

lemma ordered_against_ints:
  assumes "in_i64 bound"
  shows "{v. in_i64 v \<and> (if is_less then v < bound \<or> or_equal \<and> v = bound else bound < v \<or> or_equal \<and> v = bound)} =
    (case ordered_against bound is_less or_equal of None \<Rightarrow> {} | Some i \<Rightarrow> ints i)"
  using assms
  by (auto simp: ordered_against_def in_ints checked_sub_def checked_add_def i64_try_from_def
      i64_min_def i64_max_def in_i64_def split: bool.splits)

lemma without_edge_ints:
  assumes "without_edge i v = Some kept"
  shows "ints i - {v} = (case kept of None \<Rightarrow> {} | Some j \<Rightarrow> ints j)"
  using assms
  by (cases i) (auto simp: without_edge_def in_ints checked_sub_def checked_add_def i64_try_from_def
      split: if_splits option.splits)

text \<open>
  C29. Narrowing an interval is exact: the intersection holds the integers both hold, an ordering
  test against a bound the integers it admits, taking out an edge every integer but the edge, and
  the answer that nothing is left is given exactly when nothing is.
\<close>

theorem interval_narrowing_exact:
  assumes "in_i64 bound"
  shows "ints a \<inter> ints b = (case intersect a b of None \<Rightarrow> {} | Some i \<Rightarrow> ints i) \<and>
    {v. in_i64 v \<and> (if is_less then v < bound \<or> or_equal \<and> v = bound else bound < v \<or> or_equal \<and> v = bound)} =
      (case ordered_against bound is_less or_equal of None \<Rightarrow> {} | Some i \<Rightarrow> ints i) \<and>
    (\<forall>kept. without_edge a v = Some kept \<longrightarrow>
       ints a - {v} = (case kept of None \<Rightarrow> {} | Some j \<Rightarrow> ints j))"
  using intersect_ints ordered_against_ints [OF assms] without_edge_ints by blast

theorem interval_narrowing_exact_witness:
  "without_edge (iv (Some 0) None) 0 = Some (Some (iv (Some 1) None)) \<and>
   ints (iv (Some 0) None) - {0} = ints (iv (Some 1) None)"
proof -
  have edge: "without_edge (iv (Some 0) None) 0 = Some (Some (iv (Some 1) None))"
    by (simp add: without_edge_def i64_defs)
  have "in_i64 0" by (simp add: i64_defs)
  from interval_narrowing_exact [OF this, where a = "iv (Some 0) None" and v = 0] edge
  show ?thesis by fastforce
qed

subsection \<open>Types of intervals\<close>

lemma show_int_not_keyword:
  "\<not> eq_ignore_ascii_case (show_int v) ''min''" "\<not> eq_ignore_ascii_case (show_int v) ''max''"
proof -
  have m: "hd (to_ascii_lowercase (show_int v)) \<noteq> CHR ''m''"
  proof (cases "v < 0")
    case True
    then show ?thesis by (simp add: show_int_def str_eval)
  next
    case False
    then obtain c cs where c: "show_int v = c # cs" "is_ascii_digit c"
      using show_nat_last(2) [of "nat v"] show_nat_nonempty [of "nat v"]
      by (cases "show_nat (nat v)") (auto simp: show_int_def)
    then have "lower_char c = c" by (auto simp: lower_char_def is_ascii_uppercase_def is_ascii_digit_def)
    then show ?thesis using c by (auto simp: to_ascii_lowercase_def is_ascii_digit_def)
  qed
  then show "\<not> eq_ignore_ascii_case (show_int v) ''min''" "\<not> eq_ignore_ascii_case (show_int v) ''max''"
    by (auto simp: eq_ignore_ascii_case_def str_eval)
qed

lemma parse_bound_show:
  assumes "in_i64 v"
  shows "parse_bound (show_int v) ''min'' = Some v" "parse_bound (show_int v) ''max'' = Some v"
  using assms by (simp_all add: parse_bound_def show_int_not_keyword trim_show_int parse_i64_show_int)

lemma parse_bound_keyword: "parse_bound ''min'' ''min'' = None" "parse_bound ''max'' ''max'' = None"
  by (simp_all add: parse_bound_def)

lemma of_int_pt_int: "of_int pt_int = Some unbounded"
proof -
  have "keyword_key ''int'' = ''int''" using keyword_key_cases [of "''int''"] by (auto simp: str_eval)
  then show ?thesis
    by (simp add: of_int_def keyword_types refined_int_to_range_def is_int_subtype.simps
        with_keyword_lowercase_key str_eval)
qed

text \<open>
  An interval survives being written as a type: the type of an interval reads back as the
  same interval, and as a literal exactly when one integer is left.
\<close>

theorem into_type_roundtrip:
  assumes "iv_ok i"
  shows "of_int (into_type i) = Some i \<and>
    ((\<exists>l. kind (into_type i) = Literal l) \<longleftrightarrow> (\<exists>v. iv_min i = Some v \<and> iv_max i = Some v))"
proof (cases i)
  case (fields lo hi)
  consider "lo = None \<and> hi = None" | v where "lo = Some v" "hi = Some v"
    | "lo \<noteq> hi"
    by (cases lo; cases hi) auto
  then show ?thesis
  proof cases
    case 1
    then show ?thesis using of_int_pt_int
      by (simp add: fields into_type_def unbounded_def) (simp add: keyword_types)
  next
    case (2 v)
    then have "parse_php_int_literal (show_int v) = Some v"
      using assms by (intro parse_php_int_show) (simp add: fields iv_ok_def)
    then show ?thesis
      using 2 by (simp add: fields into_type_def of_int_def literal_int_def literal_def
          literal_i64.simps exact_def)
  next
    case 3
    then show ?thesis
      using assms by (cases lo; cases hi)
        (simp_all add: fields into_type_def of_int_def int_range_def parse_bound_show
          parse_bound_keyword iv_ok_def)
  qed
qed

theorem into_type_roundtrip_witness:
  "into_type (iv (Some (- 5)) None) = IntRange ''-5'' ''max'' \<and>
   of_int (into_type (iv (Some (- 5)) None)) = Some (iv (Some (- 5)) None)"
proof -
  have "iv_ok (iv (Some (- 5)) None)" by (simp add: iv_ok_def i64_defs)
  from into_type_roundtrip [OF this] have "of_int (into_type (iv (Some (- 5)) None)) = Some (iv (Some (- 5)) None)"
    by blast
  moreover have "show_int (- 5) = ''-5''"
    by (simp add: show_int_def show_nat.simps digit_char_def char_of_eq_iff)
  ultimately show ?thesis by (simp add: into_type_def int_range_def)
qed

subsection \<open>Widening ends\<close>

definition open_sides :: "interval \<Rightarrow> nat" where
  "open_sides i = (if iv_min i = None then 1 else 0) + (if iv_max i = None then 1 else 0)"

lemma open_sides_le: "open_sides i \<le> 2"
  by (simp add: open_sides_def)

lemma widened_step:
  assumes "is_exceeded_by later earlier = (False, False)"
  shows "widened earlier later = earlier \<or> open_sides earlier < open_sides (widened earlier later)"
    and "ints earlier \<union> ints later \<subseteq> ints (widened earlier later)"
    and "open_sides earlier \<le> open_sides (widened earlier later)"
  using assms
  by (cases "iv_min earlier"; cases "iv_max earlier"; cases "iv_min later"; cases "iv_max later";
      auto simp: widened_def is_exceeded_by_def open_sides_def ints_def Let_def intro!: interval.equality)+

text \<open>
  Where every pass reaches at least as far as the interval it started from, the widened interval
  covers both and the sequence of widened intervals changes at most twice, once for each side,
  however many passes are made.  A loop need not behave so: \<open>$i = 5 - $i\<close> turns a lower bound into
  an upper one, and its passes are not covered.
\<close>

theorem widening_changes_twice:
  assumes "\<And>n. is_exceeded_by (pass n) (entry n) = (False, False)"
    and "\<And>n. entry (Suc n) = widened (entry n) (pass n)"
  shows "card {n. n < k \<and> entry (Suc n) \<noteq> entry n} \<le> 2 \<and>
    ints (entry n) \<union> ints (pass n) \<subseteq> ints (entry (Suc n))"
proof
  have "card {n. n < k \<and> entry (Suc n) \<noteq> entry n} \<le> open_sides (entry k)" for k
  proof (induction k)
    case (Suc k)
    have split: "{n. n < Suc k \<and> entry (Suc n) \<noteq> entry n} =
        {n. n < k \<and> entry (Suc n) \<noteq> entry n} \<union> (if entry (Suc k) \<noteq> entry k then {k} else {})"
      by (auto simp: less_Suc_eq)
    have "card {n. n < Suc k \<and> entry (Suc n) \<noteq> entry n} \<le>
        card {n. n < k \<and> entry (Suc n) \<noteq> entry n} + (if entry (Suc k) \<noteq> entry k then 1 else 0)"
      unfolding split by (rule order_trans [OF card_Un_le]) simp
    then show ?case
      using Suc widened_step(1, 3) [OF assms(1) [of k]] assms(2) [of k] by (auto split: if_splits)
  qed simp
  then show "card {n. n < k \<and> entry (Suc n) \<noteq> entry n} \<le> 2"
    using open_sides_le order_trans by blast
  show "ints (entry n) \<union> ints (pass n) \<subseteq> ints (entry (Suc n))"
    unfolding assms(2) by (rule widened_step(2) [OF assms(1)])
qed

theorem widening_changes_twice_witness:
  "let entry = (\<lambda>n :: nat. if n = 0 then iv (Some 0) (Some 0) else iv (Some 0) None);
       pass = (\<lambda>n :: nat. if n = 0 then iv (Some 0) (Some 1) else iv (Some 0) None)
   in widened (entry 0) (pass 0) = entry 1 \<and>
      card {n. n < 9 \<and> entry (Suc n) \<noteq> entry n} \<le> 2"
proof -
  let ?entry = "\<lambda>n :: nat. if n = 0 then iv (Some 0) (Some 0) else iv (Some 0) None"
  let ?pass = "\<lambda>n :: nat. if n = 0 then iv (Some 0) (Some 1) else iv (Some 0) None"
  have covers: "is_exceeded_by (?pass n) (?entry n) = (False, False)" for n
    by (simp add: is_exceeded_by_def)
  have step: "?entry (Suc n) = widened (?entry n) (?pass n)" for n
    by (simp add: widened_def is_exceeded_by_def)
  have "card {n. n < 9 \<and> ?entry (Suc n) \<noteq> ?entry n} \<le> 2"
    using widening_changes_twice [where entry = ?entry and pass = ?pass and k = 9, OF covers step] by blast
  then show ?thesis using step [of 0] by (simp add: Let_def)
qed

end
