(* ===== verification/Publication_Epoch.thy ===== *)
theory Publication_Epoch
  imports Prelude "HOL-Library.Word"
begin

section \<open>The publication epoch\<close>

text \<open>
  \<open>src/diagnostics/incremental/epoch.rs\<close>: the counters that tell a diagnostic pass whether
  anything but its own file's edits changed since the last one.  Every operation runs under
  the mutex, so an execution is a sequence of operations of all threads; the counters keep
  their widths and wrap.  A guard is the list of tracked files its publication named; the
  guards that are open are part of the state of the system.
\<close>

record epoch_state =
  generation :: "64 word"
  active :: "32 word"
  own :: "str \<rightharpoonup> 64 word"

record epoch_snapshot =
  snap_generation :: "64 word"
  snap_own :: "64 word"

definition only_own_changes_since :: "epoch_snapshot \<Rightarrow> epoch_snapshot \<Rightarrow> bool" where
  "only_own_changes_since now earlier =
     (snap_generation now - snap_generation earlier = snap_own now - snap_own earlier)"

text \<open>The loop over the published files: each tracked one is counted and remembered.\<close>

fun count_own :: "(str \<rightharpoonup> 64 word) \<Rightarrow> str list \<Rightarrow> (str \<rightharpoonup> 64 word) \<times> str list" where
  "count_own m [] = (m, [])"
| "count_own m (uri # uris) =
     (case m uri of
        None \<Rightarrow> count_own m uris
      | Some n \<Rightarrow> (let (m', tracked) = count_own (m(uri \<mapsto> n + 1)) uris in (m', uri # tracked)))"

definition begin_publication :: "epoch_state \<Rightarrow> str list \<Rightarrow> epoch_state \<times> str list" where
  "begin_publication s uris =
     (let (own', tracked) = count_own (own s) uris
      in (s\<lparr>generation := generation s + 1, active := active s + 1, own := own'\<rparr>, tracked))"

definition drop_guard :: "epoch_state \<Rightarrow> str list \<Rightarrow> epoch_state" where
  "drop_guard s tracked =
     s\<lparr>generation := generation s + 1, active := active s - 1,
       own := fst (count_own (own s) tracked)\<rparr>"

definition note_change :: "epoch_state \<Rightarrow> epoch_state" where
  "note_change s = s\<lparr>generation := generation s + 1\<rparr>"

definition snapshot :: "epoch_state \<Rightarrow> str \<Rightarrow> epoch_snapshot option \<times> epoch_state" where
  "snapshot s uri =
     (if active s > 0 then (None, s)
      else case own s uri of
             Some n \<Rightarrow> (Some \<lparr>snap_generation = generation s, snap_own = n\<rparr>, s)
           | None \<Rightarrow> (Some \<lparr>snap_generation = generation s, snap_own = 0\<rparr>,
                      s\<lparr>own := (own s)(uri \<mapsto> 0)\<rparr>))"

definition unchanged_since :: "epoch_state \<Rightarrow> epoch_snapshot \<Rightarrow> bool" where
  "unchanged_since s snap = (active s = 0 \<and> generation s = snap_generation snap)"

definition forget :: "epoch_state \<Rightarrow> str \<Rightarrow> epoch_state" where
  "forget s uri = s\<lparr>own := (own s)(uri := None)\<rparr>"

definition epoch_default :: epoch_state where
  "epoch_default = \<lparr>generation = 0, active = 0, own = Map.empty\<rparr>"

subsection \<open>Executions\<close>

text \<open>
  One operation of some thread on the counters and the open guards.  Dropping a guard closes
  one that is open; the order of the open guards does not matter.
\<close>

datatype epoch_event = Begin "str list" | Finish | Note | Snap str | Forget str

inductive epoch_step ::
  "epoch_state \<times> str list list \<Rightarrow> epoch_event \<Rightarrow> epoch_state \<times> str list list \<Rightarrow> bool" where
  begin_step: "begin_publication s uris = (s', tracked) \<Longrightarrow>
     epoch_step (s, gs) (Begin uris) (s', tracked # gs)"
| finish_step: "epoch_step (s, gs @ g # hs) Finish (drop_guard s g, gs @ hs)"
| note_step: "epoch_step (s, gs) Note (note_change s, gs)"
| snap_step: "epoch_step (s, gs) (Snap uri) (snd (snapshot s uri), gs)"
| forget_step: "epoch_step (s, gs) (Forget uri) (forget s uri, gs)"

inductive_cases epoch_stepE: "epoch_step c e c'"

inductive epoch_run ::
  "epoch_state \<times> str list list \<Rightarrow> epoch_event list \<Rightarrow> epoch_state \<times> str list list \<Rightarrow> bool" where
  run_nil: "epoch_run c [] c"
| run_snoc: "epoch_run c tr c' \<Longrightarrow> epoch_step c' e c'' \<Longrightarrow> epoch_run c (tr @ [e]) c''"

fun is_bump :: "epoch_event \<Rightarrow> bool" where
  "is_bump (Begin _) = True"
| "is_bump Finish = True"
| "is_bump Note = True"
| "is_bump _ = False"

definition bumps :: "epoch_event list \<Rightarrow> nat" where
  "bumps tr = length (filter is_bump tr)"

lemma bumps_simps [simp]: "bumps [] = 0" "bumps (tr @ [e]) = bumps tr + (if is_bump e then 1 else 0)"
  by (simp_all add: bumps_def)

text \<open>Nothing but publications that name the file.\<close>

definition only_publications_of :: "str \<Rightarrow> epoch_event list \<Rightarrow> bool" where
  "only_publications_of uri tr =
     list_all (\<lambda>e. case e of Begin uris \<Rightarrow> uri \<in> set uris | Note \<Rightarrow> False | _ \<Rightarrow> True) tr"

definition distinct_begins :: "epoch_event list \<Rightarrow> bool" where
  "distinct_begins tr = list_all (\<lambda>e. case e of Begin uris \<Rightarrow> distinct uris | _ \<Rightarrow> True) tr"

lemma count_own_tracked: "snd (count_own m uris) = filter (\<lambda>u. m u \<noteq> None) uris"
proof (induction m uris rule: count_own.induct)
  case (2 m uri uris)
  have "filter (\<lambda>u. (m(uri \<mapsto> n)) u \<noteq> None) uris = filter (\<lambda>u. m u \<noteq> None) uris"
    if "m uri \<noteq> None" for n
    using that by (intro filter_cong) auto
  then show ?case using 2 by (auto split: option.split prod.split simp del: fun_upd_apply)
qed simp

lemma count_own_at:
  "distinct uris \<Longrightarrow> fst (count_own m uris) u =
     (case m u of None \<Rightarrow> None | Some n \<Rightarrow> Some (if u \<in> set uris then n + 1 else n))"
  by (induction m uris rule: count_own.induct) (auto split: option.split prod.splits)

lemma epoch_step_bump:
  "epoch_step (s, gs) e (s', gs') \<Longrightarrow> generation s' = generation s + (if is_bump e then 1 else 0)"
  by (erule epoch_stepE)
    (auto simp: begin_publication_def drop_guard_def note_change_def snapshot_def forget_def
      split: prod.splits option.splits if_splits)

lemma epoch_run_generation:
  "epoch_run c tr c' \<Longrightarrow> generation (fst c') = generation (fst c) + of_nat (bumps tr)"
proof (induction rule: epoch_run.induct)
  case (run_snoc c tr c' e c'')
  then show ?case
    using epoch_step_bump [of "fst c'" "snd c'" e "fst c''" "snd c''"] by simp
qed simp

text \<open>
  The invariant of the counters: the number of publications in progress is the number of open
  guards, and each guard names a tracked file at most once.
\<close>

definition guards_ok :: "epoch_state \<times> str list list \<Rightarrow> bool" where
  "guards_ok c \<longleftrightarrow> active (fst c) = of_nat (length (snd c)) \<and> list_all distinct (snd c)"

lemma epoch_step_guards:
  assumes "epoch_step c e c'" "guards_ok c" "distinct_begins [e]"
  shows "guards_ok c'"
  using assms
proof cases
  case (begin_step s uris s' tracked gs)
  then have "tracked = snd (count_own (own s) uris)" "active s' = active s + 1"
    by (auto simp: begin_publication_def split: prod.splits)
  then show ?thesis
    using begin_step assms(2, 3) by (simp add: guards_ok_def count_own_tracked distinct_begins_def)
next
  case (snap_step s gs uri)
  then show ?thesis using assms(2) by (auto simp: guards_ok_def snapshot_def split: option.splits)
qed (use assms(2) in \<open>auto simp: guards_ok_def drop_guard_def note_change_def forget_def\<close>)

lemma distinct_begins_snoc [simp]:
  "distinct_begins (tr @ [e]) \<longleftrightarrow> distinct_begins tr \<and> distinct_begins [e]"
  by (simp add: distinct_begins_def)

lemma only_publications_snoc [simp]:
  "only_publications_of uri (tr @ [e]) \<longleftrightarrow> only_publications_of uri tr \<and> only_publications_of uri [e]"
  by (simp add: only_publications_of_def)

lemma epoch_run_guards:
  "epoch_run c tr c' \<Longrightarrow> guards_ok c \<Longrightarrow> distinct_begins tr \<Longrightarrow> guards_ok c'"
  by (induction rule: epoch_run.induct) (auto dest: epoch_step_guards)

text \<open>
  The file's own count moves by \<open>k\<close> of the bumps; only when all of them are its own can the
  two differences agree.
\<close>

definition own_count :: "str \<Rightarrow> 64 word \<Rightarrow> epoch_event list \<Rightarrow> epoch_state \<Rightarrow> bool" where
  "own_count uri n tr s \<longleftrightarrow>
     (case own s uri of
        None \<Rightarrow> True
      | Some v \<Rightarrow> \<exists>k \<le> bumps tr. (v = n + of_nat k \<or> v = of_nat k) \<and>
          (k = bumps tr \<longrightarrow> only_publications_of uri tr))"

lemma no_bumps_pure: "bumps tr = 0 \<Longrightarrow> only_publications_of uri tr"
  by (induction tr) (auto simp: bumps_def only_publications_of_def split: epoch_event.splits if_splits)

lemma own_count_bump:
  assumes "own_count uri n tr s" "is_bump e"
    and "own s' uri = (case own s uri of None \<Rightarrow> None | Some v \<Rightarrow> Some (if mine then v + 1 else v))"
    and "mine \<Longrightarrow> only_publications_of uri [e]"
  shows "own_count uri n (tr @ [e]) s'"
proof (cases "own s uri")
  case (Some v)
  then obtain k where k: "k \<le> bumps tr" "v = n + of_nat k \<or> v = of_nat k"
    "k = bumps tr \<longrightarrow> only_publications_of uri tr"
    using assms(1) by (auto simp: own_count_def)
  show ?thesis
  proof (cases mine)
    case True
    then have "own s' uri = Some (v + 1)" using assms(3) Some by simp
    moreover have "v + 1 = n + of_nat (Suc k) \<or> v + 1 = of_nat (Suc k)" using k(2) by auto
    ultimately show ?thesis
      using k(1, 3) assms(2, 4) True unfolding own_count_def by (auto intro!: exI [of _ "Suc k"])
  next
    case False
    then have "own s' uri = Some v" using assms(3) Some by simp
    then show ?thesis
      using k(1, 2) assms(2) unfolding own_count_def by (auto intro!: exI [of _ k])
  qed
qed (use assms(3) in \<open>simp add: own_count_def\<close>)

lemma own_count_step:
  assumes "own_count uri n tr (fst c)" "epoch_step c e c'" "guards_ok c" "distinct_begins [e]"
  shows "own_count uri n (tr @ [e]) (fst c')"
  using assms(2)
proof cases
  case (begin_step s uris s' tracked gs)
  then have "own s' = fst (count_own (own s) uris)" "distinct uris"
    using assms(4) by (auto simp: begin_publication_def distinct_begins_def split: prod.splits)
  then show ?thesis
    using own_count_bump [of uri n tr s e s' "uri \<in> set uris"] assms(1) begin_step count_own_at [of uris]
    by (simp add: only_publications_of_def)
next
  case (finish_step s gs g hs)
  then have "distinct g" using assms(3) by (simp add: guards_ok_def)
  then show ?thesis
    using own_count_bump [of uri n tr s e "drop_guard s g" "uri \<in> set g"] assms(1) finish_step
      count_own_at [of g]
    by (simp add: only_publications_of_def drop_guard_def)
next
  case (note_step s gs)
  then show ?thesis
    using own_count_bump [of uri n tr s e "note_change s" False] assms(1)
    by (simp add: note_change_def split: option.split)
next
  case (snap_step s gs u)
  have keep: "own_count uri n (tr @ [e]) s" using assms(1) snap_step
    by (simp add: own_count_def only_publications_of_def split: option.splits)
  show ?thesis
  proof (cases "active s > 0 \<or> own s u \<noteq> None \<or> u \<noteq> uri")
    case True
    then show ?thesis using keep snap_step by (auto simp: snapshot_def own_count_def split: option.splits)
  next
    case False
    then have "own s uri = None" "u = uri" by auto
    then have "own (fst c') uri = Some 0" using snap_step False by (simp add: snapshot_def)
    then show ?thesis
      using no_bumps_pure [of tr uri] snap_step
      unfolding own_count_def by (auto simp: only_publications_of_def intro!: exI [of _ 0])
  qed
next
  case (forget_step s gs u)
  then show ?thesis
    using assms(1) by (auto simp: own_count_def forget_def only_publications_of_def split: option.splits)
qed

lemma own_count_run:
  "epoch_run c tr c' \<Longrightarrow> guards_ok c \<Longrightarrow> distinct_begins tr \<Longrightarrow> own (fst c) uri = Some n \<Longrightarrow>
     own_count uri n tr (fst c')"
proof (induction rule: epoch_run.induct)
  case (run_nil c)
  then show ?case by (auto simp: own_count_def only_publications_of_def intro!: exI [of _ 0])
next
  case (run_snoc c tr c' e c'')
  then show ?case using own_count_step epoch_run_guards by simp
qed

subsection \<open>What the two questions answer\<close>

text \<open>Where a snapshot is taken: no publication is in progress, and the file is tracked.\<close>

definition snapped :: "epoch_state \<times> str list list \<Rightarrow> str \<Rightarrow> epoch_snapshot \<Rightarrow> bool" where
  "snapped c uri snap \<longleftrightarrow>
     snapshot (fst c) uri = (Some snap, fst c)"

lemma snapped_fields:
  "snapped c uri snap \<Longrightarrow>
     active (fst c) = 0 \<and> snap_generation snap = generation (fst c) \<and> own (fst c) uri = Some (snap_own snap)"
proof -
  assume snap: "snapped c uri snap"
  show ?thesis
  proof (cases "own (fst c) uri")
    case None
    then have "(fst c)\<lparr>own := (own (fst c))(uri \<mapsto> 0)\<rparr> = fst c"
      using snap by (auto simp: snapped_def snapshot_def split: if_splits)
    then have "own ((fst c)\<lparr>own := (own (fst c))(uri \<mapsto> 0)\<rparr>) uri = own (fst c) uri" by simp
    then show ?thesis using None by simp
  next
    case (Some n)
    then show ?thesis using snap by (auto simp: snapped_def snapshot_def word_gt_0 split: if_splits)
  qed
qed

lemma word_of_nat_eq:
  "(of_nat m :: 64 word) = of_nat n \<Longrightarrow> m < 2 ^ 64 \<Longrightarrow> n < 2 ^ 64 \<Longrightarrow> m = n"
  by (drule arg_cong [of _ _ unat]) (simp add: unat_of_nat)

text \<open>
  C11. A partial pass keeps old diagnostics only when it may: if two snapshots of a file
  differ only by the file's own publications, then every publication between them named the
  file and no other change was noted.  The count of bumps is below the width of the counters,
  and no publication names one file twice.
\<close>

theorem only_own_changes_sound:
  assumes "epoch_run c tr c'" "guards_ok c" "distinct_begins tr"
    and "snapped c uri earlier" "snapped c' uri now"
    and "unat (snap_own earlier) + bumps tr < 2 ^ 64"
    and "only_own_changes_since now earlier"
  shows "only_publications_of uri tr"
proof -
  let ?n = "snap_own earlier" and ?v = "snap_own now"
  note e = snapped_fields [OF assms(4)] and w = snapped_fields [OF assms(5)]
  have diff: "of_nat (bumps tr) = ?v - ?n"
    using assms(7) e w epoch_run_generation [OF assms(1)] by (simp add: only_own_changes_since_def)
  from own_count_run [OF assms(1-3), of uri ?n] e w
  obtain k where k: "k \<le> bumps tr" "?v = ?n + of_nat k \<or> ?v = of_nat k"
    "k = bumps tr \<longrightarrow> only_publications_of uri tr"
    by (auto simp: own_count_def)
  have "k = bumps tr"
  proof (cases "?v = ?n + of_nat k")
    case True
    then have "(of_nat k :: 64 word) = of_nat (bumps tr)" using diff by simp
    then show ?thesis using word_of_nat_eq k(1) assms(6) by simp
  next
    case False
    then have "(of_nat k :: 64 word) = of_nat (unat ?n + bumps tr)"
      using k(2) diff by (simp add: algebra_simps)
    then have "k = unat ?n + bumps tr" using word_of_nat_eq k(1) assms(6) by simp
    then show ?thesis using k(1) by simp
  qed
  then show ?thesis using k(3) by simp
qed

text \<open>
  A pass records its result as a baseline only when nothing happened while it ran:
  \<open>unchanged_since\<close> holds exactly when no publication began or ended and no change was noted
  since the snapshot.
\<close>

theorem unchanged_since_exact:
  assumes "epoch_run c tr c'" "guards_ok c" "distinct_begins tr" "snapped c uri snap"
    and "bumps tr < 2 ^ 64"
  shows "unchanged_since (fst c') snap \<longleftrightarrow> bumps tr = 0"
proof
  assume "unchanged_since (fst c') snap"
  then have "(of_nat (bumps tr) :: 64 word) = of_nat 0"
    using epoch_run_generation [OF assms(1)] snapped_fields [OF assms(4)]
    by (simp add: unchanged_since_def)
  then show "bumps tr = 0" using word_of_nat_eq [of "bumps tr" 0] assms(5) by simp
next
  assume quiet: "bumps tr = 0"
  have "epoch_run c tr c' \<Longrightarrow> bumps tr = 0 \<Longrightarrow> active (fst c') = active (fst c)"
    by (induction rule: epoch_run.induct)
      (auto elim!: epoch_stepE simp: snapshot_def forget_def split: if_splits option.splits)
  then show "unchanged_since (fst c') snap"
    using quiet assms(1) snapped_fields [OF assms(4)] epoch_run_generation [OF assms(1)]
    by (simp add: unchanged_since_def)
qed

definition own_guards :: "str \<Rightarrow> epoch_snapshot \<Rightarrow> epoch_event list \<Rightarrow> epoch_state \<times> str list list \<Rightarrow> bool" where
  "own_guards uri earlier tr c \<longleftrightarrow>
     list_all (\<lambda>g. uri \<in> set g) (snd c) \<and>
     own (fst c) uri = Some (snap_own earlier + of_nat (bumps tr))"

lemma own_guards_step:
  assumes "own_guards uri earlier tr c" "epoch_step c e c'" "guards_ok c" "distinct_begins [e]"
    and "only_publications_of uri [e]" "e \<noteq> Forget uri"
  shows "own_guards uri earlier (tr @ [e]) c'"
  using assms(2)
proof cases
  case (begin_step s uris s' tracked gs)
  then have s': "own s' = fst (count_own (own s) uris)" "tracked = snd (count_own (own s) uris)"
    "distinct uris" "uri \<in> set uris"
    using assms(4, 5)
    by (auto simp: begin_publication_def distinct_begins_def only_publications_of_def split: prod.splits)
  then show ?thesis
    using assms(1) begin_step by (simp add: own_guards_def count_own_at count_own_tracked)
next
  case (finish_step s gs g hs)
  then have "distinct g" "uri \<in> set g" using assms(1, 3) by (simp_all add: guards_ok_def own_guards_def)
  then show ?thesis
    using assms(1) finish_step by (simp add: own_guards_def drop_guard_def count_own_at)
next
  case (snap_step s gs u)
  then show ?thesis
    using assms(1) by (auto simp: own_guards_def snapshot_def split: option.splits)
qed (use assms(1, 5, 6) in \<open>auto simp: own_guards_def only_publications_of_def forget_def\<close>)

text \<open>
  The file's own edits never force a full pass: when every publication since a snapshot
  named the tracked file, nothing else was noted and the file was not forgotten, the counters
  say so.
\<close>

theorem own_publications_stay_partial:
  assumes "epoch_run c tr c'" "guards_ok c" "distinct_begins tr"
    and "snapped c uri earlier" "snapped c' uri now" "snd c = []"
    and "only_publications_of uri tr" "Forget uri \<notin> set tr"
  shows "only_own_changes_since now earlier"
proof -
  have "epoch_run c tr c' \<Longrightarrow> guards_ok c \<Longrightarrow> distinct_begins tr \<Longrightarrow> only_publications_of uri tr \<Longrightarrow>
      Forget uri \<notin> set tr \<Longrightarrow> own_guards uri earlier [] c \<Longrightarrow> own_guards uri earlier tr c'"
  proof (induction rule: epoch_run.induct)
    case (run_snoc c tr c' e c'')
    then show ?case
      using own_guards_step [OF _ run_snoc.hyps(2)] epoch_run_guards [OF run_snoc.hyps(1)] by auto
  qed simp
  moreover have "own_guards uri earlier [] c"
    using snapped_fields [OF assms(4)] assms(6) by (simp add: own_guards_def)
  ultimately have "own_guards uri earlier tr c'" using assms by blast
  then show ?thesis
    using snapped_fields [OF assms(4)] snapped_fields [OF assms(5)] epoch_run_generation [OF assms(1)]
    by (simp add: only_own_changes_since_def own_guards_def)
qed

subsection \<open>A run of an edit\<close>

text \<open>
  The edit of an open file: its publication begins and ends between two snapshots.  It is the
  concrete execution the theorems above are applied to.
\<close>

definition edit_before :: "epoch_state \<times> str list list" where
  "edit_before = (\<lparr>generation = 5, active = 0, own = [''a.php'' \<mapsto> 2]\<rparr>, [])"

definition edit_after :: "epoch_state \<times> str list list" where
  "edit_after = (\<lparr>generation = 7, active = 0, own = [''a.php'' \<mapsto> 4]\<rparr>, [])"

definition edit_trace :: "epoch_event list" where
  "edit_trace = [Begin [''a.php''], Finish]"

lemma edit_run: "epoch_run edit_before edit_trace edit_after"
proof -
  let ?mid = "(\<lparr>generation = 6, active = 1, own = [''a.php'' \<mapsto> 3]\<rparr>, [[''a.php'']])"
  have "epoch_step edit_before (Begin [''a.php'']) ?mid"
    unfolding edit_before_def by (rule begin_step) (simp add: begin_publication_def)
  moreover have "epoch_step ?mid Finish edit_after"
    using finish_step [of "fst ?mid" "[]" "[''a.php'']" "[]"]
    by (simp add: edit_after_def drop_guard_def)
  ultimately show ?thesis
    using run_snoc [OF run_snoc [OF run_nil]] by (simp add: edit_trace_def)
qed

lemma edit_facts:
  "guards_ok edit_before" "distinct_begins edit_trace" "snd edit_before = []"
  "snapped edit_before ''a.php'' \<lparr>snap_generation = 5, snap_own = 2\<rparr>"
  "snapped edit_after ''a.php'' \<lparr>snap_generation = 7, snap_own = 4\<rparr>"
  "bumps edit_trace = 2" "only_publications_of ''a.php'' edit_trace"
  "Forget ''a.php'' \<notin> set edit_trace"
  by (simp_all add: guards_ok_def distinct_begins_def edit_before_def edit_after_def edit_trace_def
      snapped_def snapshot_def bumps_def only_publications_of_def)

theorem only_own_changes_sound_witness:
  "only_publications_of ''a.php'' edit_trace"
proof (rule only_own_changes_sound [OF edit_run edit_facts(1, 2, 4, 5)])
  show "unat (snap_own \<lparr>snap_generation = 5, snap_own = 2\<rparr>) + bumps edit_trace < 2 ^ 64"
    by (simp add: edit_facts(6))
  show "only_own_changes_since \<lparr>snap_generation = 7, snap_own = 4\<rparr>
      \<lparr>snap_generation = 5, snap_own = 2\<rparr>"
    by (simp add: only_own_changes_since_def)
qed

theorem unchanged_since_exact_witness:
  "\<not> unchanged_since (fst edit_after) \<lparr>snap_generation = 5, snap_own = 2\<rparr>"
  using unchanged_since_exact [OF edit_run edit_facts(1, 2, 4)] by (simp add: edit_facts(6))

theorem own_publications_stay_partial_witness:
  "only_own_changes_since \<lparr>snap_generation = 7, snap_own = 4\<rparr> \<lparr>snap_generation = 5, snap_own = 2\<rparr>"
  by (rule own_publications_stay_partial [OF edit_run edit_facts(1, 2, 4, 5, 3, 7, 8)])

end
