(* ===== verification/Parse_Inflight.thy ===== *)
theory Parse_Inflight
  imports Prelude
begin

section \<open>Sharing a parse between threads\<close>

text \<open>
  \<open>src/resolution/inflight.rs\<close> and the callers in \<open>src/resolution/lazy_parse.rs\<close> and
  \<open>src/resolution/external_stubs.rs\<close> that claim a file before parsing it.  The claims are a map
  from URIs to threads under a mutex; each operation under the mutex is one atomic step, and giving
  the mutex back while going to sleep on the condition variable is one too, so the notification
  that follows a release is a step of its own.  A sleeping thread does nothing until it is notified
  or its time is up.  What a parse produces is not determined here: it may store any result, or
  unwind and store none.
\<close>

type_synonym 't claims = "str \<rightharpoonup> 't"

definition try_claim :: "'t claims \<Rightarrow> 't \<Rightarrow> str \<Rightarrow> bool \<times> 't claims" where
  "try_claim entries me uri =
     (case entries uri of
        Some _ \<Rightarrow> (False, entries)
      | None \<Rightarrow> (True, entries(uri \<mapsto> me)))"

text \<open>The first half of \<open>release\<close>; \<open>wake\<close> below is the other, \<open>notify_all\<close>.\<close>

definition release :: "'t claims \<Rightarrow> str \<Rightarrow> 't claims" where
  "release entries uri = entries(uri := None)"

text \<open>One look of \<open>wait_until_released\<close>: why the wait ends there, or \<open>None\<close> to sleep.\<close>

datatype wait_end = Free | Reentrant | Gave_Up

definition wait_look :: "'t claims \<Rightarrow> 't \<Rightarrow> str \<Rightarrow> wait_end option" where
  "wait_look entries me uri =
     (case entries uri of
        None \<Rightarrow> Some Free
      | Some owner \<Rightarrow> if owner = me then Some Reentrant else None)"

text \<open>
  A thread asks for a file, and then holds the claim (the guard is alive), or waits for another
  thread's parse, awake or asleep.  What it waited for is the file's classes, read off the index
  once the wait is over, or the file's globals: \<open>parse_external_stub_globals\<close> parses the file itself,
  without a claim, when the parse it waited for did not leave them.
\<close>

datatype purpose = For_Classes | For_Globals

datatype 'r thread_state =
    Idle
  | Parsing str
  | Notifying
  | Waiting purpose str
  | Asleep purpose str
  | Waited purpose wait_end str
  | Answered wait_end "'r option"
  | Reparsing str

record ('t, 'r) inflight =
  entries :: "'t claims"
  classes_index :: "str \<rightharpoonup> 'r"
  parsed_files :: "str set"
  threads :: "'t \<Rightarrow> 'r thread_state"

definition inflight_init :: "('t, 'r) inflight" where
  "inflight_init = \<lparr>entries = Map.empty, classes_index = Map.empty, parsed_files = {},
     threads = (\<lambda>_. Idle)\<rparr>"

text \<open>\<open>notify_all\<close>: every sleeping thread looks again.\<close>

fun wake :: "'r thread_state \<Rightarrow> 'r thread_state" where
  "wake (Asleep p uri) = Waiting p uri"
| "wake h = h"

text \<open>What a thread goes on to once its wait is over.\<close>

definition after_wait :: "('t, 'r) inflight \<Rightarrow> purpose \<Rightarrow> wait_end \<Rightarrow> str \<Rightarrow> 'r thread_state" where
  "after_wait s p e uri =
     (case p of
        For_Classes \<Rightarrow> Answered e (classes_index s uri)
      | For_Globals \<Rightarrow> if uri \<in> parsed_files s then Idle else Reparsing uri)"

inductive inflight_step :: "('t, 'r) inflight \<Rightarrow> ('t, 'r) inflight \<Rightarrow> bool" where
  claim: "threads s t = Idle \<Longrightarrow> try_claim (entries s) t uri = (True, es) \<Longrightarrow>
     inflight_step s (s\<lparr>entries := es, threads := (threads s)(t := Parsing uri)\<rparr>)"
| refused: "threads s t = Idle \<Longrightarrow> try_claim (entries s) t uri = (False, es) \<Longrightarrow>
     inflight_step s (s\<lparr>entries := es, threads := (threads s)(t := Waiting p uri)\<rparr>)"
| store: "threads s t = Parsing uri \<Longrightarrow>
     inflight_step s (s\<lparr>classes_index := (classes_index s)(uri \<mapsto> r)\<rparr>)"
| store_globals: "threads s t = Parsing uri \<or> threads s t = Reparsing uri \<Longrightarrow>
     inflight_step s (s\<lparr>parsed_files := insert uri (parsed_files s)\<rparr>)"
| drop: "threads s t = Parsing uri \<Longrightarrow>
     inflight_step s (s\<lparr>entries := release (entries s) uri, threads := (threads s)(t := Notifying)\<rparr>)"
| notify: "threads s t = Notifying \<Longrightarrow>
     inflight_step s (s\<lparr>threads := (\<lambda>u. wake (threads s u))(t := Idle)\<rparr>)"
| sleep: "threads s t = Waiting p uri \<Longrightarrow> wait_look (entries s) t uri = None \<Longrightarrow>
     inflight_step s (s\<lparr>threads := (threads s)(t := Asleep p uri)\<rparr>)"
| look: "threads s t = Waiting p uri \<Longrightarrow> wait_look (entries s) t uri = Some e \<Longrightarrow>
     inflight_step s (s\<lparr>threads := (threads s)(t := Waited p e uri)\<rparr>)"
| give_up: "threads s t = Asleep p uri \<Longrightarrow>
     inflight_step s (s\<lparr>threads := (threads s)(t := Waited p Gave_Up uri)\<rparr>)"
| go_on: "threads s t = Waited p e uri \<Longrightarrow>
     inflight_step s (s\<lparr>threads := (threads s)(t := after_wait s p e uri)\<rparr>)"
| reparsed: "threads s t = Reparsing uri \<Longrightarrow>
     inflight_step s (s\<lparr>threads := (threads s)(t := Idle)\<rparr>)"
| finish: "threads s t = Answered e r \<Longrightarrow>
     inflight_step s (s\<lparr>threads := (threads s)(t := Idle)\<rparr>)"

inductive reachable :: "('t, 'r) inflight \<Rightarrow> bool" where
  reachable_init: "reachable inflight_init"
| reachable_step: "reachable s \<Longrightarrow> inflight_step s s' \<Longrightarrow> reachable s'"

subsection \<open>The claims are exactly the guards that are alive\<close>

definition claims_inv :: "('t, 'r) inflight \<Rightarrow> bool" where
  "claims_inv s \<longleftrightarrow> (\<forall>t uri. entries s uri = Some t \<longleftrightarrow> threads s t = Parsing uri)"

lemma claims_invD:
  "claims_inv s \<Longrightarrow> entries s uri = Some t \<longleftrightarrow> threads s t = Parsing uri"
  "claims_inv s \<Longrightarrow> entries s uri = None \<Longrightarrow> threads s t \<noteq> Parsing uri"
  by (simp_all add: claims_inv_def) force

lemma wake_parsing [simp]: "wake h = Parsing uri \<longleftrightarrow> h = Parsing uri"
  by (cases h) simp_all

lemma claims_inv_move:
  assumes "claims_inv s" "\<And>u. threads s t \<noteq> Parsing u" "\<And>u. new \<noteq> Parsing u" "es = entries s"
  shows "claims_inv (s\<lparr>entries := es, threads := (threads s)(t := new)\<rparr>)"
    and "claims_inv (s\<lparr>threads := (threads s)(t := new)\<rparr>)"
    and "claims_inv (s\<lparr>threads := (\<lambda>u. wake (threads s u))(t := new)\<rparr>)"
  using assms by (auto simp: claims_inv_def)

lemma claims_inv_claim:
  assumes "claims_inv s" "threads s t = Idle" "entries s uri = None"
  shows "claims_inv (s\<lparr>entries := (entries s)(uri \<mapsto> t), threads := (threads s)(t := Parsing uri)\<rparr>)"
  unfolding claims_inv_def
proof (intro allI)
  fix t0 u0
  show "entries (s\<lparr>entries := (entries s)(uri \<mapsto> t), threads := (threads s)(t := Parsing uri)\<rparr>) u0 = Some t0
    \<longleftrightarrow> threads (s\<lparr>entries := (entries s)(uri \<mapsto> t), threads := (threads s)(t := Parsing uri)\<rparr>) t0 = Parsing u0"
    using claims_invD(1) [OF assms(1), of u0 t0] claims_invD(2) [OF assms(1, 3), of t0] assms(2)
    by (cases "t0 = t"; cases "u0 = uri") auto
qed

lemma claims_inv_drop:
  assumes "claims_inv s" "threads s t = Parsing uri"
  shows "claims_inv (s\<lparr>entries := release (entries s) uri, threads := (threads s)(t := Notifying)\<rparr>)"
  unfolding claims_inv_def
proof (intro allI)
  fix t0 u0
  have "entries s uri = Some t" using assms by (simp add: claims_invD)
  then show "entries (s\<lparr>entries := release (entries s) uri, threads := (threads s)(t := Notifying)\<rparr>) u0 = Some t0
    \<longleftrightarrow> threads (s\<lparr>entries := release (entries s) uri, threads := (threads s)(t := Notifying)\<rparr>) t0 = Parsing u0"
    using claims_invD(1) [OF assms(1), of u0 t0] assms(2)
    by (cases "t0 = t"; cases "u0 = uri") (auto simp: release_def)
qed

lemma after_wait_idle: "after_wait s p e uri \<noteq> Parsing u" "after_wait s p e uri \<noteq> Notifying" "after_wait s p e uri \<noteq> Asleep q u"
  by (simp_all add: after_wait_def split: purpose.split)

lemma claims_inv_step: "inflight_step s s' \<Longrightarrow> claims_inv s \<Longrightarrow> claims_inv s'"
proof (induction rule: inflight_step.induct)
  case (claim s t uri es)
  then have "entries s uri = None" "es = (entries s)(uri \<mapsto> t)"
    by (auto simp: try_claim_def split: option.splits)
  then show ?case using claims_inv_claim [of s t uri] claim by simp
next
  case (refused s t uri es p)
  then have "es = entries s" by (auto simp: try_claim_def split: option.splits)
  then show ?case using refused by (simp add: claims_inv_move)
next
  case (drop s t uri)
  then show ?case by (simp add: claims_inv_drop)
qed (simp_all add: claims_inv_move(2,3) after_wait_idle claims_inv_def [of "_\<lparr>classes_index := _\<rparr>"]
    claims_inv_def [of "_\<lparr>parsed_files := _\<rparr>"] claims_invD(1))

lemma reachable_claims: "reachable s \<Longrightarrow> claims_inv s"
proof (induction rule: reachable.induct)
  case reachable_init
  show ?case by (simp add: claims_inv_def inflight_init_def)
qed (blast intro: claims_inv_step)

subsection \<open>Nobody sleeps through a release\<close>

text \<open>A thread asleep over a file has one awake to wake it: the file's parser, or one that is notifying.\<close>

definition sleepers_ok :: "('t, 'r) inflight \<Rightarrow> bool" where
  "sleepers_ok s \<longleftrightarrow> (\<forall>t p uri. threads s t = Asleep p uri \<longrightarrow>
     (\<exists>u. u \<noteq> t \<and> (threads s u = Parsing uri \<or> threads s u = Notifying)))"

lemma sleepers_okD:
  "sleepers_ok s \<Longrightarrow> threads s t = Asleep p uri \<Longrightarrow>
     \<exists>u. u \<noteq> t \<and> (threads s u = Parsing uri \<or> threads s u = Notifying)"
  unfolding sleepers_ok_def by blast

lemma wake_awake [simp]: "wake h \<noteq> Asleep p uri"
  by (cases h) simp_all

text \<open>A thread that neither parses nor notifies may move to any waking state.\<close>

lemma sleepers_move:
  assumes "sleepers_ok s" "threads s t \<noteq> Notifying" "\<And>u. threads s t \<noteq> Parsing u" "\<And>p u. new \<noteq> Asleep p u"
    and "threads s' = (threads s)(t := new)"
  shows "sleepers_ok s'"
  unfolding sleepers_ok_def assms(5)
proof (intro allI impI)
  fix t0 p uri
  assume "((threads s)(t := new)) t0 = Asleep p uri"
  then have t0: "t0 \<noteq> t" "threads s t0 = Asleep p uri" using assms(4) by (auto split: if_splits)
  then obtain u where "u \<noteq> t0" "threads s u = Parsing uri \<or> threads s u = Notifying"
    using sleepers_okD [OF assms(1)] by blast
  moreover from this have "u \<noteq> t" using assms(2,3) by auto
  ultimately show "\<exists>u. u \<noteq> t0 \<and> (((threads s)(t := new)) u = Parsing uri \<or> ((threads s)(t := new)) u = Notifying)"
    by auto
qed

lemma sleepers_step: "inflight_step s s' \<Longrightarrow> claims_inv s \<Longrightarrow> sleepers_ok s \<Longrightarrow> sleepers_ok s'"
proof (induction rule: inflight_step.induct)
  case (drop s t uri)
  show ?case
    unfolding sleepers_ok_def
  proof (intro allI impI)
    fix t0 p u0
    assume asleep: "threads (s\<lparr>entries := release (entries s) uri, threads := (threads s)(t := Notifying)\<rparr>) t0 = Asleep p u0"
    then have "t0 \<noteq> t" "threads s t0 = Asleep p u0" by (auto split: if_splits)
    then obtain u where "u \<noteq> t0" "threads s u = Parsing u0 \<or> threads s u = Notifying"
      using sleepers_okD [OF drop.prems(2)] by blast
    then show "\<exists>u. u \<noteq> t0 \<and>
        (threads (s\<lparr>entries := release (entries s) uri, threads := (threads s)(t := Notifying)\<rparr>) u = Parsing u0 \<or>
         threads (s\<lparr>entries := release (entries s) uri, threads := (threads s)(t := Notifying)\<rparr>) u = Notifying)"
      by (intro exI [of _ u]) auto
  qed
next
  case (notify s t)
  show ?case by (auto simp: sleepers_ok_def split: if_splits)
next
  case (sleep s t p uri)
  then obtain owner where owner: "entries s uri = Some owner" "owner \<noteq> t"
    by (auto simp: wait_look_def split: option.splits if_splits)
  then have parsing: "threads s owner = Parsing uri" using sleep.prems(1) by (simp add: claims_invD)
  show ?case
    unfolding sleepers_ok_def
  proof (intro allI impI)
    fix t0 q u0
    assume asleep: "threads (s\<lparr>threads := (threads s)(t := Asleep p uri)\<rparr>) t0 = Asleep q u0"
    have "\<exists>u. u \<noteq> t0 \<and> u \<noteq> t \<and> (threads s u = Parsing u0 \<or> threads s u = Notifying)"
    proof (cases "t0 = t")
      case True
      then show ?thesis using asleep owner(2) parsing by auto
    next
      case False
      then have "threads s t0 = Asleep q u0" using asleep by simp
      then obtain u where u: "u \<noteq> t0" "threads s u = Parsing u0 \<or> threads s u = Notifying"
        using sleepers_okD [OF sleep.prems(2)] by blast
      then have "u \<noteq> t" using sleep.hyps(1) by auto
      then show ?thesis using u by blast
    qed
    then show "\<exists>u. u \<noteq> t0 \<and> (threads (s\<lparr>threads := (threads s)(t := Asleep p uri)\<rparr>) u = Parsing u0 \<or>
        threads (s\<lparr>threads := (threads s)(t := Asleep p uri)\<rparr>) u = Notifying)"
      by auto
  qed
next
  case (store s t uri r)
  then show ?case by (simp add: sleepers_ok_def)
next
  case (store_globals s t uri)
  then show ?case by (simp add: sleepers_ok_def)
next
  case (claim s t uri es)
  show ?case
    by (rule sleepers_move [OF claim.prems(2), where t = t and new = "Parsing uri"]) (simp_all add: claim.hyps after_wait_idle)
next
  case (refused s t uri es p)
  show ?case
    by (rule sleepers_move [OF refused.prems(2), where t = t and new = "Waiting p uri"]) (simp_all add: refused.hyps after_wait_idle)
next
  case (look s t p uri e)
  show ?case
    by (rule sleepers_move [OF look.prems(2), where t = t and new = "Waited p e uri"]) (simp_all add: look.hyps after_wait_idle)
next
  case (give_up s t p uri)
  show ?case
    by (rule sleepers_move [OF give_up.prems(2), where t = t and new = "Waited p Gave_Up uri"]) (simp_all add: give_up.hyps after_wait_idle)
next
  case (go_on s t p e uri)
  show ?case
    by (rule sleepers_move [OF go_on.prems(2), where t = t and new = "after_wait s p e uri"]) (simp_all add: go_on.hyps after_wait_idle)
next
  case (reparsed s t uri)
  show ?case
    by (rule sleepers_move [OF reparsed.prems(2), where t = t and new = "Idle"]) (simp_all add: reparsed.hyps after_wait_idle)
next
  case (finish s t e r)
  show ?case
    by (rule sleepers_move [OF finish.prems(2), where t = t and new = "Idle"]) (simp_all add: finish.hyps after_wait_idle)
qed

lemma reachable_sleepers: "reachable s \<Longrightarrow> sleepers_ok s"
proof (induction rule: reachable.induct)
  case reachable_init
  show ?case by (simp add: sleepers_ok_def inflight_init_def)
next
  case (reachable_step s s')
  then show ?case using sleepers_step reachable_claims by blast
qed

text \<open>The ways a parser and a notifier can go on.\<close>

inductive_cases step_cases: "inflight_step s s'"

lemma parser_notifies:
  "inflight_step s s' \<Longrightarrow> threads s u = Parsing uri \<Longrightarrow> threads s' u = Parsing uri \<or> threads s' u = Notifying"
  by (erule step_cases) (auto simp: try_claim_def split: if_splits)

lemma notifier_wakes:
  "inflight_step s s' \<Longrightarrow> threads s u = Notifying \<Longrightarrow> threads s' u \<noteq> Notifying \<Longrightarrow> threads s t = Asleep p uri \<Longrightarrow>
     threads s' t = Waiting p uri"
  by (erule step_cases) (auto split: if_splits)

subsection \<open>Properties\<close>

text \<open>
  C12. No file is parsed twice at once under a claim: in every reachable state, a claim names a thread
  exactly when that thread is between claiming the file and dropping its guard, so no two threads
  parse one file and every parse that ended, by unwinding too, has given its claim back.
\<close>

theorem parse_mutual_exclusion:
  assumes "reachable s"
  shows "(entries s uri = Some t \<longleftrightarrow> threads s t = Parsing uri) \<and>
    (threads s t = Parsing uri \<longrightarrow> threads s t' = Parsing uri' \<longrightarrow> (t = t' \<longleftrightarrow> uri = uri'))"
proof (intro conjI impI)
  note claims = claims_invD(1) [OF reachable_claims [OF assms]]
  show "entries s uri = Some t \<longleftrightarrow> threads s t = Parsing uri" by (rule claims)
  assume "threads s t = Parsing uri" "threads s t' = Parsing uri'"
  then have "entries s uri = Some t" "entries s uri' = Some t'" using claims by blast+
  then show "t = t' \<longleftrightarrow> uri = uri'" using \<open>threads s t = Parsing uri\<close> \<open>threads s t' = Parsing uri'\<close> by auto
qed

text \<open>
  A wait that ends at a free file ends when no thread parses it any more, and the re-entrant escape is
  never taken.
\<close>

lemma wait_ends_after_parse:
  assumes "reachable s" "threads s t = Waiting p uri"
  shows "(wait_look (entries s) t uri = Some Free \<longrightarrow> (\<forall>t'. threads s t' \<noteq> Parsing uri)) \<and>
    wait_look (entries s) t uri \<noteq> Some Reentrant"
proof (cases "entries s uri")
  case None
  then show ?thesis
    using claims_invD(2) [OF reachable_claims [OF assms(1)]] by (simp add: wait_look_def)
next
  case (Some owner)
  then have "owner \<noteq> t" using claims_invD(1) [OF reachable_claims [OF assms(1)]] assms(2) by auto
  then show ?thesis using Some by (simp add: wait_look_def)
qed

text \<open>
  C30. No wake-up is lost: whenever a thread sleeps over a file, another is parsing that file or about
  to notify; a parser only ever stops parsing by notifying, and a notification that is sent leaves
  every sleeping thread awake to look again.  So no thread is left asleep over a file nobody parses.
\<close>

theorem wait_makes_progress:
  assumes "reachable s" "threads s t = Asleep p uri"
  shows "(\<exists>u. u \<noteq> t \<and> (threads s u = Parsing uri \<or> threads s u = Notifying)) \<and>
    (\<forall>s' u. inflight_step s s' \<longrightarrow>
      (threads s u = Parsing uri \<longrightarrow> threads s' u = Parsing uri \<or> threads s' u = Notifying) \<and>
      (threads s u = Notifying \<longrightarrow> threads s' u = Notifying \<or> threads s' t = Waiting p uri))"
proof (intro conjI allI impI)
  show "\<exists>u. u \<noteq> t \<and> (threads s u = Parsing uri \<or> threads s u = Notifying)"
    by (rule sleepers_okD [OF reachable_sleepers [OF assms(1)] assms(2)])
  fix s' u
  assume step: "inflight_step s s'"
  show "threads s' u = Parsing uri \<or> threads s' u = Notifying" if "threads s u = Parsing uri"
    by (rule parser_notifies [OF step that])
  show "threads s' u = Notifying \<or> threads s' t = Waiting p uri" if "threads s u = Notifying"
    using notifier_wakes [OF step that _ assms(2)] by blast
qed

subsection \<open>Two threads, one file\<close>

text \<open>A state of three threads and at most one claim.\<close>

definition three_threads :: "bool \<Rightarrow> nat thread_state \<Rightarrow> nat thread_state \<Rightarrow> nat thread_state \<Rightarrow> (nat, nat) inflight" where
  "three_threads claimed a b c =
     \<lparr>entries = (if claimed then [''f'' \<mapsto> 0] else Map.empty), classes_index = Map.empty,
      parsed_files = {}, threads = (\<lambda>_. Idle)(0 := a, 1 := b, 2 := c)\<rparr>"

lemma reachable_thread:
  assumes "reachable s" "inflight_step s s'" "s' = s''"
  shows "reachable s''"
  using assms reachable_step by blast

lemma three_threads_claimed: "reachable (three_threads True (Parsing ''f'') Idle Idle)"
proof -
  have "reachable (three_threads False Idle Idle Idle)"
    using reachable_init by (simp add: three_threads_def inflight_init_def fun_upd_idem)
  then show ?thesis
    by (rule reachable_thread [OF _ claim [of _ 0 "''f''" "[''f'' \<mapsto> 0]"]]) (auto simp: three_threads_def try_claim_def fun_eq_iff)
qed

lemma three_threads_asleep:
  "reachable (three_threads True (Parsing ''f'') (Asleep p ''f'') Idle)"
  "reachable (three_threads True (Parsing ''f'') (Asleep p ''f'') (Asleep p ''f''))"
proof -
  have "reachable (three_threads True (Parsing ''f'') (Waiting p ''f'') Idle)"
    by (rule reachable_thread [OF three_threads_claimed refused [of _ 1 "''f''" "[''f'' \<mapsto> 0]" p]])
      (auto simp: three_threads_def try_claim_def fun_eq_iff)
  then show one: "reachable (three_threads True (Parsing ''f'') (Asleep p ''f'') Idle)"
    by (rule reachable_thread [OF _ sleep [of _ 1 p "''f''"]]) (auto simp: three_threads_def wait_look_def fun_eq_iff)
  then have "reachable (three_threads True (Parsing ''f'') (Asleep p ''f'') (Waiting p ''f''))"
    by (rule reachable_thread [OF _ refused [of _ 2 "''f''" "[''f'' \<mapsto> 0]" p]]) (auto simp: three_threads_def try_claim_def fun_eq_iff)
  then show "reachable (three_threads True (Parsing ''f'') (Asleep p ''f'') (Asleep p ''f''))"
    by (rule reachable_thread [OF _ sleep [of _ 2 p "''f''"]]) (auto simp: three_threads_def wait_look_def fun_eq_iff)
qed

lemma parse_mutual_exclusion_witness:
  "entries (three_threads True (Parsing ''f'') Idle Idle) ''f'' = Some 0"
  using parse_mutual_exclusion [OF three_threads_claimed, of "''f''" 0]
  by (simp add: three_threads_def)

lemma wait_makes_progress_witness:
  "\<exists>u. threads (three_threads True (Parsing ''f'') (Asleep For_Classes ''f'') Idle) u \<in> {Parsing ''f'', Notifying}"
  using wait_makes_progress [OF three_threads_asleep(1) [of For_Classes], of 1 For_Classes "''f''"]
  by (auto simp: three_threads_def)

text \<open>
  The claim does not cover the fallback of \<open>parse_external_stub_globals\<close>: when a class lookup
  held the claim and left the globals unparsed, every thread that waited for it goes on to
  parse the file, at the same time.
\<close>

lemma stub_globals_parsed_twice:
  "\<exists>s :: (nat, nat) inflight. reachable s \<and> threads s 1 = Reparsing ''f'' \<and> threads s 2 = Reparsing ''f''"
proof -
  let ?W = "Waiting For_Globals ''f'' :: nat thread_state" and ?D = "Waited For_Globals Free ''f'' :: nat thread_state"
    and ?R = "Reparsing ''f'' :: nat thread_state" and ?A = "Asleep For_Globals ''f'' :: nat thread_state"
  have "reachable (three_threads False Notifying ?A ?A)"
    by (rule reachable_thread [OF three_threads_asleep(2) drop [of _ 0 "''f''"]])
      (auto simp: three_threads_def release_def fun_eq_iff)
  then have "reachable (three_threads False Idle ?W ?W)"
    by (rule reachable_thread [OF _ notify [of _ 0]]) (auto simp: three_threads_def fun_eq_iff)
  then have "reachable (three_threads False Idle ?D ?W)"
    by (rule reachable_thread [OF _ look [of _ 1 For_Globals "''f''" Free]]) (auto simp: three_threads_def wait_look_def fun_eq_iff)
  then have "reachable (three_threads False Idle ?D ?D)"
    by (rule reachable_thread [OF _ look [of _ 2 For_Globals "''f''" Free]]) (auto simp: three_threads_def wait_look_def fun_eq_iff)
  then have "reachable (three_threads False Idle ?R ?D)"
    by (rule reachable_thread [OF _ go_on [of _ 1 For_Globals Free "''f''"]]) (auto simp: three_threads_def after_wait_def fun_eq_iff)
  then have "reachable (three_threads False Idle ?R ?R)"
    by (rule reachable_thread [OF _ go_on [of _ 2 For_Globals Free "''f''"]]) (auto simp: three_threads_def after_wait_def fun_eq_iff)
  then show ?thesis by (intro exI) (auto simp: three_threads_def)
qed

end
