(* ===== verification/Text_Position.thy ===== *)
theory Text_Position
  imports Prelude
begin

section \<open>Byte offsets and editor positions\<close>

text \<open>
  \<open>src/text_position.rs\<close>: between the byte offsets the server works with and the positions
  of the editor protocol, which count lines and UTF-16 code units.  A text is the list of its
  characters (Unicode scalar values); a Rust \<open>str\<close> indexes it by byte, so the offsets below
  are sums of UTF-8 lengths.  Lines, columns and offsets are natural numbers: the source
  keeps them in 32 bits and more, and a text is smaller than that.
\<close>

type_synonym ch = nat
type_synonym utext = "ch list"

abbreviation nl :: ch where "nl \<equiv> 10"
abbreviation cr :: ch where "cr \<equiv> 13"

definition len_utf8 :: "ch \<Rightarrow> nat" where
  "len_utf8 c = (if c < 0x80 then 1 else if c < 0x800 then 2 else if c < 0x10000 then 3 else 4)"

definition len_utf16 :: "ch \<Rightarrow> nat" where
  "len_utf16 c = (if c < 0x10000 then 1 else 2)"

definition byte_len :: "utext \<Rightarrow> nat" where
  "byte_len t = sum_list (map len_utf8 t)"

definition utf16_len :: "utext \<Rightarrow> nat" where
  "utf16_len t = sum_list (map len_utf16 t)"

fun is_char_boundary :: "utext \<Rightarrow> nat \<Rightarrow> bool" where
  "is_char_boundary t 0 = True"
| "is_char_boundary [] (Suc n) = False"
| "is_char_boundary (c # t) (Suc n) = (len_utf8 c \<le> Suc n \<and> is_char_boundary t (Suc n - len_utf8 c))"

text \<open>The characters that start before a byte offset, and the rest.\<close>

fun take_bytes :: "nat \<Rightarrow> utext \<Rightarrow> utext" where
  "take_bytes n [] = []"
| "take_bytes n (c # t) = (if n = 0 then [] else c # take_bytes (n - len_utf8 c) t)"

fun drop_bytes :: "nat \<Rightarrow> utext \<Rightarrow> utext" where
  "drop_bytes n [] = []"
| "drop_bytes n (c # t) = (if n = 0 then c # t else drop_bytes (n - len_utf8 c) t)"

text \<open>\<open>content[a..b]\<close> between two character boundaries, and \<open>content.get(a..b)\<close>.\<close>

definition slice :: "utext \<Rightarrow> nat \<Rightarrow> nat \<Rightarrow> utext" where
  "slice t a b = take_bytes (b - a) (drop_bytes a t)"

definition get_range :: "utext \<Rightarrow> nat \<Rightarrow> nat \<Rightarrow> utext option" where
  "get_range t a b =
     (if a \<le> b \<and> is_char_boundary t a \<and> is_char_boundary t b then Some (slice t a b) else None)"

record position =
  pos_line :: nat
  pos_char :: nat

record range =
  range_start :: position
  range_end :: position

definition ranges_overlap :: "range \<Rightarrow> range \<Rightarrow> bool" where
  "ranges_overlap a b =
     (\<not> (pos_line (range_end a) < pos_line (range_start b) \<or>
         (pos_line (range_end a) = pos_line (range_start b) \<and>
          pos_char (range_end a) \<le> pos_char (range_start b)) \<or>
         pos_line (range_end b) < pos_line (range_start a) \<or>
         (pos_line (range_end b) = pos_line (range_start a) \<and>
          pos_char (range_end b) \<le> pos_char (range_start a))))"

subsection \<open>The scans from the start of the text\<close>

fun offset_to_position_from :: "utext \<Rightarrow> nat \<Rightarrow> nat \<Rightarrow> nat \<Rightarrow> nat \<Rightarrow> position" where
  "offset_to_position_from [] i line col offset = \<lparr>pos_line = line, pos_char = col\<rparr>"
| "offset_to_position_from (c # t) i line col offset =
     (if i \<ge> offset then \<lparr>pos_line = line, pos_char = col\<rparr>
      else if c = nl then offset_to_position_from t (i + len_utf8 c) (line + 1) 0 offset
      else offset_to_position_from t (i + len_utf8 c) line (col + len_utf16 c) offset)"

definition offset_to_position :: "utext \<Rightarrow> nat \<Rightarrow> position" where
  "offset_to_position content offset = offset_to_position_from content 0 0 0 offset"

fun position_to_byte_offset_from :: "utext \<Rightarrow> nat \<Rightarrow> nat \<Rightarrow> nat \<Rightarrow> position \<Rightarrow> nat" where
  "position_to_byte_offset_from [] i line col p = i"
| "position_to_byte_offset_from (c # t) i line col p =
     (if line = pos_line p \<and> col = pos_char p then i
      else if c = nl then
        if line = pos_line p then i
        else position_to_byte_offset_from t (i + len_utf8 c) (line + 1) 0 p
      else position_to_byte_offset_from t (i + len_utf8 c) line (col + len_utf16 c) p)"

definition position_to_byte_offset :: "utext \<Rightarrow> position \<Rightarrow> nat" where
  "position_to_byte_offset content p = position_to_byte_offset_from content 0 0 0 p"

definition position_to_offset :: "utext \<Rightarrow> position \<Rightarrow> nat" where
  "position_to_offset content p = position_to_byte_offset content p"

fun position_to_char_offset_from :: "utext \<Rightarrow> nat \<Rightarrow> nat \<Rightarrow> nat \<Rightarrow> position \<Rightarrow> nat option" where
  "position_to_char_offset_from [] i line col p =
     (if line = pos_line p \<and> col = pos_char p then Some i
      else if line = pos_line p then Some i else None)"
| "position_to_char_offset_from (c # t) i line col p =
     (if line = pos_line p \<and> col = pos_char p then Some i
      else if c = nl then
        if line = pos_line p then Some i
        else position_to_char_offset_from t (i + 1) (line + 1) 0 p
      else position_to_char_offset_from t (i + 1) line (col + len_utf16 c) p)"

definition position_to_char_offset :: "utext \<Rightarrow> position \<Rightarrow> nat option" where
  "position_to_char_offset chars p = position_to_char_offset_from chars 0 0 0 p"

fun utf16_col_to_byte_from :: "utext \<Rightarrow> nat \<Rightarrow> nat \<Rightarrow> nat \<Rightarrow> nat" where
  "utf16_col_to_byte_from [] i col target = i"
| "utf16_col_to_byte_from (c # t) i col target =
     (if col = target then i
      else utf16_col_to_byte_from t (i + len_utf8 c) (col + len_utf16 c) target)"

definition utf16_col_to_byte_offset :: "utext \<Rightarrow> nat \<Rightarrow> nat" where
  "utf16_col_to_byte_offset line utf16_col = utf16_col_to_byte_from line 0 0 utf16_col"

fun utf16_col_to_char_from :: "utext \<Rightarrow> nat \<Rightarrow> nat \<Rightarrow> nat \<Rightarrow> nat" where
  "utf16_col_to_char_from [] idx col target = idx"
| "utf16_col_to_char_from (c # t) idx col target =
     (if col \<ge> target then idx else utf16_col_to_char_from t (idx + 1) (col + len_utf16 c) target)"

definition utf16_col_to_char_index :: "utext \<Rightarrow> nat \<Rightarrow> nat" where
  "utf16_col_to_char_index line utf16_col = utf16_col_to_char_from line 0 0 utf16_col"

fun byte_to_utf16_col_from :: "utext \<Rightarrow> nat \<Rightarrow> nat \<Rightarrow> nat \<Rightarrow> nat" where
  "byte_to_utf16_col_from [] i col byte_offset = col"
| "byte_to_utf16_col_from (c # t) i col byte_offset =
     (if i \<ge> byte_offset then col
      else byte_to_utf16_col_from t (i + len_utf8 c) (col + len_utf16 c) byte_offset)"

definition byte_offset_to_utf16_col :: "utext \<Rightarrow> nat \<Rightarrow> nat" where
  "byte_offset_to_utf16_col line byte_offset = byte_to_utf16_col_from line 0 0 byte_offset"

subsection \<open>The line table\<close>

text \<open>Only the character \<open>'\n'\<close> has the byte \<open>'\n'\<close> in its UTF-8 encoding.\<close>

fun starts_after :: "nat \<Rightarrow> utext \<Rightarrow> nat list" where
  "starts_after i [] = []"
| "starts_after i (c # t) =
     (if c = nl then (i + 1) # starts_after (i + len_utf8 c) t
      else starts_after (i + len_utf8 c) t)"

definition line_starts :: "utext \<Rightarrow> nat list" where
  "line_starts content = 0 # starts_after 0 content"

text \<open>\<open>binary_search\<close> on a sorted table: the index found, or the place to insert before.\<close>

definition binary_search :: "nat list \<Rightarrow> nat \<Rightarrow> nat + nat" where
  "binary_search xs x =
     (let k = length (takeWhile (\<lambda>y. y < x) xs)
      in if k < length xs \<and> xs ! k = x then Inr k else Inl k)"

definition table_line :: "nat list \<Rightarrow> nat \<Rightarrow> nat" where
  "table_line starts offset =
     (case binary_search starts offset of Inr idx \<Rightarrow> idx | Inl idx \<Rightarrow> idx - 1)"

text \<open>The loop to the next character boundary; the offset is at most the length by then.\<close>

function round_up :: "utext \<Rightarrow> nat \<Rightarrow> nat" where
  "round_up t offset =
     (if is_char_boundary t offset \<or> offset \<ge> byte_len t then offset else round_up t (offset + 1))"
  by pat_completeness auto
termination
  by (relation "measure (\<lambda>(t, offset). byte_len t - offset)") auto

declare round_up.simps [simp del]

definition position_in :: "utext \<Rightarrow> nat list \<Rightarrow> nat \<Rightarrow> position" where
  "position_in content starts offset =
     (let off = round_up content (min offset (byte_len content));
          line = table_line starts off;
          line_start = starts ! line
      in \<lparr>pos_line = line, pos_char = utf16_len (slice content line_start off)\<rparr>)"

record line_index =
  li_content :: utext
  li_starts :: "nat list"

definition line_index_new :: "utext \<Rightarrow> line_index" where
  "line_index_new content = \<lparr>li_content = content, li_starts = line_starts content\<rparr>"

definition line_of :: "line_index \<Rightarrow> nat \<Rightarrow> nat" where
  "line_of li offset = table_line (li_starts li) offset"

definition line_start :: "line_index \<Rightarrow> nat \<Rightarrow> nat" where
  "line_start li line =
     (if line < length (li_starts li) then li_starts li ! line else byte_len (li_content li))"

definition li_position :: "line_index \<Rightarrow> nat \<Rightarrow> position" where
  "li_position li offset = position_in (li_content li) (li_starts li) offset"

text \<open>
  \<open>byte_range_to_lsp_range\<close>: from the pass's line table when it is the one of this content
  (the cache is keyed by the content's address and length), by rescanning otherwise.
\<close>

definition byte_range_to_lsp_range :: "nat list option \<Rightarrow> utext \<Rightarrow> nat \<Rightarrow> nat \<Rightarrow> range" where
  "byte_range_to_lsp_range pass_table content start stop =
     (case pass_table of
        Some starts \<Rightarrow> \<lparr>range_start = position_in content starts start,
                        range_end = position_in content starts stop\<rparr>
      | None \<Rightarrow> \<lparr>range_start = offset_to_position content start,
                 range_end = offset_to_position content stop\<rparr>)"

fun line_start_byte_offset_from :: "utext \<Rightarrow> nat \<Rightarrow> nat \<Rightarrow> nat \<Rightarrow> nat" where
  "line_start_byte_offset_from [] i seen line_idx = i"
| "line_start_byte_offset_from (c # t) i seen line_idx =
     (if c = nl then
        if seen + 1 = line_idx then i + 1
        else line_start_byte_offset_from t (i + len_utf8 c) (seen + 1) line_idx
      else line_start_byte_offset_from t (i + len_utf8 c) seen line_idx)"

definition line_start_byte_offset :: "utext \<Rightarrow> nat \<Rightarrow> nat" where
  "line_start_byte_offset content line_idx =
     (if line_idx = 0 then 0 else line_start_byte_offset_from content 0 0 line_idx)"

subsection \<open>Bytes and characters\<close>

lemma len_utf8_pos [simp]: "0 < len_utf8 c"
  by (simp add: len_utf8_def)

lemma len_utf8_nl [simp]: "len_utf8 nl = 1"
  by (simp add: len_utf8_def)

lemma len_utf16_pos [simp]: "0 < len_utf16 c"
  by (simp add: len_utf16_def)

lemma byte_len_simps [simp]:
  "byte_len [] = 0" "byte_len (c # t) = len_utf8 c + byte_len t"
  "byte_len (s @ t) = byte_len s + byte_len t"
  by (simp_all add: byte_len_def)

lemma utf16_len_simps [simp]:
  "utf16_len [] = 0" "utf16_len (c # t) = len_utf16 c + utf16_len t"
  "utf16_len (s @ t) = utf16_len s + utf16_len t"
  by (simp_all add: utf16_len_def)

lemma byte_len_0 [simp]: "byte_len t = 0 \<longleftrightarrow> t = []"
  by (cases t) simp_all

lemma take_drop_bytes: "take_bytes n t @ drop_bytes n t = t"
  by (induction n t rule: take_bytes.induct) auto

lemma take_bytes_0 [simp]: "take_bytes 0 t = []" "drop_bytes 0 t = t"
  by (cases t; simp)+

lemma take_bytes_exact [simp]: "take_bytes (byte_len p) (p @ q) = p"
  by (induction p) auto

lemma drop_bytes_exact [simp]: "drop_bytes (byte_len p) (p @ q) = q"
  by (induction p) auto

lemma slice_exact: "slice (p @ q @ r) (byte_len p) (byte_len p + byte_len q) = q"
  by (simp add: slice_def)

lemma boundary_iff: "is_char_boundary t n \<longleftrightarrow> n = byte_len (take_bytes n t)"
proof (induction t n rule: is_char_boundary.induct)
  case (3 c t n)
  then show ?case by (cases "len_utf8 c \<le> Suc n") auto
qed simp_all

lemma boundary_prefix [simp]: "is_char_boundary (p @ q) (byte_len p)"
  by (simp add: boundary_iff)

lemma boundary_split: "is_char_boundary t n \<longleftrightarrow> (\<exists>p q. t = p @ q \<and> byte_len p = n)"
  by (metis boundary_iff boundary_prefix take_drop_bytes)

lemma byte_len_take: "n \<le> byte_len t \<Longrightarrow> n \<le> byte_len (take_bytes n t)"
proof (induction n t rule: take_bytes.induct)
  case (2 n c t)
  then show ?case by (cases "n = 0") (auto simp: le_diff_conv)
qed simp

lemma take_bytes_all: "byte_len t \<le> n \<Longrightarrow> take_bytes n t = t"
proof (induction n t rule: take_bytes.induct)
  case (2 n c t)
  then have "len_utf8 c \<le> n" by simp
  then have "0 < n" by (rule less_le_trans [OF len_utf8_pos])
  then show ?case using 2 by auto
qed simp

lemma byte_len_take_le: "byte_len (take_bytes n t) \<le> byte_len t"
  by (metis byte_len_simps(3) le_add1 take_drop_bytes)

lemma take_bytes_same:
  "0 < n \<Longrightarrow> n \<le> m \<Longrightarrow> m \<le> byte_len (take_bytes n t) \<Longrightarrow> take_bytes m t = take_bytes n t"
proof (induction n t arbitrary: m rule: take_bytes.induct)
  case (2 n c t)
  have n: "n \<noteq> 0" and m: "m \<noteq> 0" using 2(2,3) by simp_all
  have bound: "m - len_utf8 c \<le> byte_len (take_bytes (n - len_utf8 c) t)"
    using 2(4) n by simp
  have "take_bytes (m - len_utf8 c) t = take_bytes (n - len_utf8 c) t"
  proof (cases "n - len_utf8 c = 0")
    case True
    with bound have "m - len_utf8 c = 0" by (simp only: take_bytes_0 byte_len_simps)
    with True show ?thesis by (simp only:)
  next
    case False
    then have "0 < n - len_utf8 c" by (simp only: neq0_conv)
    from 2(1) [OF n this diff_le_mono [OF 2(3)] bound] show ?thesis .
  qed
  then show ?case using n m by (simp only: take_bytes.simps if_False)
qed simp

lemma round_up_take: "offset \<le> byte_len t \<Longrightarrow> round_up t offset = byte_len (take_bytes offset t)"
proof (induction t offset rule: round_up.induct)
  case (1 t offset)
  have le: "offset \<le> byte_len (take_bytes offset t)" using byte_len_take 1(2) by simp
  show ?case
  proof (cases "is_char_boundary t offset \<or> offset \<ge> byte_len t")
    case True
    have "is_char_boundary t (byte_len t)" using boundary_prefix [of t "[]"] by simp
    with True 1(2) have "is_char_boundary t offset" by auto
    then show ?thesis using True by (simp add: round_up.simps boundary_iff [symmetric])
  next
    case False
    then have "0 < offset" by (cases offset) auto
    moreover have "offset + 1 \<le> byte_len (take_bytes offset t)"
      using False le boundary_iff [of t offset] by simp
    ultimately have "take_bytes (offset + 1) t = take_bytes offset t"
      by (intro take_bytes_same) auto
    then show ?thesis using 1 False by (subst round_up.simps) simp
  qed
qed

subsection \<open>What a position is\<close>

text \<open>The specification: walk over the characters before the offset.\<close>

fun advance :: "position \<Rightarrow> ch \<Rightarrow> position" where
  "advance p c =
     (if c = nl then \<lparr>pos_line = pos_line p + 1, pos_char = 0\<rparr>
      else \<lparr>pos_line = pos_line p, pos_char = pos_char p + len_utf16 c\<rparr>)"

abbreviation origin :: position where "origin \<equiv> \<lparr>pos_line = 0, pos_char = 0\<rparr>"

lemma offset_to_position_from_eq:
  "offset_to_position_from t i line col offset =
     foldl advance \<lparr>pos_line = line, pos_char = col\<rparr> (take_bytes (offset - i) t)"
proof (induction t i line col offset rule: offset_to_position_from.induct)
  case (2 c t i line col offset)
  then show ?case by (auto simp: diff_diff_add)
qed simp

lemma offset_to_position_eq:
  "offset_to_position t offset = foldl advance origin (take_bytes offset t)"
  by (simp add: offset_to_position_def offset_to_position_from_eq)

text \<open>The last line of a text, and the line breaks before it.\<close>

definition last_line :: "utext \<Rightarrow> utext" where
  "last_line t = rev (takeWhile (\<lambda>c. c \<noteq> nl) (rev t))"

definition before_last_line :: "utext \<Rightarrow> utext" where
  "before_last_line t = rev (dropWhile (\<lambda>c. c \<noteq> nl) (rev t))"

lemma last_line_split: "before_last_line t @ last_line t = t"
  by (metis before_last_line_def last_line_def rev_append rev_rev_ident takeWhile_dropWhile_id)

lemma last_line_no_nl: "nl \<notin> set (last_line t)"
  by (auto simp: last_line_def dest: set_takeWhileD)

lemma before_last_line_nl: "before_last_line t = [] \<or> last (before_last_line t) = nl"
  unfolding before_last_line_def
  by (metis (mono_tags, lifting) hd_dropWhile hd_rev rev_is_Nil_conv rev_rev_ident last_rev)

lemma foldl_advance_line:
  "nl \<notin> set t \<Longrightarrow> foldl advance p t = \<lparr>pos_line = pos_line p, pos_char = pos_char p + utf16_len t\<rparr>"
  by (induction t arbitrary: p) auto

lemma foldl_advance_lines: "pos_line (foldl advance p t) = pos_line p + count_list t nl"
  by (induction t arbitrary: p) auto

lemma foldl_advance_end:
  "t = [] \<or> last t = nl \<Longrightarrow> pos_char p = 0 \<Longrightarrow> pos_char (foldl advance p t) = 0"
  by (cases t rule: rev_cases) auto

lemma foldl_advance_eq:
  "foldl advance origin t = \<lparr>pos_line = count_list t nl, pos_char = utf16_len (last_line t)\<rparr>"
proof -
  let ?p = "foldl advance origin (before_last_line t)"
  have "foldl advance origin t = foldl advance ?p (last_line t)"
    by (metis foldl_append last_line_split)
  also have "\<dots> = \<lparr>pos_line = pos_line ?p, pos_char = pos_char ?p + utf16_len (last_line t)\<rparr>"
    by (rule foldl_advance_line [OF last_line_no_nl])
  also have "pos_char ?p = 0" using foldl_advance_end [OF before_last_line_nl] by simp
  also have "pos_line ?p = count_list t nl"
  proof -
    have "count_list (last_line t) nl = 0" using last_line_no_nl by (simp add: count_list_0_iff)
    then show ?thesis
      using foldl_advance_lines [of origin "before_last_line t"]
        arg_cong [OF last_line_split [of t], of "\<lambda>s. count_list s nl"] by simp
  qed
  finally show ?thesis by (simp only: add_0)
qed

subsection \<open>The line table finds the same position\<close>

lemma starts_after_append:
  "starts_after i (s @ t) = starts_after i s @ starts_after (i + byte_len s) t"
  by (induction i s rule: starts_after.induct) (auto simp: add.assoc)

lemma starts_after_bounds:
  "x \<in> set (starts_after i t) \<Longrightarrow> i < x \<and> x \<le> i + byte_len t"
  by (induction i t rule: starts_after.induct) (fastforce split: if_splits)+

lemma length_starts_after: "length (starts_after i t) = count_list t nl"
  by (induction i t rule: starts_after.induct) auto

lemma starts_after_line: "nl \<notin> set t \<Longrightarrow> starts_after i t = []"
  by (induction i t rule: starts_after.induct) auto

lemma last_starts_after:
  "last t = nl \<Longrightarrow> t \<noteq> [] \<Longrightarrow> last (starts_after i t) = i + byte_len t \<and> starts_after i t \<noteq> []"
  by (cases t rule: rev_cases) (auto simp: starts_after_append)

lemma sorted_starts: "sorted_wrt (<) (i # starts_after i t)"
proof (induction i t rule: starts_after.induct)
  case (2 i c t)
  have "i < x" if "x \<in> set (starts_after (i + len_utf8 c) t)" for x
    using starts_after_bounds [OF that] by simp
  then show ?case
    using 2 starts_after_bounds [of _ "i + len_utf8 c" t] by (cases "c = nl") auto
qed simp

text \<open>Splitting a sorted table at an offset.\<close>

lemma table_line_split:
  assumes "sorted_wrt (<) as" "as \<noteq> []" "\<And>x. x \<in> set as \<Longrightarrow> x \<le> n" "\<And>x. x \<in> set bs \<Longrightarrow> n < x"
  shows "table_line (as @ bs) n = length as - 1"
proof -
  obtain zs z where as: "as = zs @ [z]" using assms(2) by (metis rev_exhaust)
  have zs: "x < n" if "x \<in> set zs" for x
    using assms(1, 3) that as by (fastforce simp: sorted_wrt_append)
  show ?thesis
  proof (cases "z = n")
    case True
    then have "takeWhile (\<lambda>y. y < n) (as @ bs) = zs"
      using zs by (simp add: as takeWhile_append)
    then show ?thesis using True by (simp add: table_line_def binary_search_def as Let_def nth_append)
  next
    case False
    then have "z < n" using assms(3) as by (simp add: le_neq_implies_less)
    moreover have "takeWhile (\<lambda>y. y < n) bs = []"
      using assms(4) by (cases bs) (auto dest: less_asym)
    ultimately have "takeWhile (\<lambda>y. y < n) (as @ bs) = as"
      using zs by (auto simp: as takeWhile_append)
    moreover have "(as @ bs) ! length as \<noteq> n" if "length as < length (as @ bs)"
      using that assms(4) by (cases bs) (auto simp: nth_append)
    ultimately show ?thesis by (auto simp: table_line_def binary_search_def Let_def)
  qed
qed

lemma line_table_at:
  "table_line (line_starts (p @ q)) (byte_len p) = count_list p nl"
  "line_starts (p @ q) ! count_list p nl = byte_len (before_last_line p)"
proof -
  let ?as = "0 # starts_after 0 p" and ?bs = "starts_after (byte_len p) q"
  have split: "line_starts (p @ q) = ?as @ ?bs" by (simp add: line_starts_def starts_after_append)
  have len: "length ?as = Suc (count_list p nl)" by (simp add: length_starts_after)
  have "table_line (?as @ ?bs) (byte_len p) = length ?as - 1"
  proof (rule table_line_split)
    show "x \<le> byte_len p" if "x \<in> set ?as" for x
      using that starts_after_bounds [of x 0 p] by auto
    show "byte_len p < x" if "x \<in> set ?bs" for x
      using starts_after_bounds [OF that] by simp
  qed (use sorted_starts [of 0 p] in simp_all)
  then show "table_line (line_starts (p @ q)) (byte_len p) = count_list p nl"
    using split len by simp
  have "last ?as = byte_len (before_last_line p)"
  proof (cases "before_last_line p = []")
    case True
    then have "nl \<notin> set p" using last_line_split [of p] last_line_no_nl [of p] by simp
    then show ?thesis using True by (simp add: starts_after_line)
  next
    case False
    have "starts_after 0 p = starts_after 0 (before_last_line p)"
      using starts_after_append [of 0 "before_last_line p" "last_line p"]
        starts_after_line [OF last_line_no_nl] by (simp add: last_line_split)
    then show ?thesis
      using last_starts_after [of "before_last_line p" 0] False before_last_line_nl by auto
  qed
  moreover have "line_starts (p @ q) ! count_list p nl = last ?as"
  proof -
    have "(?as @ ?bs) ! count_list p nl = ?as ! count_list p nl"
      by (rule nth_append_left) (use len in linarith)
    also have "\<dots> = last ?as" using len last_conv_nth [of ?as] by (metis diff_Suc_1 list.discI)
    finally show ?thesis by (simp only: split)
  qed
  ultimately show "line_starts (p @ q) ! count_list p nl = byte_len (before_last_line p)" by simp
qed

lemma line_table_matches_scan:
  "li_position (line_index_new content) offset = offset_to_position content offset"
proof -
  let ?off = "min offset (byte_len content)"
  let ?p = "take_bytes ?off content" and ?q = "drop_bytes ?off content"
  have content: "content = ?p @ ?q" by (simp add: take_drop_bytes)
  have "take_bytes offset content = ?p"
    by (cases "offset \<le> byte_len content") (simp_all add: take_bytes_all)
  then have pos: "offset_to_position content offset =
      \<lparr>pos_line = count_list ?p nl, pos_char = utf16_len (last_line ?p)\<rparr>"
    by (simp add: offset_to_position_eq foldl_advance_eq)
  have "content = before_last_line ?p @ last_line ?p @ ?q"
    using content last_line_split [of ?p] by (metis append.assoc)
  moreover have "byte_len ?p = byte_len (before_last_line ?p) + byte_len (last_line ?p)"
    by (metis byte_len_simps(3) last_line_split)
  ultimately have "slice content (byte_len (before_last_line ?p)) (byte_len ?p) = last_line ?p"
    using slice_exact [of "before_last_line ?p" "last_line ?p" ?q] by simp
  moreover have "round_up content ?off = byte_len ?p" by (rule round_up_take) simp
  moreover have "table_line (line_starts content) (byte_len ?p) = count_list ?p nl"
    "line_starts content ! count_list ?p nl = byte_len (before_last_line ?p)"
    using line_table_at [of ?p ?q] content by simp_all
  ultimately show ?thesis
    by (simp add: pos li_position_def line_index_new_def position_in_def Let_def)
qed

text \<open>
  C22. The precomputed line table answers exactly what rescanning the text answers, for every
  offset: past the end, and inside a multi-byte character, too.
\<close>

theorem line_index_matches_scan:
  "li_position (line_index_new content) offset = offset_to_position content offset"
  by (rule line_table_matches_scan)

end
