(* ===== verification/Text_Edits.thy ===== *)
theory Text_Edits
  imports Text_Position
    "HOL-Library.Sublist" "HOL-Library.Multiset" "HOL-Library.Product_Lexorder"
begin

section \<open>Lines, line endings and edits\<close>

text \<open>
  The rest of \<open>src/text_position.rs\<close>: splitting a text into lines, rewriting its line breaks,
  finding the line around an offset, and applying a batch of edits.  A slice outside the text or
  inside a character is a panic, the value \<open>None\<close>.
\<close>

fun split_inclusive :: "utext \<Rightarrow> utext list" where
  "split_inclusive [] = []"
| "split_inclusive (c # t) =
     (if c = nl then [c] # split_inclusive t
      else case split_inclusive t of [] \<Rightarrow> [[c]] | l # ls \<Rightarrow> (c # l) # ls)"

definition strip_suffix :: "utext \<Rightarrow> ch \<Rightarrow> utext option" where
  "strip_suffix t c = (if t \<noteq> [] \<and> last t = c then Some (butlast t) else None)"

definition strip_cr :: "utext \<Rightarrow> utext" where
  "strip_cr line = (case strip_suffix line cr of None \<Rightarrow> line | Some l \<Rightarrow> l)"

definition strip_terminator :: "utext \<Rightarrow> utext" where
  "strip_terminator raw = (case strip_suffix raw nl of None \<Rightarrow> raw | Some line \<Rightarrow> strip_cr line)"

fun scan_lines :: "nat \<Rightarrow> utext list \<Rightarrow> (nat \<times> utext) list" where
  "scan_lines start [] = []"
| "scan_lines start (raw # raws) =
     (start, strip_terminator raw) # scan_lines (start + byte_len raw) raws"

definition lines_with_offsets :: "utext \<Rightarrow> (nat \<times> utext) list" where
  "lines_with_offsets content = scan_lines 0 (split_inclusive content)"

definition line_ending :: "utext \<Rightarrow> utext" where
  "line_ending content = (if sublist [cr, nl] content then [cr, nl] else [nl])"

text \<open>The loop over the line breaks that are left, and the text after the last one.\<close>

function rewrite_breaks :: "utext \<Rightarrow> utext \<Rightarrow> utext" where
  "rewrite_breaks eol rest =
     (if nl \<in> set rest then
        let line = takeWhile (\<lambda>c. c \<noteq> nl) rest
        in strip_cr line @ eol @ rewrite_breaks eol (drop (length line + 1) rest)
      else rest)"
  by pat_completeness auto
termination
  by (relation "measure (length \<circ> snd)") (auto dest: length_pos_if_in_set intro: diff_less)

declare rewrite_breaks.simps [simp del]

definition match_line_ending :: "utext \<Rightarrow> utext \<Rightarrow> utext" where
  "match_line_ending t eol =
     (if eol = [nl] \<or> nl \<notin> set t then t else rewrite_breaks eol t)"

fun find_nl :: "nat \<Rightarrow> utext \<Rightarrow> nat option" where
  "find_nl i [] = None"
| "find_nl i (c # t) = (if c = nl then Some i else find_nl (i + len_utf8 c) t)"

fun rfind_nl :: "nat \<Rightarrow> utext \<Rightarrow> nat option" where
  "rfind_nl i [] = None"
| "rfind_nl i (c # t) =
     (case rfind_nl (i + len_utf8 c) t of
        Some k \<Rightarrow> Some k
      | None \<Rightarrow> if c = nl then Some i else None)"

definition find_line_start :: "utext \<Rightarrow> nat \<Rightarrow> nat option" where
  "find_line_start content offset =
     (let off = min offset (byte_len content)
      in if is_char_boundary content off
         then Some (case rfind_nl 0 (take_bytes off content) of None \<Rightarrow> 0 | Some k \<Rightarrow> k + 1)
         else None)"

definition find_line_end :: "utext \<Rightarrow> nat \<Rightarrow> nat option" where
  "find_line_end content offset =
     (let off = min offset (byte_len content)
      in if is_char_boundary content off
         then Some (case find_nl 0 (drop_bytes off content) of
                      None \<Rightarrow> byte_len content | Some k \<Rightarrow> off + k + 1)
         else None)"

subsection \<open>Applying edits\<close>

record text_edit =
  te_range :: range
  te_new :: utext

definition replace_range :: "utext \<Rightarrow> nat \<Rightarrow> nat \<Rightarrow> utext \<Rightarrow> utext" where
  "replace_range t a b new = take_bytes a t @ new @ drop_bytes b t"

definition apply_edit :: "utext \<Rightarrow> text_edit \<Rightarrow> utext" where
  "apply_edit t e =
     (let a = position_to_byte_offset t (range_start (te_range e));
          b = position_to_byte_offset t (range_end (te_range e))
      in if a \<le> b then replace_range t a b (te_new e) else t)"

text \<open>The stable sort by descending start: line first, then character.\<close>

definition rank :: "position \<Rightarrow> int \<times> int" where
  "rank p = (- int (pos_line p), - int (pos_char p))"

definition descending :: "text_edit \<Rightarrow> int \<times> int" where
  "descending e = rank (range_start (te_range e))"

definition apply_text_edits :: "utext \<Rightarrow> text_edit list \<Rightarrow> utext" where
  "apply_text_edits content edits = foldl apply_edit content (sort_key descending edits)"

subsection \<open>Positions and offsets are inverse\<close>

declare advance.simps [simp del]

lemma advance_simps:
  "advance p nl = \<lparr>pos_line = pos_line p + 1, pos_char = 0\<rparr>"
  "c \<noteq> nl \<Longrightarrow> advance p c = \<lparr>pos_line = pos_line p, pos_char = pos_char p + len_utf16 c\<rparr>"
  by (simp_all add: advance.simps)

lemma foldl_advance_mono:
  "pos_line (foldl advance p (c # t)) \<noteq> pos_line p \<or> pos_char p < pos_char (foldl advance p (c # t))"
proof (cases "nl \<in> set (c # t)")
  case True
  then have "count_list (c # t) nl \<noteq> 0" by (metis count_list_0_iff)
  then show ?thesis using foldl_advance_lines [of p "c # t"] by linarith
next
  case False
  then show ?thesis
    using foldl_advance_line [OF False, of p] less_le_trans [OF len_utf16_pos [of c]] by simp
qed

lemma position_to_byte_offset_from_at:
  "p = foldl advance \<lparr>pos_line = line, pos_char = col\<rparr> a \<Longrightarrow>
   position_to_byte_offset_from (a @ b) i line col p = i + byte_len a"
proof (induction a arbitrary: i line col)
  case Nil
  then show ?case by (cases b) simp_all
next
  case (Cons c a)
  have ne: "\<not> (line = pos_line p \<and> col = pos_char p)"
    using foldl_advance_mono [of "\<lparr>pos_line = line, pos_char = col\<rparr>" c a]
    unfolding Cons.prems [symmetric] by auto
  show ?case
  proof (cases "c = nl")
    case True
    then have p: "p = foldl advance \<lparr>pos_line = line + 1, pos_char = 0\<rparr> a" using Cons.prems by (simp add: advance_simps)
    have "pos_line p = line + 1 + count_list a nl" unfolding p foldl_advance_lines by simp
    then have "line \<noteq> pos_line p" by linarith
    then show ?thesis using Cons.IH [OF p] True by simp
  next
    case False
    then have p: "p = foldl advance \<lparr>pos_line = line, pos_char = col + len_utf16 c\<rparr> a"
      using Cons.prems by (simp add: advance_simps)
    have "position_to_byte_offset_from ((c # a) @ b) i line col p =
        position_to_byte_offset_from (a @ b) (i + len_utf8 c) line (col + len_utf16 c) p"
      using ne False by (simp only: append_Cons position_to_byte_offset_from.simps if_False)
    then show ?thesis using Cons.IH [OF p] by (simp only: byte_len_simps add.assoc)
  qed
qed

definition end_position :: "utext \<Rightarrow> position" where
  "end_position t = foldl advance origin t"

lemma position_to_byte_offset_at:
  "position_to_byte_offset (a @ b) (end_position a) = byte_len a"
  by (simp add: position_to_byte_offset_def end_position_def position_to_byte_offset_from_at)

text \<open>
  C31. At every character boundary the two conversions are inverse: the position of an offset
  leads back to the offset.
\<close>

theorem position_roundtrip:
  assumes "is_char_boundary content offset"
  shows "position_to_byte_offset content (offset_to_position content offset) = offset"
proof -
  obtain p q where "content = p @ q" "byte_len p = offset"
    using assms boundary_split by blast
  then show ?thesis
    using position_to_byte_offset_at [of p q] by (auto simp: offset_to_position_eq end_position_def)
qed

theorem position_roundtrip_witness:
  "is_char_boundary [97, 8364, 10, 128512, 98] 9 \<and>
   offset_to_position [97, 8364, 10, 128512, 98] 9 = \<lparr>pos_line = 1, pos_char = 2\<rparr> \<and>
   position_to_byte_offset [97, 8364, 10, 128512, 98]
     (offset_to_position [97, 8364, 10, 128512, 98] 9) = 9"
proof (intro conjI)
  show b: "is_char_boundary [97, 8364, 10, 128512, 98] 9"
    by (simp add: len_utf8_def boundary_iff)
  show "offset_to_position [97, 8364, 10, 128512, 98] 9 = \<lparr>pos_line = 1, pos_char = 2\<rparr>"
    by (simp add: offset_to_position_def len_utf8_def len_utf16_def)
  show "position_to_byte_offset [97, 8364, 10, 128512, 98]
      (offset_to_position [97, 8364, 10, 128512, 98] 9) = 9"
    by (rule position_roundtrip [OF b])
qed

subsection \<open>A batch of edits is one simultaneous replacement\<close>

text \<open>
  A batch as the text it is about: the segments between the edits, the text each edit replaces
  and the text it writes.
\<close>

type_synonym segments = "(utext \<times> utext \<times> utext) list"

fun old_text :: "segments \<Rightarrow> utext \<Rightarrow> utext" where
  "old_text [] rest = rest"
| "old_text ((gap, old, new) # ss) rest = gap @ old @ old_text ss rest"

fun new_text :: "segments \<Rightarrow> utext \<Rightarrow> utext" where
  "new_text [] rest = rest"
| "new_text ((gap, old, new) # ss) rest = gap @ new @ new_text ss rest"

fun edits_at :: "utext \<Rightarrow> segments \<Rightarrow> text_edit list" where
  "edits_at pre [] = []"
| "edits_at pre ((gap, old, new) # ss) =
     \<lparr>te_range = \<lparr>range_start = end_position (pre @ gap), range_end = end_position (pre @ gap @ old)\<rparr>,
      te_new = new\<rparr> # edits_at (pre @ gap @ old) ss"

lemma apply_edit_at:
  "apply_edit (a @ old @ b)
     \<lparr>te_range = \<lparr>range_start = end_position a, range_end = end_position (a @ old)\<rparr>, te_new = new\<rparr> =
   a @ new @ b"
  using position_to_byte_offset_at [of a "old @ b"] position_to_byte_offset_at [of "a @ old" b]
    drop_bytes_exact [of "a @ old" b]
  by (simp add: apply_edit_def replace_range_def Let_def)

lemma apply_edits_foldr:
  "foldr (\<lambda>e t. apply_edit t e) (edits_at pre ss) (pre @ old_text ss rest) = pre @ new_text ss rest"
proof (induction ss arbitrary: pre)
  case (Cons s ss)
  obtain gap old new where s: "s = (gap, old, new)" by (cases s) auto
  show ?case
    using Cons.IH [of "pre @ gap @ old"] apply_edit_at [of "pre @ gap" old "new_text ss rest" new]
    by (simp add: s)
qed simp

lemma rank_end_position: "rank (end_position (a @ b)) \<le> rank (end_position a)"
proof (cases "nl \<in> set b")
  case True
  then have "0 < count_list b nl" by (metis count_list_0_iff neq0_conv)
  then show ?thesis using foldl_advance_lines [of "end_position a" b]
    by (simp add: end_position_def rank_def less_eq_prod_def)
next
  case False
  then show ?thesis using foldl_advance_line [OF False, of "end_position a"]
    by (simp add: end_position_def rank_def less_eq_prod_def)
qed

lemma edits_at_starts: "e \<in> set (edits_at pre ss) \<Longrightarrow> descending e \<le> rank (end_position pre)"
proof (induction ss arbitrary: pre)
  case (Cons s ss)
  obtain gap old new where s: "s = (gap, old, new)" by (cases s) auto
  consider "descending e = rank (end_position (pre @ gap))"
    | "e \<in> set (edits_at (pre @ gap @ old) ss)"
    using Cons.prems by (auto simp: s descending_def)
  then show ?case
  proof cases
    case 1
    then show ?thesis by (simp only: rank_end_position)
  next
    case 2
    then show ?thesis using Cons.IH rank_end_position [of pre "gap @ old"] by (meson order_trans)
  qed
qed simp

lemma edits_at_sorted: "sorted_wrt (\<lambda>x y. y \<le> x) (map descending (edits_at pre ss))"
proof (induction ss arbitrary: pre)
  case (Cons s ss)
  obtain gap old new where s: "s = (gap, old, new)" by (cases s) auto
  let ?e = "\<lparr>te_range = \<lparr>range_start = end_position (pre @ gap),
    range_end = end_position (pre @ gap @ old)\<rparr>, te_new = new\<rparr>"
  have "descending e \<le> descending ?e" if "e \<in> set (edits_at (pre @ gap @ old) ss)" for e
    using order_trans [OF edits_at_starts [OF that]] rank_end_position [of "pre @ gap" old]
    by (simp add: descending_def)
  then show ?case using Cons.IH by (simp add: s)
qed simp

text \<open>
  C19. Edits that replace disjoint parts of the text and start at different positions can come in
  any order: applying them one by one from the bottom up replaces every part by its new text
  and leaves the rest alone, whatever lengths, line breaks and multi-unit characters they have.
\<close>

theorem apply_text_edits_correct:
  assumes "mset edits = mset (edits_at [] ss)"
      and "distinct (map descending edits)"
  shows "apply_text_edits (old_text ss rest) edits = new_text ss rest"
proof -
  have "sort_key descending edits = rev (edits_at [] ss)"
  proof (rule sort_key_inj_key_eq)
    show "mset edits = mset (rev (edits_at [] ss))" using assms(1) by simp
    show "inj_on descending (set edits)" using assms(2) by (simp add: distinct_map)
    show "sorted (map descending (rev (edits_at [] ss)))"
      using edits_at_sorted [of "[]" ss] by (simp add: rev_map [symmetric] sorted_wrt_rev)
  qed
  then show ?thesis
    using apply_edits_foldr [of "[]" ss rest] by (simp add: apply_text_edits_def foldl_conv_foldr)
qed

theorem apply_text_edits_correct_witness:
  "let ss = [([324, 32, 61, 32], [49], [50]), ([59, 10], [102, 111, 111], [98, 97, 114])];
       edits = edits_at [] ss
   in edits = [\<lparr>te_range = \<lparr>range_start = \<lparr>pos_line = 0, pos_char = 4\<rparr>,
                            range_end = \<lparr>pos_line = 0, pos_char = 5\<rparr>\<rparr>, te_new = [50]\<rparr>,
               \<lparr>te_range = \<lparr>range_start = \<lparr>pos_line = 1, pos_char = 0\<rparr>,
                            range_end = \<lparr>pos_line = 1, pos_char = 3\<rparr>\<rparr>, te_new = [98, 97, 114]\<rparr>] \<and>
      apply_text_edits (old_text ss [10]) edits = [324, 32, 61, 32, 50, 59, 10, 98, 97, 114, 10]"
  unfolding Let_def
proof (intro conjI)
  let ?ss = "[([324, 32, 61, 32], [49], [50]), ([59, 10], [102, 111, 111], [98, 97, 114])]"
  show e: "edits_at [] ?ss = [\<lparr>te_range = \<lparr>range_start = \<lparr>pos_line = 0, pos_char = 4\<rparr>,
                            range_end = \<lparr>pos_line = 0, pos_char = 5\<rparr>\<rparr>, te_new = [50]\<rparr>,
               \<lparr>te_range = \<lparr>range_start = \<lparr>pos_line = 1, pos_char = 0\<rparr>,
                            range_end = \<lparr>pos_line = 1, pos_char = 3\<rparr>\<rparr>, te_new = [98, 97, 114]\<rparr>]"
    by (simp add: end_position_def len_utf16_def advance.simps)
  show "apply_text_edits (old_text ?ss [10]) (edits_at [] ?ss) =
      [324, 32, 61, 32, 50, 59, 10, 98, 97, 114, 10]"
    using apply_text_edits_correct [where edits = "edits_at [] ?ss" and ss = ?ss and rest = "[10]", OF refl]
    by (simp add: e descending_def rank_def end_position_def len_utf16_def advance.simps)
qed

subsection \<open>The line around an offset\<close>

lemma find_nl_eq:
  "find_nl i t = (case starts_after i t of [] \<Rightarrow> None | s # ss \<Rightarrow> Some (s - 1))"
  by (induction i t rule: find_nl.induct) auto

lemma starts_after_shift: "starts_after (i + k) t = map ((+) k) (starts_after i t)"
proof (induction t arbitrary: i)
  case (Cons c t)
  then show ?case using Cons.IH [of "i + len_utf8 c"]
    by (cases "c = nl") (simp_all add: add.commute add.left_commute)
qed simp

lemma rfind_nl_eq:
  "rfind_nl i t = (if starts_after i t = [] then None else Some (last (starts_after i t) - 1))"
  by (induction i t rule: rfind_nl.induct) auto

lemma line_start_byte_offset_from_eq:
  "seen < k \<Longrightarrow> line_start_byte_offset_from t i seen k =
     (if k - seen - 1 < length (starts_after i t) then starts_after i t ! (k - seen - 1)
      else i + byte_len t)"
proof (induction t i seen k rule: line_start_byte_offset_from.induct)
  case (2 c t i seen k)
  show ?case
  proof (cases "c = nl \<and> seen + 1 \<noteq> k")
    case True
    then have "k - seen - 1 = Suc (k - (seen + 1) - 1)" "seen + 1 < k" using 2(3) by linarith+
    then show ?thesis using 2(1) True by simp
  next
    case False
    then show ?thesis using 2 by (cases "c = nl") (auto simp: add.assoc)
  qed
qed simp

text \<open>The rest of the line, with its line break.\<close>

fun line_rest :: "utext \<Rightarrow> utext" where
  "line_rest [] = []"
| "line_rest (c # t) = (if c = nl then [c] else c # line_rest t)"

lemma line_rest_prefix: "\<exists>r. t = line_rest t @ r"
  by (induction t) auto

lemma line_rest_starts:
  "(case starts_after i t of [] \<Rightarrow> i + byte_len t | s # ss \<Rightarrow> s) = i + byte_len (line_rest t)"
  by (induction i t rule: starts_after.induct) (auto split: list.splits)

lemma line_start_at:
  "line_start (line_index_new (p @ q)) (count_list p nl) = byte_len (before_last_line p)"
  "line_start (line_index_new (p @ q)) (count_list p nl + 1) = byte_len (p @ line_rest q)"
proof -
  have len: "length (0 # starts_after 0 p) = count_list p nl + 1" by (simp add: length_starts_after)
  have starts: "line_starts (p @ q) = (0 # starts_after 0 p) @ starts_after (byte_len p) q"
    by (simp add: line_starts_def starts_after_append)
  then have "count_list p nl < length (line_starts (p @ q))" using len by simp
  then show "line_start (line_index_new (p @ q)) (count_list p nl) = byte_len (before_last_line p)"
    by (simp add: line_start_def line_index_new_def line_table_at(2))
  show "line_start (line_index_new (p @ q)) (count_list p nl + 1) = byte_len (p @ line_rest q)"
    using len line_rest_starts [of "byte_len p" q]
    by (cases "starts_after (byte_len p) q")
       (simp_all add: line_start_def line_index_new_def starts nth_append)
qed

lemma utf16_col_to_byte_from_at:
  "utf16_col_to_byte_from (a @ b) i col (col + utf16_len a) = i + byte_len a"
proof (induction a arbitrary: i col)
  case Nil
  show ?case by (cases b) simp_all
next
  case (Cons c a)
  have "col \<noteq> col + utf16_len (c # a)"
    using len_utf16_pos [of c] by (metis add_eq_self_zero add_is_0 utf16_len_simps(2) neq0_conv)
  then have "utf16_col_to_byte_from ((c # a) @ b) i col (col + utf16_len (c # a)) =
      utf16_col_to_byte_from (a @ b) (i + len_utf8 c) (col + len_utf16 c)
        (col + len_utf16 c + utf16_len a)"
    by (simp only: append_Cons utf16_col_to_byte_from.simps if_False utf16_len_simps add.assoc)
  also have "\<dots> = i + len_utf8 c + byte_len a" by (rule Cons.IH)
  finally show ?case by (simp only: byte_len_simps add.assoc)
qed

text \<open>
  The four ways to ask for the line around an offset agree, on either kind of line break: the
  scans for the line break before and after a character boundary find the line table's bounds of
  the table's own line, and counting line breaks finds the table's start of every line.
\<close>

theorem line_lookups_agree:
  assumes "is_char_boundary content offset"
  shows "find_line_start content offset =
           Some (line_start (line_index_new content) (line_of (line_index_new content) offset)) \<and>
         find_line_end content offset =
           Some (line_start (line_index_new content) (line_of (line_index_new content) offset + 1)) \<and>
         line_start_byte_offset content k = line_start (line_index_new content) k"
proof (intro conjI)
  obtain p q where content: "content = p @ q" and offset: "offset = byte_len p"
    using iffD1 [OF boundary_split assms] by auto
  let ?n = "count_list p nl"
  have line: "line_of (line_index_new content) offset = ?n"
    using line_table_at(1) [of p q] by (simp add: line_of_def line_index_new_def content offset)
  have starts: "line_starts content = (0 # starts_after 0 p) @ starts_after (byte_len p) q"
    by (simp add: line_starts_def starts_after_append content)
  have len: "length (0 # starts_after 0 p) = Suc ?n" by (simp add: length_starts_after)
  then have last: "last (0 # starts_after 0 p) = (0 # starts_after 0 p) ! ?n"
    by (simp only: last_conv_nth [OF list.discI [OF refl]] diff_Suc_1)
  have at: "line_starts content ! ?n = last (0 # starts_after 0 p)"
    unfolding last starts by (rule nth_append_left) (use len in linarith)
  have off: "min offset (byte_len content) = offset" by (simp add: content offset)
  have rfind: "(case rfind_nl 0 p of None \<Rightarrow> 0 | Some k \<Rightarrow> k + 1) = last (0 # starts_after 0 p)"
    using starts_after_bounds [of "last (starts_after 0 p)" 0 p] by (simp add: rfind_nl_eq)
  have "?n < length (line_starts content)" unfolding starts using len by simp
  then have "line_start (line_index_new content) ?n = last (0 # starts_after 0 p)"
    by (simp only: line_start_def line_index_new_def line_index.simps at if_True)
  moreover have "take_bytes offset content = p" by (simp add: content offset)
  ultimately show "find_line_start content offset =
      Some (line_start (line_index_new content) (line_of (line_index_new content) offset))"
    using assms rfind by (simp only: line find_line_start_def off Let_def if_True)
  have "(case find_nl 0 q of None \<Rightarrow> byte_len content | Some k \<Rightarrow> offset + k + 1) =
      (case starts_after (byte_len p) q of [] \<Rightarrow> byte_len content | s # ss \<Rightarrow> s)"
    using starts_after_shift [of 0 "byte_len p" q] starts_after_bounds [of _ 0 q]
    by (cases "starts_after 0 q") (simp_all add: find_nl_eq offset)
  also have "\<dots> = line_start (line_index_new content) (?n + 1)"
    using len
    by (cases "starts_after (byte_len p) q")
       (simp_all add: line_start_def line_index_new_def starts nth_append)
  finally show "find_line_end content offset =
      Some (line_start (line_index_new content) (line_of (line_index_new content) offset + 1))"
    using assms unfolding line find_line_end_def off Let_def by (simp add: content offset)
  show "line_start_byte_offset content k = line_start (line_index_new content) k"
    by (cases k) (simp_all add: line_start_byte_offset_def line_start_byte_offset_from_eq
        line_start_def line_index_new_def line_starts_def)
qed

theorem line_lookups_agree_witness:
  "find_line_start [97, 13, 10, 233, 98, 10, 99] 5 = Some 3 \<and>
   find_line_end [97, 13, 10, 233, 98, 10, 99] 5 = Some 7 \<and>
   line_start_byte_offset [97, 13, 10, 233, 98, 10, 99] 9 = 8"
  using line_lookups_agree [where content = "[97, 13, 10, 233, 98, 10, 99]" and offset = 5 and k = 9]
  by (simp add: boundary_iff len_utf8_def line_start_def line_index_new_def line_of_def
      line_starts_def table_line_def binary_search_def Let_def)

subsection \<open>Rewriting line breaks\<close>

text \<open>A line feed that no carriage return precedes.\<close>

fun bare_nl :: "bool \<Rightarrow> utext \<Rightarrow> bool" where
  "bare_nl after_cr [] = False"
| "bare_nl after_cr (c # t) = (c = nl \<and> \<not> after_cr \<or> bare_nl (c = cr) t)"

lemma bare_nl_line: "nl \<notin> set s \<Longrightarrow> bare_nl b (s @ cr # nl # r) = bare_nl False r"
  by (induction s arbitrary: b) auto

lemma bare_nl_none: "nl \<notin> set t \<Longrightarrow> \<not> bare_nl b t"
  by (induction t arbitrary: b) auto

lemma set_strip_cr: "set (strip_cr s) \<subseteq> set s"
  by (auto simp: strip_cr_def strip_suffix_def dest: in_set_butlastD)

lemma strip_terminator_line: "strip_terminator (s @ [nl]) = strip_cr s"
  by (simp add: strip_terminator_def strip_suffix_def)

lemma strip_cr_crlf: "strip_cr (s @ [cr]) = s"
  by (simp add: strip_cr_def strip_suffix_def)

lemma split_inclusive_line:
  "nl \<notin> set s \<Longrightarrow> split_inclusive (s @ nl # r) = (s @ [nl]) # split_inclusive r"
  by (induction s) auto

lemma snd_scan_lines: "map snd (scan_lines n raws) = map strip_terminator raws"
  by (induction n raws rule: scan_lines.induct) simp_all

lemma first_break:
  assumes "nl \<in> set t"
  obtains l r where "t = l @ nl # r" "nl \<notin> set l" "takeWhile (\<lambda>c. c \<noteq> nl) t = l"
    "drop (length l + 1) t = r"
proof -
  obtain l r where t: "t = l @ nl # r" and l: "nl \<notin> set l" using assms by (metis split_list_first)
  have "takeWhile (\<lambda>c. c \<noteq> nl) t = l"
    unfolding t by (subst takeWhile_append2) (use l in auto)
  then show thesis using that t l by simp
qed

lemma rewrite_breaks_crlf:
  "map strip_terminator (split_inclusive (rewrite_breaks [cr, nl] t)) =
     map strip_terminator (split_inclusive t) \<and>
   \<not> bare_nl False (rewrite_breaks [cr, nl] t)"
proof (induction "[cr, nl]" t rule: rewrite_breaks.induct)
  case (1 t)
  show ?case
  proof (cases "nl \<in> set t")
    case True
    then obtain l r where t: "t = l @ nl # r" and l: "nl \<notin> set l"
      and line: "takeWhile (\<lambda>c. c \<noteq> nl) t = l" and rest: "drop (length l + 1) t = r"
      by (rule first_break)
    have out: "rewrite_breaks [cr, nl] t = (strip_cr l @ [cr]) @ nl # rewrite_breaks [cr, nl] r"
      using True by (simp add: rewrite_breaks.simps [of _ t] line rest [simplified] Let_def)
    have no_nl: "nl \<notin> set (strip_cr l)" using set_strip_cr l by blast
    note IH = 1 [OF True line [symmetric], unfolded rest]
    show ?thesis
      using IH split_inclusive_line [OF l, of r] no_nl bare_nl_line [OF no_nl]
        split_inclusive_line [of "strip_cr l @ [cr]" "rewrite_breaks [cr, nl] r"]
        strip_terminator_line [of "strip_cr l @ [cr]"]
      unfolding out by (simp add: t strip_terminator_line strip_cr_crlf)
  next
    case False
    then show ?thesis by (simp add: rewrite_breaks.simps bare_nl_none)
  qed
qed

text \<open>
  Rewriting the line breaks of an edit for a CRLF file leaves no bare line feed and keeps every
  line as the line reader sees it; for an LF file the edit is left as it is.
\<close>

theorem match_line_ending_correct:
  "map snd (lines_with_offsets (match_line_ending t [cr, nl])) = map snd (lines_with_offsets t) \<and>
   \<not> bare_nl False (match_line_ending t [cr, nl]) \<and>
   match_line_ending t [nl] = t"
  using rewrite_breaks_crlf [of t] bare_nl_none
  by (simp add: match_line_ending_def lines_with_offsets_def snd_scan_lines)

text \<open>
  The comment on \<open>apply_text_edits\<close> says that an earlier edit never shifts a later one.  Two edits
  with the same start do: an insertion in front of a replaced word is applied first and moves
  the word away from the range that is then replaced.
\<close>

lemma same_start_edits_interfere:
  "apply_text_edits [97, 98]
     [\<lparr>te_range = \<lparr>range_start = origin, range_end = origin\<rparr>, te_new = [88]\<rparr>,
      \<lparr>te_range = \<lparr>range_start = origin, range_end = \<lparr>pos_line = 0, pos_char = 2\<rparr>\<rparr>, te_new = [89]\<rparr>] =
   [89, 98]"
  by (simp add: apply_text_edits_def descending_def rank_def apply_edit_def replace_range_def
      position_to_byte_offset_def len_utf8_def len_utf16_def)

end
