(* ===== verification/Incremental.thy ===== *)
theory Incremental
  imports Text_Edits Publication_Epoch
begin

section \<open>Re-diagnosing only the functions an edit touched\<close>

text \<open>
  \<open>src/diagnostics/incremental/\<close>: the functions and methods of a file (\<open>units.rs\<close>), moving the
  diagnostics outside the edited ones to the edited text (\<open>shift.rs\<close>), the region a partial pass
  reports on (\<open>region.rs\<close>) and the plan of a pass (\<open>mod.rs\<close>).  The parse that finds the units
  and the collectors that report diagnostics are not modelled: the units and the previous
  diagnostics are arguments.  Offsets are natural numbers and the growth of a span an integer.
\<close>

type_synonym span = "nat \<times> nat"

record diag_unit =
  unit_span :: span
  unit_body :: span
  name_span :: span
  declares_function :: bool
  observed :: bool

definition unit_name :: "diag_unit \<Rightarrow> utext \<Rightarrow> utext" where
  "unit_name u content =
     (case get_range content (fst (name_span u)) (snd (name_span u)) of None \<Rightarrow> [] | Some n \<Rightarrow> n)"

text \<open>What the symbol map records at an offset: a function's definition, or anything else.\<close>

datatype symbol_kind = Function_Call bool | Other_Symbol

record symbol_span =
  sym_start :: nat
  sym_kind :: symbol_kind

definition partition_point :: "('a \<Rightarrow> bool) \<Rightarrow> 'a list \<Rightarrow> nat" where
  "partition_point P xs = length (takeWhile P xs)"

definition mark_function_declaration :: "diag_unit list \<Rightarrow> symbol_span \<Rightarrow> diag_unit list" where
  "mark_function_declaration us sp =
     (if sym_kind sp = Function_Call True then
        let candidate = partition_point (\<lambda>u. fst (unit_body u) \<le> sym_start sp) us
        in if candidate \<ge> 1 \<and> sym_start sp < snd (unit_body (us ! (candidate - 1)))
           then us[candidate - 1 := (us ! (candidate - 1))\<lparr>declares_function := True\<rparr>]
           else us
      else us)"

definition mark_function_declarations :: "diag_unit list \<Rightarrow> symbol_span list \<Rightarrow> diag_unit list" where
  "mark_function_declarations us syms = foldl mark_function_declaration us syms"

definition mark_observed :: "diag_unit list \<Rightarrow> nat list \<Rightarrow> diag_unit list" where
  "mark_observed us name_offsets =
     map (\<lambda>u. if fst (name_span u) \<in> set name_offsets then u\<lparr>observed := True\<rparr> else u) us"

text \<open>
  The loop of \<open>changed_units\<close>: a range that is not one of the text, and any difference between
  the bodies, leave with \<open>None\<close>.
\<close>

definition same_range :: "utext \<Rightarrow> span \<Rightarrow> utext \<Rightarrow> span \<Rightarrow> bool option" where
  "same_range old os new ns =
     (case get_range old (fst os) (snd os) of
        None \<Rightarrow> None
      | Some a \<Rightarrow> map_option (\<lambda>b. a = b) (get_range new (fst ns) (snd ns)))"

fun changed_units_from ::
  "utext \<Rightarrow> utext \<Rightarrow> nat \<Rightarrow> nat \<Rightarrow> nat \<Rightarrow> (diag_unit \<times> diag_unit) list \<Rightarrow> nat list option" where
  "changed_units_from old new old_at new_at index [] =
     (if same_range old (old_at, byte_len old) new (new_at, byte_len new) = Some True
      then Some [] else None)"
| "changed_units_from old new old_at new_at index ((u, v) # pairs) =
     (if same_range old (old_at, fst (unit_body u)) new (new_at, fst (unit_body v)) = Some True
      then case same_range old (unit_body u) new (unit_body v) of
             None \<Rightarrow> None
           | Some same \<Rightarrow>
               map_option (\<lambda>changed. if same then changed else index # changed)
                 (changed_units_from old new (snd (unit_body u)) (snd (unit_body v)) (index + 1) pairs)
      else None)"

definition changed_units ::
  "utext \<Rightarrow> diag_unit list \<Rightarrow> utext \<Rightarrow> diag_unit list \<Rightarrow> nat list option" where
  "changed_units old old_units new new_units =
     (if length old_units \<noteq> length new_units then None
      else changed_units_from old new 0 0 0 (zip old_units new_units))"

subsection \<open>Moving diagnostics\<close>

record changed_span =
  cs_old :: span
  cs_new :: span

definition growth :: "changed_span \<Rightarrow> int" where
  "growth s = int (snd (cs_new s) - fst (cs_new s)) - int (snd (cs_old s) - fst (cs_old s))"

definition span_contains :: "span \<Rightarrow> nat \<Rightarrow> bool" where
  "span_contains s offset = (offset \<ge> fst s \<and> offset < snd s)"

definition shift :: "nat \<Rightarrow> changed_span list \<Rightarrow> nat" where
  "shift offset changed =
     nat (int offset + sum_list (map growth (filter (\<lambda>s. snd (cs_old s) \<le> offset) changed)))"

definition byte_offset :: "line_index \<Rightarrow> position \<Rightarrow> nat" where
  "byte_offset li p =
     (let start = line_start li (pos_line p); stop = line_start li (pos_line p + 1)
      in start + utf16_col_to_byte_offset (Text_Position.slice (li_content li) start stop) (pos_char p))"

text \<open>A diagnostic is its range and everything else it says.\<close>

record 'm diagnostic =
  diag_range :: range
  diag_rest :: 'm

fun carry_over_loop ::
  "line_index \<Rightarrow> line_index \<Rightarrow> changed_span list \<Rightarrow> 'm diagnostic list \<Rightarrow> 'm diagnostic list option" where
  "carry_over_loop old_lines new_lines changed [] = Some []"
| "carry_over_loop old_lines new_lines changed (d # ds) =
     (let start = byte_offset old_lines (range_start (diag_range d))
      in if \<exists>s \<in> set changed. span_contains (cs_old s) start
         then carry_over_loop old_lines new_lines changed ds
         else
           let stop = byte_offset old_lines (range_end (diag_range d))
           in if \<exists>s \<in> set changed. stop > fst (cs_old s) \<and> stop < snd (cs_old s) then None
              else map_option
                (\<lambda>carried. d\<lparr>diag_range :=
                   \<lparr>range_start = li_position new_lines (shift start changed),
                    range_end = li_position new_lines (shift stop changed)\<rparr>\<rparr> # carried)
                (carry_over_loop old_lines new_lines changed ds))"

definition carry_over ::
  "utext \<Rightarrow> utext \<Rightarrow> changed_span list \<Rightarrow> 'm diagnostic list \<Rightarrow> 'm diagnostic list option" where
  "carry_over old new changed diagnostics =
     (if diagnostics = [] then Some []
      else carry_over_loop (line_index_new old) (line_index_new new) changed diagnostics)"

definition retain_within :: "utext \<Rightarrow> span list \<Rightarrow> 'm diagnostic list \<Rightarrow> 'm diagnostic list" where
  "retain_within content spans diagnostics =
     (if diagnostics = [] then diagnostics
      else filter (\<lambda>d. list_ex (\<lambda>s. span_contains s
             (byte_offset (line_index_new content) (range_start (diag_range d)))) spans) diagnostics)"

text \<open>The thread's region: the guard keeps the region it replaced.\<close>

definition restrict_to :: "span list option \<Rightarrow> span list \<Rightarrow> span list option \<times> span list option" where
  "restrict_to region ranges = (Some ranges, region)"

definition drop_region :: "span list option \<Rightarrow> span list option \<Rightarrow> span list option" where
  "drop_region region previous = previous"

definition reports_site :: "span list option \<Rightarrow> nat \<Rightarrow> bool" where
  "reports_site region offset =
     (case region of None \<Rightarrow> True
      | Some ranges \<Rightarrow> list_ex (\<lambda>s. offset \<ge> fst s \<and> offset < snd s) ranges)"

subsection \<open>The plan of a pass\<close>

text \<open>
  What a file declares.  The comparison of two classes (\<open>ClassInfo::signature_eq\<close>) is a
  parameter of the model.
\<close>

record 'c declaration_snapshot =
  decl_classes :: "'c list"
  decl_functions :: "str list"
  decl_constants :: "(str \<times> str option) list"

definition declarations_match ::
  "('c \<Rightarrow> 'c \<Rightarrow> bool) \<Rightarrow> 'c declaration_snapshot \<Rightarrow> 'c declaration_snapshot \<Rightarrow> bool" where
  "declarations_match signature_eq a b =
     (length (decl_classes a) = length (decl_classes b) \<and>
      list_all (\<lambda>(x, y). signature_eq x y) (zip (decl_classes a) (decl_classes b)) \<and>
      decl_functions a = decl_functions b \<and> decl_constants a = decl_constants b)"

definition ascii_lower :: "ch \<Rightarrow> ch" where
  "ascii_lower c = (if 65 \<le> c \<and> c \<le> 90 then c + 32 else c)"

definition chars :: "str \<Rightarrow> utext" where
  "chars s = map of_char s"

definition bodies_read_by_name :: "str list" where
  "bodies_read_by_name = [''rules'', ''getFacadeAccessor'']"

definition body_is_observable :: "utext \<Rightarrow> diag_unit \<Rightarrow> diag_unit \<Rightarrow> bool" where
  "body_is_observable content u previous =
     (if observed previous \<or> declares_function u \<or> declares_function previous then True
      else let n = unit_name u content
           in take 2 n = chars ''__'' \<or>
              list_ex (\<lambda>r. map ascii_lower n = map ascii_lower (chars r)) bodies_read_by_name)"

datatype full_pass_reason =
  No_Baseline | Template | Index_Behind | Project_Changed | Outside_Bodies
| Declarations_Changed | Body_Observable | Unmovable

datatype 'm plan =
  Reuse "'m diagnostic list"
| Partial "changed_span list" "nat list" "'m diagnostic list"

record ('c, 'm) slow_baseline =
  base_content :: utext
  base_units :: "diag_unit list"
  base_declarations :: "'c declaration_snapshot"
  base_epoch :: epoch_snapshot
  base_diagnostics :: "'m diagnostic list"

definition plan_partial ::
  "('c \<Rightarrow> 'c \<Rightarrow> bool) \<Rightarrow> ('c, 'm) slow_baseline \<Rightarrow> utext \<Rightarrow> diag_unit list \<Rightarrow>
   'c declaration_snapshot \<Rightarrow> epoch_snapshot \<Rightarrow> full_pass_reason + 'm plan" where
  "plan_partial signature_eq b content us declarations now =
     (if \<not> only_own_changes_since now (base_epoch b) then Inl Project_Changed
      else case changed_units (base_content b) (base_units b) content us of
        None \<Rightarrow> Inl Outside_Bodies
      | Some changed \<Rightarrow>
          if \<not> declarations_match signature_eq (base_declarations b) declarations
          then Inl Declarations_Changed
          else if changed = [] then Inr (Reuse (base_diagnostics b))
          else if list_ex (\<lambda>i. body_is_observable content (us ! i) (base_units b ! i)) changed
          then Inl Body_Observable
          else
            let spans = map (\<lambda>i. \<lparr>cs_old = unit_span (base_units b ! i), cs_new = unit_span (us ! i)\<rparr>)
                          changed
            in case carry_over (base_content b) content spans (base_diagnostics b) of
                 None \<Rightarrow> Inl Unmovable
               | Some carried \<Rightarrow>
                   Inr (Partial spans (map (\<lambda>i. fst (unit_body (us ! i))) changed) carried))"

subsection \<open>The units found changed are exactly the bodies that differ\<close>

text \<open>The body spans of the segments of the old and the new text, and which ones differ.\<close>

fun old_spans :: "nat \<Rightarrow> segments \<Rightarrow> span list" where
  "old_spans at [] = []"
| "old_spans at ((gap, old, new) # ss) =
     (at + byte_len gap, at + byte_len gap + byte_len old) #
     old_spans (at + byte_len gap + byte_len old) ss"

fun new_spans :: "nat \<Rightarrow> segments \<Rightarrow> span list" where
  "new_spans at [] = []"
| "new_spans at ((gap, old, new) # ss) =
     (at + byte_len gap, at + byte_len gap + byte_len new) #
     new_spans (at + byte_len gap + byte_len new) ss"

fun differing :: "nat \<Rightarrow> segments \<Rightarrow> nat list" where
  "differing i [] = []"
| "differing i ((gap, old, new) # ss) =
     (if old = new then differing (i + 1) ss else i # differing (i + 1) ss)"

lemma prefix_split:
  assumes "p @ q = p' @ q'" "byte_len p \<le> byte_len p'"
  shows "\<exists>x. p' = p @ x \<and> q = x @ q'"
proof -
  obtain us where "p = p' @ us \<and> us @ q = q' \<or> p @ us = p' \<and> q = us @ q'"
    using assms(1) append_eq_append_conv2 by metis
  then show ?thesis using assms(2) by auto
qed

lemma get_range_at:
  "get_range (p @ q) (byte_len p) b = Some x \<longleftrightarrow> (\<exists>r. q = x @ r \<and> b = byte_len p + byte_len x)"
proof
  assume get: "get_range (p @ q) (byte_len p) b = Some x"
  then have le: "byte_len p \<le> b" and "is_char_boundary (p @ q) b"
    and x: "x = Text_Position.slice (p @ q) (byte_len p) b"
    by (auto simp: get_range_def split: if_splits)
  then obtain p' q' where split: "p @ q = p' @ q'" and b: "byte_len p' = b"
    using iffD1 [OF boundary_split] by blast
  then obtain y where "p' = p @ y" "q = y @ q'" using prefix_split le by blast
  then show "\<exists>r. q = x @ r \<and> b = byte_len p + byte_len x"
    using x b slice_exact [of p y q'] by auto
next
  assume "\<exists>r. q = x @ r \<and> b = byte_len p + byte_len x"
  then obtain r where q: "q = x @ r" and b: "b = byte_len p + byte_len x" by blast
  have "is_char_boundary (p @ x @ r) (byte_len (p @ x))"
    using boundary_prefix [of "p @ x" r] by simp
  then show "get_range (p @ q) (byte_len p) b = Some x"
    using slice_exact [of p x r] by (simp add: get_range_def q b)
qed

lemma get_range_rest: "get_range (p @ q) (byte_len p) (byte_len (p @ q)) = Some q"
  by (subst get_range_at) simp

lemma same_range_iff:
  "same_range (p @ q) (byte_len p, b) (p' @ q') (byte_len p', b') = Some same \<longleftrightarrow>
     (\<exists>x y r r'. q = x @ r \<and> q' = y @ r' \<and> b = byte_len p + byte_len x \<and>
        b' = byte_len p' + byte_len y \<and> same = (x = y))"
proof -
  have "same_range (p @ q) (byte_len p, b) (p' @ q') (byte_len p', b') = Some same \<longleftrightarrow>
      (\<exists>x y. get_range (p @ q) (byte_len p) b = Some x \<and>
        get_range (p' @ q') (byte_len p') b' = Some y \<and> same = (x = y))"
    by (auto simp: same_range_def split: option.splits)
  then show ?thesis unfolding get_range_at by blast
qed

definition laid_out ::
  "utext \<Rightarrow> utext \<Rightarrow> nat \<Rightarrow> nat \<Rightarrow> (diag_unit \<times> diag_unit) list \<Rightarrow> segments \<Rightarrow> utext \<Rightarrow> bool" where
  "laid_out old new old_at new_at ps ss rest \<longleftrightarrow>
     old = old_text ss rest \<and> new = new_text ss rest \<and>
     map (unit_body \<circ> fst) ps = old_spans old_at ss \<and> map (unit_body \<circ> snd) ps = new_spans new_at ss"

lemma laid_out_Cons:
  "laid_out old new old_at new_at ((u, v) # ps) ss rest \<longleftrightarrow>
     (\<exists>gap o' n' old' new' ss'. ss = (gap, o', n') # ss' \<and> old = gap @ o' @ old' \<and> new = gap @ n' @ new' \<and>
        unit_body u = (old_at + byte_len gap, old_at + byte_len gap + byte_len o') \<and>
        unit_body v = (new_at + byte_len gap, new_at + byte_len gap + byte_len n') \<and>
        laid_out old' new' (old_at + byte_len gap + byte_len o') (new_at + byte_len gap + byte_len n')
          ps ss' rest)"
  by (cases ss) (auto simp: laid_out_def)

lemma changed_units_from_sound:
  "changed_units_from (p @ old) (p' @ new) (byte_len p) (byte_len p') i ps = Some ch \<Longrightarrow>
   \<exists>ss rest. laid_out old new (byte_len p) (byte_len p') ps ss rest \<and> ch = differing i ss"
proof (induction ps arbitrary: p p' old new i ch)
  case Nil
  then have "old = new" "ch = []"
    by (auto simp: same_range_def get_range_rest simp del: byte_len_simps split: if_splits)
  then have "laid_out old new (byte_len p) (byte_len p') [] [] old \<and> ch = differing i []"
    by (simp add: laid_out_def)
  then show ?case by blast
next
  case (Cons uv ps)
  obtain u v where uv: "uv = (u, v)" by (cases uv) auto
  from Cons.prems obtain same ch' where
    gap: "same_range (p @ old) (byte_len p, fst (unit_body u)) (p' @ new)
        (byte_len p', fst (unit_body v)) = Some True"
    and body: "same_range (p @ old) (unit_body u) (p' @ new) (unit_body v) = Some same"
    and rest: "changed_units_from (p @ old) (p' @ new) (snd (unit_body u)) (snd (unit_body v)) (i + 1) ps
      = Some ch'"
    and ch: "ch = (if same then ch' else i # ch')"
    by (auto simp: uv split: if_splits option.splits)
  from iffD1 [OF same_range_iff gap] obtain g r r' where
    g: "old = g @ r" "new = g @ r'" and start: "fst (unit_body u) = byte_len (p @ g)"
    "fst (unit_body v) = byte_len (p' @ g)" by auto
  have "same_range ((p @ g) @ r) (byte_len (p @ g), snd (unit_body u))
      ((p' @ g) @ r') (byte_len (p' @ g), snd (unit_body v)) = Some same"
    using body unfolding g start [symmetric] prod.collapse append_assoc .
  from iffD1 [OF same_range_iff this] obtain x y r1 r1' where
    xy: "r = x @ r1" "r' = y @ r1'" "snd (unit_body u) = byte_len (p @ g @ x)"
    "snd (unit_body v) = byte_len (p' @ g @ y)" and same: "same = (x = y)" by auto
  have "changed_units_from ((p @ g @ x) @ r1) ((p' @ g @ y) @ r1') (byte_len (p @ g @ x))
      (byte_len (p' @ g @ y)) (i + 1) ps = Some ch'"
    using rest unfolding g xy append_assoc .
  from Cons.IH [OF this] obtain ss t where
    ss: "laid_out r1 r1' (byte_len (p @ g @ x)) (byte_len (p' @ g @ y)) ps ss t"
    and ch': "ch' = differing (i + 1) ss" by blast
  have "laid_out old new (byte_len p) (byte_len p') (uv # ps) ((g, x, y) # ss) t"
    unfolding uv laid_out_Cons
    using g xy start ss prod.collapse [of "unit_body u"] prod.collapse [of "unit_body v"]
    by (auto simp: add.assoc)
  moreover have "ch = differing i ((g, x, y) # ss)" by (simp add: ch ch' same)
  ultimately show ?case by blast
qed

lemma changed_units_from_complete:
  "laid_out old new (byte_len p) (byte_len p') ps ss rest \<Longrightarrow>
   changed_units_from (p @ old) (p' @ new) (byte_len p) (byte_len p') i ps = Some (differing i ss)"
proof (induction ps arbitrary: p p' old new i ss)
  case Nil
  then have "ss = []" "old = new" by (cases ss; auto simp: laid_out_def)+
  then show ?case by (simp add: same_range_def get_range_rest del: byte_len_simps)
next
  case (Cons uv ps)
  obtain u v where uv: "uv = (u, v)" by (cases uv) auto
  from Cons.prems [unfolded uv laid_out_Cons] obtain g x y r r' ss' where
    ss: "ss = (g, x, y) # ss'" and t: "old = g @ x @ r" "new = g @ y @ r'"
    and bu: "unit_body u = (byte_len (p @ g), byte_len (p @ g @ x))"
    and bv: "unit_body v = (byte_len (p' @ g), byte_len (p' @ g @ y))"
    and tail: "laid_out r r' (byte_len (p @ g @ x)) (byte_len (p' @ g @ y)) ps ss' rest"
    by (auto simp: add.assoc)
  have gap: "same_range (p @ old) (byte_len p, byte_len (p @ g)) (p' @ new)
      (byte_len p', byte_len (p' @ g)) = Some True"
    unfolding same_range_iff t by (rule exI [of _ g], rule exI [of _ g]) simp
  have "same_range ((p @ g) @ x @ r) (byte_len (p @ g), byte_len (p @ g @ x)) ((p' @ g) @ y @ r')
      (byte_len (p' @ g), byte_len (p' @ g @ y)) = Some (x = y)"
    unfolding same_range_iff by (rule exI [of _ x], rule exI [of _ y]) simp
  then have body: "same_range (p @ old) (unit_body u) (p' @ new) (unit_body v) = Some (x = y)"
    unfolding bu bv t append_assoc .
  have "changed_units_from (p @ old) (p' @ new) (byte_len (p @ g @ x)) (byte_len (p' @ g @ y)) (i + 1) ps
      = Some (differing (i + 1) ss')"
    using Cons.IH [OF tail, of "i + 1"] unfolding t append_assoc .
  then show ?case
    using gap body by (simp add: uv ss bu bv del: byte_len_simps)
qed

lemma length_spans: "length (old_spans n ss) = length ss" "length (new_spans n ss) = length ss"
  by (induction ss arbitrary: n) auto

lemma changed_units_laid_out:
  "changed_units old us new vs = Some changed \<longleftrightarrow>
   length us = length vs \<and>
   (\<exists>ss rest. laid_out old new 0 0 (zip us vs) ss rest \<and> changed = differing 0 ss)"
  using changed_units_from_sound [of "[]" old "[]" new 0 "zip us vs" changed]
    changed_units_from_complete [of old new "[]" "[]" "zip us vs" _ _ 0]
  by (auto simp: changed_units_def)

lemma laid_out_zip:
  "length us = length vs \<Longrightarrow> laid_out old new 0 0 (zip us vs) ss rest \<longleftrightarrow>
     old = old_text ss rest \<and> new = new_text ss rest \<and>
     map unit_body us = old_spans 0 ss \<and> map unit_body vs = new_spans 0 ss"
  by (simp add: laid_out_def map_fst_zip map_snd_zip flip: map_map)

text \<open>
  C21. The units found changed are exactly the bodies that differ, and only when nothing else
  does: \<open>changed_units\<close> answers a list exactly when the two texts are the same gaps around the
  units' old and new bodies, and the list is the units whose bodies differ.
\<close>

theorem changed_units_exact:
  "changed_units old us new vs = Some changed \<longleftrightarrow>
   (\<exists>ss rest. old = old_text ss rest \<and> new = new_text ss rest \<and>
      map unit_body us = old_spans 0 ss \<and> map unit_body vs = new_spans 0 ss \<and>
      changed = differing 0 ss)"
proof -
  have "length us = length vs"
    if "map unit_body us = old_spans 0 ss" "map unit_body vs = new_spans 0 ss" for ss
    using that by (metis length_map length_spans)
  then show ?thesis
    unfolding changed_units_laid_out using laid_out_zip by blast
qed

subsection \<open>Where an offset outside the changed bodies goes\<close>

fun moved :: "segments \<Rightarrow> nat \<Rightarrow> nat option" where
  "moved [] offset = Some offset"
| "moved ((gap, old, new) # ss) offset =
     (if offset \<le> byte_len gap then Some offset
      else if offset < byte_len gap + byte_len old then if old = new then Some offset else None
      else map_option ((+) (byte_len gap + byte_len new))
             (moved ss (offset - (byte_len gap + byte_len old))))"

text \<open>A body has at least its two braces.\<close>

definition bodies_ok :: "segments \<Rightarrow> bool" where
  "bodies_ok ss = list_all (\<lambda>(gap, old, new). 2 \<le> byte_len old \<and> 2 \<le> byte_len new) ss"

lemma bodies_ok_simps [simp]:
  "bodies_ok []"
  "bodies_ok ((gap, old, new) # ss) \<longleftrightarrow> 2 \<le> byte_len old \<and> 2 \<le> byte_len new \<and> bodies_ok ss"
  by (simp_all add: bodies_ok_def)

lemma moved_0 [simp]: "moved ss 0 = Some 0"
  by (induction ss "0 :: nat" rule: moved.induct) auto

lemma moved_after:
  "2 \<le> byte_len old \<Longrightarrow>
   moved ((gap, old, new) # ss) (byte_len (gap @ old) + k) =
   map_option ((+) (byte_len (gap @ new))) (moved ss k)"
  by (cases "old = []") simp_all

lemma moved_before:
  assumes "old = new \<or> offset \<le> byte_len gap" "offset \<le> byte_len (gap @ old)"
  shows "moved ((gap, old, new) # ss) offset = Some offset"
  using assms by (cases "offset = byte_len gap + byte_len old") auto

text \<open>A piece of text that no changed body meets is found again where its ends moved to.\<close>

lemma moved_split:
  assumes "old_text ss rest = p @ x @ q" "bodies_ok ss"
    and "\<And>k. byte_len p \<le> k \<Longrightarrow> k \<le> byte_len (p @ x) \<Longrightarrow> moved ss k \<noteq> None"
  shows "\<exists>p' q'. new_text ss rest = p' @ x @ q' \<and> moved ss (byte_len p) = Some (byte_len p') \<and>
    moved ss (byte_len (p @ x)) = Some (byte_len (p' @ x))"
  using assms
proof (induction ss arbitrary: p x q)
  case (Cons s ss)
  obtain g o' n where s: "s = (g, o', n)" by (cases s) auto
  note whole = Cons.prems(1) [unfolded s old_text.simps]
  have ok: "2 \<le> byte_len o'" "bodies_ok ss" using Cons.prems(2) by (simp_all add: s)
  note stays = Cons.prems(3) [unfolded s]
  show ?case unfolding s new_text.simps
  proof (cases "byte_len (p @ x) \<le> byte_len g")
    case True
    then obtain y where g: "g = (p @ x) @ y"
      using prefix_split [of "p @ x" q g "o' @ old_text ss rest"] whole by auto
    then show "\<exists>p' q'. g @ n @ new_text ss rest = p' @ x @ q' \<and>
        moved ((g, o', n) # ss) (byte_len p) = Some (byte_len p') \<and>
        moved ((g, o', n) # ss) (byte_len (p @ x)) = Some (byte_len (p' @ x))"
      by (intro exI [of _ p] exI [of _ "y @ n @ new_text ss rest"]) simp
  next
    case False
    show "\<exists>p' q'. g @ n @ new_text ss rest = p' @ x @ q' \<and>
        moved ((g, o', n) # ss) (byte_len p) = Some (byte_len p') \<and>
        moved ((g, o', n) # ss) (byte_len (p @ x)) = Some (byte_len (p' @ x))"
    proof (cases "byte_len (g @ o') \<le> byte_len p")
      case True
      then obtain p1 where p: "p = (g @ o') @ p1" and r: "old_text ss rest = p1 @ x @ q"
        using prefix_split [of "g @ o'" "old_text ss rest" p "x @ q"] whole by auto
      have "moved ss k \<noteq> None" if "byte_len p1 \<le> k" "k \<le> byte_len (p1 @ x)" for k
        using stays [of "byte_len (g @ o') + k"] that moved_after [OF ok(1), of g n ss k]
        by (simp add: p del: moved.simps)
      from Cons.IH [OF r ok(2) this] obtain p' q' where
        "new_text ss rest = p' @ x @ q'" "moved ss (byte_len p1) = Some (byte_len p')"
        "moved ss (byte_len (p1 @ x)) = Some (byte_len (p' @ x))" by blast
      then show ?thesis
        using moved_after [OF ok(1), of g n ss "byte_len p1"]
          moved_after [OF ok(1), of g n ss "byte_len (p1 @ x)"]
        by (intro exI [of _ "g @ n @ p'"] exI [of _ q']) (simp add: p add.assoc del: moved.simps)
    next
      case before: False
      have same: "o' = n"
      proof (rule ccontr)
        assume "o' \<noteq> n"
        then have "moved ((g, o', n) # ss) (max (byte_len p) (byte_len g + 1)) = None"
          using before ok(1) by simp
        then show False using stays [of "max (byte_len p) (byte_len g + 1)"] False by simp
      qed
      have here: "moved ((g, o', n) # ss) (byte_len p) = Some (byte_len p)"
        by (rule moved_before) (use same before in simp_all)
      show ?thesis
      proof (cases "byte_len (p @ x) \<le> byte_len (g @ o')")
        case True
        then obtain y where go: "g @ o' = (p @ x) @ y"
          using prefix_split [of "p @ x" q "g @ o'" "old_text ss rest"] whole by auto
        have "moved ((g, o', n) # ss) (byte_len (p @ x)) = Some (byte_len (p @ x))"
          by (rule moved_before) (use same True in simp_all)
        moreover have "g @ n @ new_text ss rest = p @ x @ y @ new_text ss rest"
          using go same by (metis append.assoc)
        ultimately show ?thesis using here by blast
      next
        case False
        then obtain x2 where px: "p @ x = (g @ o') @ x2" and r: "old_text ss rest = x2 @ q"
          using prefix_split [of "g @ o'" "old_text ss rest" "p @ x" q] whole by auto
        obtain x1 where go: "g @ o' = p @ x1" and x: "x = x1 @ x2"
          using prefix_split [of p x "g @ o'" x2] px before by auto
        have "moved ss k \<noteq> None" if "byte_len [] \<le> k" "k \<le> byte_len ([] @ x2)" for k
          using stays [of "byte_len (g @ o') + k"] that before moved_after [OF ok(1), of g n ss k]
            arg_cong [OF px, of byte_len]
          by (simp del: moved.simps)
        from Cons.IH [of "[]" x2 q, OF _ ok(2) this] r obtain q' where
          new: "new_text ss rest = x2 @ q'" and m: "moved ss (byte_len x2) = Some (byte_len x2)"
          by auto
        have "byte_len (p @ x) = byte_len (g @ o') + byte_len x2" by (simp add: px)
        then have "moved ((g, o', n) # ss) (byte_len (p @ x)) = Some (byte_len (p @ x))"
          using moved_after [OF ok(1), of g n ss "byte_len x2"] m same by (simp del: moved.simps)
        moreover have "g @ n @ new_text ss rest = p @ x @ q'"
          using go same x new by (metis append.assoc)
        ultimately show ?thesis using here by blast
      qed
    qed
  qed
qed auto

text \<open>
  What the parser promises of the paired units: a declaration starts after the body before it and
  ends with its own body, and the edited declaration has a header of the same length.
\<close>

fun headers_ok :: "nat \<Rightarrow> (diag_unit \<times> diag_unit) list \<Rightarrow> bool" where
  "headers_ok start [] = True"
| "headers_ok start ((u, v) # ps) =
     (start \<le> fst (unit_span u) \<and>
      fst (unit_span u) \<le> fst (unit_body u) \<and> fst (unit_span v) \<le> fst (unit_body v) \<and>
      fst (unit_body u) - fst (unit_span u) = fst (unit_body v) - fst (unit_span v) \<and>
      snd (unit_span u) = snd (unit_body u) \<and> snd (unit_span v) = snd (unit_body v) \<and>
      fst (unit_body u) + 2 \<le> snd (unit_body u) \<and> fst (unit_body v) + 2 \<le> snd (unit_body v) \<and>
      headers_ok (snd (unit_body u)) ps)"

fun spans_of :: "(diag_unit \<times> diag_unit) list \<Rightarrow> segments \<Rightarrow> changed_span list" where
  "spans_of ((u, v) # ps) ((gap, old, new) # ss) =
     (if old = new then spans_of ps ss
      else \<lparr>cs_old = unit_span u, cs_new = unit_span v\<rparr> # spans_of ps ss)"
| "spans_of _ _ = []"

lemma spans_of_late:
  "laid_out old new at at' ps ss rest \<Longrightarrow> headers_ok start ps \<Longrightarrow> start \<le> at \<Longrightarrow> c \<in> set (spans_of ps ss) \<Longrightarrow>
   at + 2 \<le> snd (cs_old c)"
proof (induction ps arbitrary: old new at at' ss start)
  case (Cons uv ps)
  obtain u v where uv: "uv = (u, v)" by (cases uv) auto
  from Cons.prems(1) [unfolded uv laid_out_Cons] obtain g x y r r' ss' where
    ss: "ss = (g, x, y) # ss'"
    and b: "unit_body u = (at + byte_len g, at + byte_len g + byte_len x)"
    and tail: "laid_out r r' (at + byte_len g + byte_len x) (at' + byte_len g + byte_len y) ps ss' rest"
    by blast
  have ok: "headers_ok (at + byte_len g + byte_len x) ps" "2 \<le> byte_len x"
    "snd (unit_span u) = at + byte_len g + byte_len x"
    using Cons.prems(2) b by (simp_all add: uv)
  show ?case
  proof (cases "c \<in> set (spans_of ps ss')")
    case True
    from Cons.IH [OF tail ok(1) order_refl this] show ?thesis by linarith
  next
    case False
    then have "cs_old c = unit_span u" using Cons.prems(4) by (auto simp: uv ss split: if_splits)
    then show ?thesis using ok by simp
  qed
qed simp

text \<open>The growth summed by \<open>shift\<close> is where the offset moved.\<close>

definition total_growth :: "changed_span list \<Rightarrow> nat \<Rightarrow> int" where
  "total_growth cs offset =
     sum_list (map growth (filter (\<lambda>c. snd (cs_old c) \<le> offset) cs))"

lemma total_growth_simps [simp]:
  "total_growth [] offset = 0"
  "total_growth (c # cs) offset =
     (if snd (cs_old c) \<le> offset then growth c else 0) + total_growth cs offset"
  by (simp_all add: total_growth_def)

lemma total_growth_late:
  assumes "\<And>c. c \<in> set cs \<Longrightarrow> offset < snd (cs_old c)"
  shows "total_growth cs offset = 0"
proof -
  have "filter (\<lambda>c. snd (cs_old c) \<le> offset) cs = []"
    using assms by (simp add: filter_empty_conv not_le)
  then show ?thesis by (simp add: total_growth_def)
qed

lemma moved_growth:
  assumes "laid_out old new at at' ps ss rest" "headers_ok start ps" "start \<le> at" "at \<le> offset"
    and "\<And>c. c \<in> set (spans_of ps ss) \<Longrightarrow> \<not> (fst (cs_old c) < offset \<and> offset < snd (cs_old c))"
  shows "\<exists>m. moved ss (offset - at) = Some m \<and>
    int m = int (offset - at) + total_growth (spans_of ps ss) offset"
  using assms
proof (induction ps arbitrary: old new at at' ss start)
  case Nil
  then have "ss = []" by (cases ss) (auto simp: laid_out_def)
  then show ?case by simp
next
  case (Cons uv ps)
  obtain u v where uv: "uv = (u, v)" by (cases uv) auto
  from Cons.prems(1) [unfolded uv laid_out_Cons] obtain g x y r r' ss' where
    ss: "ss = (g, x, y) # ss'"
    and bu: "unit_body u = (at + byte_len g, at + byte_len g + byte_len x)"
    and bv: "unit_body v = (at' + byte_len g, at' + byte_len g + byte_len y)"
    and tail: "laid_out r r' (at + byte_len g + byte_len x) (at' + byte_len g + byte_len y) ps ss' rest"
    by blast
  let ?e = "at + byte_len g + byte_len x"
  let ?c = "\<lparr>cs_old = unit_span u, cs_new = unit_span v\<rparr>"
  note h = Cons.prems(2) [unfolded uv headers_ok.simps]
  have ok: "headers_ok ?e ps" "2 \<le> byte_len x" using h bu by simp_all
  have su: "snd (unit_span u) = ?e" "fst (unit_span u) \<le> at + byte_len g" using h bu by simp_all
  have gr: "growth ?c = int (byte_len y) - int (byte_len x)"
    using h bu bv by (simp add: growth_def) linarith
  have late: "offset < snd (cs_old c)" if "c \<in> set (spans_of ps ss')" "offset < ?e" for c
    using spans_of_late [OF tail ok(1) order_refl that(1)] that(2) by linarith
  have outside: "\<not> (fst (cs_old c) < offset \<and> offset < snd (cs_old c))" if "c \<in> set (spans_of ps ss')" for c
    using Cons.prems(5) that by (simp add: uv ss)
  have head: "total_growth (spans_of (uv # ps) ss) offset =
      (if ?e \<le> offset then int (byte_len y) - int (byte_len x) else 0) + total_growth (spans_of ps ss') offset"
    by (simp add: uv ss gr su)
  show ?case
  proof (cases "offset < ?e")
    case True
    have "moved ss (offset - at) = Some (offset - at)"
      unfolding ss
    proof (rule moved_before)
      show "x = y \<or> offset - at \<le> byte_len g"
      proof (rule disjCI)
        assume "\<not> offset - at \<le> byte_len g"
        then have "fst (cs_old ?c) < offset" "offset < snd (cs_old ?c)" using su True by simp_all
        then have "?c \<notin> set (spans_of (uv # ps) ss)" using Cons.prems(5) by blast
        then show "x = y" by (simp add: uv ss split: if_splits)
      qed
      show "offset - at \<le> byte_len (g @ x)" using True by simp
    qed
    then show ?thesis using head True total_growth_late [OF late [OF _ True]] by simp
  next
    case False
    then have le: "?e \<le> offset" by simp
    obtain m where m: "moved ss' (offset - ?e) = Some m"
      "int m = int (offset - ?e) + total_growth (spans_of ps ss') offset"
      using Cons.IH [OF tail ok(1) order_refl le outside] by blast
    have "offset - at = byte_len (g @ x) + (offset - ?e)" using le Cons.prems(4) by simp
    then have "moved ss (offset - at) = Some (byte_len (g @ y) + m)"
      unfolding ss using moved_after [OF ok(2)] m(1) by (simp del: moved.simps byte_len_simps)
    then show ?thesis using head le m(2) by simp
  qed
qed

lemma headers_bodies_ok:
  "laid_out old new at at' ps ss rest \<Longrightarrow> headers_ok start ps \<Longrightarrow> bodies_ok ss"
proof (induction ps arbitrary: old new at at' ss start)
  case Nil
  then have "ss = []" by (cases ss) (auto simp: laid_out_def)
  then show ?case by simp
next
  case (Cons uv ps)
  obtain u v where uv: "uv = (u, v)" by (cases uv) auto
  from Cons.prems(1) [unfolded uv laid_out_Cons] obtain g x y r r' ss' where
    ss: "ss = (g, x, y) # ss'"
    and b: "unit_body u = (at + byte_len g, at + byte_len g + byte_len x)"
      "unit_body v = (at' + byte_len g, at' + byte_len g + byte_len y)"
    and tail: "laid_out r r' (at + byte_len g + byte_len x) (at' + byte_len g + byte_len y) ps ss' rest"
    by blast
  have "headers_ok (at + byte_len g + byte_len x) ps" "2 \<le> byte_len x" "2 \<le> byte_len y"
    using Cons.prems(2) b by (simp_all add: uv)
  then show ?case using Cons.IH [OF tail] by (simp add: ss)
qed

lemma differing_Suc: "differing (Suc i) ss = map Suc (differing i ss)"
  by (induction i ss rule: differing.induct) auto

lemma spans_of_differing:
  "length us = length ss \<Longrightarrow> length vs = length ss \<Longrightarrow>
   map (\<lambda>i. \<lparr>cs_old = unit_span (us ! i), cs_new = unit_span (vs ! i)\<rparr>) (differing 0 ss) =
   spans_of (zip us vs) ss"
proof (induction ss arbitrary: us vs)
  case (Cons s ss)
  obtain g x y where s: "s = (g, x, y)" by (cases s) auto
  obtain u us' v vs' where "us = u # us'" "vs = v # vs'" using Cons.prems by (metis length_Suc_conv)
  then show ?case using Cons by (simp add: s differing_Suc comp_def)
qed simp

subsection \<open>The diagnostics that are kept\<close>

lemma li_content_new: "li_content (line_index_new t) = t"
  by (simp add: line_index_new_def)

lemma byte_offset_at: "byte_offset (line_index_new (p @ q)) (end_position p) = byte_len p"
proof -
  obtain r where q: "q = line_rest q @ r" using line_rest_prefix by blast
  let ?b = "before_last_line p" and ?l = "last_line p"
  have text_eq: "p @ q = ?b @ (?l @ line_rest q) @ r"
    using q last_line_split [of p] by (metis append.assoc)
  have stop: "byte_len (p @ line_rest q) = byte_len ?b + byte_len (?l @ line_rest q)"
    using arg_cong [OF last_line_split [of p], of byte_len] by simp
  have "Text_Position.slice (p @ q) (byte_len ?b) (byte_len (p @ line_rest q)) = ?l @ line_rest q"
    unfolding text_eq stop by (rule slice_exact)
  moreover have "utf16_col_to_byte_offset (?l @ line_rest q) (utf16_len ?l) = byte_len ?l"
    using utf16_col_to_byte_from_at [of ?l "line_rest q" 0 0] by (simp add: utf16_col_to_byte_offset_def)
  moreover have "byte_len ?b + byte_len ?l = byte_len p"
    by (metis byte_len_simps(3) last_line_split)
  ultimately show ?thesis
    by (simp add: byte_offset_def end_position_def foldl_advance_eq Let_def li_content_new
        line_start_at(1) line_start_at(2) [unfolded Suc_eq_plus1 [symmetric]] del: byte_len_simps)
qed

lemma byte_offset_boundary:
  assumes "is_char_boundary content offset"
  shows "byte_offset (line_index_new content) (offset_to_position content offset) = offset"
proof -
  obtain p q where "content = p @ q" "byte_len p = offset"
    using iffD1 [OF boundary_split assms] by auto
  then show ?thesis
    using byte_offset_at [of p q] by (auto simp: offset_to_position_eq end_position_def)
qed

text \<open>A diagnostic reported at a byte range of a text.\<close>

definition diag_at :: "utext \<Rightarrow> nat \<times> nat \<times> 'm \<Rightarrow> 'm diagnostic" where
  "diag_at content d =
     \<lparr>diag_range = \<lparr>range_start = offset_to_position content (fst d),
                    range_end = offset_to_position content (fst (snd d))\<rparr>,
      diag_rest = snd (snd d)\<rparr>"

text \<open>Outside every changed span, so that it is kept; and not around one either.\<close>

definition kept :: "changed_span list \<Rightarrow> nat \<times> nat \<times> 'm \<Rightarrow> bool" where
  "kept cs d = list_all (\<lambda>c. \<not> span_contains (cs_old c) (fst d)) cs"

definition clear_of :: "changed_span list \<Rightarrow> nat \<times> nat \<times> 'm \<Rightarrow> bool" where
  "clear_of cs d =
     list_all (\<lambda>c. fst (snd d) \<le> fst (cs_old c) \<or> snd (cs_old c) \<le> fst d) cs"

lemma carry_over_loop_kept:
  assumes "carry_over_loop (line_index_new old) (line_index_new new) cs (map (diag_at old) ds) = Some carried"
    and "\<forall>d \<in> set ds. is_char_boundary old (fst d) \<and> is_char_boundary old (fst (snd d))"
  shows "carried = map (\<lambda>(s, e, m). diag_at new (shift s cs, shift e cs, m)) (filter (kept cs) ds) \<and>
    (\<forall>d \<in> set (filter (kept cs) ds). \<forall>c \<in> set cs. \<not> (fst (cs_old c) < fst (snd d) \<and> fst (snd d) < snd (cs_old c)))"
  using assms
proof (induction ds arbitrary: carried)
  case (Cons d ds)
  obtain s e m where d: "d = (s, e, m)" by (cases d) auto
  have s: "byte_offset (line_index_new old) (range_start (diag_range (diag_at old d))) = s"
    and e: "byte_offset (line_index_new old) (range_end (diag_range (diag_at old d))) = e"
    using Cons.prems(2) by (simp_all add: diag_at_def d byte_offset_boundary)
  show ?case
  proof (cases "kept cs d")
    case False
    then have "\<exists>c \<in> set cs. span_contains (cs_old c) s" by (auto simp: kept_def list_all_iff d)
    then show ?thesis using Cons.IH [of carried] Cons.prems False s by (simp add: Let_def)
  next
    case True
    then have none: "\<not> (\<exists>c \<in> set cs. span_contains (cs_old c) s)" by (auto simp: kept_def list_all_iff d)
    with Cons.prems(1) s e obtain carried' where
      rest: "carry_over_loop (line_index_new old) (line_index_new new) cs (map (diag_at old) ds) = Some carried'"
      and ends: "\<not> (\<exists>c \<in> set cs. e > fst (cs_old c) \<and> e < snd (cs_old c))"
      and carried: "carried = (diag_at old d)\<lparr>diag_range :=
         \<lparr>range_start = li_position (line_index_new new) (shift s cs),
          range_end = li_position (line_index_new new) (shift e cs)\<rparr>\<rparr> # carried'"
      by (auto simp: Let_def split: if_splits)
    have "(diag_at old d)\<lparr>diag_range :=
         \<lparr>range_start = li_position (line_index_new new) (shift s cs),
          range_end = li_position (line_index_new new) (shift e cs)\<rparr>\<rparr> = diag_at new (shift s cs, shift e cs, m)"
      by (simp add: diag_at_def d line_table_matches_scan)
    then show ?thesis using Cons.IH [OF rest] Cons.prems(2) True ends carried by (simp add: d)
  qed
qed simp

lemma shift_moved:
  assumes "laid_out old new 0 0 (zip us vs) ss rest" "headers_ok 0 (zip us vs)"
    and "\<And>c. c \<in> set (spans_of (zip us vs) ss) \<Longrightarrow> \<not> (fst (cs_old c) < k \<and> k < snd (cs_old c))"
  shows "moved ss k = Some (shift k (spans_of (zip us vs) ss))"
proof -
  from moved_growth [OF assms(1, 2) le0 le0 assms(3)] obtain m where
    "moved ss k = Some m" "int m = int k + total_growth (spans_of (zip us vs) ss) k" by auto
  then show ?thesis by (simp add: shift_def total_growth_def)
qed

lemma carried_text_same:
  assumes "laid_out old new 0 0 (zip us vs) ss rest" "headers_ok 0 (zip us vs)"
    and "is_char_boundary old s" "is_char_boundary old e" "s \<le> e"
    and "clear_of (spans_of (zip us vs) ss) (s, e, m)"
  shows "get_range new (shift s (spans_of (zip us vs) ss)) (shift e (spans_of (zip us vs) ss)) =
    get_range old s e"
proof -
  let ?cs = "spans_of (zip us vs) ss"
  obtain p q0 where p: "old = p @ q0" "byte_len p = s" using iffD1 [OF boundary_split assms(3)] by blast
  obtain p' q where p': "old = p' @ q" "byte_len p' = e" using iffD1 [OF boundary_split assms(4)] by blast
  obtain x where x: "p' = p @ x" "q0 = x @ q" using prefix_split [of p q0 p' q] p p' assms(5) by auto
  have at: "moved ss k = Some (shift k ?cs)" if "s \<le> k" "k \<le> e" for k
    using assms(6) that by (intro shift_moved [OF assms(1, 2)]) (fastforce simp: clear_of_def list_all_iff)
  have "old_text ss rest = p @ x @ q" using assms(1) p x by (simp add: laid_out_def)
  moreover have "moved ss k \<noteq> None" if "byte_len p \<le> k" "k \<le> byte_len (p @ x)" for k
    using at [of k] that p(2) p'(2) x(1) by simp
  ultimately obtain p1 q1 where new: "new_text ss rest = p1 @ x @ q1"
    and ends: "moved ss (byte_len p) = Some (byte_len p1)"
      "moved ss (byte_len (p @ x)) = Some (byte_len (p1 @ x))"
    using moved_split [OF _ headers_bodies_ok [OF assms(1, 2)], of rest p x q] by blast
  have s': "shift s ?cs = byte_len p1" and e': "shift e ?cs = byte_len (p1 @ x)"
    using ends at [of s] at [of e] assms(5) p(2) p'(2) x(1) by simp_all
  have "get_range new (shift s ?cs) (shift e ?cs) = Some x"
    using assms(1) new unfolding laid_out_def s' e' by (simp add: get_range_at)
  moreover have "get_range old s e = Some x"
    using p p' x by (auto simp: get_range_at simp flip: p(2) p'(2))
  ultimately show ?thesis by simp
qed

text \<open>
  C10. Carrying diagnostics over is right.  When only bodies differ, the diagnostics that start
  outside the changed declarations are all kept, each at the position in the new text its ends
  moved to, and a diagnostic that is not wrapped around a changed declaration marks the same
  text there as it did before.
\<close>

theorem carry_over_correct:
  assumes "changed_units old us new vs = Some changed" "headers_ok 0 (zip us vs)"
    and "\<forall>d \<in> set ds. is_char_boundary old (fst d) \<and> is_char_boundary old (fst (snd d))"
    and "cs = map (\<lambda>i. \<lparr>cs_old = unit_span (us ! i), cs_new = unit_span (vs ! i)\<rparr>) changed"
    and "carry_over old new cs (map (diag_at old) ds) = Some carried"
  shows "carried = map (\<lambda>(s, e, m). diag_at new (shift s cs, shift e cs, m)) (filter (kept cs) ds) \<and>
    (\<forall>(s, e, m) \<in> set (filter (kept cs) ds). s \<le> e \<longrightarrow> clear_of cs (s, e, m) \<longrightarrow>
       get_range new (shift s cs) (shift e cs) = get_range old s e)"
proof
  obtain ss rest where len: "length us = length vs"
    and lay: "laid_out old new 0 0 (zip us vs) ss rest" and changed: "changed = differing 0 ss"
    using assms(1) unfolding changed_units_laid_out by blast
  have "length us = length ss"
    using lay length_spans(1) [of 0 ss] by (metis laid_out_zip [OF len] length_map)
  then have cs: "cs = spans_of (zip us vs) ss"
    using len by (simp add: assms(4) changed spans_of_differing)
  show "carried = map (\<lambda>(s, e, m). diag_at new (shift s cs, shift e cs, m)) (filter (kept cs) ds)"
    using carry_over_loop_kept [OF _ assms(3), of new cs carried] assms(5)
    by (simp add: carry_over_def split: if_splits)
  show "\<forall>(s, e, m) \<in> set (filter (kept cs) ds). s \<le> e \<longrightarrow> clear_of cs (s, e, m) \<longrightarrow>
       get_range new (shift s cs) (shift e cs) = get_range old s e"
    using carried_text_same [OF lay assms(2)] assms(3) unfolding cs by fastforce
qed

definition example_unit :: "span \<Rightarrow> span \<Rightarrow> diag_unit" where
  "example_unit sp body = \<lparr>unit_span = sp, unit_body = body, name_span = (0, 1),
     declares_function = False, observed = False\<rparr>"

theorem carry_over_correct_witness:
  "let old = [97, 123, 49, 125, 98]; new = [97, 123, 49, 10, 50, 125, 98];
       us = [example_unit (0, 4) (1, 4)]; vs = [example_unit (0, 6) (1, 6)];
       cs = [\<lparr>cs_old = (0, 4), cs_new = (0, 6)\<rparr>]
   in changed_units old us new vs = Some [0] \<and>
      carry_over old new cs (map (diag_at old) [(2, 3, ''in''), (4, 5, ''after'')]) =
        Some [diag_at new (6, 7, ''after'')] \<and>
      get_range new 6 7 = get_range old 4 5"
proof -
  let ?old = "[97, 123, 49, 125, 98]" and ?new = "[97, 123, 49, 10, 50, 125, 98]"
  let ?us = "[example_unit (0, 4) (1, 4)]" and ?vs = "[example_unit (0, 6) (1, 6)]"
  let ?cs = "[\<lparr>cs_old = (0, 4), cs_new = (0, 6)\<rparr>]"
  let ?ds = "[(2, 3, ''in''), (4, 5, ''after'')]"
  have changed: "changed_units ?old ?us ?new ?vs = Some [0]" by code_simp
  have header: "headers_ok 0 (zip ?us ?vs)" by code_simp
  have bounds: "\<forall>d \<in> set ?ds. is_char_boundary ?old (fst d) \<and> is_char_boundary ?old (fst (snd d))"
    by (simp add: boundary_iff len_utf8_def)
  have offs: "byte_offset (line_index_new ?old) (offset_to_position ?old k) = k" if "k \<in> {2, 3, 4, 5}" for k
    using that by (intro byte_offset_boundary) (auto simp: boundary_iff len_utf8_def)
  have carried: "carry_over ?old ?new ?cs (map (diag_at ?old) ?ds) = Some [diag_at ?new (6, 7, ''after'')]"
    by (simp add: carry_over_def diag_at_def offs line_table_matches_scan span_contains_def
        shift_def growth_def Let_def)
  have spans: "?cs = map (\<lambda>i. \<lparr>cs_old = unit_span (?us ! i), cs_new = unit_span (?vs ! i)\<rparr>) [0]"
    by (simp add: example_unit_def)
  have moves: "(4, 5, ''after'') \<in> set (filter (kept ?cs) ?ds)" "clear_of ?cs (4, 5, ''after'')"
    "shift 4 ?cs = 6" "shift 5 ?cs = 7"
    by code_simp+
  have "get_range ?new (shift 4 ?cs) (shift 5 ?cs) = get_range ?old 4 5"
    using carry_over_correct [OF changed header bounds spans carried, THEN conjunct2, THEN bspec, OF moves(1)]
      moves(2) by simp
  then show ?thesis using changed carried moves by (simp only: Let_def simp_thms)
qed

text \<open>
  C32. The previous result is reused as it is only for the same text, when nothing else changed:
  a plan that keeps every diagnostic has equal contents, equal declarations and no foreign
  publication since the baseline.
\<close>

theorem plan_reuse_same_text:
  assumes "plan_partial sig_eq b content us decls now = Inr (Reuse ds)"
  shows "content = base_content b \<and> ds = base_diagnostics b \<and>
    only_own_changes_since now (base_epoch b) \<and> declarations_match sig_eq (base_declarations b) decls"
proof -
  have same: "old_text ss rest = new_text ss rest" if "differing i ss = []" for i ss rest
    using that by (induction i ss rule: differing.induct) (auto split: if_splits)
  from assms have "changed_units (base_content b) (base_units b) content us = Some []"
    "ds = base_diagnostics b" "only_own_changes_since now (base_epoch b)"
    "declarations_match sig_eq (base_declarations b) decls"
    by (auto simp: plan_partial_def Let_def split: if_splits option.splits)
  moreover from this(1) have "content = base_content b"
    unfolding changed_units_laid_out laid_out_def by (metis same)
  ultimately show ?thesis by blast
qed

theorem plan_reuse_same_text_witness:
  "let snap = \<lparr>snap_generation = 4, snap_own = 2\<rparr>;
       decls = \<lparr>decl_classes = [''C''], decl_functions = [], decl_constants = []\<rparr>;
       d = diag_at [97, 123, 125] (0, 1, ''x'');
       b = \<lparr>base_content = [97, 123, 125], base_units = [example_unit (0, 3) (1, 3)],
            base_declarations = decls, base_epoch = snap, base_diagnostics = [d]\<rparr>
   in plan_partial (=) b [97, 123, 125] [example_unit (0, 3) (1, 3)] decls
        \<lparr>snap_generation = 6, snap_own = 4\<rparr> = Inr (Reuse [d]) \<and>
      [97, 123, 125] = base_content b"
proof -
  let ?snap = "\<lparr>snap_generation = 4, snap_own = 2\<rparr>"
  let ?decls = "\<lparr>decl_classes = [''C''], decl_functions = [], decl_constants = []\<rparr>"
  let ?d = "diag_at [97, 123, 125] (0, 1, ''x'')"
  let ?b = "\<lparr>base_content = [97, 123, 125], base_units = [example_unit (0, 3) (1, 3)],
            base_declarations = ?decls, base_epoch = ?snap, base_diagnostics = [?d]\<rparr>"
  have units: "changed_units [97, 123, 125] [example_unit (0, 3) (1, 3)] [97, 123, 125]
      [example_unit (0, 3) (1, 3)] = Some []" by code_simp
  have "plan_partial (=) ?b [97, 123, 125] [example_unit (0, 3) (1, 3)] ?decls
      \<lparr>snap_generation = 6, snap_own = 4\<rparr> = Inr (Reuse [?d])"
    by (simp add: plan_partial_def only_own_changes_since_def units [unfolded One_nat_def] declarations_match_def)
  from this plan_reuse_same_text [OF this] show ?thesis by (simp only: Let_def)
qed

end
