(* ===== verification/Atom_Trie.thy ===== *)
theory Atom_Trie
  imports Prelude "HOL-Library.Word"
begin

unbundle bit_operations_syntax

section \<open>The hash trie of the flow analysis\<close>

text \<open>
  \<open>src/type_engine/variable/forward_walk/scope_state/trie.rs\<close>: a hash array mapped trie from
  interned names to values, whose clones share structure.  Each level consumes five bits of a
  key's 64-bit hash; a node's bitmap says which digits it has a slot for, and the slots are packed
  in the order of the digits.  Below the last level a node is a list of leaves.

  The hash an interned name carries is computed by a third-party package, so it is an argument
  \<open>h\<close> of the operations, and nothing is assumed of it: all keys may collide.  A reference-counted
  pointer is what it points to; \<open>make_mut\<close> and \<open>get_mut\<close> only save copies.  Where the code
  compares two pointers (\<open>diff\<close>), whether two equal nodes are one allocation is an argument.
\<close>

type_synonym hash = "64 word"

datatype 'v node = Node (bitmap: "32 word") (slots: "'v slot list")
  and 'v slot = Leaf str 'v | Child "'v node"

record 'v trie =
  root :: "'v node option"
  len :: nat

definition trie_default :: "'v trie" where
  "trie_default = \<lparr>root = None, len = 0\<rparr>"

definition digit :: "hash \<Rightarrow> nat \<Rightarrow> nat" where
  "digit hash shift = unat (drop_bit shift hash AND 31)"

definition bit_at :: "hash \<Rightarrow> nat \<Rightarrow> 32 word" where
  "bit_at hash shift = push_bit (digit hash shift) 1"

definition count_ones :: "32 word \<Rightarrow> nat" where
  "count_ones w = length (filter (bit w) [0..<32])"

definition index_of :: "32 word \<Rightarrow> 32 word \<Rightarrow> nat" where
  "index_of bm b = count_ones (bm AND (b - 1))"

function node_pair :: "str \<times> 'v \<Rightarrow> hash \<Rightarrow> str \<times> 'v \<Rightarrow> hash \<Rightarrow> nat \<Rightarrow> 'v node" where
  "node_pair a a_hash b b_hash shift =
     (if shift \<ge> 64 then Node 0 [Leaf (fst a) (snd a), Leaf (fst b) (snd b)]
      else
        let a_bit = bit_at a_hash shift; b_bit = bit_at b_hash shift
        in if a_bit = b_bit then Node a_bit [Child (node_pair a a_hash b b_hash (shift + 5))]
           else Node (a_bit OR b_bit)
                  (if a_bit < b_bit then [Leaf (fst a) (snd a), Leaf (fst b) (snd b)]
                   else [Leaf (fst b) (snd b), Leaf (fst a) (snd a)]))"
  by pat_completeness auto
termination
  by (relation "measure (\<lambda>(a, a_hash, b, b_hash, shift). 64 - shift)") auto
declare node_pair.simps [simp del]

fun is_leaf_for :: "str \<Rightarrow> 'v slot \<Rightarrow> bool" where
  "is_leaf_for key (Leaf k v) = (k = key)"
| "is_leaf_for key (Child n) = False"

fun leaf_value :: "'v slot \<Rightarrow> 'v option" where
  "leaf_value (Leaf k v) = Some v"
| "leaf_value (Child n) = None"

text \<open>The leaf found holds the key asked for, so its value is the whole answer.\<close>

function node_get :: "'v node \<Rightarrow> str \<Rightarrow> hash \<Rightarrow> nat \<Rightarrow> 'v option" where
  "node_get node key hash shift =
     (if shift \<ge> 64 then Option.bind (find (is_leaf_for key) (slots node)) leaf_value
      else
        let b = bit_at hash shift
        in if bitmap node AND b = 0 then None
           else (case slots node ! index_of (bitmap node) b of
                   Leaf k v \<Rightarrow> if k = key then Some v else None
                 | Child child \<Rightarrow> node_get child key hash (shift + 5)))"
  by pat_completeness auto
termination
  by (relation "measure (\<lambda>(node, key, hash, shift). 64 - shift)") auto
declare node_get.simps [simp del]

definition insert_at :: "'a list \<Rightarrow> nat \<Rightarrow> 'a \<Rightarrow> 'a list" where
  "insert_at xs i x = take i xs @ x # drop i xs"

definition remove_at :: "'a list \<Rightarrow> nat \<Rightarrow> 'a list" where
  "remove_at xs i = take i xs @ drop (Suc i) xs"

text \<open>The first leaf for a key, rewritten.\<close>

fun update_first :: "str \<Rightarrow> ('v \<Rightarrow> 'v) \<Rightarrow> 'v slot list \<Rightarrow> 'v slot list" where
  "update_first key f [] = []"
| "update_first key f (Leaf k v # ss) =
     (if k = key then Leaf k (f v) # ss else Leaf k v # update_first key f ss)"
| "update_first key f (Child n # ss) = Child n # update_first key f ss"

text \<open>The new node, and whether the key is new.\<close>

function node_insert :: "(str \<Rightarrow> hash) \<Rightarrow> 'v node \<Rightarrow> str \<Rightarrow> hash \<Rightarrow> nat \<Rightarrow> 'v \<Rightarrow> 'v node \<times> bool" where
  "node_insert h node key hash shift v =
     (if shift \<ge> 64 then
        (if list_ex (is_leaf_for key) (slots node)
         then (Node (bitmap node) (update_first key (\<lambda>_. v) (slots node)), False)
         else (Node (bitmap node) (slots node @ [Leaf key v]), True))
      else
        let b = bit_at hash shift; idx = index_of (bitmap node) b
        in if bitmap node AND b = 0
           then (Node (bitmap node OR b) (insert_at (slots node) idx (Leaf key v)), True)
           else (case slots node ! idx of
                   Child child \<Rightarrow>
                     (case node_insert h child key hash (shift + 5) v of
                        (child', added) \<Rightarrow> (Node (bitmap node) ((slots node)[idx := Child child']), added))
                 | Leaf k w \<Rightarrow>
                     if k = key then (Node (bitmap node) ((slots node)[idx := Leaf key v]), False)
                     else (Node (bitmap node) ((slots node)[idx :=
                             Child (node_pair (k, w) (h k) (key, v) hash (shift + 5))]), True)))"
  by pat_completeness auto
termination
  by (relation "measure (\<lambda>(h, node, key, hash, shift, v). 64 - shift)") auto
declare node_insert.simps [simp del]

text \<open>What becomes of a slot whose subtree lost a key.\<close>

definition fold_child :: "'v node \<Rightarrow> nat \<Rightarrow> 32 word \<Rightarrow> 'v node \<Rightarrow> 'v node" where
  "fold_child node idx b child =
     (case slots child of
        [] \<Rightarrow> Node (bitmap node AND NOT b) (remove_at (slots node) idx)
      | [Leaf k v] \<Rightarrow> Node (bitmap node) ((slots node)[idx := Leaf k v])
      | _ \<Rightarrow> Node (bitmap node) ((slots node)[idx := Child child]))"

function node_remove :: "'v node \<Rightarrow> str \<Rightarrow> hash \<Rightarrow> nat \<Rightarrow> 'v node" where
  "node_remove node key hash shift =
     (if shift \<ge> 64 then Node (bitmap node) (filter (\<lambda>s. \<not> is_leaf_for key s) (slots node))
      else
        let b = bit_at hash shift; idx = index_of (bitmap node) b
        in if bitmap node AND b = 0 then node
           else (case slots node ! idx of
                   Leaf k v \<Rightarrow>
                     if k = key then Node (bitmap node AND NOT b) (remove_at (slots node) idx) else node
                 | Child child \<Rightarrow>
                     fold_child node idx b (node_remove child key hash (shift + 5))))"
  by pat_completeness auto
termination
  by (relation "measure (\<lambda>(node, key, hash, shift). 64 - shift)") auto
declare node_remove.simps [simp del]

text \<open>The iterator: a stack of the slots left to visit at each level, depth first.\<close>

fun entries :: "'v node \<Rightarrow> (str \<times> 'v) list" and slot_entries :: "'v slot \<Rightarrow> (str \<times> 'v) list" where
  "entries (Node bm ss) = concat (map slot_entries ss)"
| "slot_entries (Leaf k v) = [(k, v)]"
| "slot_entries (Child n) = entries n"

definition trie_iter :: "'v trie \<Rightarrow> (str \<times> 'v) list" where
  "trie_iter t = (case root t of None \<Rightarrow> [] | Some n \<Rightarrow> entries n)"

definition trie_keys :: "'v trie \<Rightarrow> str list" where "trie_keys t = map fst (trie_iter t)"

definition trie_values :: "'v trie \<Rightarrow> 'v list" where "trie_values t = map snd (trie_iter t)"

definition trie_is_empty :: "'v trie \<Rightarrow> bool" where "trie_is_empty t = (len t = 0)"

definition trie_get :: "(str \<Rightarrow> hash) \<Rightarrow> 'v trie \<Rightarrow> str \<Rightarrow> 'v option" where
  "trie_get h t key = (case root t of None \<Rightarrow> None | Some n \<Rightarrow> node_get n key (h key) 0)"

definition trie_contains_key :: "(str \<Rightarrow> hash) \<Rightarrow> 'v trie \<Rightarrow> str \<Rightarrow> bool" where
  "trie_contains_key h t key = (trie_get h t key \<noteq> None)"

definition trie_insert :: "(str \<Rightarrow> hash) \<Rightarrow> 'v trie \<Rightarrow> str \<Rightarrow> 'v \<Rightarrow> 'v trie" where
  "trie_insert h t key v =
     (let hash = h key;
          (n, added) = (case root t of
             Some n \<Rightarrow> node_insert h n key hash 0 v
           | None \<Rightarrow> (Node (bit_at hash 0) [Leaf key v], True))
      in \<lparr>root = Some n, len = (if added then len t + 1 else len t)\<rparr>)"

definition trie_remove :: "(str \<Rightarrow> hash) \<Rightarrow> 'v trie \<Rightarrow> str \<Rightarrow> 'v trie \<times> bool" where
  "trie_remove h t key =
     (if \<not> trie_contains_key h t key then (t, False)
      else
        let n = map_option (\<lambda>n. node_remove n key (h key) 0) (root t); l = len t - 1
        in (\<lparr>root = (if l = 0 then None else n), len = l\<rparr>, True))"

definition trie_retain :: "(str \<Rightarrow> hash) \<Rightarrow> (str \<Rightarrow> 'v \<Rightarrow> bool) \<Rightarrow> 'v trie \<Rightarrow> 'v trie" where
  "trie_retain h keep t =
     foldl (\<lambda>t key. fst (trie_remove h t key)) t
       (map fst (filter (\<lambda>(k, v). \<not> keep k v) (trie_iter t)))"

text \<open>
  \<open>get_mut\<close> followed by a write through the reference it returns: the path is followed to the
  leaf without looking at the keys on it, because the key is known to be there.
\<close>

function node_update :: "'v node \<Rightarrow> str \<Rightarrow> hash \<Rightarrow> nat \<Rightarrow> ('v \<Rightarrow> 'v) \<Rightarrow> 'v node" where
  "node_update node key hash shift f =
     (if shift \<ge> 64 then Node (bitmap node) (update_first key f (slots node))
      else
        let idx = index_of (bitmap node) (bit_at hash shift)
        in (case slots node ! idx of
              Leaf k v \<Rightarrow> Node (bitmap node) ((slots node)[idx := Leaf k (f v)])
            | Child child \<Rightarrow> Node (bitmap node)
                ((slots node)[idx := Child (node_update child key hash (shift + 5) f)])))"
  by pat_completeness auto
termination
  by (relation "measure (\<lambda>(node, key, hash, shift, f). 64 - shift)") auto
declare node_update.simps [simp del]

definition trie_get_mut :: "(str \<Rightarrow> hash) \<Rightarrow> 'v trie \<Rightarrow> str \<Rightarrow> ('v \<Rightarrow> 'v) \<Rightarrow> 'v trie option" where
  "trie_get_mut h t key f =
     (if \<not> trie_contains_key h t key then None
      else Some (t\<lparr>root := map_option (\<lambda>n. node_update n key (h key) 0 f) (root t)\<rparr>))"

definition trie_update_or_default ::
  "(str \<Rightarrow> hash) \<Rightarrow> 'v \<Rightarrow> 'v trie \<Rightarrow> str \<Rightarrow> ('v \<Rightarrow> 'v) \<Rightarrow> 'v trie option" where
  "trie_update_or_default h d t key f =
     trie_get_mut h (if trie_contains_key h t key then t else trie_insert h t key d) key f"

definition trie_from_iter :: "(str \<Rightarrow> hash) \<Rightarrow> (str \<times> 'v) list \<Rightarrow> 'v trie" where
  "trie_from_iter h kvs = foldl (\<lambda>t (k, v). trie_insert h t k v) trie_default kvs"

definition retain_items_at :: "(str \<Rightarrow> hash) \<Rightarrow> ('t \<Rightarrow> bool) \<Rightarrow> 't list trie \<Rightarrow> str \<Rightarrow> 't list trie" where
  "retain_items_at h keep t key =
     (case trie_get_mut h t key (filter keep) of
        None \<Rightarrow> t
      | Some t' \<Rightarrow> if trie_get h t' key = Some [] then fst (trie_remove h t' key) else t')"

definition trie_retain_items :: "(str \<Rightarrow> hash) \<Rightarrow> ('t \<Rightarrow> bool) \<Rightarrow> 't list trie \<Rightarrow> 't list trie" where
  "trie_retain_items h keep t =
     foldl (retain_items_at h keep) t
       (map fst (filter (\<lambda>(k, items). \<not> list_all keep items) (trie_iter t)))"

subsection \<open>Digits and packed slots\<close>

lemma digit_less: "digit hash shift < 32"
proof -
  have "drop_bit shift hash AND 31 = take_bit 5 (drop_bit shift hash)"
    by (simp add: take_bit_eq_mask mask_eq_exp_minus_1)
  then show ?thesis
    using take_bit_nat_less_exp [of 5 "unat (drop_bit shift hash)"]
    by (simp add: digit_def unsigned_take_bit_eq)
qed

lemma bit_at_exp: "bit_at hash shift = 2 ^ digit hash shift"
  by (simp add: bit_at_def)

lemma unat_exp32:
  assumes "d < 32"
  shows "unat (2 ^ d :: 32 word) = 2 ^ d"
proof -
  have "unat (of_nat (2 ^ d) :: 32 word) = take_bit 32 (2 ^ d)"
    using unsigned_of_nat [where 'a = nat and 'b = 32, of "2 ^ d"] by simp
  also have "\<dots> = 2 ^ d" by (rule take_bit_nat_eq_self) (rule power_strict_increasing [OF assms], simp)
  finally show ?thesis by simp
qed

lemma bit_at_eq: "bit_at a shift = bit_at b shift \<longleftrightarrow> digit a shift = digit b shift"
  using unat_exp32 [OF digit_less [of a shift]] unat_exp32 [OF digit_less [of b shift]]
  unfolding bit_at_exp by (metis power_inject_exp one_less_numeral_iff semiring_norm(76))

lemma bit_at_less: "bit_at a shift < bit_at b shift \<longleftrightarrow> digit a shift < digit b shift"
  using unat_exp32 [OF digit_less [of a shift]] unat_exp32 [OF digit_less [of b shift]]
  unfolding bit_at_exp word_less_nat_alt by simp

definition positions :: "32 word \<Rightarrow> nat list" where
  "positions bm = filter (bit bm) [0..<32]"

definition rank :: "32 word \<Rightarrow> nat \<Rightarrow> nat" where
  "rank bm d = length (filter (bit bm) [0..<d])"

lemma has_slot: "bm AND bit_at hash shift = 0 \<longleftrightarrow> \<not> bit bm (digit hash shift)"
  by (simp add: bit_at_exp and_exp_eq_0_iff_not_bit)

lemma index_of_exp:
  assumes d: "d < 32"
  shows "index_of bm (2 ^ d) = rank bm d"
proof -
  have "bm AND (2 ^ d - 1) = take_bit d bm"
    by (simp add: take_bit_eq_mask mask_eq_exp_minus_1)
  moreover have "[0..<32] = [0..<d] @ [d..<32]" using d upt_add_eq_append [of 0 d "32 - d"] by simp
  moreover have "filter (bit (take_bit d bm)) [0..<d] = filter (bit bm) [0..<d]"
    by (rule filter_cong) (auto simp: bit_take_bit_iff)
  moreover have "filter (bit (take_bit d bm)) [d..<32] = []"
    by (auto simp: filter_empty_conv bit_take_bit_iff)
  ultimately show ?thesis by (simp add: index_of_def count_ones_def rank_def)
qed

lemma index_of_bit: "index_of bm (bit_at hash shift) = rank bm (digit hash shift)"
  by (simp add: bit_at_exp index_of_exp digit_less)

lemma positions_split:
  assumes "d < 32"
  shows "positions bm =
    filter (bit bm) [0..<d] @ (if bit bm d then [d] else []) @ filter (bit bm) [Suc d..<32]"
proof -
  have "[0..<32] = [0..<d] @ d # [Suc d..<32]"
    using assms upt_add_eq_append [of 0 d "32 - d"] upt_conv_Cons [of d 32] by simp
  then show ?thesis by (simp add: positions_def)
qed

lemma positions_set:
  assumes "d < 32"
  shows "positions (bm OR 2 ^ d) = filter (bit bm) [0..<d] @ d # filter (bit bm) [Suc d..<32]"
proof -
  have "bit (bm OR 2 ^ d) n = (bit bm n \<or> n = d)" if "n < 32" for n
    using that assms by (auto simp: bit_or_iff bit_exp_iff)
  moreover from this have "filter (bit (bm OR 2 ^ d)) [0..<d] = filter (bit bm) [0..<d]"
    "filter (bit (bm OR 2 ^ d)) [Suc d..<32] = filter (bit bm) [Suc d..<32]"
    using assms by (auto intro!: filter_cong)
  ultimately show ?thesis
    using assms unfolding positions_split [OF assms, of "bm OR 2 ^ d"] by simp
qed

lemma positions_unset:
  assumes "d < 32"
  shows "positions (bm AND NOT (2 ^ d)) = filter (bit bm) [0..<d] @ filter (bit bm) [Suc d..<32]"
proof -
  have "bit (bm AND NOT (2 ^ d)) n = (bit bm n \<and> n \<noteq> d)" if "n < 32" for n
    using that by (auto simp: bit_and_iff bit_not_iff bit_exp_iff)
  moreover from this have "filter (bit (bm AND NOT (2 ^ d))) [0..<d] = filter (bit bm) [0..<d]"
    "filter (bit (bm AND NOT (2 ^ d))) [Suc d..<32] = filter (bit bm) [Suc d..<32]"
    using assms by (auto intro!: filter_cong)
  ultimately show ?thesis
    using assms unfolding positions_split [OF assms, of "bm AND NOT (2 ^ d)"] by simp
qed

lemma positions_distinct: "distinct (positions bm)"
  by (simp add: positions_def)

lemma set_positions: "d \<in> set (positions bm) \<longleftrightarrow> d < 32 \<and> bit bm d"
  by (auto simp: positions_def)

text \<open>The slots of the digits before, at and after a digit.\<close>

lemma list_all2_positions:
  assumes "list_all2 P (positions bm) ss" "d < 32"
  obtains s1 s2 where "length s1 = rank bm d" "list_all2 P (filter (bit bm) [0..<d]) s1"
    "list_all2 P (filter (bit bm) [Suc d..<32]) s2"
    "if bit bm d then \<exists>s. ss = s1 @ s # s2 \<and> P d s else ss = s1 @ s2"
proof -
  let ?a = "filter (bit bm) [0..<d]" and ?b = "filter (bit bm) [Suc d..<32]"
  from assms(1) obtain s1 r where ss: "ss = s1 @ r" and s1: "list_all2 P ?a s1"
    and r: "list_all2 P ((if bit bm d then [d] else []) @ ?b) r"
    unfolding positions_split [OF assms(2)] list_all2_append1 by blast
  have len: "length s1 = rank bm d" using s1 by (simp add: list_all2_lengthD rank_def)
  show thesis
  proof (cases "bit bm d")
    case True
    then obtain s s2 where "r = s # s2" "P d s" "list_all2 P ?b s2"
      using r by (auto simp: list_all2_Cons1)
    then show thesis using that [OF len s1] True ss by simp
  next
    case False
    then show thesis using that [OF len s1] r ss by simp
  qed
qed

subsection \<open>The invariant\<close>

text \<open>
  A node has a slot for each digit of its bitmap, and every key below a slot has that digit; a
  child holds at least two keys, so that no level is deeper than its keys need.
\<close>

fun is_leaf :: "'v slot \<Rightarrow> bool" where
  "is_leaf (Leaf k v) = True"
| "is_leaf (Child n) = False"

fun node_ok :: "(str \<Rightarrow> hash) \<Rightarrow> nat \<Rightarrow> 'v node \<Rightarrow> bool"
  and slot_ok :: "(str \<Rightarrow> hash) \<Rightarrow> nat \<Rightarrow> nat \<Rightarrow> 'v slot \<Rightarrow> bool" where
  "node_ok h shift (Node bm ss) =
     (if shift \<ge> 64 then list_all is_leaf ss \<and> distinct (map fst (concat (map slot_entries ss)))
      else list_all2 (slot_ok h shift) (positions bm) ss)"
| "slot_ok h shift d (Leaf k v) = (digit (h k) shift = d)"
| "slot_ok h shift d (Child n) =
     (node_ok h (shift + 5) n \<and> 2 \<le> length (entries n) \<and>
      (\<forall>k \<in> fst ` set (entries n). digit (h k) shift = d))"

declare node_ok.simps(1) [simp del]

lemma node_ok_level:
  "shift < 64 \<Longrightarrow> node_ok h shift (Node bm ss) = list_all2 (slot_ok h shift) (positions bm) ss"
  by (simp add: node_ok.simps)

lemma node_ok_bottom:
  "\<not> shift < 64 \<Longrightarrow> node_ok h shift (Node bm ss) \<longleftrightarrow>
     list_all is_leaf ss \<and> distinct (map fst (concat (map slot_entries ss)))"
  by (simp add: node_ok.simps)

definition node_map :: "'v node \<Rightarrow> str \<rightharpoonup> 'v" where
  "node_map n = map_of (entries n)"

definition slot_map :: "'v slot \<Rightarrow> str \<rightharpoonup> 'v" where
  "slot_map s = map_of (slot_entries s)"

lemma slot_map_simps [simp]: "slot_map (Leaf k v) = [k \<mapsto> v]" "slot_map (Child n) = node_map n"
  by (simp_all add: slot_map_def node_map_def)

lemma slot_ok_digit: "slot_ok h shift d s \<Longrightarrow> (k, v) \<in> set (slot_entries s) \<Longrightarrow> digit (h k) shift = d"
  by (cases s) (auto simp: image_iff)

lemma slot_ok_other: "slot_ok h shift d s \<Longrightarrow> digit (h k) shift \<noteq> d \<Longrightarrow> slot_map s k = None"
  using slot_ok_digit by (fastforce simp: slot_map_def map_of_eq_None_iff)

lemma slots_other:
  "list_all2 (slot_ok h shift) ds ss \<Longrightarrow> digit (h k) shift \<notin> set ds \<Longrightarrow>
   map_of (concat (map slot_entries ss)) k = None"
proof (induction ds ss rule: list_all2_induct)
  case (Cons d ds s ss)
  then show ?case using slot_ok_other [OF Cons(1), of k]
    by (simp add: map_of_append map_add_def slot_map_def)
qed simp

text \<open>Looking a key up means looking it up in the slot of its digit.\<close>

lemma lookup_level:
  assumes "length s1 = rank bm d" "list_all2 (slot_ok h shift) (filter (bit bm) [0..<d]) s1"
    and "list_all2 (slot_ok h shift) (filter (bit bm) [Suc d..<32]) s2"
    and "digit (h k) shift = d"
  shows "node_map (Node bm' (s1 @ s2)) k = None"
    and "node_map (Node bm' (s1 @ s # s2)) k = slot_map s k"
proof -
  have "map_of (concat (map slot_entries s1)) k = None" "map_of (concat (map slot_entries s2)) k = None"
    using slots_other [OF assms(2), of k] slots_other [OF assms(3), of k] assms(4) by auto
  then show "node_map (Node bm' (s1 @ s2)) k = None"
    and "node_map (Node bm' (s1 @ s # s2)) k = slot_map s k"
    by (auto simp: node_map_def slot_map_def map_add_def split: option.splits)
qed

lemma lookup_level_other:
  assumes "slot_ok h shift d s" "slot_ok h shift d s'" "digit (h k) shift \<noteq> d"
  shows "node_map (Node bm (s1 @ s # s2)) k = node_map (Node bm' (s1 @ s' # s2)) k"
    and "node_map (Node bm (s1 @ s # s2)) k = node_map (Node bm' (s1 @ s2)) k"
  using slot_ok_other [OF assms(1, 3)] slot_ok_other [OF assms(2, 3)]
  by (simp_all add: node_map_def slot_map_def map_add_def split: option.splits)

subsection \<open>Insertion\<close>

lemma find_leaf: "list_all is_leaf ss \<Longrightarrow>
    Option.bind (find (is_leaf_for key) ss) leaf_value = map_of (concat (map slot_entries ss)) key"
proof (induction ss)
  case (Cons s ss)
  then show ?case by (cases s) auto
qed simp

lemma update_first_absent: "\<not> list_ex (is_leaf_for key) ss \<Longrightarrow> update_first key f ss = ss"
  by (induction key f ss rule: update_first.induct) auto

lemma update_first_leaves:
  assumes "list_all is_leaf ss" "list_ex (is_leaf_for key) ss"
  shows "list_all is_leaf (update_first key f ss) \<and>
    map fst (concat (map slot_entries (update_first key f ss))) = map fst (concat (map slot_entries ss)) \<and>
    map_of (concat (map slot_entries (update_first key f ss))) =
      (map_of (concat (map slot_entries ss)))(key \<mapsto> f (the (map_of (concat (map slot_entries ss)) key)))"
  using assms by (induction key f ss rule: update_first.induct) auto

lemma leaf_for_absent:
  "list_all is_leaf ss \<Longrightarrow> list_ex (is_leaf_for key) ss \<longleftrightarrow> key \<in> fst ` set (concat (map slot_entries ss))"
proof (induction ss)
  case (Cons s ss)
  then show ?case by (cases s) auto
qed simp

lemma node_map_None: "node_map n k = None \<longleftrightarrow> k \<notin> fst ` set (entries n)"
  by (simp add: node_map_def map_of_eq_None_iff)

lemma filter_upt_one: "filter (\<lambda>n. n = x) [0..<y] = (if x < y then [x] else [])"
  by (induction y) (auto simp: less_Suc_eq)

lemma positions_pair:
  assumes "x < y" "y < 32"
  shows "positions (2 ^ x OR 2 ^ y) = [x, y]"
proof -
  have bit: "bit (2 ^ x :: 32 word) n \<longleftrightarrow> n = x" if "n < 32" for n
    using that by (auto simp: bit_exp_iff)
  have "filter (bit (2 ^ x :: 32 word)) [0..<y] = filter (\<lambda>n. n = x) [0..<y]"
    using assms bit by (intro filter_cong) auto
  moreover have "filter (bit (2 ^ x :: 32 word)) [Suc y..<32] = []"
    using assms bit by (auto simp: filter_empty_conv)
  ultimately show ?thesis
    using positions_set [OF assms(2), of "2 ^ x"] assms(1) by (simp add: filter_upt_one)
qed

lemma map_of_snoc_new: "k \<notin> fst ` set kvs \<Longrightarrow> map_of kvs ++ [k \<mapsto> v] = (map_of kvs)(k \<mapsto> v)"
  by (simp add: map_add_def fun_eq_iff split: option.splits)

lemma map_of_new_snoc: "k \<notin> fst ` set kvs \<Longrightarrow> [k \<mapsto> v] ++ map_of kvs = (map_of kvs)(k \<mapsto> v)"
  by (rule ext) (simp add: map_add_def map_of_eq_None_iff [symmetric] split: option.split)

lemma node_pair_ok:
  assumes "fst a \<noteq> fst b"
  shows "node_ok h shift (node_pair a (h (fst a)) b (h (fst b)) shift) \<and>
    node_map (node_pair a (h (fst a)) b (h (fst b)) shift) = [fst a \<mapsto> snd a, fst b \<mapsto> snd b] \<and>
    length (entries (node_pair a (h (fst a)) b (h (fst b)) shift)) = 2"
proof (induction "64 - shift" arbitrary: shift rule: less_induct)
  case less
  let ?a = "digit (h (fst a)) shift" and ?b = "digit (h (fst b)) shift"
  consider "64 \<le> shift" | "shift < 64" "?a = ?b" | "shift < 64" "?a \<noteq> ?b" by linarith
  then show ?case
  proof cases
    case 1
    then show ?thesis
      using assms by (auto simp: node_pair.simps node_ok_bottom node_map_def fun_upd_twist)
  next
    case 2
    let ?c = "node_pair a (h (fst a)) b (h (fst b)) (shift + 5)"
    have c: "node_ok h (shift + 5) ?c" "node_map ?c = [fst a \<mapsto> snd a, fst b \<mapsto> snd b]" "length (entries ?c) = 2"
      using less [of "shift + 5"] 2(1) by auto
    have eq: "node_pair a (h (fst a)) b (h (fst b)) shift = Node (2 ^ ?a) [Child ?c]"
      using 2 by (subst node_pair.simps) (simp add: bit_at_exp)
    have "digit (h k) shift = ?a" if "k \<in> fst ` set (entries ?c)" for k
    proof -
      have "node_map ?c k \<noteq> None" using that by (simp add: node_map_None)
      then show ?thesis using c(2) 2(2) by (auto split: if_splits)
    qed
    moreover have "positions (2 ^ ?a) = [?a]"
      using positions_set [OF digit_less, of 0 "h (fst a)" shift] by simp
    ultimately show ?thesis
      using c 2(1) unfolding eq by (simp add: node_ok_level node_map_def)
  next
    case 3
    have "?a < 32" "?b < 32" by (rule digit_less)+
    then have "positions (2 ^ ?a OR 2 ^ ?b) = (if ?a < ?b then [?a, ?b] else [?b, ?a])"
      using 3(2) positions_pair [of ?a ?b] positions_pair [of ?b ?a] by (auto simp: or.commute)
    moreover have "node_pair a (h (fst a)) b (h (fst b)) shift =
        Node (2 ^ ?a OR 2 ^ ?b) (if ?a < ?b then [Leaf (fst a) (snd a), Leaf (fst b) (snd b)]
                 else [Leaf (fst b) (snd b), Leaf (fst a) (snd a)])"
      using 3 by (subst node_pair.simps) (simp add: bit_at_eq bit_at_less, simp add: bit_at_exp)
    ultimately show ?thesis
      using 3(1) assms by (auto simp: node_ok_level node_map_def fun_upd_twist)
  qed
qed

text \<open>A slot in place of another, of nothing, or taken out.\<close>

lemma slot_level:
  assumes "node_ok h shift (Node bm ss)" "shift < 64" "digit hash shift = d"
  obtains s1 s2 where "length s1 = rank bm d"
    "list_all2 (slot_ok h shift) (filter (bit bm) [0..<d]) s1"
    "list_all2 (slot_ok h shift) (filter (bit bm) [Suc d..<32]) s2"
    "if bit bm d then \<exists>s. ss = s1 @ s # s2 \<and> slot_ok h shift d s else ss = s1 @ s2"
  using list_all2_positions [of "slot_ok h shift" bm ss d] assms digit_less [of hash shift]
  by (auto simp: node_ok_level)

lemma level_with_slot:
  assumes "list_all2 (slot_ok h shift) (filter (bit bm) [0..<d]) s1"
    and "list_all2 (slot_ok h shift) (filter (bit bm) [Suc d..<32]) s2"
    and "slot_ok h shift d s" "shift < 64" "d < 32"
  shows "bit bm d \<Longrightarrow> node_ok h shift (Node bm (s1 @ s # s2))"
    and "node_ok h shift (Node (bm OR 2 ^ d) (s1 @ s # s2))"
  using assms positions_split [OF assms(5), of bm] positions_set [OF assms(5), of bm]
  by (simp_all add: node_ok_level list_all2_appendI)

lemma level_without_slot:
  assumes "list_all2 (slot_ok h shift) (filter (bit bm) [0..<d]) s1"
    and "list_all2 (slot_ok h shift) (filter (bit bm) [Suc d..<32]) s2"
    and "shift < 64" "d < 32"
  shows "node_ok h shift (Node (bm AND NOT (2 ^ d)) (s1 @ s2))"
  using assms positions_unset [OF assms(4), of bm] by (simp add: node_ok_level list_all2_appendI)

lemma length_entries_level: "length (entries (Node bm (s1 @ s # s2))) =
    length (entries (Node bm' (s1 @ s2))) + length (slot_entries s)"
  by simp

lemma node_get_map:
  assumes "node_ok h shift n"
  shows "node_get n key (h key) shift = node_map n key"
  using assms
proof (induction "64 - shift" arbitrary: n shift rule: less_induct)
  case less
  obtain bm ss where n: "n = Node bm ss" by (cases n)
  let ?d = "digit (h key) shift"
  show ?case
  proof (cases "shift < 64")
    case False
    then show ?thesis
      using less.prems by (simp add: n node_ok_bottom node_get.simps find_leaf node_map_def)
  next
    case True
    obtain s1 s2 where lv: "length s1 = rank bm ?d"
      "list_all2 (slot_ok h shift) (filter (bit bm) [0..<?d]) s1"
      "list_all2 (slot_ok h shift) (filter (bit bm) [Suc ?d..<32]) s2"
      "if bit bm ?d then \<exists>s. ss = s1 @ s # s2 \<and> slot_ok h shift ?d s else ss = s1 @ s2"
      using slot_level [OF less.prems [unfolded n] True refl] by blast
    note look = lookup_level [OF lv(1, 2, 3) refl]
    show ?thesis
    proof (cases "bit bm ?d")
      case False
      then show ?thesis
        using True lv(4) look(1) by (simp add: n node_get.simps [of _ _ _ shift] has_slot Let_def)
    next
      case bit: True
      then obtain s where s: "ss = s1 @ s # s2" "slot_ok h shift ?d s" using lv(4) by auto
      have "node_map n key = slot_map s key" using look(2) by (simp add: n s)
      moreover have "slots n ! rank bm ?d = s" using lv(1) by (simp add: n s nth_append)
      moreover have "node_get c key (h key) (shift + 5) = node_map c key" if "s = Child c" for c
        using less.hyps [of "shift + 5" c] True s(2) that by simp
      ultimately show ?thesis
        using True bit by (cases s) (simp_all add: n node_get.simps [of _ _ _ shift] has_slot index_of_bit Let_def)
    qed
  qed
qed

definition insert_spec :: "(str \<Rightarrow> hash) \<Rightarrow> nat \<Rightarrow> 'v node \<Rightarrow> str \<Rightarrow> 'v \<Rightarrow> 'v node \<times> bool \<Rightarrow> bool" where
  "insert_spec h shift n key v r \<longleftrightarrow>
     node_ok h shift (fst r) \<and> node_map (fst r) = (node_map n)(key \<mapsto> v) \<and>
     snd r = (node_map n key = None) \<and>
     length (entries (fst r)) = length (entries n) + (if snd r then 1 else 0)"

text \<open>
  What a change below one digit does to the whole level: the slots of the other digits hold none of
  the keys concerned.  The slot of the digit is a list of at most one slot here.
\<close>

definition slots_map :: "'v slot list \<Rightarrow> str \<rightharpoonup> 'v" where
  "slots_map ss = map_of (concat (map slot_entries ss))"

lemma slots_map_simps [simp]: "slots_map [] = Map.empty" "slots_map [s] = slot_map s"
  by (simp_all add: slots_map_def slot_map_def)

lemma slots_map_append: "slots_map (as @ bs) k = (case slots_map as k of None \<Rightarrow> slots_map bs k | Some v \<Rightarrow> Some v)"
  by (simp add: slots_map_def map_add_def split: option.splits)

lemma node_map_slots: "node_map (Node bm ss) = slots_map ss"
  by (simp add: node_map_def slots_map_def)

lemma slots_map_other: "\<forall>s \<in> set ss. slot_ok h shift d s \<Longrightarrow> digit (h k) shift \<noteq> d \<Longrightarrow> slots_map ss k = None"
proof (induction ss)
  case (Cons s ss)
  then show ?case using slots_map_append [of "[s]" ss k] slot_ok_other [of h shift d s k] by simp
qed simp

lemma level_changed:
  assumes "list_all2 (slot_ok h shift) (filter (bit bm) [0..<d]) s1"
    and "list_all2 (slot_ok h shift) (filter (bit bm) [Suc d..<32]) s2"
    and "\<forall>s \<in> set os. slot_ok h shift d s" "\<forall>s \<in> set os'. slot_ok h shift d s"
    and "digit (h key) shift = d" "slots_map os' = (slots_map os)(key := x)"
  shows "slots_map (s1 @ os' @ s2) = (slots_map (s1 @ os @ s2))(key := x)"
proof (rule ext)
  fix k
  show "slots_map (s1 @ os' @ s2) k = ((slots_map (s1 @ os @ s2))(key := x)) k"
  proof (cases "digit (h k) shift = d")
    case True
    then have "slots_map s1 k = None" "slots_map s2 k = None"
      using slots_other [OF assms(1), of k] slots_other [OF assms(2), of k] by (auto simp: slots_map_def)
    then show ?thesis using assms(6) by (cases "k = key") (simp_all add: slots_map_append split: option.splits)
  next
    case False
    then show ?thesis
      using slots_map_other [OF assms(3) False] slots_map_other [OF assms(4) False] assms(5)
      by (auto simp: slots_map_append split: option.splits)
  qed
qed

lemma node_insert_ok:
  "node_ok h shift n \<Longrightarrow> insert_spec h shift n key v (node_insert h n key (h key) shift v)"
proof (induction "64 - shift" arbitrary: n shift rule: less_induct)
  case less
  obtain bm ss where n: "n = Node bm ss" by (cases n)
  let ?d = "digit (h key) shift"
  have d: "?d < 32" by (rule digit_less)
  show ?case
  proof (cases "shift < 64")
    case False
    then have ok: "list_all is_leaf ss" "distinct (map fst (concat (map slot_entries ss)))"
      using less.prems by (simp_all add: n node_ok_bottom)
    show ?thesis
    proof (cases "list_ex (is_leaf_for key) ss")
      case True
      have len: "length (concat (map slot_entries (update_first key (\<lambda>_. v) ss))) =
          length (concat (map slot_entries ss))"
        using update_first_leaves [OF ok(1) True, of "\<lambda>_. v"] by (metis length_map)
      then show ?thesis
        using update_first_leaves [OF ok(1) True, of "\<lambda>_. v"] True False ok leaf_for_absent [OF ok(1), of key]
        by (simp add: n node_insert.simps insert_spec_def node_ok_bottom node_map_def map_of_eq_None_iff)
    next
      case absent: False
      then have "key \<notin> fst ` set (concat (map slot_entries ss))" using leaf_for_absent [OF ok(1)] by simp
      then show ?thesis
        using False absent ok
        by (simp add: n node_insert.simps insert_spec_def node_ok_bottom node_map_def map_of_eq_None_iff
            map_of_new_snoc)
    qed
  next
    case True
    obtain s1 s2 where lv: "length s1 = rank bm ?d"
      "list_all2 (slot_ok h shift) (filter (bit bm) [0..<?d]) s1"
      "list_all2 (slot_ok h shift) (filter (bit bm) [Suc ?d..<32]) s2"
      "if bit bm ?d then \<exists>s. ss = s1 @ s # s2 \<and> slot_ok h shift ?d s else ss = s1 @ s2"
      using slot_level [OF less.prems [unfolded n] True refl] by blast
    note look = lookup_level [OF lv(1, 2, 3)]
    show ?thesis
    proof (cases "bit bm ?d")
      case False
      then have ss: "ss = s1 @ s2" using lv(4) by simp
      have r: "node_insert h n key (h key) shift v = (Node (bm OR bit_at (h key) shift) (s1 @ Leaf key v # s2), True)"
        using True False lv(1)
        by (simp add: n ss node_insert.simps has_slot index_of_bit insert_at_def Let_def)
      have "slots_map (s1 @ [Leaf key v] @ s2) = (slots_map (s1 @ [] @ s2))(key \<mapsto> v)"
        by (rule level_changed [OF lv(2, 3)]) simp_all
      then show ?thesis
        using look(1) [OF refl, of bm] level_with_slot(2) [OF lv(2, 3) _ True d, of "Leaf key v"]
        by (simp add: r [unfolded n ss] insert_spec_def n ss node_map_slots bit_at_exp)
    next
      case bit: True
      then obtain s where s: "ss = s1 @ s # s2" "slot_ok h shift ?d s" using lv(4) by auto
      have nth: "ss ! rank bm ?d = s" and upd: "ss[rank bm ?d := s'] = s1 @ s' # s2" for s'
        using lv(1) by (simp_all add: s nth_append list_update_append)
      have old: "node_map n key = slot_map s key" using look(2) [OF refl] by (simp add: n s)
      have replace: "insert_spec h shift n key v (Node bm (s1 @ s' # s2), new)"
        if "slot_ok h shift ?d s'" "slot_map s' = (slot_map s)(key \<mapsto> v)" "new = (slot_map s key = None)"
          "length (slot_entries s') = length (slot_entries s) + (if new then 1 else 0)" for s' new
      proof -
        have "slots_map (s1 @ [s'] @ s2) = (slots_map (s1 @ [s] @ s2))(key \<mapsto> v)"
          by (rule level_changed [OF lv(2, 3)]) (use s(2) that in simp_all)
        then show ?thesis
          using level_with_slot(1) [OF lv(2, 3) that(1) True d bit] that(3, 4) old
          by (auto simp: insert_spec_def n s(1) node_map_slots)
      qed
      show ?thesis
      proof (cases s)
        case (Leaf k w)
        show ?thesis
        proof (cases "k = key")
          case True
          then have "node_insert h n key (h key) shift v = (Node bm (s1 @ Leaf key v # s2), False)"
            using bit \<open>shift < 64\<close> Leaf
            by (simp add: n node_insert.simps has_slot index_of_bit Let_def nth upd)
          then show ?thesis using replace [of "Leaf key v" False] True Leaf s(2) by simp
        next
          case False
          let ?c = "node_pair (k, w) (h k) (key, v) (h key) (shift + 5)"
          have c: "node_ok h (shift + 5) ?c" "node_map ?c = [k \<mapsto> w, key \<mapsto> v]" "length (entries ?c) = 2"
            using node_pair_ok [of "(k, w)" "(key, v)" h "shift + 5"] False by simp_all
          have r: "node_insert h n key (h key) shift v = (Node bm (s1 @ Child ?c # s2), True)"
            using bit \<open>shift < 64\<close> Leaf False
            by (simp add: n node_insert.simps has_slot index_of_bit Let_def nth upd)
          have "digit (h j) shift = ?d" if "j \<in> fst ` set (entries ?c)" for j
            using that s(2) c(2) node_map_None [of ?c j] Leaf by (auto split: if_splits)
          then show ?thesis using replace [of "Child ?c" True] False Leaf c by (simp add: r)
        qed
      next
        case (Child c)
        obtain c' new where c': "node_insert h c key (h key) (shift + 5) v = (c', new)" by fastforce
        have ok: "node_ok h (shift + 5) c" "2 \<le> length (entries c)"
          "\<forall>k \<in> fst ` set (entries c). digit (h k) shift = ?d" using s(2) Child by auto
        have c_ok: "insert_spec h (shift + 5) c key v (c', new)"
          using less.hyps [of "shift + 5" c] True ok(1) c' by simp
        have r: "node_insert h n key (h key) shift v = (Node bm (s1 @ Child c' # s2), new)"
          using bit True Child c'
          by (simp add: n node_insert.simps [of h _ _ _ shift] has_slot index_of_bit Let_def nth upd)
        have "digit (h j) shift = ?d" if "j \<in> fst ` set (entries c')" for j
        proof -
          have "node_map c' j \<noteq> None" using that node_map_None [of c' j] by blast
          then have "j = key \<or> j \<in> fst ` set (entries c)"
            using c_ok node_map_None [of c j] by (auto simp: insert_spec_def split: if_splits)
          then show ?thesis using ok(3) by blast
        qed
        then show ?thesis
          using replace [of "Child c'" new] c_ok ok(2) Child by (simp add: r insert_spec_def)
      qed
    qed
  qed
qed

subsection \<open>Removal\<close>

lemma list_all2_right: "list_all2 P xs ys \<Longrightarrow> y \<in> set ys \<Longrightarrow> \<exists>x. P x y"
  by (induction xs ys rule: list_all2_induct) auto

lemma slots_nonempty:
  assumes "node_ok h shift (Node bm ss)" "s \<in> set ss"
  shows "1 \<le> length (slot_entries s)" and "\<not> is_leaf s \<Longrightarrow> 2 \<le> length (slot_entries s)"
proof -
  have "is_leaf s \<or> (\<exists>d. slot_ok h shift d s)"
  proof (cases "shift < 64")
    case True
    then have "list_all2 (slot_ok h shift) (positions bm) ss" using assms(1) by (simp add: node_ok_level)
    then show ?thesis using list_all2_right [OF _ assms(2)] by blast
  next
    case False
    then show ?thesis using assms by (simp add: node_ok_bottom list_all_iff)
  qed
  then show "1 \<le> length (slot_entries s)" and "\<not> is_leaf s \<Longrightarrow> 2 \<le> length (slot_entries s)"
    by (cases s; auto)+
qed

lemma two_slots: "1 \<le> length (slot_entries s) \<Longrightarrow> 1 \<le> length (slot_entries s') \<Longrightarrow>
    2 \<le> length (entries (Node bm (s # s' # ss)))"
  by simp

text \<open>A child that keeps a single key becomes that leaf, one that keeps more stays a child.\<close>

lemma fold_child_slot:
  assumes "node_ok h shift child" "1 \<le> length (entries child)"
  obtains k v where "slots child = [Leaf k v]"
    "fold_child node idx b child = Node (bitmap node) ((slots node)[idx := Leaf k v])"
  | "2 \<le> length (entries child)"
    "fold_child node idx b child = Node (bitmap node) ((slots node)[idx := Child child])"
proof -
  obtain bm ss where c: "child = Node bm ss" by (cases child)
  note nonempty = slots_nonempty [OF assms(1) [unfolded c]]
  consider "ss = []" | k v where "ss = [Leaf k v]" | n where "ss = [Child n]" | s s' r where "ss = s # s' # r"
    by (metis neq_Nil_conv slot.exhaust)
  then show thesis
  proof cases
    case 1
    then show thesis using assms(2) by (simp add: c)
  next
    case 2
    then show thesis using that(1) by (simp add: c fold_child_def)
  next
    case 3
    then show thesis using that(2) nonempty(2) [of "Child n"] by (simp add: c fold_child_def)
  next
    case 4
    then show thesis
      using that(2) nonempty(1) [of s] nonempty(1) [of s'] by (cases s) (simp_all add: c fold_child_def)
  qed
qed

definition remove_spec :: "(str \<Rightarrow> hash) \<Rightarrow> nat \<Rightarrow> 'v node \<Rightarrow> str \<Rightarrow> 'v node \<Rightarrow> bool" where
  "remove_spec h shift n key r \<longleftrightarrow>
     node_ok h shift r \<and> node_map r = (node_map n)(key := None) \<and>
     length (entries n) = length (entries r) + (if node_map n key = None then 0 else 1)"

lemma bottom_remove:
  fixes key :: str
  assumes "list_all is_leaf ss" "distinct (map fst (concat (map slot_entries ss)))"
  defines "r \<equiv> filter (\<lambda>s. \<not> is_leaf_for key s) ss"
  shows "list_all is_leaf r \<and> distinct (map fst (concat (map slot_entries r))) \<and>
    slots_map r = (slots_map ss)(key := None) \<and>
    length (concat (map slot_entries ss)) =
      length (concat (map slot_entries r)) + (if slots_map ss key = None then 0 else 1) \<and>
    fst ` set (concat (map slot_entries r)) \<subseteq> fst ` set (concat (map slot_entries ss))"
  using assms(1, 2) unfolding r_def
proof (induction ss)
  case (Cons s ss)
  then obtain k v where s: "s = Leaf k v" by (cases s) auto
  have absent: "k \<notin> fst ` set (concat (map slot_entries ss))" using Cons.prems(2) by (simp add: s)
  then have none: "slots_map ss k = None" by (simp add: slots_map_def map_of_eq_None_iff)
  have cons: "slots_map (Leaf k v # xs) = (slots_map xs)(k \<mapsto> v)" for xs :: "'a slot list"
    by (simp add: slots_map_def)
  show ?case
    using Cons none absent by (auto simp: s cons fun_eq_iff)
qed simp

lemma node_remove_ok:
  "node_ok h shift n \<Longrightarrow> remove_spec h shift n key (node_remove n key (h key) shift)"
proof (induction "64 - shift" arbitrary: n shift rule: less_induct)
  case less
  obtain bm ss where n: "n = Node bm ss" by (cases n)
  let ?d = "digit (h key) shift"
  have d: "?d < 32" by (rule digit_less)
  show ?case
  proof (cases "shift < 64")
    case False
    then have "list_all is_leaf ss" "distinct (map fst (concat (map slot_entries ss)))"
      using less.prems by (simp_all add: n node_ok_bottom)
    from bottom_remove [OF this, of key] show ?thesis
      using False by (simp add: n node_remove.simps remove_spec_def node_ok_bottom node_map_slots)
  next
    case True
    obtain s1 s2 where lv: "length s1 = rank bm ?d"
      "list_all2 (slot_ok h shift) (filter (bit bm) [0..<?d]) s1"
      "list_all2 (slot_ok h shift) (filter (bit bm) [Suc ?d..<32]) s2"
      "if bit bm ?d then \<exists>s. ss = s1 @ s # s2 \<and> slot_ok h shift ?d s else ss = s1 @ s2"
      using slot_level [OF less.prems [unfolded n] True refl] by blast
    note look = lookup_level [OF lv(1, 2, 3)]
    show ?thesis
    proof (cases "bit bm ?d")
      case False
      have "node_remove n key (h key) shift = n"
        using True False by (simp add: n node_remove.simps has_slot)
      moreover have "node_map n key = None" using look(1) [OF refl, of bm] False lv(4) by (simp add: n)
      ultimately show ?thesis using less.prems by (simp add: remove_spec_def fun_upd_idem)
    next
      case bit: True
      then obtain s where s: "ss = s1 @ s # s2" "slot_ok h shift ?d s" using lv(4) by auto
      have nth: "ss ! rank bm ?d = s" and upd: "ss[rank bm ?d := s'] = s1 @ s' # s2" for s'
        using lv(1) by (simp_all add: s nth_append list_update_append)
      have old: "node_map n key = slot_map s key" using look(2) [OF refl] by (simp add: n s)
      have replace: "remove_spec h shift n key (Node bm (s1 @ s' # s2))"
        if "slot_ok h shift ?d s'" "slot_map s' = (slot_map s)(key := None)"
          "length (slot_entries s) = length (slot_entries s') + (if slot_map s key = None then 0 else 1)" for s'
      proof -
        have "slots_map (s1 @ [s'] @ s2) = (slots_map (s1 @ [s] @ s2))(key := None)"
          by (rule level_changed [OF lv(2, 3)]) (use s(2) that in simp_all)
        then show ?thesis
          using level_with_slot(1) [OF lv(2, 3) that(1) True d bit] that(3) old
          by (auto simp: remove_spec_def n s(1) node_map_slots)
      qed
      show ?thesis
      proof (cases s)
        case (Leaf k w)
        show ?thesis
        proof (cases "k = key")
          case key: True
          have r: "node_remove n key (h key) shift = Node (bm AND NOT (2 ^ ?d)) (s1 @ s2)"
            using bit True Leaf key lv(1)
            by (simp add: n node_remove.simps has_slot index_of_bit Let_def nth)
              (simp add: remove_at_def s(1) bit_at_exp)
          have "slots_map (s1 @ [] @ s2) = (slots_map (s1 @ [s] @ s2))(key := None)"
            by (rule level_changed [OF lv(2, 3)]) (use s(2) Leaf key in simp_all)
          then show ?thesis
            using level_without_slot [OF lv(2, 3) True d] old Leaf key
            by (simp add: r remove_spec_def) (simp add: n s(1) node_map_slots)
        next
          case False
          then have "node_remove n key (h key) shift = Node bm (s1 @ s # s2)"
            using bit True Leaf
            by (simp add: n node_remove.simps has_slot index_of_bit Let_def nth) (simp add: s(1))
          then show ?thesis using replace [OF s(2)] False Leaf by simp
        qed
      next
        case (Child c)
        let ?c = "node_remove c key (h key) (shift + 5)"
        have ok: "node_ok h (shift + 5) c" "2 \<le> length (entries c)"
          "\<forall>k \<in> fst ` set (entries c). digit (h k) shift = ?d" using s(2) Child by auto
        have c_ok: "remove_spec h (shift + 5) c key ?c"
          using less.hyps [of "shift + 5" c] True ok(1) by simp
        then have nonempty: "1 \<le> length (entries ?c)" using ok(2) by (auto simp: remove_spec_def split: if_splits)
        have digits: "digit (h j) shift = ?d" if "j \<in> fst ` set (entries ?c)" for j
        proof -
          have "node_map ?c j \<noteq> None" using that node_map_None [of ?c j] by blast
          then have "j \<in> fst ` set (entries c)"
            using c_ok node_map_None [of c j] by (auto simp: remove_spec_def split: if_splits)
          then show ?thesis using ok(3) by blast
        qed
        have r: "node_remove n key (h key) shift = fold_child n (rank bm ?d) (bit_at (h key) shift) ?c"
          using bit True Child
          by (simp add: n node_remove.simps [of _ _ _ shift] has_slot index_of_bit Let_def nth)
        have c_ok': "node_ok h (shift + 5) ?c" using c_ok by (simp add: remove_spec_def)
        show ?thesis
        proof (rule fold_child_slot [OF c_ok' nonempty, of n "rank bm ?d" "bit_at (h key) shift"])
          fix k v
          assume leaf: "slots ?c = [Leaf k v]" and
            fold: "fold_child n (rank bm ?d) (bit_at (h key) shift) ?c =
              Node (bitmap n) ((slots n)[rank bm ?d := Leaf k v])"
          have entries: "entries ?c = [(k, v)]" using leaf by (cases ?c) simp
          then have "slot_ok h shift ?d (Leaf k v)" using digits [of k] by simp
          moreover have "slot_map (Leaf k v) = (slot_map s)(key := None)"
            using c_ok entries Child by (simp add: remove_spec_def node_map_def [of ?c])
          ultimately show ?thesis
            using replace [of "Leaf k v"] c_ok entries Child by (simp add: r fold) (simp add: n upd remove_spec_def)
        next
          assume two: "2 \<le> length (entries ?c)" and
            fold: "fold_child n (rank bm ?d) (bit_at (h key) shift) ?c =
              Node (bitmap n) ((slots n)[rank bm ?d := Child ?c])"
          then have "slot_ok h shift ?d (Child ?c)" using digits c_ok' by simp
          then show ?thesis
            using replace [of "Child ?c"] c_ok Child by (simp add: r fold) (simp add: n upd remove_spec_def)
        qed
      qed
    qed
  qed
qed

subsection \<open>Writing through a reference\<close>

lemma node_update_ok:
  assumes "node_ok h shift n" "node_map n key = Some w"
  shows "node_ok h shift (node_update n key (h key) shift f) \<and>
    node_map (node_update n key (h key) shift f) = (node_map n)(key \<mapsto> f w) \<and>
    length (entries (node_update n key (h key) shift f)) = length (entries n)"
  using assms
proof (induction "64 - shift" arbitrary: n shift rule: less_induct)
  case less
  obtain bm ss where n: "n = Node bm ss" by (cases n)
  let ?d = "digit (h key) shift"
  have d: "?d < 32" by (rule digit_less)
  show ?case
  proof (cases "shift < 64")
    case False
    then have ok: "list_all is_leaf ss" "distinct (map fst (concat (map slot_entries ss)))"
      using less.prems(1) by (simp_all add: n node_ok_bottom)
    have "list_ex (is_leaf_for key) ss"
      using less.prems(2) leaf_for_absent [OF ok(1), of key] node_map_None [of n key] by (simp add: n)
    note upd = update_first_leaves [OF ok(1) this, of f]
    then have "length (concat (map slot_entries (update_first key f ss))) = length (concat (map slot_entries ss))"
      by (metis length_map)
    then show ?thesis
      using upd False ok(2) less.prems(2) by (simp add: n node_update.simps node_ok_bottom node_map_def)
  next
    case True
    obtain s1 s2 where lv: "length s1 = rank bm ?d"
      "list_all2 (slot_ok h shift) (filter (bit bm) [0..<?d]) s1"
      "list_all2 (slot_ok h shift) (filter (bit bm) [Suc ?d..<32]) s2"
      "if bit bm ?d then \<exists>s. ss = s1 @ s # s2 \<and> slot_ok h shift ?d s else ss = s1 @ s2"
      using slot_level [OF less.prems(1) [unfolded n] True refl] by blast
    note look = lookup_level [OF lv(1, 2, 3)]
    have bit: "bit bm ?d"
      using look(1) [OF refl, of bm] lv(4) less.prems(2) by (auto simp: n split: if_splits)
    then obtain s where s: "ss = s1 @ s # s2" "slot_ok h shift ?d s" using lv(4) by auto
    have nth: "ss ! rank bm ?d = s" and upd: "ss[rank bm ?d := s'] = s1 @ s' # s2" for s'
      using lv(1) by (simp_all add: s nth_append list_update_append)
    have old: "slot_map s key = Some w" using look(2) [OF refl] less.prems(2) by (simp add: n s)
    have replace: "node_ok h shift (Node bm (s1 @ s' # s2)) \<and>
        node_map (Node bm (s1 @ s' # s2)) = (node_map n)(key \<mapsto> f w) \<and>
        length (entries (Node bm (s1 @ s' # s2))) = length (entries n)"
      if "slot_ok h shift ?d s'" "slot_map s' = (slot_map s)(key \<mapsto> f w)"
        "length (slot_entries s') = length (slot_entries s)" for s'
    proof -
      have "slots_map (s1 @ [s'] @ s2) = (slots_map (s1 @ [s] @ s2))(key \<mapsto> f w)"
        by (rule level_changed [OF lv(2, 3)]) (use s(2) that in simp_all)
      then show ?thesis
        using level_with_slot(1) [OF lv(2, 3) that(1) True d bit] that(3)
        by (simp add: n s(1) node_map_slots)
    qed
    show ?thesis
    proof (cases s)
      case (Leaf k x)
      then have "k = key" "x = w" using old by (auto split: if_splits)
      moreover have "node_update n key (h key) shift f = Node bm (s1 @ Leaf k (f x) # s2)"
        using True Leaf by (simp add: n node_update.simps index_of_bit Let_def nth upd)
      ultimately show ?thesis using replace [of "Leaf key (f w)"] s(2) Leaf by simp
    next
      case (Child c)
      let ?c = "node_update c key (h key) (shift + 5) f"
      have ok: "node_ok h (shift + 5) c" "2 \<le> length (entries c)"
        "\<forall>k \<in> fst ` set (entries c). digit (h k) shift = ?d" using s(2) Child by auto
      have c: "node_ok h (shift + 5) ?c" "node_map ?c = (node_map c)(key \<mapsto> f w)"
        "length (entries ?c) = length (entries c)"
        using less.hyps [of "shift + 5" c] True ok(1) old Child by auto
      have "digit (h j) shift = ?d" if "j \<in> fst ` set (entries ?c)" for j
      proof -
        have "node_map ?c j \<noteq> None" using that node_map_None [of ?c j] by blast
        then have "j = key \<or> j \<in> fst ` set (entries c)"
          using c(2) node_map_None [of c j] by (auto split: if_splits)
        then show ?thesis using ok(3) by blast
      qed
      moreover have "node_update n key (h key) shift f = Node bm (s1 @ Child ?c # s2)"
        using True Child by (simp add: n node_update.simps [of _ _ _ shift] index_of_bit Let_def nth upd)
      ultimately show ?thesis using replace [of "Child ?c"] c ok(2) Child by simp
    qed
  qed
qed

subsection \<open>No key twice\<close>

lemma level_distinct:
  assumes "list_all2 (slot_ok h shift) ds ss" "distinct ds"
    and "\<forall>s \<in> set ss. distinct (map fst (slot_entries s))"
  shows "distinct (map fst (concat (map slot_entries ss))) \<and>
    (\<forall>k \<in> fst ` set (concat (map slot_entries ss)). digit (h k) shift \<in> set ds)"
  using assms
proof (induction ds ss rule: list_all2_induct)
  case (Cons d ds s ss)
  have s: "\<forall>k \<in> fst ` set (slot_entries s). digit (h k) shift = d"
    using slot_ok_digit [OF Cons(1)] by fastforce
  have IH: "distinct (map fst (concat (map slot_entries ss)))"
    "\<forall>k \<in> fst ` set (concat (map slot_entries ss)). digit (h k) shift \<in> set ds"
    using Cons by simp_all
  have "fst ` set (slot_entries s) \<inter> fst ` set (concat (map slot_entries ss)) = {}"
    using s IH(2) Cons.prems(1) by (metis disjoint_iff distinct.simps(2))
  then show ?case using IH s Cons.prems by auto
qed simp

lemma node_ok_distinct: "node_ok h shift n \<Longrightarrow> distinct (map fst (entries n))"
proof (induction "64 - shift" arbitrary: n shift rule: less_induct)
  case less
  obtain bm ss where n: "n = Node bm ss" by (cases n)
  show ?case
  proof (cases "shift < 64")
    case False
    then show ?thesis using less.prems by (simp add: n node_ok_bottom)
  next
    case True
    then have lv: "list_all2 (slot_ok h shift) (positions bm) ss"
      using less.prems by (simp add: n node_ok_level)
    have "distinct (map fst (slot_entries s))" if "s \<in> set ss" for s
    proof (cases s)
      case (Child c)
      have "\<exists>d. slot_ok h shift d s" by (rule list_all2_right [OF lv that])
      then obtain d where "slot_ok h shift d s" ..
      then show ?thesis using less.hyps [of "shift + 5" c] True Child by simp
    qed simp
    moreover have "distinct (positions bm)" by (simp add: positions_def)
    ultimately show ?thesis using level_distinct [OF lv] by (simp add: n)
  qed
qed

end
