(* ===== verification/Trie_Map.thy ===== *)
theory Trie_Map
  imports Atom_Trie
begin

section \<open>The trie as a map\<close>

text \<open>
  The invariant of a whole trie, the interface its clients use (\<open>key_map\<close>: lookup, insertion,
  removal and the list of keys, with the laws of a finite map) and its interpretation on the trie.
  The operations the trie builds from these (\<open>from_iter\<close>, \<open>retain\<close>, \<open>retain_items\<close>,
  \<open>get_or_insert_default\<close>) are clients of that interface.
\<close>

definition trie_ok :: "(str \<Rightarrow> hash) \<Rightarrow> 'v trie \<Rightarrow> bool" where
  "trie_ok h t \<longleftrightarrow>
     (case root t of None \<Rightarrow> len t = 0
      | Some n \<Rightarrow> node_ok h 0 n \<and> len t = length (entries n) \<and> len t > 0)"

lemma trie_get_map: "trie_ok h t \<Longrightarrow> trie_get h t = map_of (trie_iter t)"
  by (rule ext)
    (auto simp: trie_ok_def trie_get_def trie_iter_def node_get_map node_map_def split: option.splits)

lemma trie_keys_distinct: "trie_ok h t \<Longrightarrow> distinct (trie_keys t)"
  by (auto simp: trie_ok_def trie_keys_def trie_iter_def node_ok_distinct split: option.splits)

lemma trie_len: "trie_ok h t \<Longrightarrow> len t = length (trie_keys t)"
  by (auto simp: trie_ok_def trie_keys_def trie_iter_def split: option.splits)

lemma trie_keys_dom: "trie_ok h t \<Longrightarrow> set (trie_keys t) = dom (trie_get h t)"
  by (simp add: trie_get_map trie_keys_def dom_map_of_conv_image_fst)

lemma trie_len_card: "trie_ok h t \<Longrightarrow> len t = card (dom (trie_get h t))"
  using trie_keys_dom [of h t] trie_keys_distinct [of h t] trie_len [of h t]
  by (metis distinct_card)

lemma trie_ok_default [simp]: "trie_ok h trie_default" "trie_get h trie_default = Map.empty"
  by (auto simp: trie_ok_def trie_default_def trie_get_def)

lemma single_ok: "node_ok h 0 (Node (bit_at (h key) 0) [Leaf key v])"
  using positions_set [OF digit_less, of 0 "h key" 0] by (simp add: node_ok_level bit_at_exp)

lemma trie_insert_ok:
  assumes "trie_ok h t"
  shows "trie_ok h (trie_insert h t key v)" "trie_get h (trie_insert h t key v) = (trie_get h t)(key \<mapsto> v)"
proof -
  have "trie_ok h (trie_insert h t key v) \<and> map_of (trie_iter (trie_insert h t key v)) = (trie_get h t)(key \<mapsto> v)"
  proof (cases "root t")
    case None
    then show ?thesis
      using assms single_ok [of h key v]
      by (auto simp: trie_ok_def trie_insert_def trie_iter_def trie_get_def fun_eq_iff)
  next
    case (Some n)
    obtain n' added where r: "node_insert h n key (h key) 0 v = (n', added)" by fastforce
    have "insert_spec h 0 n key v (n', added)"
      using node_insert_ok [of h 0 n key v] assms Some r by (simp add: trie_ok_def)
    then show ?thesis
      using assms Some r trie_get_map [OF assms]
      by (auto simp: insert_spec_def trie_ok_def trie_insert_def trie_iter_def node_map_def)
  qed
  then show "trie_ok h (trie_insert h t key v)" "trie_get h (trie_insert h t key v) = (trie_get h t)(key \<mapsto> v)"
    by (simp_all add: trie_get_map)
qed

lemma trie_remove_ok:
  assumes "trie_ok h t"
  shows "trie_ok h (fst (trie_remove h t key))"
    "trie_get h (fst (trie_remove h t key)) = (trie_get h t)(key := None)"
    "snd (trie_remove h t key) \<longleftrightarrow> trie_contains_key h t key"
proof -
  have "trie_ok h (fst (trie_remove h t key)) \<and>
      map_of (trie_iter (fst (trie_remove h t key))) = (trie_get h t)(key := None)"
  proof (cases "trie_contains_key h t key")
    case False
    then show ?thesis
      using assms trie_get_map [OF assms] by (simp add: trie_remove_def trie_contains_key_def fun_upd_idem)
  next
    case True
    then obtain n where n: "root t = Some n" by (auto simp: trie_contains_key_def trie_get_def split: option.splits)
    let ?n = "node_remove n key (h key) 0"
    have old: "trie_get h t = node_map n" using trie_get_map [OF assms] n by (simp add: trie_iter_def node_map_def)
    have r: "remove_spec h 0 n key ?n" using node_remove_ok [of h 0 n key] assms n by (simp add: trie_ok_def)
    have len: "len t - 1 = length (entries ?n)"
      using r assms n True old by (auto simp: remove_spec_def trie_ok_def trie_contains_key_def split: if_splits)
    show ?thesis
    proof (cases "len t - 1 = 0")
      case empty: True
      then have "(node_map n)(key := None) = Map.empty"
        using r len by (simp add: remove_spec_def node_map_def)
      then show ?thesis
        using True empty n old by (simp add: trie_remove_def trie_ok_def trie_iter_def Let_def)
    next
      case False
      then show ?thesis
        using True n old r len by (auto simp: trie_remove_def trie_ok_def trie_iter_def Let_def remove_spec_def node_map_def)
    qed
  qed
  then show "trie_ok h (fst (trie_remove h t key))"
    "trie_get h (fst (trie_remove h t key)) = (trie_get h t)(key := None)"
    by (simp_all add: trie_get_map)
qed (simp add: trie_remove_def Let_def)

lemma trie_get_mut_ok:
  assumes "trie_ok h t"
  shows "trie_get h t key = None \<Longrightarrow> trie_get_mut h t key f = None"
    and "trie_get h t key = Some w \<Longrightarrow>
      \<exists>t'. trie_get_mut h t key f = Some t' \<and> trie_ok h t' \<and> trie_get h t' = (trie_get h t)(key \<mapsto> f w)"
proof -
  show "trie_get_mut h t key f = None" if "trie_get h t key = None"
    using that by (simp add: trie_get_mut_def trie_contains_key_def)
next
  assume w: "trie_get h t key = Some w"
  then obtain n where n: "root t = Some n" by (auto simp: trie_get_def split: option.splits)
  have old: "trie_get h t = node_map n" using trie_get_map [OF assms] n by (simp add: trie_iter_def node_map_def)
  have "node_ok h 0 n" using assms n by (simp add: trie_ok_def)
  note upd = node_update_ok [OF this, of key w f]
  let ?t = "t\<lparr>root := Some (node_update n key (h key) 0 f)\<rparr>"
  have ok: "trie_ok h ?t" using assms n upd old w by (auto simp: trie_ok_def)
  moreover have "trie_get h ?t = (trie_get h t)(key \<mapsto> f w)"
    using upd old w trie_get_map [OF ok] by (simp add: trie_iter_def node_map_def)
  ultimately show "\<exists>t'. trie_get_mut h t key f = Some t' \<and> trie_ok h t' \<and> trie_get h t' = (trie_get h t)(key \<mapsto> f w)"
    using w n by (simp add: trie_get_mut_def trie_contains_key_def)
qed

subsection \<open>The interface and its clients\<close>

locale key_map =
  fixes ok :: "'m \<Rightarrow> bool"
    and lookup :: "'m \<Rightarrow> str \<rightharpoonup> 'v"
    and put :: "'m \<Rightarrow> str \<Rightarrow> 'v \<Rightarrow> 'm"
    and delete :: "'m \<Rightarrow> str \<Rightarrow> 'm"
    and held :: "'m \<Rightarrow> (str \<times> 'v) list"
  assumes ok_put: "ok m \<Longrightarrow> ok (put m k v)"
    and lookup_put: "ok m \<Longrightarrow> lookup (put m k v) = (lookup m)(k \<mapsto> v)"
    and ok_delete: "ok m \<Longrightarrow> ok (delete m k)"
    and lookup_delete: "ok m \<Longrightarrow> lookup (delete m k) = (lookup m)(k := None)"
    and held: "ok m \<Longrightarrow> map_of (held m) = lookup m"
    and held_distinct: "ok m \<Longrightarrow> distinct (map fst (held m))"
begin

lemma put_all: "ok m \<Longrightarrow> ok (foldl (\<lambda>m (k, v). put m k v) m kvs) \<and>
    lookup (foldl (\<lambda>m (k, v). put m k v) m kvs) = lookup m ++ map_of (rev kvs)"
proof (induction kvs arbitrary: m)
  case (Cons kv kvs)
  obtain k v where kv: "kv = (k, v)" by fastforce
  from Cons.IH [OF ok_put [OF Cons.prems, of k v]] show ?case
    by (auto simp: kv lookup_put [OF Cons.prems] map_add_def fun_eq_iff split: option.splits)
qed simp

lemma delete_all: "ok m \<Longrightarrow> ok (foldl delete m ks) \<and> lookup (foldl delete m ks) = lookup m |` (- set ks)"
proof (induction ks arbitrary: m)
  case (Cons k ks)
  then show ?case
    using Cons.IH [OF ok_delete [OF Cons.prems, of k]]
    by (auto simp: lookup_delete restrict_map_def fun_eq_iff)
qed (simp add: restrict_map_def)

lemma in_held: "ok m \<Longrightarrow> (k, v) \<in> set (held m) \<longleftrightarrow> lookup m k = Some v"
  using held [of m] held_distinct [of m] by (metis map_of_eq_Some_iff)

lemma retain: "ok m \<Longrightarrow>
    lookup (foldl delete m (map fst (filter (\<lambda>(k, v). \<not> keep k v) (held m)))) k =
      (case lookup m k of None \<Rightarrow> None | Some v \<Rightarrow> if keep k v then Some v else None)"
  using delete_all [of m] in_held [of m k]
  by (force simp: restrict_map_def image_iff split: option.splits)

end

interpretation trie: key_map "trie_ok h" "trie_get h" "trie_insert h" "\<lambda>t k. fst (trie_remove h t k)" trie_iter
  for h :: "str \<Rightarrow> hash"
  by unfold_locales
    (simp_all add: trie_insert_ok trie_remove_ok trie_get_map [symmetric] trie_keys_distinct [unfolded trie_keys_def])

lemma trie_from_iter_map:
  "trie_ok h (trie_from_iter h kvs)" "trie_get h (trie_from_iter h kvs) = map_of (rev kvs)"
  using trie.put_all [OF trie_ok_default(1), of h kvs] by (simp_all add: trie_from_iter_def)

lemma trie_retain_map:
  assumes "trie_ok h t"
  shows "trie_ok h (trie_retain h keep t)" "trie_get h (trie_retain h keep t) k =
      (case trie_get h t k of None \<Rightarrow> None | Some v \<Rightarrow> if keep k v then Some v else None)"
  using trie.delete_all [OF assms] trie.retain [OF assms] by (simp_all add: trie_retain_def)

lemma trie_update_or_default_map:
  fixes d :: 'v
  assumes "trie_ok h t"
    and "w = (case trie_get h t key of None \<Rightarrow> d | Some v \<Rightarrow> v)"
  obtains t' where "trie_update_or_default h d t key f = Some t'" "trie_ok h t'"
    "trie_get h t' = (trie_get h t)(key \<mapsto> f w)"
proof -
  let ?t = "if trie_contains_key h t key then t else trie_insert h t key d"
  have "trie_ok h ?t" "trie_get h ?t key = Some w" "(trie_get h ?t)(key \<mapsto> f w) = (trie_get h t)(key \<mapsto> f w)"
    using assms by (auto simp: trie_insert_ok trie_contains_key_def)
  then show thesis
    using trie_get_mut_ok(2) [of h ?t key w f] that by (auto simp: trie_update_or_default_def)
qed

text \<open>One step of \<open>retain_items\<close>, and the whole.\<close>

definition kept_items :: "('t \<Rightarrow> bool) \<Rightarrow> 't list option \<Rightarrow> 't list option" where
  "kept_items keep o_items = (case o_items of None \<Rightarrow> None
     | Some items \<Rightarrow> if filter keep items = [] then None else Some (filter keep items))"

lemma retain_items_step:
  assumes "trie_ok h t"
  shows "trie_ok h (retain_items_at h keep t key) \<and>
    trie_get h (retain_items_at h keep t key) = (trie_get h t)(key := kept_items keep (trie_get h t key))"
proof (cases "trie_get h t key")
  case None
  then show ?thesis
    using assms trie_get_mut_ok(1) [OF assms None, of "filter keep"]
    by (simp add: retain_items_at_def kept_items_def fun_upd_idem)
next
  case (Some items)
  obtain t1 where "trie_get_mut h t key (filter keep) = Some t1" "trie_ok h t1"
    "trie_get h t1 = (trie_get h t)(key \<mapsto> filter keep items)"
    using trie_get_mut_ok(2) [OF assms Some] by blast
  then show ?thesis by (simp add: retain_items_at_def trie_remove_ok Some kept_items_def)
qed

lemma retain_items_all: "trie_ok h t \<Longrightarrow>
    trie_ok h (foldl (retain_items_at h keep) t ks) \<and>
    (\<forall>k. trie_get h (foldl (retain_items_at h keep) t ks) k =
      (if k \<in> set ks then kept_items keep (trie_get h t k) else trie_get h t k))"
proof (induction ks arbitrary: t)
  case (Cons k ks)
  have "kept_items keep (kept_items keep x) = kept_items keep x" for x
    by (simp add: kept_items_def split: option.split)
  then show ?case
    using Cons.IH [OF conjunct1 [OF retain_items_step [OF Cons.prems, of keep k]]]
      retain_items_step [OF Cons.prems, of keep k] by auto
qed simp

lemma trie_retain_items_map:
  assumes "trie_ok h t"
  shows "trie_ok h (trie_retain_items h keep t)" "trie_get h (trie_retain_items h keep t) k =
      (case trie_get h t k of None \<Rightarrow> None
       | Some items \<Rightarrow> if items \<noteq> [] \<and> filter keep items = [] then None else Some (filter keep items))"
proof -
  let ?ks = "map fst (filter (\<lambda>(k, items). \<not> list_all keep items) (trie_iter t))"
  have mem: "k \<in> set ?ks \<longleftrightarrow> (\<exists>items. trie_get h t k = Some items \<and> \<not> list_all keep items)"
    by (auto simp: image_iff trie.in_held [OF assms, symmetric])
  note all = retain_items_all [OF assms, of keep ?ks]
  then show "trie_ok h (trie_retain_items h keep t)" by (simp add: trie_retain_items_def)
  have "trie_get h (trie_retain_items h keep t) k =
      (if k \<in> set ?ks then kept_items keep (trie_get h t k) else trie_get h t k)"
    using all by (simp add: trie_retain_items_def)
  moreover have "list_all keep items \<Longrightarrow> filter keep items = items" for items
    by (simp add: list_all_iff)
  ultimately show "trie_get h (trie_retain_items h keep t) k =
      (case trie_get h t k of None \<Rightarrow> None
       | Some items \<Rightarrow> if items \<noteq> [] \<and> filter keep items = [] then None else Some (filter keep items))"
    unfolding mem by (auto simp: kept_items_def split: option.splits)
qed

subsection \<open>The properties of the map\<close>

text \<open>
  C13. The trie refines a finite map, whatever the hashes are: insertion and removal keep the
  invariant and change the binding of their key only, removal says whether the key was there, the
  stored length is the number of keys, and the iterator lists each binding once.
\<close>

theorem trie_refines_map:
  assumes "trie_ok h t"
  shows "trie_ok h (trie_insert h t key v) \<and>
    trie_get h (trie_insert h t key v) = (trie_get h t)(key \<mapsto> v) \<and>
    trie_ok h (fst (trie_remove h t key)) \<and>
    trie_get h (fst (trie_remove h t key)) = (trie_get h t)(key := None) \<and>
    snd (trie_remove h t key) = (trie_get h t key \<noteq> None) \<and>
    len t = card (dom (trie_get h t)) \<and>
    map_of (trie_iter t) = trie_get h t \<and> distinct (trie_keys t)"
  using trie_insert_ok [OF assms] trie_remove_ok [OF assms] trie_len_card [OF assms]
    trie_keys_distinct [OF assms] trie_get_map [OF assms]
  by (simp add: trie_contains_key_def)

lemma trie_refines_map_witness:
  "trie_get (\<lambda>_. 0) (fst (trie_remove (\<lambda>_. 0) (trie_from_iter (\<lambda>_. 0) [(''$a'', 1 :: nat), (''$b'', 2)]) ''$a'')) =
    [''$b'' \<mapsto> 2]"
  using trie_refines_map [OF trie_from_iter_map(1), of "\<lambda>_. 0" "[(''$a'', 1 :: nat), (''$b'', 2)]" "''$a''"]
  by (auto simp: trie_from_iter_map(2))

text \<open>
  The bulk operations: a trie collected from a list binds each key to its last value, \<open>retain\<close>
  keeps exactly the bindings accepted, and \<open>retain_items\<close> filters every list and drops the lists
  it empties.
\<close>

theorem trie_bulk_operations:
  assumes "trie_ok h t" "trie_ok h u"
  shows "trie_get h (trie_from_iter h kvs) = map_of (rev kvs) \<and>
    trie_get h (trie_retain h keep t) k =
      (case trie_get h t k of None \<Rightarrow> None | Some v \<Rightarrow> if keep k v then Some v else None) \<and>
    trie_get h (trie_retain_items h keep_item u) k =
      (case trie_get h u k of None \<Rightarrow> None
       | Some items \<Rightarrow>
           if items \<noteq> [] \<and> filter keep_item items = [] then None else Some (filter keep_item items))"
  using trie_from_iter_map(2) [of h kvs] trie_retain_map(2) [OF assms(1), of keep k]
    trie_retain_items_map(2) [OF assms(2), of keep_item k] by simp

lemma trie_bulk_operations_witness:
  "trie_get (\<lambda>_. 0) (trie_retain_items (\<lambda>_. 0) (\<lambda>n. n < (3 :: nat))
     (trie_from_iter (\<lambda>_. 0) [(''$a'', [1, 5]), (''$b'', [7])])) ''$b'' = None"
proof -
  let ?u = "trie_from_iter (\<lambda>_. 0) [(''$a'', [1 :: nat, 5]), (''$b'', [7])]"
  have "trie_ok (\<lambda>_. 0) ?u" by (rule trie_from_iter_map)
  from trie_bulk_operations [OF this this, of "[]" "\<lambda>_ _. True" "''$b''" "\<lambda>n. n < 3"]
  show ?thesis by (simp add: trie_from_iter_map(2))
qed

end
