(* ===== verification/Trie_Diff.thy ===== *)
theory Trie_Diff
  imports Trie_Map
begin

unbundle bit_operations_syntax

section \<open>Where two tries differ\<close>

text \<open>
  \<open>AtomTrie::diff\<close> and its clients: the equality of two tries, and the keys on which two control
  flow paths disagree (\<open>scope_state/merge.rs\<close>).  The visitor is called once for each element of the
  lists below, in their order, and stops the walk by breaking; a client's answer is a function of
  that list.

  Whether two slots (subtrees or leaves) are one allocation is the argument \<open>ptr\<close>; the code relies
  only on \<open>ptr x y\<close> implying \<open>x = y\<close>.  In one walk two equal slots meet at one place only, since they
  hold keys and a trie holds a key once, so a relation on the slots' values loses nothing.
\<close>

type_synonym 'v visit = "str \<times> 'v option \<times> 'v option"

definition mine_only :: "(str \<times> 'v) list \<Rightarrow> 'v visit list" where
  "mine_only kvs = map (\<lambda>(k, v). (k, Some v, None)) kvs"

definition theirs_only :: "(str \<times> 'v) list \<Rightarrow> 'v visit list" where
  "theirs_only kvs = map (\<lambda>(k, v). (k, None, Some v)) kvs"

text \<open>A lone leaf against the subtree on the other side of the same slot.\<close>

definition diff_leaf_against ::
  "(str \<Rightarrow> hash) \<Rightarrow> ('v slot \<Rightarrow> 'v slot \<Rightarrow> bool) \<Rightarrow> str \<Rightarrow> 'v \<Rightarrow> 'v node \<Rightarrow> nat \<Rightarrow> bool \<Rightarrow> 'v visit list" where
  "diff_leaf_against h ptr k v subtree shift leaf_is_mine =
     (let pair = (\<lambda>key lone other. if leaf_is_mine then (key, lone, other) else (key, other, lone))
      in (case node_get subtree k (h k) shift of
            Some w \<Rightarrow> if ptr (Leaf k w) (Leaf k v) then [] else [pair k (Some v) (Some w)]
          | None \<Rightarrow> [pair k (Some v) None]) @
         map (\<lambda>(key, w). pair key None (Some w)) (filter (\<lambda>(key, w). key \<noteq> k) (entries subtree)))"

fun leaves :: "'v slot list \<Rightarrow> (str \<times> 'v) list" where
  "leaves [] = []"
| "leaves (Leaf k v # ss) = (k, v) # leaves ss"
| "leaves (Child n # ss) = leaves ss"

definition diff_leaf_lists :: "('v slot \<Rightarrow> 'v slot \<Rightarrow> bool) \<Rightarrow> 'v slot list \<Rightarrow> 'v slot list \<Rightarrow> 'v visit list" where
  "diff_leaf_lists ptr as bs =
     concat (map (\<lambda>(k, v).
       case find (\<lambda>y. fst y = k) (leaves bs) of
         Some y \<Rightarrow> if ptr (Leaf k v) (Leaf (fst y) (snd y)) then [] else [(k, Some v, Some (snd y))]
       | None \<Rightarrow> [(k, Some v, None)]) (leaves as)) @
     theirs_only (filter (\<lambda>y. \<not> list_ex (\<lambda>x. fst x = fst y) (leaves as)) (leaves bs))"

text \<open>The slot of a digit, if the bitmap has it.\<close>

definition slot_at :: "'v node \<Rightarrow> nat \<Rightarrow> 'v slot option" where
  "slot_at n d =
     (let b = push_bit d 1 in if bitmap n AND b \<noteq> 0 then Some (slots n ! index_of (bitmap n) b) else None)"

text \<open>The loop takes the bits of either bitmap from the lowest up.\<close>

function diff_nodes ::
  "(str \<Rightarrow> hash) \<Rightarrow> ('v slot \<Rightarrow> 'v slot \<Rightarrow> bool) \<Rightarrow> 'v node \<Rightarrow> 'v node \<Rightarrow> nat \<Rightarrow> 'v visit list" where
  "diff_nodes h ptr a b shift =
     (if shift \<ge> 64 then diff_leaf_lists ptr (slots a) (slots b)
      else concat (map (\<lambda>d.
        case (slot_at a d, slot_at b d) of
          (Some x, None) \<Rightarrow> mine_only (slot_entries x)
        | (None, Some y) \<Rightarrow> theirs_only (slot_entries y)
        | (Some (Child x), Some (Child y)) \<Rightarrow>
            if ptr (Child x) (Child y) then [] else diff_nodes h ptr x y (shift + 5)
        | (Some (Leaf k v), Some (Leaf k' v')) \<Rightarrow>
            if ptr (Leaf k v) (Leaf k' v') then []
            else if k = k' then [(k, Some v, Some v')]
            else [(k, Some v, None), (k', None, Some v')]
        | (Some (Leaf k v), Some (Child y)) \<Rightarrow> diff_leaf_against h ptr k v y (shift + 5) True
        | (Some (Child x), Some (Leaf k v)) \<Rightarrow> diff_leaf_against h ptr k v x (shift + 5) False
        | (None, None) \<Rightarrow> [])
        (positions (bitmap a OR bitmap b))))"
  by pat_completeness auto
termination
  by (relation "measure (\<lambda>(h, ptr, a, b, shift). 64 - shift)") auto
declare diff_nodes.simps [simp del]

definition trie_diff :: "(str \<Rightarrow> hash) \<Rightarrow> ('v slot \<Rightarrow> 'v slot \<Rightarrow> bool) \<Rightarrow> 'v trie \<Rightarrow> 'v trie \<Rightarrow> 'v visit list" where
  "trie_diff h ptr t u =
     (case (root t, root u) of
        (None, None) \<Rightarrow> []
      | (Some a, None) \<Rightarrow> mine_only (entries a)
      | (None, Some b) \<Rightarrow> theirs_only (entries b)
      | (Some a, Some b) \<Rightarrow> if ptr (Child a) (Child b) then [] else diff_nodes h ptr a b 0)"

text \<open>\<open>PartialEq\<close>: the walk breaks at the first key the two sides hold different values for.\<close>

definition trie_eq :: "(str \<Rightarrow> hash) \<Rightarrow> ('v slot \<Rightarrow> 'v slot \<Rightarrow> bool) \<Rightarrow> 'v trie \<Rightarrow> 'v trie \<Rightarrow> bool" where
  "trie_eq h ptr t u \<longleftrightarrow> len t = len u \<and>
     list_all (\<lambda>(key, mine, theirs).
       case (mine, theirs) of (Some x, Some y) \<Rightarrow> x = y | _ \<Rightarrow> False) (trie_diff h ptr t u)"

definition disagreeing :: "(str \<Rightarrow> hash) \<Rightarrow> ('v slot \<Rightarrow> 'v slot \<Rightarrow> bool) \<Rightarrow> 'v trie \<Rightarrow> 'v trie \<Rightarrow> str list" where
  "disagreeing h ptr mine theirs =
     (if trie_is_empty mine then []
      else map fst (filter (\<lambda>(key, kept, other). kept \<noteq> None \<and> kept \<noteq> other) (trie_diff h ptr mine theirs)))"

subsection \<open>What a walk visits\<close>

text \<open>
  A list of visits describes two maps when each of its keys comes once, with what the two hold for
  it, and no key the two maps hold different values for is missing.
\<close>

definition describes :: "(str \<rightharpoonup> 'v) \<Rightarrow> (str \<rightharpoonup> 'v) \<Rightarrow> 'v visit list \<Rightarrow> bool" where
  "describes a b vs \<longleftrightarrow>
     distinct (map fst vs) \<and>
     (\<forall>(k, x, y) \<in> set vs. x = a k \<and> y = b k \<and> (x \<noteq> None \<or> y \<noteq> None)) \<and>
     (\<forall>k. a k \<noteq> b k \<longrightarrow> k \<in> fst ` set vs)"

lemma describes_nil [simp]: "describes a b [] \<longleftrightarrow> a = b"
  by (auto simp: describes_def)

lemma describes_mine: "distinct (map fst kvs) \<Longrightarrow> describes (map_of kvs) Map.empty (mine_only kvs)"
  by (force simp: describes_def mine_only_def comp_def case_prod_unfold image_image
      simp flip: map_of_eq_None_iff)

lemma describes_swap: "describes a b vs \<longleftrightarrow> describes b a (map (\<lambda>(k, x, y). (k, y, x)) vs)"
  by (auto simp: describes_def comp_def case_prod_unfold image_image; metis fst_conv snd_conv)

lemma describes_theirs: "distinct (map fst kvs) \<Longrightarrow> describes Map.empty (map_of kvs) (theirs_only kvs)"
  using describes_mine [of kvs] unfolding describes_swap [of "map_of kvs"]
  by (simp add: mine_only_def theirs_only_def comp_def case_prod_unfold)

lemma describes_held: "describes a b vs \<Longrightarrow> k \<in> fst ` set vs \<Longrightarrow> a k \<noteq> None \<or> b k \<noteq> None"
  by (auto simp: describes_def)

text \<open>Maps whose keys are told apart by their digit are described one digit at a time.\<close>

lemma describes_concat:
  assumes "distinct ds"
    and "\<And>d. d \<in> set ds \<Longrightarrow> describes (\<lambda>k. if g k = d then a k else None) (\<lambda>k. if g k = d then b k else None) (vs d)"
    and "\<And>k. a k \<noteq> b k \<Longrightarrow> g k \<in> set ds"
  shows "describes a b (concat (map vs ds))"
proof -
  have digit: "g k = d" if "d \<in> set ds" "k \<in> fst ` set (vs d)" for d k
    using describes_held [OF assms(2) [OF that(1)] that(2)] by (auto split: if_splits)
  have "distinct (map fst (concat (map vs ds')))" if "set ds' \<subseteq> set ds" "distinct ds'" for ds'
    using that
  proof (induction ds')
    case (Cons d ds')
    have "fst ` set (vs d) \<inter> fst ` set (concat (map vs ds')) = {}"
    proof (rule ccontr)
      assume "fst ` set (vs d) \<inter> fst ` set (concat (map vs ds')) \<noteq> {}"
      then obtain k d' where "k \<in> fst ` set (vs d)" "d' \<in> set ds'" "k \<in> fst ` set (vs d')" by auto
      then show False using digit [of d k] digit [of d' k] Cons.prems by auto
    qed
    moreover have "distinct (map fst (vs d))" using assms(2) [of d] Cons.prems by (simp add: describes_def)
    ultimately show ?case using Cons by simp
  qed simp
  then have "distinct (map fst (concat (map vs ds)))" using assms(1) by simp
  moreover have "x = a k \<and> y = b k \<and> (x \<noteq> None \<or> y \<noteq> None)" if kxy: "(k, x, y) \<in> set (concat (map vs ds))" for k x y
  proof -
    obtain d where d: "d \<in> set ds" "(k, x, y) \<in> set (vs d)" using kxy by auto
    then have "g k = d" using digit [of d k] by (metis fst_conv image_eqI)
    then show ?thesis using assms(2) [OF d(1)] d(2) by (auto simp: describes_def)
  qed
  moreover have "k \<in> fst ` set (concat (map vs ds))" if "a k \<noteq> b k" for k
  proof -
    have "k \<in> fst ` set (vs (g k))"
      using assms(2) [OF assms(3) [OF that]] that unfolding describes_def by (metis (mono_tags, lifting))
    then show ?thesis using assms(3) [OF that] by auto
  qed
  ultimately show ?thesis unfolding describes_def by blast
qed

subsection \<open>The walk\<close>

lemma slot_at_level:
  assumes "node_ok h shift (Node bm ss)" "shift < 64" "d < 32"
  shows "slot_at (Node bm ss) d = None \<Longrightarrow> \<not> bit bm d"
    and "slot_at (Node bm ss) d = Some s \<Longrightarrow> bit bm d \<and> slot_ok h shift d s"
    and "digit (h k) shift = d \<Longrightarrow> node_map (Node bm ss) k =
      (case slot_at (Node bm ss) d of None \<Rightarrow> None | Some s \<Rightarrow> slot_map s k)"
proof -
  obtain s1 s2 where lv: "length s1 = rank bm d"
    "list_all2 (slot_ok h shift) (filter (bit bm) [0..<d]) s1"
    "list_all2 (slot_ok h shift) (filter (bit bm) [Suc d..<32]) s2"
    "if bit bm d then \<exists>s. ss = s1 @ s # s2 \<and> slot_ok h shift d s else ss = s1 @ s2"
    using list_all2_positions [of "slot_ok h shift" bm ss d] assms by (auto simp: node_ok_level)
  have idx: "index_of bm (push_bit d 1) = rank bm d"
    by (simp add: index_of_exp assms(3))
  have has: "bm AND push_bit d 1 = 0 \<longleftrightarrow> \<not> bit bm d" by (simp add: and_exp_eq_0_iff_not_bit)
  show "slot_at (Node bm ss) d = None \<Longrightarrow> \<not> bit bm d"
    using has by (simp add: slot_at_def Let_def split: if_splits)
  show "slot_at (Node bm ss) d = Some s \<Longrightarrow> bit bm d \<and> slot_ok h shift d s"
    using has lv idx by (auto simp: slot_at_def Let_def nth_append split: if_splits)
  show "digit (h k) shift = d \<Longrightarrow> node_map (Node bm ss) k =
      (case slot_at (Node bm ss) d of None \<Rightarrow> None | Some s \<Rightarrow> slot_map s k)"
    using has lv idx lookup_level [OF lv(1, 2, 3)] by (auto simp: slot_at_def Let_def nth_append)
qed

lemma leaves_entries: "list_all is_leaf ss \<Longrightarrow> leaves ss = concat (map slot_entries ss)"
  by (induction ss rule: leaves.induct) auto

lemma find_key: "find (\<lambda>y. fst y = k) kvs = map_option (Pair k) (map_of kvs k)"
  by (induction kvs) auto

lemma describesI:
  assumes "distinct (map fst vs)"
    and "\<And>k x y. (k, x, y) \<in> set vs \<Longrightarrow> x = a k \<and> y = b k \<and> (x \<noteq> None \<or> y \<noteq> None)"
    and "\<And>k. a k \<noteq> b k \<Longrightarrow> \<exists>x y. (k, x, y) \<in> set vs"
  shows "describes a b vs"
  unfolding describes_def
proof (intro conjI allI impI)
  show "distinct (map fst vs)" by (rule assms(1))
  show "\<forall>(k, x, y) \<in> set vs. x = a k \<and> y = b k \<and> (x \<noteq> None \<or> y \<noteq> None)"
    using assms(2) by blast
next
  fix k
  assume "a k \<noteq> b k"
  then obtain x y where "(k, x, y) \<in> set vs" using assms(3) by blast
  then show "k \<in> fst ` set vs" by force
qed

lemma list_ex_key: "list_ex (\<lambda>x. fst x = k) kvs \<longleftrightarrow> k \<in> fst ` set kvs"
  by (induction kvs) auto

lemma diff_lists_keys:
  assumes "\<And>k v. (k, v) \<in> set xs \<Longrightarrow> f (k, v) = [] \<or> (\<exists>x y. f (k, v) = [(k, x, y)])"
  shows "set (map fst (concat (map f xs))) \<subseteq> fst ` set xs"
    and "distinct (map fst xs) \<Longrightarrow> distinct (map fst (concat (map f xs)))"
proof -
  have "set (map fst (concat (map f xs))) \<subseteq> fst ` set xs \<and>
      (distinct (map fst xs) \<longrightarrow> distinct (map fst (concat (map f xs))))"
    using assms
  proof (induction xs)
    case (Cons kv xs)
    obtain k v where kv: "kv = (k, v)" by fastforce
    have "f kv = [] \<or> (\<exists>x y. f kv = [(k, x, y)])" using Cons.prems [of k v] kv by simp
    moreover have "set (map fst (concat (map f xs))) \<subseteq> fst ` set xs \<and>
      (distinct (map fst xs) \<longrightarrow> distinct (map fst (concat (map f xs))))" using Cons by simp
    ultimately show ?case by (elim disjE exE) (auto simp: kv image_iff)
  qed simp
  then show "set (map fst (concat (map f xs))) \<subseteq> fst ` set xs"
    and "distinct (map fst xs) \<Longrightarrow> distinct (map fst (concat (map f xs)))" by simp_all
qed

lemma diff_leaf_lists_describes:
  assumes "list_all is_leaf as" "list_all is_leaf bs"
    and "distinct (map fst (concat (map slot_entries as)))" "distinct (map fst (concat (map slot_entries bs)))"
    and ptr: "\<And>x y. ptr x y \<Longrightarrow> x = y"
  shows "describes (slots_map as) (slots_map bs) (diff_leaf_lists ptr as bs)"
proof -
  let ?xs = "concat (map slot_entries as)" and ?ys = "concat (map slot_entries bs)"
  define f where "f = (\<lambda>(k, v). case map_of ?ys k of
      Some w \<Rightarrow> if ptr (Leaf k v) (Leaf k w) then [] else [(k, Some v, Some w)]
    | None \<Rightarrow> [(k, Some v, None)])"
  have eq: "diff_leaf_lists ptr as bs =
      concat (map f ?xs) @ theirs_only (filter (\<lambda>y. fst y \<notin> fst ` set ?xs) ?ys)"
    unfolding diff_leaf_lists_def leaves_entries [OF assms(1)] leaves_entries [OF assms(2)] find_key list_ex_key
    by (intro arg_cong2 [where f = append] arg_cong [where f = concat] arg_cong [where f = theirs_only]
        map_cong filter_cong refl) (auto simp: f_def split: option.splits)
  have single: "f (k, v) = [] \<or> (\<exists>x y. f (k, v) = [(k, x, y)])" for k v
    by (auto simp: f_def split: option.splits)
  have mine: "slots_map as k = Some v" if "(k, v) \<in> set ?xs" for k v
    using that assms(3) by (simp add: slots_map_def)
  have theirs: "slots_map bs k = Some v" if "(k, v) \<in> set ?ys" for k v
    using that assms(4) by (simp add: slots_map_def)
  have none: "slots_map as k = None \<longleftrightarrow> k \<notin> fst ` set ?xs" for k
    by (simp add: slots_map_def map_of_eq_None_iff)
  let ?rest = "filter (\<lambda>y. fst y \<notin> fst ` set ?xs) ?ys"
  show ?thesis
    unfolding eq
  proof (rule describesI)
    have "distinct (map fst ?rest)" using assms(4) distinct_map_filter by blast
    moreover have "map fst (theirs_only ?rest) = map fst ?rest"
      by (simp add: theirs_only_def comp_def case_prod_unfold)
    moreover have "set (map fst ?rest) \<inter> fst ` set ?xs = {}" by auto
    ultimately show "distinct (map fst (concat (map f ?xs) @ theirs_only ?rest))"
      using diff_lists_keys [of ?xs f, OF single] assms(3) by (simp only: map_append distinct_append) blast
  next
    fix k x y
    assume "(k, x, y) \<in> set (concat (map f ?xs) @ theirs_only ?rest)"
    then consider v where "(k, v) \<in> set ?xs" "(k, x, y) \<in> set (f (k, v))"
      | w where "(k, w) \<in> set ?ys" "k \<notin> fst ` set ?xs" "x = None" "y = Some w"
      using single by (auto simp: theirs_only_def) (metis list.distinct(1) list.set_cases prod.inject set_ConsD)+
    then show "x = slots_map as k \<and> y = slots_map bs k \<and> (x \<noteq> None \<or> y \<noteq> None)"
    proof cases
      case 1
      then show ?thesis using mine [OF 1(1)] by (auto simp: f_def slots_map_def split: option.splits if_splits)
    next
      case 2
      then show ?thesis using theirs [OF 2(1)] none [of k] by simp
    qed
  next
    fix k
    assume ne: "slots_map as k \<noteq> slots_map bs k"
    show "\<exists>x y. (k, x, y) \<in> set (concat (map f ?xs) @ theirs_only ?rest)"
    proof (cases "slots_map as k")
      case None
      then obtain w where "slots_map bs k = Some w" using ne by (cases "slots_map bs k") auto
      then have "(k, w) \<in> set ?rest" using None none [of k] by (auto simp: slots_map_def dest: map_of_SomeD)
      then show ?thesis by (force simp: theirs_only_def)
    next
      case (Some v)
      then have "(k, v) \<in> set ?xs" by (auto simp: slots_map_def dest: map_of_SomeD)
      moreover have "\<exists>x y. (k, x, y) \<in> set (f (k, v))"
        using ne Some by (auto simp: f_def slots_map_def dest: ptr split: option.splits)
      ultimately show ?thesis by force
    qed
  qed
qed

lemma diff_leaf_against_swap: "diff_leaf_against h ptr k v n shift False =
    map (\<lambda>(k, x, y). (k, y, x)) (diff_leaf_against h ptr k v n shift True)"
  by (simp add: diff_leaf_against_def Let_def case_prod_unfold split: option.split)

lemma diff_leaf_against_describes:
  assumes "node_ok h shift n" and ptr: "\<And>x y. ptr x y \<Longrightarrow> x = y"
  shows "describes [k \<mapsto> v] (node_map n) (diff_leaf_against h ptr k v n shift True)"
    and "describes (node_map n) [k \<mapsto> v] (diff_leaf_against h ptr k v n shift False)"
proof -
  define own where "own = (case node_map n k of
      Some w \<Rightarrow> if ptr (Leaf k w) (Leaf k v) then [] else [(k, Some v, Some w)]
    | None \<Rightarrow> [(k, Some v, None)])"
  define rest where "rest = filter (\<lambda>y. fst y \<noteq> k) (entries n)"
  have eq: "diff_leaf_against h ptr k v n shift True = own @ theirs_only rest"
    by (simp add: diff_leaf_against_def Let_def node_get_map [OF assms(1)] own_def rest_def theirs_only_def
        case_prod_unfold split: option.split)
  have keys: "distinct (map fst (entries n))" by (rule node_ok_distinct [OF assms(1)])
  show *: "describes [k \<mapsto> v] (node_map n) (diff_leaf_against h ptr k v n shift True)"
    unfolding eq
  proof (rule describesI)
    have "distinct (map fst rest)" using keys distinct_map_filter by (force simp: rest_def)
    moreover have "map fst (theirs_only rest) = map fst rest"
      by (simp add: theirs_only_def comp_def case_prod_unfold)
    ultimately show "distinct (map fst (own @ theirs_only rest))"
      by (auto simp: own_def rest_def split: option.splits)
  next
    fix j x y
    assume "(j, x, y) \<in> set (own @ theirs_only rest)"
    then show "x = [k \<mapsto> v] j \<and> y = node_map n j \<and> (x \<noteq> None \<or> y \<noteq> None)"
      using keys by (auto simp: own_def rest_def theirs_only_def node_map_def split: option.splits if_splits)
  next
    fix j
    assume ne: "[k \<mapsto> v] j \<noteq> node_map n j"
    show "\<exists>x y. (j, x, y) \<in> set (own @ theirs_only rest)"
    proof (cases "j = k")
      case True
      then have "\<exists>x y. (k, x, y) \<in> set own" using ne by (auto simp: own_def dest: ptr split: option.splits)
      then show ?thesis using True by auto
    next
      case False
      then obtain w where "node_map n j = Some w" using ne by (cases "node_map n j") auto
      then have "(j, w) \<in> set rest" using False by (auto simp: rest_def node_map_def dest: map_of_SomeD)
      then show ?thesis by (force simp: theirs_only_def)
    qed
  qed
  then show "describes (node_map n) [k \<mapsto> v] (diff_leaf_against h ptr k v n shift False)"
    unfolding diff_leaf_against_swap using describes_swap by metis
qed

lemma restrict_slot:
  assumes "slot_ok h shift d s"
  shows "(\<lambda>k. if digit (h k) shift = d then slot_map s k else None) = slot_map s"
  using slot_ok_other [OF assms] by (auto simp: fun_eq_iff)

lemma slot_keys_distinct: "slot_ok h shift d s \<Longrightarrow> distinct (map fst (slot_entries s))"
  by (cases s) (auto simp: node_ok_distinct)

lemma level_describes:
  assumes "node_ok h shift a" "node_ok h shift b" "shift < 64"
    and "\<And>d. d \<in> set (positions (bitmap a OR bitmap b)) \<Longrightarrow>
      describes (case slot_at a d of None \<Rightarrow> Map.empty | Some s \<Rightarrow> slot_map s)
        (case slot_at b d of None \<Rightarrow> Map.empty | Some s \<Rightarrow> slot_map s) (vs d)"
  shows "describes (node_map a) (node_map b) (concat (map vs (positions (bitmap a OR bitmap b))))"
proof (rule describes_concat [where g = "\<lambda>k. digit (h k) shift"])
  show "distinct (positions (bitmap a OR bitmap b))" by (simp add: positions_def)
next
  fix d
  assume d: "d \<in> set (positions (bitmap a OR bitmap b))"
  then have "d < 32" by (simp add: positions_def)
  have level: "(\<lambda>k. if digit (h k) shift = d then node_map n k else None) =
      (case slot_at n d of None \<Rightarrow> Map.empty | Some s \<Rightarrow> slot_map s)" if "node_ok h shift n" for n
  proof -
    obtain bm ss where n: "n = Node bm ss" by (cases n)
    note lv = slot_at_level [OF that [unfolded n] assms(3) \<open>d < 32\<close>]
    show ?thesis
    proof (cases "slot_at n d")
      case None
      then show ?thesis using lv(3) by (auto simp: n fun_eq_iff)
    next
      case (Some s)
      then have "slot_ok h shift d s" using lv(2) by (simp add: n)
      moreover have "(\<lambda>k. if digit (h k) shift = d then node_map n k else None) =
          (\<lambda>k. if digit (h k) shift = d then slot_map s k else None)"
        using lv(3) Some by (auto simp: n fun_eq_iff)
      ultimately show ?thesis using Some restrict_slot by simp
    qed
  qed
  show "describes (\<lambda>k. if digit (h k) shift = d then node_map a k else None)
      (\<lambda>k. if digit (h k) shift = d then node_map b k else None) (vs d)"
    unfolding level [OF assms(1)] level [OF assms(2)] by (rule assms(4) [OF d])
next
  fix k
  assume ne: "node_map a k \<noteq> node_map b k"
  have "node_map n k = None" if "\<not> bit (bitmap n) (digit (h k) shift)" "node_ok h shift n" for n
  proof -
    obtain bm ss where n: "n = Node bm ss" by (cases n)
    note lv = slot_at_level [OF that(2) [unfolded n] assms(3) digit_less]
    have "slot_at (Node bm ss) (digit (h k) shift) = None"
      using that(1) lv(2) by (cases "slot_at (Node bm ss) (digit (h k) shift)") (auto simp: n)
    then show ?thesis using lv(3) [OF refl] by (simp add: n)
  qed
  then have "bit (bitmap a) (digit (h k) shift) \<or> bit (bitmap b) (digit (h k) shift)"
    using ne assms(1, 2) by metis
  then show "digit (h k) shift \<in> set (positions (bitmap a OR bitmap b))"
    using digit_less [of "h k" shift] by (auto simp: positions_def bit_or_iff)
qed

lemma diff_nodes_describes:
  assumes ptr: "\<And>x y. ptr x y \<Longrightarrow> x = y"
  shows "node_ok h shift a \<Longrightarrow> node_ok h shift b \<Longrightarrow>
    describes (node_map a) (node_map b) (diff_nodes h ptr a b shift)"
proof (induction "64 - shift" arbitrary: a b shift rule: less_induct)
  case less
  obtain bm ss bm' ss' where ab: "a = Node bm ss" "b = Node bm' ss'" by (cases a, cases b)
  show ?case
  proof (cases "shift < 64")
    case False
    then show ?thesis
      using less.prems diff_leaf_lists_describes [of ss ss' ptr, OF _ _ _ _ ptr]
      by (simp add: ab node_ok_bottom diff_nodes.simps node_map_slots)
  next
    case True
    then have "diff_nodes h ptr a b shift = concat (map (\<lambda>d.
        case (slot_at a d, slot_at b d) of
          (Some x, None) \<Rightarrow> mine_only (slot_entries x)
        | (None, Some y) \<Rightarrow> theirs_only (slot_entries y)
        | (Some (Child x), Some (Child y)) \<Rightarrow>
            if ptr (Child x) (Child y) then [] else diff_nodes h ptr x y (shift + 5)
        | (Some (Leaf k v), Some (Leaf k' v')) \<Rightarrow>
            if ptr (Leaf k v) (Leaf k' v') then []
            else if k = k' then [(k, Some v, Some v')]
            else [(k, Some v, None), (k', None, Some v')]
        | (Some (Leaf k v), Some (Child y)) \<Rightarrow> diff_leaf_against h ptr k v y (shift + 5) True
        | (Some (Child x), Some (Leaf k v)) \<Rightarrow> diff_leaf_against h ptr k v x (shift + 5) False
        | (None, None) \<Rightarrow> []) (positions (bitmap a OR bitmap b)))"
      by (subst diff_nodes.simps) simp
    moreover have "describes (node_map a) (node_map b) \<dots>"
    proof (rule level_describes [OF less.prems True])
      fix d
      assume "d \<in> set (positions (bitmap a OR bitmap b))"
      then have "d < 32" by (simp add: positions_def)
      have ok: "slot_at a d = Some s \<Longrightarrow> slot_ok h shift d s" "slot_at b d = Some s \<Longrightarrow> slot_ok h shift d s" for s
        using slot_at_level(2) [OF less.prems(1) [unfolded ab] True \<open>d < 32\<close>]
          slot_at_level(2) [OF less.prems(2) [unfolded ab] True \<open>d < 32\<close>] by (auto simp: ab)
      show "describes (case slot_at a d of None \<Rightarrow> Map.empty | Some s \<Rightarrow> slot_map s)
        (case slot_at b d of None \<Rightarrow> Map.empty | Some s \<Rightarrow> slot_map s)
        (case (slot_at a d, slot_at b d) of
          (Some x, None) \<Rightarrow> mine_only (slot_entries x)
        | (None, Some y) \<Rightarrow> theirs_only (slot_entries y)
        | (Some (Child x), Some (Child y)) \<Rightarrow>
            if ptr (Child x) (Child y) then [] else diff_nodes h ptr x y (shift + 5)
        | (Some (Leaf k v), Some (Leaf k' v')) \<Rightarrow>
            if ptr (Leaf k v) (Leaf k' v') then []
            else if k = k' then [(k, Some v, Some v')]
            else [(k, Some v, None), (k', None, Some v')]
        | (Some (Leaf k v), Some (Child y)) \<Rightarrow> diff_leaf_against h ptr k v y (shift + 5) True
        | (Some (Child x), Some (Leaf k v)) \<Rightarrow> diff_leaf_against h ptr k v x (shift + 5) False
        | (None, None) \<Rightarrow> [])"
      proof (cases "slot_at a d"; cases "slot_at b d")
        fix s
        assume "slot_at a d = None" "slot_at b d = Some s"
        then show ?thesis
          using describes_theirs [OF slot_keys_distinct [OF ok(2)]] by (simp flip: slot_map_def)
      next
        fix s
        assume "slot_at a d = Some s" "slot_at b d = None"
        then show ?thesis
          using describes_mine [OF slot_keys_distinct [OF ok(1)], of s]
          by (cases s) (simp_all flip: slot_map_def node_map_def)
      next
        fix s s'
        assume s: "slot_at a d = Some s" "slot_at b d = Some s'"
        note oks = ok(1) [OF s(1)] ok(2) [OF s(2)]
        show ?thesis
        proof (cases s; cases s')
          fix x y
          assume "s = Child x" "s' = Child y"
          then show ?thesis
            using s oks less.hyps [of "shift + 5" x y] True ptr [of "Child x" "Child y"] by auto
        next
          fix k v k' v'
          assume "s = Leaf k v" "s' = Leaf k' v'"
          then show ?thesis
            using s ptr [of "Leaf k v" "Leaf k' v'"] by (auto simp: describes_def fun_eq_iff)
        qed (use s oks diff_leaf_against_describes [OF _ ptr] in auto)
      qed simp
    qed
    ultimately show ?thesis by simp
  qed
qed

lemma trie_diff_describes:
  assumes "trie_ok h t" "trie_ok h u" and ptr: "\<And>x y. ptr x y \<Longrightarrow> x = y"
  shows "describes (trie_get h t) (trie_get h u) (trie_diff h ptr t u)"
proof -
  have get: "trie_get h t = (case root t of None \<Rightarrow> Map.empty | Some n \<Rightarrow> node_map n)"
    if "trie_ok h t" for t :: "'a trie"
    using trie_get_map [OF that] by (simp add: trie_iter_def node_map_def split: option.splits)
  have ok: "node_ok h 0 n" if "root t = Some n" "trie_ok h t" for n and t :: "'a trie"
    using that by (simp add: trie_ok_def)
  show ?thesis
  proof (cases "root t"; cases "root u")
    fix a
    assume r: "root t = Some a" "root u = None"
    then show ?thesis
      using describes_mine [OF node_ok_distinct [OF ok [OF r(1) assms(1)]]]
      by (simp add: trie_diff_def get assms(1, 2) node_map_def)
  next
    fix b
    assume r: "root t = None" "root u = Some b"
    then show ?thesis
      using describes_theirs [OF node_ok_distinct [OF ok [OF r(2) assms(2)]]]
      by (simp add: trie_diff_def get assms(1, 2) node_map_def)
  next
    fix a b
    assume r: "root t = Some a" "root u = Some b"
    show ?thesis
    proof (cases "ptr (Child a) (Child b)")
      case True
      then have "a = b" using ptr by blast
      then show ?thesis using r True by (simp add: trie_diff_def get assms(1, 2))
    next
      case False
      then show ?thesis
        using diff_nodes_describes [OF ptr ok [OF r(1) assms(1)] ok [OF r(2) assms(2)]] r
        by (simp add: trie_diff_def get assms(1, 2))
    qed
  qed (simp add: trie_diff_def get assms(1, 2))
qed

subsection \<open>What the clients conclude\<close>

lemma describes_in: "describes a b vs \<Longrightarrow> (k, x, y) \<in> set vs \<Longrightarrow> x = a k \<and> y = b k \<and> (x \<noteq> None \<or> y \<noteq> None)"
  by (auto simp: describes_def)

lemma describes_all: "describes a b vs \<Longrightarrow> a k \<noteq> b k \<Longrightarrow> (k, a k, b k) \<in> set vs"
  by (force simp: describes_def)

lemma both_same: "(case (x, y) of (Some v, Some w) \<Rightarrow> v = w | _ \<Rightarrow> False) \<longleftrightarrow> x = y \<and> x \<noteq> None"
  by (auto split: option.split)

lemma trie_eq_iff:
  assumes "trie_ok h t" "trie_ok h u" "\<And>x y. ptr x y \<Longrightarrow> x = y"
  shows "trie_eq h ptr t u \<longleftrightarrow> trie_get h t = trie_get h u"
proof -
  have d: "describes (trie_get h t) (trie_get h u) (trie_diff h ptr t u)"
    by (rule trie_diff_describes [OF assms(1, 2)]) (rule assms(3))
  have visits: "trie_eq h ptr t u \<longleftrightarrow> len t = len u \<and>
      (\<forall>(k, x, y) \<in> set (trie_diff h ptr t u). x = y \<and> x \<noteq> None)"
    unfolding trie_eq_def list_all_iff both_same ..
  show ?thesis
  proof
    assume eq: "trie_eq h ptr t u"
    show "trie_get h t = trie_get h u"
    proof (rule ext, rule ccontr)
      fix k
      assume ne: "trie_get h t k \<noteq> trie_get h u k"
      from bspec [OF conjunct2 [OF eq [unfolded visits]] describes_all [OF d ne]] show False
        using ne by simp
    qed
  next
    assume eq: "trie_get h t = trie_get h u"
    have "len t = len u"
      by (simp only: trie_len_card [OF assms(1)] trie_len_card [OF assms(2)] eq)
    moreover have "x = y \<and> x \<noteq> None" if "(k, x, y) \<in> set (trie_diff h ptr t u)" for k x y
      using describes_in [OF d that] eq by auto
    ultimately show "trie_eq h ptr t u" unfolding visits by blast
  qed
qed

lemma disagreeing_keys:
  assumes "trie_ok h t" "trie_ok h u" "\<And>x y. ptr x y \<Longrightarrow> x = y"
  shows "set (disagreeing h ptr t u) = {k. trie_get h t k \<noteq> None \<and> trie_get h t k \<noteq> trie_get h u k}"
    and "distinct (disagreeing h ptr t u)"
proof -
  have d: "describes (trie_get h t) (trie_get h u) (trie_diff h ptr t u)"
    by (rule trie_diff_describes [OF assms(1, 2)]) (rule assms(3))
  have empty: "trie_get h t = Map.empty" if "trie_is_empty t"
    using that trie_keys_dom [OF assms(1)] trie_len [OF assms(1)] by (auto simp: trie_is_empty_def)
  have "(\<exists>x y. (k, x, y) \<in> set (trie_diff h ptr t u) \<and> x \<noteq> None \<and> x \<noteq> y) \<longleftrightarrow>
      trie_get h t k \<noteq> None \<and> trie_get h t k \<noteq> trie_get h u k" for k
    using describes_in [OF d, where k = k] describes_all [OF d, where k = k] by metis
  then have "set (map fst (filter (\<lambda>(key, kept, other). kept \<noteq> None \<and> kept \<noteq> other) (trie_diff h ptr t u))) =
      {k. trie_get h t k \<noteq> None \<and> trie_get h t k \<noteq> trie_get h u k}"
    by (force simp: image_iff)
  then show "set (disagreeing h ptr t u) = {k. trie_get h t k \<noteq> None \<and> trie_get h t k \<noteq> trie_get h u k}"
    using empty by (simp add: disagreeing_def)
  have "distinct (map fst (trie_diff h ptr t u))" using d by (simp add: describes_def)
  then show "distinct (disagreeing h ptr t u)"
    by (simp add: disagreeing_def distinct_map_filter)
qed

subsection \<open>The properties of the walk\<close>

text \<open>
  C14. The difference of two tries visits a key at most once, shows what each side holds for it,
  and misses no key they differ on, whichever shared parts it skips.
\<close>

theorem trie_diff_exact:
  assumes "trie_ok h t" "trie_ok h u" "\<And>x y. ptr x y \<Longrightarrow> x = y"
  shows "distinct (map fst (trie_diff h ptr t u)) \<and>
    (\<forall>(k, mine, theirs) \<in> set (trie_diff h ptr t u).
       mine = trie_get h t k \<and> theirs = trie_get h u k \<and> (mine \<noteq> None \<or> theirs \<noteq> None)) \<and>
    {k. trie_get h t k \<noteq> trie_get h u k} \<subseteq> fst ` set (trie_diff h ptr t u)"
proof -
  have "describes (trie_get h t) (trie_get h u) (trie_diff h ptr t u)"
    by (rule trie_diff_describes [OF assms(1, 2)]) (rule assms(3))
  then show ?thesis by (simp add: describes_def subset_iff)
qed

lemma trie_diff_exact_witness:
  "''$b'' \<in> fst ` set (trie_diff (\<lambda>_. 0) (=) (trie_from_iter (\<lambda>_. 0) [(''$a'', 1 :: nat), (''$b'', 2)])
     (trie_from_iter (\<lambda>_. 0) [(''$a'', 1), (''$c'', 3)]))"
  using trie_diff_exact [OF trie_from_iter_map(1) trie_from_iter_map(1), of "(=)" "\<lambda>_. 0"
    "[(''$a'', 1 :: nat), (''$b'', 2)]" "[(''$a'', 1), (''$c'', 3)]"]
  by (simp add: trie_from_iter_map(2) subset_iff)

text \<open>
  C25. Equality of two tries is equality of the maps they hold, and the keys two paths disagree on
  are exactly the bindings of the first that the second does not share.
\<close>

theorem trie_eq_extensional:
  assumes "trie_ok h t" "trie_ok h u" "\<And>x y. ptr x y \<Longrightarrow> x = y"
  shows "(trie_eq h ptr t u \<longleftrightarrow> trie_get h t = trie_get h u) \<and>
    set (disagreeing h ptr t u) = {k. trie_get h t k \<noteq> None \<and> trie_get h t k \<noteq> trie_get h u k} \<and>
    distinct (disagreeing h ptr t u)"
  using trie_eq_iff [OF assms(1, 2)] disagreeing_keys [OF assms(1, 2)] assms(3) by blast

lemma trie_eq_extensional_witness:
  "trie_eq (\<lambda>_. 0) (=) (trie_from_iter (\<lambda>_. 0) [(''$a'', 1 :: nat), (''$b'', 2)])
     (trie_from_iter (\<lambda>_. 0) [(''$b'', 2), (''$a'', 1)])"
proof -
  have "map_of (rev [(''$a'', 1 :: nat), (''$b'', 2)]) = map_of (rev [(''$b'', 2), (''$a'', 1)])"
    by (simp add: fun_upd_twist)
  then show ?thesis
    using trie_eq_extensional [OF trie_from_iter_map(1) trie_from_iter_map(1), of "(=)" "\<lambda>_. 0"
      "[(''$a'', 1 :: nat), (''$b'', 2)]" "[(''$b'', 2), (''$a'', 1)]"]
    by (simp only: trie_from_iter_map(2))
qed

end
