(* ===== verification/Scope_Locals.thy ===== *)
theory Scope_Locals
  imports Trie_Diff
begin

section \<open>The variables of a scope\<close>

text \<open>
  \<open>src/type_engine/variable/forward_walk/scope_state/locals.rs\<close>: the map from scope keys to
  resolved types, with an index of the keys that are not a bare variable name.  The resolved types
  are a type parameter.
\<close>

record 'v locals =
  locals_map :: "'v list trie"
  compound :: "unit trie"

definition locals_default :: "'v locals" where
  "locals_default = \<lparr>locals_map = trie_default, compound = trie_default\<rparr>"

definition is_compound :: "str \<Rightarrow> bool" where
  "is_compound key \<longleftrightarrow>
     list_ex (\<lambda>b. \<not> (is_ascii_alphanumeric b \<or> b = CHR ''_'' \<or> b = CHR 0x24 \<or> (of_char b :: nat) \<ge> 0x80)) key"

definition locals_get :: "(str \<Rightarrow> hash) \<Rightarrow> 'v locals \<Rightarrow> str \<Rightarrow> 'v list option" where
  "locals_get h l = trie_get h (locals_map l)"

definition locals_insert :: "(str \<Rightarrow> hash) \<Rightarrow> 'v locals \<Rightarrow> str \<Rightarrow> 'v list \<Rightarrow> 'v locals" where
  "locals_insert h l key types =
     l\<lparr>compound := (if is_compound key \<and> \<not> trie_contains_key h (compound l) key
                    then trie_insert h (compound l) key () else compound l),
       locals_map := trie_insert h (locals_map l) key types\<rparr>"

text \<open>\<open>get_or_insert_default\<close> and a write through the reference; \<open>None\<close> is its \<open>expect\<close>.\<close>

definition locals_update_or_default ::
  "(str \<Rightarrow> hash) \<Rightarrow> 'v locals \<Rightarrow> str \<Rightarrow> ('v list \<Rightarrow> 'v list) \<Rightarrow> 'v locals option" where
  "locals_update_or_default h l key f =
     (let l = (if trie_contains_key h (locals_map l) key then l else locals_insert h l key [])
      in map_option (\<lambda>m. l\<lparr>locals_map := m\<rparr>) (trie_get_mut h (locals_map l) key f))"

definition locals_remove :: "(str \<Rightarrow> hash) \<Rightarrow> 'v locals \<Rightarrow> str \<Rightarrow> 'v locals" where
  "locals_remove h l key =
     (case trie_remove h (locals_map l) key of (m, removed) \<Rightarrow>
        l\<lparr>locals_map := m,
          compound := (if removed then fst (trie_remove h (compound l) key) else compound l)\<rparr>)"

definition retain_compound :: "(str \<Rightarrow> hash) \<Rightarrow> (str \<Rightarrow> bool) \<Rightarrow> 'v locals \<Rightarrow> 'v locals" where
  "retain_compound h keep l =
     (if trie_is_empty (compound l) then l
      else foldl (locals_remove h) l (filter (\<lambda>key. \<not> keep key) (trie_keys (compound l))))"

definition compound_keys :: "'v locals \<Rightarrow> str list" where
  "compound_keys l = trie_keys (compound l)"

definition locals_variables :: "'v locals \<Rightarrow> (str \<times> 'v list) list" where
  "locals_variables l = filter (\<lambda>(key, _). \<not> is_compound key) (trie_iter (locals_map l))"

definition variables_changed_from ::
  "(str \<Rightarrow> hash) \<Rightarrow> ('v list slot \<Rightarrow> 'v list slot \<Rightarrow> bool) \<Rightarrow> 'v locals \<Rightarrow> 'v locals \<Rightarrow> (str \<times> 'v list) list" where
  "variables_changed_from h ptr l other =
     List.map_filter (\<lambda>(key, here, _). case here of
         Some types \<Rightarrow> if is_compound key then None else Some (key, types)
       | None \<Rightarrow> None)
       (trie_diff h ptr (locals_map l) (locals_map other))"

text \<open>The visitor breaks at the first key it is given.\<close>

definition differs_from ::
  "(str \<Rightarrow> hash) \<Rightarrow> ('v list slot \<Rightarrow> 'v list slot \<Rightarrow> bool) \<Rightarrow> 'v locals \<Rightarrow> 'v locals \<Rightarrow> bool" where
  "differs_from h ptr l other \<longleftrightarrow> trie_diff h ptr (locals_map l) (locals_map other) \<noteq> []"

definition locals_from_iter :: "(str \<Rightarrow> hash) \<Rightarrow> (str \<times> 'v list) list \<Rightarrow> 'v locals" where
  "locals_from_iter h kvs = foldl (\<lambda>l (k, types). locals_insert h l k types) locals_default kvs"

subsection \<open>The index holds the compound keys\<close>

definition locals_ok :: "(str \<Rightarrow> hash) \<Rightarrow> 'v locals \<Rightarrow> bool" where
  "locals_ok h l \<longleftrightarrow> trie_ok h (locals_map l) \<and> trie_ok h (compound l) \<and>
     dom (trie_get h (compound l)) = {k \<in> dom (locals_get h l). is_compound k}"

lemma locals_ok_default: "locals_ok h locals_default" "locals_get h locals_default = Map.empty"
  by (auto simp: locals_ok_def locals_default_def locals_get_def)

lemma locals_insert_ok:
  assumes "locals_ok h l"
  shows "locals_ok h (locals_insert h l key types)"
    and "locals_get h (locals_insert h l key types) = (locals_get h l)(key \<mapsto> types)"
  using assms
  by (auto simp: locals_ok_def locals_get_def locals_insert_def trie_insert_ok trie_contains_key_def)

lemma locals_remove_ok:
  assumes "locals_ok h l"
  shows "locals_ok h (locals_remove h l key)"
    and "locals_get h (locals_remove h l key) = (locals_get h l)(key := None)"
proof -
  obtain m removed where r: "trie_remove h (locals_map l) key = (m, removed)" by fastforce
  have ok: "trie_ok h (locals_map l)" "trie_ok h (compound l)"
    using assms by (simp_all add: locals_ok_def)
  have m: "trie_ok h m" "trie_get h m = (trie_get h (locals_map l))(key := None)"
    "removed \<longleftrightarrow> trie_get h (locals_map l) key \<noteq> None"
    using trie_remove_ok [OF ok(1), of key] by (simp_all add: r trie_contains_key_def)
  show "locals_get h (locals_remove h l key) = (locals_get h l)(key := None)"
    using m(2) by (simp add: locals_remove_def locals_get_def r)
  show "locals_ok h (locals_remove h l key)"
    using assms m trie_remove_ok [OF ok(2), of key]
    by (auto simp: locals_ok_def locals_get_def locals_remove_def r)
qed

lemma locals_remove_all: "locals_ok h l \<Longrightarrow>
    locals_ok h (foldl (locals_remove h) l ks) \<and>
    locals_get h (foldl (locals_remove h) l ks) = locals_get h l |` (- set ks)"
proof (induction ks arbitrary: l)
  case (Cons k ks)
  then show ?case
    using Cons.IH [OF locals_remove_ok(1) [OF Cons.prems, of k]]
    by (auto simp: locals_remove_ok(2) restrict_map_def fun_eq_iff)
qed (simp add: restrict_map_def)

lemma locals_update_ok:
  assumes "locals_ok h l"
  defines "old \<equiv> locals_get h l"
  obtains l' where "locals_update_or_default h l key f = Some l'" "locals_ok h l'"
    "locals_get h l' = old(key \<mapsto> f (case old key of None \<Rightarrow> [] | Some types \<Rightarrow> types))"
proof -
  let ?l = "if trie_contains_key h (locals_map l) key then l else locals_insert h l key []"
  let ?w = "case old key of None \<Rightarrow> [] | Some types \<Rightarrow> types"
  have l: "locals_ok h ?l" "locals_get h ?l = old(key \<mapsto> ?w)"
    using assms(1) locals_insert_ok [OF assms(1), of key "[]"]
    by (auto simp: old_def locals_get_def trie_contains_key_def fun_eq_iff)
  have "trie_ok h (locals_map ?l)" "trie_get h (locals_map ?l) key = Some ?w"
    using l by (simp_all only: locals_ok_def locals_get_def fun_upd_same)
  from trie_get_mut_ok(2) [OF this] obtain m where
    m: "trie_get_mut h (locals_map ?l) key f = Some m" "trie_ok h m"
      "trie_get h m = (trie_get h (locals_map ?l))(key \<mapsto> f ?w)" by blast
  show thesis
  proof (rule that)
    show "locals_update_or_default h l key f = Some (?l\<lparr>locals_map := m\<rparr>)"
      using m(1) by (simp add: locals_update_or_default_def Let_def)
    show "locals_get h (?l\<lparr>locals_map := m\<rparr>) = old(key \<mapsto> f ?w)"
      using m(3) l(2) by (simp add: locals_get_def)
    have "dom (trie_get h m) = dom (locals_get h ?l)"
      using m(3) l(2) by (auto simp: locals_get_def)
    then show "locals_ok h (?l\<lparr>locals_map := m\<rparr>)"
      using l(1) m(2) by (simp add: locals_ok_def locals_get_def)
  qed
qed

lemma compound_keys_ok:
  assumes "locals_ok h l"
  shows "set (compound_keys l) = {k \<in> dom (locals_get h l). is_compound k}"
    and "distinct (compound_keys l)"
  using assms trie_keys_dom [of h "compound l"] trie_keys_distinct [of h "compound l"]
  by (simp_all add: compound_keys_def locals_ok_def)

lemma retain_compound_map:
  assumes "locals_ok h l"
  shows "locals_ok h (retain_compound h keep l)"
    and "locals_get h (retain_compound h keep l) k =
      (if is_compound k \<and> \<not> keep k then None else locals_get h l k)"
proof -
  have keys: "set (trie_keys (compound l)) = {k \<in> dom (locals_get h l). is_compound k}"
    using compound_keys_ok [OF assms] by (simp add: compound_keys_def)
  have "trie_keys (compound l) = []" if "trie_is_empty (compound l)"
    using that trie_len [of h "compound l"] assms by (simp add: trie_is_empty_def locals_ok_def)
  then have eq: "retain_compound h keep l =
      foldl (locals_remove h) l (filter (\<lambda>key. \<not> keep key) (trie_keys (compound l)))"
    by (simp add: retain_compound_def)
  note all = locals_remove_all [OF assms, of "filter (\<lambda>key. \<not> keep key) (trie_keys (compound l))"]
  show "locals_ok h (retain_compound h keep l)" using all by (simp add: eq)
  show "locals_get h (retain_compound h keep l) k =
      (if is_compound k \<and> \<not> keep k then None else locals_get h l k)"
    using all keys by (auto simp: eq restrict_map_def)
qed

lemma locals_from_iter_map:
  "locals_ok h (locals_from_iter h kvs) \<and> locals_get h (locals_from_iter h kvs) = map_of (rev kvs)"
proof -
  have "locals_ok h (foldl (\<lambda>l (k, types). locals_insert h l k types) l kvs) \<and>
      locals_get h (foldl (\<lambda>l (k, types). locals_insert h l k types) l kvs) = locals_get h l ++ map_of (rev kvs)"
    if "locals_ok h l" for l
    using that
  proof (induction kvs arbitrary: l)
    case (Cons kv kvs)
    obtain k types where "kv = (k, types)" by fastforce
    then show ?case
      using Cons.IH [OF locals_insert_ok(1) [OF Cons.prems, of k types]]
      by (auto simp: locals_insert_ok(2) [OF Cons.prems] map_add_def fun_eq_iff split: option.splits)
  qed simp
  from this [OF locals_ok_default(1)] show ?thesis by (simp add: locals_from_iter_def locals_ok_default(2))
qed

text \<open>
  C28. The index of a scope's variables holds exactly the keys that are not a bare variable name
  after every operation, and dropping rejected compound keys through it leaves the map as a walk
  over every variable would.
\<close>

theorem locals_index_exact:
  assumes "locals_ok h l"
  shows "locals_ok h (locals_insert h l key types) \<and> locals_ok h (locals_remove h l key) \<and>
    locals_ok h (retain_compound h keep l) \<and>
    set (compound_keys l) = {k. locals_get h l k \<noteq> None \<and> is_compound k} \<and>
    locals_get h (retain_compound h keep l) =
      (\<lambda>k. if is_compound k \<and> \<not> keep k then None else locals_get h l k)"
  using locals_insert_ok(1) [OF assms] locals_remove_ok(1) [OF assms] retain_compound_map [OF assms]
    compound_keys_ok(1) [OF assms] by auto

lemma locals_index_exact_witness:
  "locals_get (\<lambda>_. 0) (retain_compound (\<lambda>_. 0) (\<lambda>_. False)
     (locals_from_iter (\<lambda>_. 0) [(''$a'', [1 :: nat]), (''$a->b'', [2])])) = [''$a'' \<mapsto> [1]]"
proof -
  have "is_compound ''$a->b''" "\<not> is_compound ''$a''" by code_simp+
  then show ?thesis
    using locals_index_exact [OF conjunct1 [OF locals_from_iter_map], of "\<lambda>_. 0"
      "[(''$a'', [1 :: nat]), (''$a->b'', [2])]" "''$a''" "[]" "\<lambda>_. False"]
    by (auto simp: locals_from_iter_map fun_eq_iff)
qed

end
