(* ===== verification/Proof_Map.thy ===== *)
theory Proof_Map
  imports Trie_Map
begin

section \<open>Proofs indexed by the variables they read\<close>

text \<open>
  \<open>src/type_engine/variable/forward_walk/scope_state/proof_map.rs\<close>: holder to proof, with an index
  from each \<open>$variable\<close> named in a holder or a subject to the holders that name it.  The trait
  methods of the proof types (the subjects of a proof, the subject of an item) are arguments.  A
  panic of \<open>get_or_insert_default\<close> is \<open>None\<close>.
\<close>

record 'v proof_map =
  proofs :: "'v trie"
  mentions :: "str list trie"

definition proof_map_default :: "'v proof_map" where
  "proof_map_default = \<lparr>proofs = trie_default, mentions = trie_default\<rparr>"

abbreviation dollar :: char where "dollar \<equiv> CHR 0x24"

definition is_name_char :: "char \<Rightarrow> bool" where
  "is_name_char c \<longleftrightarrow> is_ascii_alphanumeric c \<or> c = CHR ''_'' \<or> (of_char c :: nat) \<ge> 0x80"

text \<open>Every \<open>$name\<close> token of a text; the search goes on right after each dollar.\<close>

fun variable_tokens :: "str \<Rightarrow> str list" where
  "variable_tokens [] = []"
| "variable_tokens (c # rest) =
     (if c = dollar then
        let name = takeWhile is_name_char rest
        in (if name = [] then [] else [dollar # name]) @ variable_tokens rest
      else variable_tokens rest)"

definition each_variable :: "str \<Rightarrow> str list" where
  "each_variable key =
     (case key of
        [] \<Rightarrow> []
      | c # rest \<Rightarrow>
          if c = dollar \<and> rest \<noteq> [] \<and> list_all is_name_char rest then [key] else variable_tokens key)"

definition first_variable :: "str \<Rightarrow> str option" where
  "first_variable key =
     (case dropWhile (\<lambda>c. c \<noteq> dollar) key of
        [] \<Rightarrow> None
      | _ # rest \<Rightarrow>
          let name = takeWhile is_name_char rest in if name = [] then None else Some (dollar # name))"

definition note_mention ::
  "(str \<Rightarrow> hash) \<Rightarrow> str \<Rightarrow> str list trie \<Rightarrow> str \<Rightarrow> str list trie option" where
  "note_mention h holder ms variable =
     (let listed = (case trie_get h ms variable of None \<Rightarrow> False | Some holders \<Rightarrow> holder \<in> set holders)
      in if listed then Some ms
         else trie_update_or_default h [] ms variable (\<lambda>holders. holders @ [holder]))"

fun note_all ::
  "(str \<Rightarrow> hash) \<Rightarrow> str \<Rightarrow> str list \<Rightarrow> str list trie \<Rightarrow> str list trie option" where
  "note_all h holder [] ms = Some ms"
| "note_all h holder (v # vs) ms = Option.bind (note_mention h holder ms v) (note_all h holder vs)"

definition variables_of :: "str \<Rightarrow> str list \<Rightarrow> str list" where
  "variables_of holder subjects = each_variable holder @ concat (map each_variable subjects)"

definition pm_index ::
  "(str \<Rightarrow> hash) \<Rightarrow> ('v \<Rightarrow> str list) \<Rightarrow> str list trie \<Rightarrow> str \<Rightarrow> 'v \<Rightarrow> str list trie option" where
  "pm_index h subjects ms holder val = note_all h holder (variables_of holder (subjects val)) ms"

definition pm_insert ::
  "(str \<Rightarrow> hash) \<Rightarrow> ('v \<Rightarrow> str list) \<Rightarrow> 'v proof_map \<Rightarrow> str \<Rightarrow> 'v \<Rightarrow> 'v proof_map option" where
  "pm_insert h subjects p holder val =
     map_option (\<lambda>ms. \<lparr>proofs = trie_insert h (proofs p) holder val, mentions = ms\<rparr>)
       (pm_index h subjects (mentions p) holder val)"

definition pm_remove :: "(str \<Rightarrow> hash) \<Rightarrow> 'v proof_map \<Rightarrow> str \<Rightarrow> 'v proof_map \<times> bool" where
  "pm_remove h p holder = (case trie_remove h (proofs p) holder of (m, removed) \<Rightarrow> (p\<lparr>proofs := m\<rparr>, removed))"

definition pm_update ::
  "(str \<Rightarrow> hash) \<Rightarrow> ('v \<Rightarrow> str list) \<Rightarrow> 'v \<Rightarrow> 'v proof_map \<Rightarrow> str \<Rightarrow> ('v \<Rightarrow> 'v) \<Rightarrow> 'v proof_map option" where
  "pm_update h subjects d p holder edit =
     Option.bind (trie_update_or_default h d (proofs p) holder edit) (\<lambda>m.
       case trie_get h m holder of
         None \<Rightarrow> Some (p\<lparr>proofs := m\<rparr>)
       | Some val \<Rightarrow>
           map_option (\<lambda>ms. \<lparr>proofs = m, mentions = ms\<rparr>) (pm_index h subjects (mentions p) holder val))"

definition retain_mentioning ::
  "(str \<Rightarrow> hash) \<Rightarrow> str \<Rightarrow> (str \<Rightarrow> 'v \<Rightarrow> bool) \<Rightarrow> 'v proof_map \<Rightarrow> 'v proof_map" where
  "retain_mentioning h variable keep p =
     (if trie_is_empty (proofs p) then p
      else case first_variable variable of
        None \<Rightarrow> p\<lparr>proofs := trie_retain h keep (proofs p)\<rparr>
      | Some token \<Rightarrow>
          (case trie_get h (mentions p) token of
             None \<Rightarrow> p
           | Some holders \<Rightarrow>
               p\<lparr>proofs := foldl (\<lambda>m holder. fst (trie_remove h m holder)) (proofs p)
                  (filter (\<lambda>holder. case trie_get h (proofs p) holder of
                     None \<Rightarrow> False | Some v \<Rightarrow> \<not> keep holder v) holders)\<rparr>))"

definition push_unique ::
  "(str \<Rightarrow> hash) \<Rightarrow> ('t \<Rightarrow> str option) \<Rightarrow> 't list proof_map \<Rightarrow> str \<Rightarrow> 't \<Rightarrow> ('t \<Rightarrow> 't \<Rightarrow> bool) \<Rightarrow>
     't list proof_map option" where
  "push_unique h subject p holder item same =
     (if (case trie_get h (proofs p) holder of
            None \<Rightarrow> False | Some items \<Rightarrow> list_ex (\<lambda>existing. same existing item) items)
      then Some p
      else
        Option.bind (note_all h holder
            (each_variable holder @ (case subject item of None \<Rightarrow> [] | Some s \<Rightarrow> each_variable s)) (mentions p))
          (\<lambda>ms. map_option (\<lambda>m. \<lparr>proofs = m, mentions = ms\<rparr>)
            (trie_update_or_default h [] (proofs p) holder (\<lambda>items. items @ [item]))))"

definition pm_retain_items :: "(str \<Rightarrow> hash) \<Rightarrow> ('t \<Rightarrow> bool) \<Rightarrow> 't list proof_map \<Rightarrow> 't list proof_map" where
  "pm_retain_items h keep p = p\<lparr>proofs := trie_retain_items h keep (proofs p)\<rparr>"

definition retain_items_mentioning ::
  "(str \<Rightarrow> hash) \<Rightarrow> str \<Rightarrow> ('t \<Rightarrow> bool) \<Rightarrow> 't list proof_map \<Rightarrow> 't list proof_map" where
  "retain_items_mentioning h variable keep p =
     (if trie_is_empty (proofs p) then p
      else case first_variable variable of
        None \<Rightarrow> p\<lparr>proofs := trie_retain_items h keep (proofs p)\<rparr>
      | Some token \<Rightarrow>
          (case trie_get h (mentions p) token of
             None \<Rightarrow> p
           | Some holders \<Rightarrow>
               p\<lparr>proofs := foldl (retain_items_at h keep) (proofs p)
                  (filter (\<lambda>holder. case trie_get h (proofs p) holder of
                     None \<Rightarrow> False | Some items \<Rightarrow> \<not> list_all keep items) holders)\<rparr>))"

text \<open>The subjects of a list-valued proof.\<close>

definition item_subjects :: "('t \<Rightarrow> str option) \<Rightarrow> 't list \<Rightarrow> str list" where
  "item_subjects subject items = List.map_filter subject items"

subsection \<open>The tokens of a text\<close>

lemma name_not_dollar: "\<not> is_name_char dollar"
  by code_simp

lemma tokens_no_dollar: "list_all is_name_char s \<Longrightarrow> variable_tokens s = []"
  using name_not_dollar by (induction s) auto

lemma each_variable_tokens: "each_variable key = variable_tokens key"
proof (cases key)
  case (Cons c rest)
  then show ?thesis
    by (cases "list_all is_name_char rest")
      (auto simp: each_variable_def Let_def tokens_no_dollar list_all_iff takeWhile_eq_all_conv [THEN iffD2])
qed (simp add: each_variable_def)

lemma first_variable_token: "first_variable key = Some token \<Longrightarrow> token \<in> set (variable_tokens key)"
  by (induction key) (auto simp: first_variable_def Let_def split: list.splits if_splits)

subsection \<open>The index misses no holder\<close>

definition mentioned :: "(str \<Rightarrow> hash) \<Rightarrow> str list trie \<Rightarrow> str \<Rightarrow> str \<Rightarrow> bool" where
  "mentioned h ms variable holder \<longleftrightarrow> (\<exists>holders. trie_get h ms variable = Some holders \<and> holder \<in> set holders)"

definition proof_map_ok :: "(str \<Rightarrow> hash) \<Rightarrow> ('v \<Rightarrow> str list) \<Rightarrow> 'v proof_map \<Rightarrow> bool" where
  "proof_map_ok h subjects p \<longleftrightarrow> trie_ok h (proofs p) \<and> trie_ok h (mentions p) \<and>
     (\<forall>holder val variable. trie_get h (proofs p) holder = Some val \<longrightarrow>
        variable \<in> set (variables_of holder (subjects val)) \<longrightarrow> mentioned h (mentions p) variable holder)"

lemma note_mention_ok:
  assumes "trie_ok h ms"
  obtains ms' where "note_mention h holder ms variable = Some ms'" "trie_ok h ms'"
    "\<And>v x. mentioned h ms' v x \<longleftrightarrow> mentioned h ms v x \<or> (v = variable \<and> x = holder)"
proof (cases "mentioned h ms variable holder")
  case True
  then have "note_mention h holder ms variable = Some ms" by (auto simp: note_mention_def mentioned_def)
  then show thesis using that [of ms] assms True by blast
next
  case False
  obtain ms' where ms': "trie_update_or_default h [] ms variable (\<lambda>holders. holders @ [holder]) = Some ms'"
    "trie_ok h ms'" "trie_get h ms' = (trie_get h ms)(variable \<mapsto>
      (case trie_get h ms variable of None \<Rightarrow> [] | Some v \<Rightarrow> v) @ [holder])"
    using trie_update_or_default_map [OF assms refl] by blast
  have "note_mention h holder ms variable = Some ms'"
    using False ms'(1) by (auto simp: note_mention_def mentioned_def split: option.splits)
  moreover have "mentioned h ms' v x \<longleftrightarrow> mentioned h ms v x \<or> (v = variable \<and> x = holder)" for v x
    by (cases "trie_get h ms variable"; cases "v = variable") (auto simp: mentioned_def ms'(3))
  ultimately show thesis using that [of ms'] ms'(2) by blast
qed

lemma note_all_ok:
  "trie_ok h ms \<Longrightarrow> \<exists>ms'. note_all h holder vs ms = Some ms' \<and> trie_ok h ms' \<and>
     (\<forall>v x. mentioned h ms' v x \<longleftrightarrow> mentioned h ms v x \<or> (v \<in> set vs \<and> x = holder))"
proof (induction vs arbitrary: ms)
  case (Cons v vs)
  from note_mention_ok [OF Cons.prems, of holder v] obtain ms1 where
    ms1: "note_mention h holder ms v = Some ms1" "trie_ok h ms1"
      "\<And>u x. mentioned h ms1 u x \<longleftrightarrow> mentioned h ms u x \<or> (u = v \<and> x = holder)" by blast
  with Cons.IH [OF ms1(2)] show ?case by auto
qed simp

lemma proof_map_ok_default: "proof_map_ok h subjects proof_map_default"
  by (simp add: proof_map_ok_def proof_map_default_def)

text \<open>An entry may be written when its variables are indexed, and dropped at any time.\<close>

lemma proof_map_write:
  assumes "proof_map_ok h subjects p" "trie_ok h m" "trie_ok h ms"
    and "\<And>v x. mentioned h (mentions p) v x \<Longrightarrow> mentioned h ms v x"
    and "\<And>j val. trie_get h m j = Some val \<Longrightarrow> j \<noteq> holder \<Longrightarrow> trie_get h (proofs p) j = Some val"
    and "\<And>val variable. trie_get h m holder = Some val \<Longrightarrow>
      variable \<in> set (variables_of holder (subjects val)) \<Longrightarrow> mentioned h ms variable holder"
  shows "proof_map_ok h subjects \<lparr>proofs = m, mentions = ms\<rparr>"
proof -
  have "mentioned h ms variable j"
    if "trie_get h m j = Some val" "variable \<in> set (variables_of j (subjects val))" for j val variable
  proof (cases "j = holder")
    case True
    then show ?thesis using assms(6) that by simp
  next
    case False
    then show ?thesis using assms(1, 4) assms(5) [OF that(1)] that(2) by (simp add: proof_map_ok_def)
  qed
  then show ?thesis using assms(2, 3) by (simp add: proof_map_ok_def)
qed

lemma pm_insert_ok:
  assumes "proof_map_ok h subjects p"
  obtains p' where "pm_insert h subjects p holder val = Some p'" "proof_map_ok h subjects p'"
    "trie_get h (proofs p') = (trie_get h (proofs p))(holder \<mapsto> val)"
proof -
  have ok: "trie_ok h (proofs p)" "trie_ok h (mentions p)" using assms by (simp_all add: proof_map_ok_def)
  obtain ms where ms: "pm_index h subjects (mentions p) holder val = Some ms" "trie_ok h ms"
    "\<And>v x. mentioned h ms v x \<longleftrightarrow>
      mentioned h (mentions p) v x \<or> (v \<in> set (variables_of holder (subjects val)) \<and> x = holder)"
    using note_all_ok [OF ok(2)] unfolding pm_index_def by blast
  show thesis
  proof (rule that)
    show "pm_insert h subjects p holder val = Some \<lparr>proofs = trie_insert h (proofs p) holder val, mentions = ms\<rparr>"
      by (simp add: pm_insert_def ms(1))
    show "proof_map_ok h subjects \<lparr>proofs = trie_insert h (proofs p) holder val, mentions = ms\<rparr>"
      by (rule proof_map_write [OF assms, where holder = holder]) (auto simp: trie_insert_ok ok ms(2, 3) split: if_splits)
    show "trie_get h (proofs \<lparr>proofs = trie_insert h (proofs p) holder val, mentions = ms\<rparr>) =
      (trie_get h (proofs p))(holder \<mapsto> val)" by (simp add: trie_insert_ok ok)
  qed
qed

lemma proof_map_drop:
  assumes "proof_map_ok h subjects p" "trie_ok h m"
    and "\<And>j val. trie_get h m j = Some val \<Longrightarrow> trie_get h (proofs p) j = Some val"
  shows "proof_map_ok h subjects (p\<lparr>proofs := m\<rparr>)"
  using assms by (simp add: proof_map_ok_def)

lemma pm_remove_ok:
  assumes "proof_map_ok h subjects p"
  shows "proof_map_ok h subjects (fst (pm_remove h p holder))"
    and "trie_get h (proofs (fst (pm_remove h p holder))) = (trie_get h (proofs p))(holder := None)"
proof -
  have ok: "trie_ok h (proofs p)" using assms by (simp add: proof_map_ok_def)
  have eq: "fst (pm_remove h p holder) = p\<lparr>proofs := fst (trie_remove h (proofs p) holder)\<rparr>"
    by (simp add: pm_remove_def case_prod_unfold)
  show "proof_map_ok h subjects (fst (pm_remove h p holder))"
    unfolding eq by (rule proof_map_drop [OF assms]) (auto simp: trie_remove_ok ok split: if_splits)
  show "trie_get h (proofs (fst (pm_remove h p holder))) = (trie_get h (proofs p))(holder := None)"
    by (simp add: eq trie_remove_ok ok)
qed

lemma pm_update_ok:
  assumes "proof_map_ok h subjects p"
  defines "old \<equiv> trie_get h (proofs p)"
  obtains p' where "pm_update h subjects d p holder edit = Some p'" "proof_map_ok h subjects p'"
    "trie_get h (proofs p') = old(holder \<mapsto> edit (case old holder of None \<Rightarrow> d | Some v \<Rightarrow> v))"
proof -
  have ok: "trie_ok h (proofs p)" "trie_ok h (mentions p)" using assms(1) by (simp_all add: proof_map_ok_def)
  let ?v = "edit (case old holder of None \<Rightarrow> d | Some v \<Rightarrow> v)"
  obtain m where m: "trie_update_or_default h d (proofs p) holder edit = Some m" "trie_ok h m"
    "trie_get h m = old(holder \<mapsto> ?v)"
    using trie_update_or_default_map [OF ok(1) refl] unfolding old_def by blast
  obtain ms where ms: "pm_index h subjects (mentions p) holder ?v = Some ms" "trie_ok h ms"
    "\<And>v x. mentioned h ms v x \<longleftrightarrow>
      mentioned h (mentions p) v x \<or> (v \<in> set (variables_of holder (subjects ?v)) \<and> x = holder)"
    using note_all_ok [OF ok(2)] unfolding pm_index_def by blast
  show thesis
  proof (rule that)
    show "pm_update h subjects d p holder edit = Some \<lparr>proofs = m, mentions = ms\<rparr>"
      by (simp add: pm_update_def m(1, 3) ms(1))
    show "proof_map_ok h subjects \<lparr>proofs = m, mentions = ms\<rparr>"
      by (rule proof_map_write [OF assms(1), where holder = holder])
        (auto simp: m(2, 3) ms(2, 3) old_def split: if_splits)
    show "trie_get h (proofs \<lparr>proofs = m, mentions = ms\<rparr>) = old(holder \<mapsto> ?v)" by (simp add: m(3))
  qed
qed

lemma push_unique_ok:
  fixes holder :: str
  assumes "proof_map_ok h (item_subjects subject) p"
  defines "old \<equiv> trie_get h (proofs p)"
  defines "items \<equiv> (case old holder of None \<Rightarrow> [] | Some items \<Rightarrow> items)"
  obtains p' where "push_unique h subject p holder item same = Some p'" "proof_map_ok h (item_subjects subject) p'"
    "trie_get h (proofs p') =
      (if list_ex (\<lambda>existing. same existing item) items then old else old(holder \<mapsto> items @ [item]))"
proof (cases "list_ex (\<lambda>existing. same existing item) items")
  case True
  then have "push_unique h subject p holder item same = Some p"
    by (auto simp: push_unique_def items_def old_def split: option.splits)
  then show thesis using that [of p] assms(1) True by (simp add: old_def)
next
  case False
  have ok: "trie_ok h (proofs p)" "trie_ok h (mentions p)" using assms(1) by (simp_all add: proof_map_ok_def)
  let ?vs = "each_variable holder @ (case subject item of None \<Rightarrow> [] | Some s \<Rightarrow> each_variable s)"
  obtain m where m: "trie_update_or_default h [] (proofs p) holder (\<lambda>items. items @ [item]) = Some m"
    "trie_ok h m" "trie_get h m = old(holder \<mapsto> items @ [item])"
    using trie_update_or_default_map [OF ok(1) refl] unfolding old_def items_def by blast
  obtain ms where ms: "note_all h holder ?vs (mentions p) = Some ms" "trie_ok h ms"
    "\<And>v x. mentioned h ms v x \<longleftrightarrow> mentioned h (mentions p) v x \<or> (v \<in> set ?vs \<and> x = holder)"
    using note_all_ok [OF ok(2), of holder ?vs] by blast
  have known: "mentioned h ms v holder"
    if "old holder = Some items" "v \<in> set (variables_of holder (item_subjects subject items))" for v
    using assms(1) that by (simp add: proof_map_ok_def old_def ms(3))
  have split: "variables_of holder (item_subjects subject (items @ [item])) =
      variables_of holder (item_subjects subject items) @
      (case subject item of None \<Rightarrow> [] | Some s \<Rightarrow> each_variable s)"
    by (simp add: variables_of_def item_subjects_def List.map_filter_def split: option.split)
  show thesis
  proof (rule that)
    show "push_unique h subject p holder item same = Some \<lparr>proofs = m, mentions = ms\<rparr>"
      using False ms(1) by (simp add: push_unique_def m(1) items_def old_def split: option.splits)
    show "proof_map_ok h (item_subjects subject) \<lparr>proofs = m, mentions = ms\<rparr>"
    proof (rule proof_map_write [OF assms(1), where holder = holder])
      fix val variable
      assume v: "trie_get h m holder = Some val"
        and variable: "variable \<in> set (variables_of holder (item_subjects subject val))"
      then have "variable \<in> set (variables_of holder (item_subjects subject items)) \<or> variable \<in> set ?vs"
        using m(3) split by auto
      moreover have "variable \<in> set ?vs \<Longrightarrow> mentioned h ms variable holder" by (simp add: ms(3))
      moreover have "items = [] \<or> old holder = Some items" by (auto simp: items_def split: option.splits)
      moreover have "variables_of holder (item_subjects subject []) = each_variable holder"
        by (simp add: variables_of_def item_subjects_def)
      ultimately show "mentioned h ms variable holder" using known by auto
    qed (auto simp: m(2, 3) ms(2, 3) old_def split: if_splits)
    show "trie_get h (proofs \<lparr>proofs = m, mentions = ms\<rparr>) =
      (if list_ex (\<lambda>existing. same existing item) items then old else old(holder \<mapsto> items @ [item]))"
      using False by (simp add: m(3))
  qed
qed

subsection \<open>Looking only at the holders that mention a variable\<close>

lemma retain_mentioning_map:
  assumes "proof_map_ok h subjects p"
    and keep: "\<And>token holder v. \<lbrakk>first_variable variable = Some token; trie_get h (proofs p) holder = Some v;
      token \<notin> set (variables_of holder (subjects v))\<rbrakk> \<Longrightarrow> keep holder v"
  shows "proof_map_ok h subjects (retain_mentioning h variable keep p)"
    and "trie_get h (proofs (retain_mentioning h variable keep p)) k = trie_get h (trie_retain h keep (proofs p)) k"
proof -
  have ok: "trie_ok h (proofs p)" "trie_ok h (mentions p)" using assms(1) by (simp_all add: proof_map_ok_def)
  have kept: "trie_get h (trie_retain h keep (proofs p)) k =
      (case trie_get h (proofs p) k of None \<Rightarrow> None | Some v \<Rightarrow> if keep k v then Some v else None)" for k
    by (rule trie_retain_map [OF ok(1)])
  have same: "trie_get h (proofs (retain_mentioning h variable keep p)) k = trie_get h (trie_retain h keep (proofs p)) k \<and>
      trie_ok h (proofs (retain_mentioning h variable keep p)) \<and>
      mentions (retain_mentioning h variable keep p) = mentions p" for k
  proof (cases "trie_is_empty (proofs p)")
    case True
    then have "trie_get h (proofs p) = Map.empty"
      using trie_keys_dom [OF ok(1)] trie_len [OF ok(1)] by (auto simp: trie_is_empty_def)
    then show ?thesis using True ok by (simp add: retain_mentioning_def kept)
  next
    case nonempty: False
    show ?thesis
    proof (cases "first_variable variable")
      case None
      then show ?thesis using nonempty ok by (simp add: retain_mentioning_def trie_retain_map)
    next
      case (Some token)
      have unlisted: "keep j v" if "trie_get h (proofs p) j = Some v" "\<not> mentioned h (mentions p) token j" for j v
        using assms(1) keep [OF Some that(1)] that by (auto simp: proof_map_ok_def)
      show ?thesis
      proof (cases "trie_get h (mentions p) token")
        case None
        then show ?thesis
          using nonempty ok Some unlisted [of k]
          by (auto simp: retain_mentioning_def kept mentioned_def split: option.splits)
      next
        case holders: (Some holders)
        let ?ks = "filter (\<lambda>holder. case trie_get h (proofs p) holder of
          None \<Rightarrow> False | Some v \<Rightarrow> \<not> keep holder v) holders"
        have "retain_mentioning h variable keep p =
            p\<lparr>proofs := foldl (\<lambda>m holder. fst (trie_remove h m holder)) (proofs p) ?ks\<rparr>"
          using nonempty Some holders by (simp add: retain_mentioning_def)
        then show ?thesis
          using trie.delete_all [OF ok(1), of ?ks] unlisted [of k] holders
          by (auto simp: kept restrict_map_def mentioned_def split: option.splits)
      qed
    qed
  qed
  then show "trie_get h (proofs (retain_mentioning h variable keep p)) k = trie_get h (trie_retain h keep (proofs p)) k"
    by blast
  have "proof_map_ok h subjects (p\<lparr>proofs := proofs (retain_mentioning h variable keep p)\<rparr>)"
    by (rule proof_map_drop [OF assms(1)]) (use same kept in \<open>auto split: option.splits if_splits\<close>)
  moreover have "p\<lparr>proofs := proofs (retain_mentioning h variable keep p)\<rparr> = retain_mentioning h variable keep p"
    using same by simp
  ultimately show "proof_map_ok h subjects (retain_mentioning h variable keep p)" by simp
qed

lemma retain_items_mentioning_map:
  assumes "proof_map_ok h subjects p"
    and keep: "\<And>token holder items. \<lbrakk>first_variable variable = Some token; trie_get h (proofs p) holder = Some items;
      token \<notin> set (variables_of holder (subjects items))\<rbrakk> \<Longrightarrow> list_all keep items"
  shows "trie_get h (proofs (retain_items_mentioning h variable keep p)) k =
    trie_get h (proofs (pm_retain_items h keep p)) k"
proof -
  have ok: "trie_ok h (proofs p)" "trie_ok h (mentions p)" using assms(1) by (simp_all add: proof_map_ok_def)
  note kept = trie_retain_items_map(2) [OF ok(1), of keep k]
  have all: "list_all keep items \<Longrightarrow> filter keep items = items" for items by (simp add: list_all_iff)
  show ?thesis
  proof (cases "trie_is_empty (proofs p)")
    case True
    then have "trie_get h (proofs p) = Map.empty"
      using trie_keys_dom [OF ok(1)] trie_len [OF ok(1)] by (auto simp: trie_is_empty_def)
    then show ?thesis using True by (simp add: retain_items_mentioning_def pm_retain_items_def kept)
  next
    case nonempty: False
    show ?thesis
    proof (cases "first_variable variable")
      case None
      then show ?thesis using nonempty by (simp add: retain_items_mentioning_def pm_retain_items_def)
    next
      case (Some token)
      have unlisted: "list_all keep items"
        if "trie_get h (proofs p) k = Some items" "\<not> mentioned h (mentions p) token k" for items
        using assms(1) keep [OF Some that(1)] that by (auto simp: proof_map_ok_def)
      show ?thesis
      proof (cases "trie_get h (mentions p) token")
        case None
        then show ?thesis
          using nonempty Some unlisted all
          by (auto simp: retain_items_mentioning_def pm_retain_items_def kept mentioned_def split: option.splits)
      next
        case holders: (Some holders)
        let ?ks = "filter (\<lambda>holder. case trie_get h (proofs p) holder of
          None \<Rightarrow> False | Some items \<Rightarrow> \<not> list_all keep items) holders"
        have "retain_items_mentioning h variable keep p =
            p\<lparr>proofs := foldl (retain_items_at h keep) (proofs p) ?ks\<rparr>"
          using nonempty Some holders by (simp add: retain_items_mentioning_def)
        then have r: "trie_get h (proofs (retain_items_mentioning h variable keep p)) k =
            (if k \<in> set ?ks then kept_items keep (trie_get h (proofs p) k) else trie_get h (proofs p) k)"
          by (simp del: set_filter add: retain_items_all [OF ok(1), of keep ?ks])
        show ?thesis
        proof (cases "trie_get h (proofs p) k")
          case None
          then show ?thesis by (simp add: r pm_retain_items_def kept kept_items_def)
        next
          case (Some items)
          then have "k \<in> set ?ks \<longleftrightarrow> \<not> list_all keep items"
            using unlisted holders by (auto simp: mentioned_def)
          then show ?thesis
            using Some all [of items] by (auto simp: r pm_retain_items_def kept kept_items_def)
        qed
      qed
    qed
  qed
qed

subsection \<open>The property of the index\<close>

text \<open>
  C15. Looking only at the holders the index lists for a variable answers what a walk over every
  proof would, when what is kept includes every entry that does not spell the variable's first
  name: for whole entries and for the items of list-valued ones.
\<close>

theorem retain_mentioning_correct:
  assumes "proof_map_ok h subjects p"
    and "\<And>token holder items. \<lbrakk>first_variable variable = Some token; trie_get h (proofs p) holder = Some items;
      token \<notin> set (variables_of holder (subjects items))\<rbrakk> \<Longrightarrow> list_all keep_item items \<and> keep holder items"
  shows "trie_get h (proofs (retain_mentioning h variable keep p)) = trie_get h (trie_retain h keep (proofs p)) \<and>
    trie_get h (proofs (retain_items_mentioning h variable keep_item p)) =
      trie_get h (proofs (pm_retain_items h keep_item p)) \<and>
    proof_map_ok h subjects (retain_mentioning h variable keep p)"
  using retain_mentioning_map [OF assms(1), of variable keep] retain_items_mentioning_map [OF assms(1), of variable keep_item]
    assms(2) by (auto simp: fun_eq_iff)

lemma retain_mentioning_correct_witness:
  "\<exists>p. pm_insert (\<lambda>_. 0) (\<lambda>xs :: str list. xs) proof_map_default ''$ok'' [''$a->b''] = Some p \<and>
     trie_get (\<lambda>_. 0) (proofs (retain_mentioning (\<lambda>_. 0) ''$a''
       (\<lambda>holder xs. ''$a'' \<notin> set (variables_of holder xs)) p)) ''$ok'' = None"
proof -
  obtain p where p: "pm_insert (\<lambda>_. 0) (\<lambda>xs :: str list. xs) proof_map_default ''$ok'' [''$a->b''] = Some p"
    "proof_map_ok (\<lambda>_. 0) (\<lambda>xs. xs) p"
    "trie_get (\<lambda>_. 0) (proofs p) = (trie_get (\<lambda>_. 0) (proofs proof_map_default))(''$ok'' \<mapsto> [''$a->b''])"
    by (rule pm_insert_ok [OF proof_map_ok_default])
  have token: "first_variable ''$a'' = Some ''$a''" and reads: "''$a'' \<in> set (variables_of ''$ok'' [''$a->b''])"
    by code_simp+
  have ok: "trie_ok (\<lambda>_. 0) (proofs p)" using p(2) by (simp add: proof_map_ok_def)
  let ?keep = "\<lambda>holder xs. ''$a'' \<notin> set (variables_of holder xs)"
  have "trie_get (\<lambda>_. 0) (proofs (retain_mentioning (\<lambda>_. 0) ''$a'' ?keep p)) =
      trie_get (\<lambda>_. 0) (trie_retain (\<lambda>_. 0) ?keep (proofs p))"
    by (rule retain_mentioning_correct [OF p(2), where keep_item = "\<lambda>_. True", THEN conjunct1])
      (simp add: token list_all_iff)
  then show ?thesis
    using p(1) reads by (simp add: trie_retain_map(2) [OF ok] p(3))
qed

end
