(* ===== verification/Type_Values.thy ===== *)
theory Type_Values
  imports Named_Lattice
begin

section \<open>The values below a type name\<close>

text \<open>
  What the names of the lattice stand for: the PHP values each admits, given the facts of the
  program the type layer cannot see (which strings name a class, what is callable, what an object
  is an instance of).  \<open>is_named_subtype\<close> and the literal rules are shown sound against it.
\<close>

datatype php_value =
    VNull
  | VBool bool
  | VInt int
  | VFloat f64
  | VString str
  | VArray "((int + str) \<times> php_value) list"
  | VObject str
  | VResource bool

text \<open>
  An array is given by its entries in order and an object by its class.  The program: what is
  callable, which strings are names, written literals and views, the classes an object's class
  extends, and what the names that are no value type (\<open>static\<close>, \<open>model-property\<close>) admit.
\<close>

record world =
  callable_value :: "php_value \<Rightarrow> bool"
  class_names :: "str \<Rightarrow> bool"
  interface_names :: "str \<Rightarrow> bool"
  enum_names :: "str \<Rightarrow> bool"
  trait_names :: "str \<Rightarrow> bool"
  written :: "str \<Rightarrow> bool"
  view_names :: "str \<Rightarrow> bool"
  instance_of :: "str \<Rightarrow> str \<Rightarrow> bool"
  other_keyword :: "str \<Rightarrow> php_value \<Rightarrow> bool"

definition truthy_text :: "str \<Rightarrow> bool" where
  "truthy_text s \<longleftrightarrow> s \<noteq> [] \<and> s \<noteq> ''0''"

text \<open>No symbol of PHP is named by the empty string or by \<open>0\<close>; closures can be called.\<close>

definition world_ok :: "world \<Rightarrow> bool" where
  "world_ok W \<longleftrightarrow>
     (\<forall>s. callable_value W (VString s) \<or> class_names W s \<or> interface_names W s \<or> enum_names W s \<or>
          trait_names W s \<longrightarrow> truthy_text s) \<and>
     (\<forall>s. interface_names W s \<or> enum_names W s \<longrightarrow> class_names W s) \<and>
     (\<forall>c. instance_of W c ''closure'' \<longrightarrow> callable_value W (VObject c))"

fun on_string :: "(str \<Rightarrow> bool) \<Rightarrow> php_value \<Rightarrow> bool" where
  "on_string P (VString s) = P s"
| "on_string P _ = False"

fun on_int :: "(int \<Rightarrow> bool) \<Rightarrow> php_value \<Rightarrow> bool" where
  "on_int P (VInt i) = P i"
| "on_int P _ = False"

fun on_array :: "((int + str) list \<Rightarrow> bool) \<Rightarrow> php_value \<Rightarrow> bool" where
  "on_array P (VArray kvs) = P (map fst kvs)"
| "on_array P _ = False"

fun on_object :: "(str \<Rightarrow> bool) \<Rightarrow> php_value \<Rightarrow> bool" where
  "on_object P (VObject c) = P c"
| "on_object P _ = False"

definition no_upper :: "str \<Rightarrow> bool" where "no_upper s \<longleftrightarrow> \<not> list_ex is_ascii_uppercase s"

definition no_lower :: "str \<Rightarrow> bool" where
  "no_lower s \<longleftrightarrow> \<not> list_ex (\<lambda>b. is_ascii_alphabetic b \<and> \<not> is_ascii_uppercase b) s"

definition is_list_keys :: "(int + str) list \<Rightarrow> bool" where
  "is_list_keys ks \<longleftrightarrow> ks = map (\<lambda>i. Inl (int i)) [0..<length ks]"

definition is_float_value :: "php_value \<Rightarrow> bool" where
  "is_float_value v \<longleftrightarrow> (case v of VFloat _ \<Rightarrow> True | VInt _ \<Rightarrow> True | _ \<Rightarrow> False)"

definition is_resource_value :: "(bool \<Rightarrow> bool) \<Rightarrow> php_value \<Rightarrow> bool" where
  "is_resource_value P v \<longleftrightarrow> (case v of VResource b \<Rightarrow> P b | _ \<Rightarrow> False)"

definition is_bool_value :: "(bool \<Rightarrow> bool) \<Rightarrow> php_value \<Rightarrow> bool" where
  "is_bool_value P v \<longleftrightarrow> (case v of VBool b \<Rightarrow> P b | _ \<Rightarrow> False)"

text \<open>An \<open>int\<close> is accepted where a \<open>float\<close> is, as PHP widens it.\<close>

definition keyword_table :: "world \<Rightarrow> (str \<times> (php_value \<Rightarrow> bool)) list" where
  "keyword_table W =
    [(''mixed'', \<lambda>v. True), (''never'', \<lambda>v. False), (''void'', \<lambda>v. v = VNull), (''null'', \<lambda>v. v = VNull),
     (''bool'', is_bool_value (\<lambda>b. True)), (''true'', is_bool_value (\<lambda>b. b)),
     (''false'', is_bool_value (\<lambda>b. \<not> b)),
     (''int'', on_int (\<lambda>i. True)), (''positive-int'', on_int (\<lambda>i. i > 0)),
     (''negative-int'', on_int (\<lambda>i. i < 0)), (''non-positive-int'', on_int (\<lambda>i. i \<le> 0)),
     (''non-negative-int'', on_int (\<lambda>i. i \<ge> 0)), (''non-zero-int'', on_int (\<lambda>i. i \<noteq> 0)),
     (''float'', is_float_value),
     (''string'', on_string (\<lambda>s. True)), (''non-empty-string'', on_string (\<lambda>s. s \<noteq> [])),
     (''numeric-string'', on_string is_php_numeric_string),
     (''class-string'', on_string (class_names W)), (''interface-string'', on_string (interface_names W)),
     (''enum-string'', on_string (enum_names W)), (''trait-string'', on_string (trait_names W)),
     (''literal-string'', on_string (written W)),
     (''callable-string'', on_string (\<lambda>s. callable_value W (VString s))),
     (''truthy-string'', on_string truthy_text), (''non-falsy-string'', on_string truthy_text),
     (''lowercase-string'', on_string no_upper), (''uppercase-string'', on_string no_lower),
     (''non-empty-lowercase-string'', on_string (\<lambda>s. s \<noteq> [] \<and> no_upper s)),
     (''non-empty-uppercase-string'', on_string (\<lambda>s. s \<noteq> [] \<and> no_lower s)),
     (''non-empty-literal-string'', on_string (\<lambda>s. s \<noteq> [] \<and> written W s)),
     (''view-string'', on_string (view_names W)),
     (''numeric'', \<lambda>v. is_float_value v \<or> on_string is_php_numeric_string v),
     (''number'', is_float_value),
     (''scalar'', \<lambda>v. is_float_value v \<or> is_bool_value (\<lambda>b. True) v \<or> on_string (\<lambda>s. True) v),
     (''array-key'', \<lambda>v. on_int (\<lambda>i. True) v \<or> on_string (\<lambda>s. True) v),
     (''array'', on_array (\<lambda>ks. True)), (''list'', on_array is_list_keys),
     (''non-empty-array'', on_array (\<lambda>ks. ks \<noteq> [])),
     (''non-empty-list'', on_array (\<lambda>ks. ks \<noteq> [] \<and> is_list_keys ks)),
     (''associative-array'', on_array (\<lambda>ks. True)),
     (''iterable'', \<lambda>v. on_array (\<lambda>ks. True) v \<or> on_object (\<lambda>c. instance_of W c ''traversable'') v),
     (''object'', on_object (\<lambda>c. True)),
     (''callable'', callable_value W),
     (''callable-array'', \<lambda>v. on_array (\<lambda>ks. True) v \<and> callable_value W v),
     (''callable-object'', \<lambda>v. on_object (\<lambda>c. True) v \<and> callable_value W v),
     (''resource'', is_resource_value (\<lambda>b. True)),
     (''open-resource'', is_resource_value (\<lambda>b. b)),
     (''closed-resource'', is_resource_value (\<lambda>b. \<not> b))]"

text \<open>The values of a canonical name: a keyword of the table, another keyword, or a class.\<close>

definition name_admits :: "world \<Rightarrow> str \<Rightarrow> php_value \<Rightarrow> bool" where
  "name_admits W n v =
     (case map_of (keyword_table W) n of
        Some P \<Rightarrow> P v
      | None \<Rightarrow> if is_keyword_type n then other_keyword W n v else on_object (\<lambda>c. instance_of W c n) v)"

text \<open>
  The values of a name as written: a leading separator is dropped, keywords are read in any
  casing and aliases are resolved, and a pseudo-type in another casing is a class.
\<close>

definition canonical_name :: "str \<Rightarrow> str" where
  "canonical_name n = normalize_alias (to_ascii_lowercase (strip_root_slash n))"

definition admits :: "world \<Rightarrow> str \<Rightarrow> php_value \<Rightarrow> bool" where
  "admits W n v =
     (if is_pseudo_class (strip_root_slash n)
      then on_object (\<lambda>c. instance_of W c (to_ascii_lowercase (strip_root_slash n))) v
      else name_admits W (canonical_name n) v)"

subsection \<open>The table, name by name\<close>

named_theorems names \<open>the values of each name\<close>

lemma names_basic [names]:
  "name_admits W ''mixed'' v" "\<not> name_admits W ''never'' v"
  "name_admits W ''void'' v = (v = VNull)" "name_admits W ''null'' v = (v = VNull)"
  "name_admits W ''bool'' v = is_bool_value (\<lambda>b. True) v"
  "name_admits W ''true'' v = is_bool_value (\<lambda>b. b) v"
  "name_admits W ''false'' v = is_bool_value (\<lambda>b. \<not> b) v"
  "name_admits W ''int'' v = on_int (\<lambda>i. True) v"
  "name_admits W ''positive-int'' v = on_int (\<lambda>i. i > 0) v"
  "name_admits W ''negative-int'' v = on_int (\<lambda>i. i < 0) v"
  "name_admits W ''non-positive-int'' v = on_int (\<lambda>i. i \<le> 0) v"
  "name_admits W ''non-negative-int'' v = on_int (\<lambda>i. i \<ge> 0) v"
  "name_admits W ''non-zero-int'' v = on_int (\<lambda>i. i \<noteq> 0) v"
  "name_admits W ''float'' v = is_float_value v"
  "name_admits W ''number'' v = is_float_value v"
  "name_admits W ''resource'' v = is_resource_value (\<lambda>b. True) v"
  "name_admits W ''open-resource'' v = is_resource_value (\<lambda>b. b) v"
  "name_admits W ''closed-resource'' v = is_resource_value (\<lambda>b. \<not> b) v"
  "name_admits W ''object'' v = on_object (\<lambda>c. True) v"
  "name_admits W ''callable'' v = callable_value W v"
  "name_admits W ''callable-array'' v = (on_array (\<lambda>ks. True) v \<and> callable_value W v)"
  "name_admits W ''callable-object'' v = (on_object (\<lambda>c. True) v \<and> callable_value W v)"
  by (simp_all add: name_admits_def keyword_table_def)

lemma names_string [names]:
  "name_admits W ''string'' v = on_string (\<lambda>s. True) v"
  "name_admits W ''non-empty-string'' v = on_string (\<lambda>s. s \<noteq> []) v"
  "name_admits W ''numeric-string'' v = on_string is_php_numeric_string v"
  "name_admits W ''class-string'' v = on_string (class_names W) v"
  "name_admits W ''interface-string'' v = on_string (interface_names W) v"
  "name_admits W ''enum-string'' v = on_string (enum_names W) v"
  "name_admits W ''trait-string'' v = on_string (trait_names W) v"
  "name_admits W ''literal-string'' v = on_string (written W) v"
  "name_admits W ''callable-string'' v = on_string (\<lambda>s. callable_value W (VString s)) v"
  "name_admits W ''truthy-string'' v = on_string truthy_text v"
  "name_admits W ''non-falsy-string'' v = on_string truthy_text v"
  "name_admits W ''lowercase-string'' v = on_string no_upper v"
  "name_admits W ''uppercase-string'' v = on_string no_lower v"
  "name_admits W ''non-empty-lowercase-string'' v = on_string (\<lambda>s. s \<noteq> [] \<and> no_upper s) v"
  "name_admits W ''non-empty-uppercase-string'' v = on_string (\<lambda>s. s \<noteq> [] \<and> no_lower s) v"
  "name_admits W ''non-empty-literal-string'' v = on_string (\<lambda>s. s \<noteq> [] \<and> written W s) v"
  "name_admits W ''view-string'' v = on_string (view_names W) v"
  by (simp_all add: name_admits_def keyword_table_def)

lemma names_wide [names]:
  "name_admits W ''numeric'' v = (is_float_value v \<or> on_string is_php_numeric_string v)"
  "name_admits W ''scalar'' v =
     (is_float_value v \<or> is_bool_value (\<lambda>b. True) v \<or> on_string (\<lambda>s. True) v)"
  "name_admits W ''array-key'' v = (on_int (\<lambda>i. True) v \<or> on_string (\<lambda>s. True) v)"
  "name_admits W ''array'' v = on_array (\<lambda>ks. True) v"
  "name_admits W ''list'' v = on_array is_list_keys v"
  "name_admits W ''non-empty-array'' v = on_array (\<lambda>ks. ks \<noteq> []) v"
  "name_admits W ''non-empty-list'' v = on_array (\<lambda>ks. ks \<noteq> [] \<and> is_list_keys ks) v"
  "name_admits W ''associative-array'' v = on_array (\<lambda>ks. True) v"
  "name_admits W ''iterable'' v =
     (on_array (\<lambda>ks. True) v \<or> on_object (\<lambda>c. instance_of W c ''traversable'') v)"
  by (simp_all add: name_admits_def keyword_table_def)

lemmas value_tests = on_string.simps on_int.simps on_array.simps on_object.simps is_float_value_def
  is_bool_value_def is_resource_value_def php_value.case

lemma table_names_keywords: "list_all is_keyword_type (map fst (keyword_table W))"
  by (simp add: keyword_table_def is_keyword_type_def is_scalar_name_def is_scalar_name_lower_def
      is_keyword_type_lower_def int_refinement_def string_refinement_def with_ascii_lowercase_def str_eval)

lemma class_admits:
  assumes "\<not> is_keyword_type n"
  shows "name_admits W n v = on_object (\<lambda>c. instance_of W c n) v"
proof -
  have "map_of (keyword_table W) n = None"
    using assms table_names_keywords [of W] by (auto simp: map_of_eq_None_iff list_all_iff)
  then show ?thesis using assms by (simp add: name_admits_def)
qed

lemma object_superset: "on_object P v \<Longrightarrow> on_object (\<lambda>c. True) v"
  by (cases v) auto

lemma closure_admits [names]: "name_admits W ''closure'' v = on_object (\<lambda>c. instance_of W c ''closure'') v"
  by (rule class_admits) (simp add: is_keyword_type_def is_scalar_name_def is_scalar_name_lower_def
      is_keyword_type_lower_def int_refinement_def string_refinement_def with_ascii_lowercase_def str_eval)

lemma world_facts:
  assumes "world_ok W"
  shows "class_names W s \<Longrightarrow> truthy_text s" "interface_names W s \<Longrightarrow> truthy_text s"
    "enum_names W s \<Longrightarrow> truthy_text s" "trait_names W s \<Longrightarrow> truthy_text s"
    "callable_value W (VString s) \<Longrightarrow> truthy_text s"
    "interface_names W s \<Longrightarrow> class_names W s" "enum_names W s \<Longrightarrow> class_names W s"
    "instance_of W c ''closure'' \<Longrightarrow> callable_value W (VObject c)"
  using assms by (auto simp: world_ok_def)

lemma empty_text [simp]: "\<not> truthy_text []" "\<not> is_php_numeric_string []"
  by (simp_all add: truthy_text_def is_php_numeric_string_def)

lemma empty_names:
  assumes "world_ok W"
  shows "\<not> class_names W []" "\<not> interface_names W []" "\<not> enum_names W []" "\<not> trait_names W []"
    "\<not> callable_value W (VString [])"
  using world_facts [OF assms] empty_text(1) by metis+

subsection \<open>Every edge of the lattice is sound\<close>

lemma range_bound_values:
  "parse_range_bound ''min'' = i64_min" "parse_range_bound ''max'' = i64_max"
  "parse_range_bound ''0'' = 0" "parse_range_bound ''1'' = 1" "parse_range_bound ''-1'' = - 1"
  by code_simp+

lemma refined_int_edges:
  "refined_int_subrange a b \<Longrightarrow> name_admits W a v \<Longrightarrow> name_admits W b v"
  by (cases v) (auto simp: refined_int_subrange_def refined_int_to_range_def int_range_is_subrange_def
      range_bound_values i64_min_def i64_max_def names value_tests split: if_splits)

lemma int_edges:
  "x \<in> set int_refinement \<Longrightarrow> name_admits W x v \<Longrightarrow> on_int (\<lambda>i. True) v"
  by (cases v) (auto simp: int_refinement_def names value_tests)

lemma int_is_float: "on_int P v \<Longrightarrow> is_float_value v"
  by (cases v) (auto simp: value_tests)

lemma string_edges:
  "x \<in> set (string_refinement @ [''view-string'']) \<Longrightarrow> name_admits W x v \<Longrightarrow> on_string (\<lambda>s. True) v"
  by (cases v) (auto simp: string_refinement_def names value_tests)

lemma nonempty_string_edges:
  assumes "world_ok W" "name_admits W x v" "x \<in> set
    [''numeric-string'', ''non-empty-literal-string'', ''non-empty-lowercase-string'',
     ''non-empty-uppercase-string'', ''callable-string'', ''class-string'', ''interface-string'',
     ''trait-string'', ''enum-string'', ''truthy-string'', ''non-falsy-string'']"
  shows "on_string (\<lambda>s. s \<noteq> []) v"
  using assms(2,3) empty_names [OF assms(1)]
  by (cases v) (auto simp: names value_tests)

lemma truthy_string_edges:
  assumes "world_ok W" "name_admits W x v" "x \<in> set
    [''callable-string'', ''class-string'', ''interface-string'', ''trait-string'', ''enum-string'',
     ''truthy-string'', ''non-falsy-string'']"
  shows "on_string truthy_text v"
  using assms(2,3) world_facts [OF assms(1)] by (cases v) (auto simp: names value_tests)

lemma array_edges:
  "x \<in> set [''array'', ''list'', ''non-empty-list'', ''non-empty-array'', ''associative-array''] \<Longrightarrow>
   name_admits W x v \<Longrightarrow> on_array (\<lambda>ks. True) v"
  by (cases v) (auto simp: names value_tests)

lemma callable_edges:
  assumes "world_ok W" "name_admits W x v"
    "x \<in> set [''callable-string'', ''callable-array'', ''callable-object'', ''closure'']"
  shows "callable_value W v"
  using assms(2,3) world_facts(8) [OF assms(1)] by (cases v) (auto simp: names value_tests)

lemma small_edges:
  "x \<in> set [''true'', ''false''] \<Longrightarrow> name_admits W x v \<Longrightarrow> name_admits W ''bool'' v"
  "x \<in> set [''positive-int'', ''negative-int''] \<Longrightarrow> name_admits W x v \<Longrightarrow> name_admits W ''non-zero-int'' v"
  "name_admits W ''non-empty-literal-string'' v \<Longrightarrow> name_admits W ''literal-string'' v"
  "name_admits W ''non-empty-lowercase-string'' v \<Longrightarrow> name_admits W ''lowercase-string'' v"
  "name_admits W ''non-empty-uppercase-string'' v \<Longrightarrow> name_admits W ''uppercase-string'' v"
  "name_admits W ''non-empty-list'' v \<Longrightarrow> name_admits W ''non-empty-array'' v"
  "x \<in> set [''closed-resource'', ''open-resource''] \<Longrightarrow> name_admits W x v \<Longrightarrow> name_admits W ''resource'' v"
  by (cases v; auto simp: names value_tests)+

lemma class_string_edges:
  assumes "world_ok W" "name_admits W x v" "x \<in> set [''interface-string'', ''enum-string'']"
  shows "name_admits W ''class-string'' v"
  using assms(2,3) world_facts [OF assms(1)] by (cases v) (auto simp: names value_tests)

lemma wide_edges:
  "x \<in> set ([''int'', ''float''] @ int_refinement) \<Longrightarrow> name_admits W x v \<Longrightarrow> is_float_value v"
  "x \<in> set ([''int'', ''float''] @ int_refinement @ [''numeric-string'']) \<Longrightarrow> name_admits W x v \<Longrightarrow>
   name_admits W ''numeric'' v"
  "x \<in> set ([''int'', ''string''] @ int_refinement @ string_refinement) \<Longrightarrow> name_admits W x v \<Longrightarrow>
   name_admits W ''array-key'' v"
  "x \<in> set ([''int'', ''float'', ''string'', ''bool'', ''true'', ''false''] @ int_refinement @
     string_refinement @ [''numeric'', ''number'']) \<Longrightarrow> name_admits W x v \<Longrightarrow> name_admits W ''scalar'' v"
  by (cases v; auto simp: int_refinement_def string_refinement_def names value_tests; fail)+

text \<open>
  Into \<open>object\<close> the code asks the spelling only, so a keyword that looks like a class name
  (\<open>mixed\<close>, \<open>real\<close>, anything with a separator) gets there as well; these are left out.
\<close>

definition into_object :: "str \<Rightarrow> str \<Rightarrow> bool" where
  "into_object n m \<longleftrightarrow> m = ''object'' \<and> is_keyword_type n \<and> n \<noteq> ''callable-object''"

text \<open>The edges as a table: each name with the names right below it.\<close>

definition edge_table :: "(str \<times> str list) list" where
  "edge_table =
    [(''bool'', [''true'', ''false'']),
     (''int'', int_refinement),
     (''non-zero-int'', [''positive-int'', ''negative-int'']),
     (''float'', (''int'' # int_refinement)),
     (''string'', (string_refinement @ [''view-string''])),
     (''class-string'', [''interface-string'', ''enum-string'']),
     (''non-empty-string'', [''numeric-string'', ''non-empty-literal-string'', ''non-empty-lowercase-string'',
         ''non-empty-uppercase-string'', ''callable-string'', ''class-string'', ''interface-string'',
         ''trait-string'', ''enum-string'', ''truthy-string'', ''non-falsy-string'']),
     (''truthy-string'', [''callable-string'', ''class-string'', ''interface-string'', ''trait-string'', ''enum-string'',
         ''truthy-string'', ''non-falsy-string'']),
     (''non-falsy-string'', [''callable-string'', ''class-string'', ''interface-string'', ''trait-string'', ''enum-string'',
         ''truthy-string'', ''non-falsy-string'']),
     (''literal-string'', [''non-empty-literal-string'']),
     (''lowercase-string'', [''non-empty-lowercase-string'']),
     (''uppercase-string'', [''non-empty-uppercase-string'']),
     (''numeric'', ([''int'', ''float''] @ int_refinement @ [''numeric-string''])),
     (''number'', ([''int'', ''float''] @ int_refinement)),
     (''scalar'', ([''int'', ''float'', ''string'', ''bool'', ''true'', ''false''] @ int_refinement @
         string_refinement @ [''numeric'', ''number''])),
     (''array-key'', ([''int'', ''string''] @ int_refinement @ string_refinement)),
     (''array'', [''list'', ''non-empty-list'', ''non-empty-array'', ''associative-array'']),
     (''non-empty-array'', [''non-empty-list'']),
     (''iterable'', [''array'', ''list'', ''non-empty-array'', ''non-empty-list'', ''associative-array'']),
     (''callable'', [''callable-string'', ''callable-array'', ''callable-object'', ''closure'']),
     (''resource'', [''closed-resource'', ''open-resource''])]"

lemma named_edge_cases:
  "named_edge raw a b \<Longrightarrow>
     (\<exists>S. (b, S) \<in> set edge_table \<and> a \<in> set S) \<or> refined_int_subrange a b \<or>
     (b = ''object'' \<and> (a = ''callable-object'' \<or> is_class_like_name raw))"
  unfolding named_edge_def edge_table_def
  by (simp only: split: if_splits) (simp_all, erule disjE, simp_all)

lemma edge_table_sound:
  assumes W: "world_ok W"
  shows "list_all (\<lambda>(b, S). \<forall>a \<in> set S. name_admits W a v \<longrightarrow> name_admits W b v) edge_table"
proof -
  note wide = wide_edges [where W=W and v=v] and small = small_edges [where W=W and v=v]
  note strs = nonempty_string_edges [OF W] truthy_string_edges [OF W]
  show ?thesis
    unfolding edge_table_def list.pred_inject prod.case
    by (intro conjI ballI impI TrueI; (rule small, assumption+ |
        rule class_string_edges [OF W] wide(2-4), assumption+ |
        simp only: names, rule int_edges wide(1) string_edges array_edges strs callable_edges [OF W],
          assumption+ | cases v; auto simp: names value_tests int_refinement_def; fail))
qed

lemma named_edge_sound:
  assumes W: "world_ok W" and edge: "named_edge raw a b" and v: "name_admits W a v"
    and obj: "\<not> into_object a b"
  shows "name_admits W b v"
  using named_edge_cases [OF edge]
proof (elim disjE exE conjE)
  fix S
  assume "(b, S) \<in> set edge_table" "a \<in> set S"
  then show ?thesis using edge_table_sound [OF W, of v] v by (auto simp: list_all_iff)
next
  assume "refined_int_subrange a b"
  then show ?thesis using v by (rule refined_int_edges)
next
  assume "b = ''object''" "a = ''callable-object''"
  then show ?thesis using v by (simp add: names)
next
  assume "b = ''object''" "is_class_like_name raw"
  then show ?thesis
    using obj v class_admits [of a W v] object_superset [of _ v]
    by (cases "a = ''callable-object''") (auto simp: into_object_def names)
qed

lemma named_subtype_admits:
  assumes "is_named_subtype a b" "world_ok W" "admits W a v"
    and "\<not> into_object (canonical_name a) (canonical_name b)"
  shows "admits W b v"
  using assms named_edge_sound [OF assms(2)]
  by (auto simp: is_named_subtype_def admits_def canonical_name_def Let_def names split: if_splits)

text \<open>
  C4. The lattice of type names is sound: when \<open>is_named_subtype\<close> accepts a name below another,
  every value of the first is a value of the second, whatever the casing, the leading separators
  and the aliases they are written with.  The one exception is a keyword below \<open>object\<close>.
\<close>

theorem is_named_subtype_sound:
  assumes "is_named_subtype a b" "world_ok W" "admits W a v"
    and "\<not> into_object (canonical_name a) (canonical_name b)"
  shows "admits W b v"
  using assms by (rule named_subtype_admits)

text \<open>
  The exception is real: every class name is taken to be below \<open>object\<close> by its spelling, and
  \<open>mixed\<close> and \<open>real\<close> (an alias of \<open>float\<close>) look like class names.
\<close>

lemma keywords_below_object:
  "is_named_subtype ''mixed'' ''object''" "is_named_subtype ''real'' ''object''"
  "\<not> is_named_subtype ''float'' ''object''"
  by code_simp+

text \<open>Nor is the relation transitive.\<close>

lemma named_subtype_not_transitive:
  "is_named_subtype ''view-string'' ''string''" "is_named_subtype ''string'' ''scalar''"
  "\<not> is_named_subtype ''view-string'' ''scalar''"
  by code_simp+

definition bare_world :: world where
  "bare_world = \<lparr>callable_value = (\<lambda>v. False), class_names = (\<lambda>s. False), interface_names = (\<lambda>s. False),
     enum_names = (\<lambda>s. False), trait_names = (\<lambda>s. False), written = (\<lambda>s. True),
     view_names = (\<lambda>s. False), instance_of = (\<lambda>c n. False), other_keyword = (\<lambda>n v. False)\<rparr>"

lemma bare_world_ok: "world_ok bare_world"
  by (simp add: world_ok_def bare_world_def)

lemma is_named_subtype_sound_witness:
  "admits bare_world ''double'' (VInt 3)"
proof -
  have n: "is_named_subtype ([backslash] @ ''Positive-Int'') ''double''" by code_simp
  have a: "admits bare_world ([backslash] @ ''Positive-Int'') (VInt 3)"
  proof -
    have "canonical_name ([backslash] @ ''Positive-Int'') = ''positive-int''"
      "\<not> is_pseudo_class (strip_root_slash ([backslash] @ ''Positive-Int''))" by code_simp+
    then show ?thesis by (simp only: admits_def if_False names on_int.simps)
  qed
  have o: "\<not> into_object (canonical_name ([backslash] @ ''Positive-Int'')) (canonical_name ''double'')"
    by code_simp
  show ?thesis by (rule is_named_subtype_sound [OF n bare_world_ok a o])
qed

subsection \<open>Literals\<close>

fun literal_php_value :: "literal_value \<Rightarrow> php_value option" where
  "literal_php_value (LInt raw) = map_option VInt (literal_i64 (LInt raw))"
| "literal_php_value (LFloat raw) = map_option VFloat (literal_f64 (LFloat raw))"
| "literal_php_value (LString raw) = map_option VString (string_content (LString raw))"

text \<open>The value is one of the program's literals.\<close>

definition written_value :: "world \<Rightarrow> php_value \<Rightarrow> bool" where
  "written_value W v \<longleftrightarrow> (case v of VString s \<Rightarrow> written W s | _ \<Rightarrow> True)"

lemma backslash_code: "x = backslash \<longleftrightarrow> (of_char x :: nat) = 92"
proof -
  have "(of_char backslash :: nat) = 92" and "char_of (92 :: nat) = backslash"
    by (simp, simp add: char_of_eq_iff)
  then show ?thesis by (metis char_of_char)
qed

lemma lower_backslash: "lower_char c = backslash \<longleftrightarrow> c = backslash"
  unfolding backslash_code of_lower_char by (auto simp: is_ascii_uppercase_def)

lemma key_admits:
  assumes key: "keyword_key n = k" "k \<noteq> []" "to_ascii_lowercase k = k" "hd k \<noteq> backslash"
  shows "admits W n v = name_admits W (normalize_alias k) v" "canonical_name n = normalize_alias k"
proof -
  have low: "to_ascii_lowercase n = k"
    using keyword_key_cases [of n] key by auto
  have pseudo: "\<not> is_pseudo_class n"
    using keyword_key_cases [of n] key low by (auto simp: is_pseudo_class_def)
  obtain c r where n: "n = c # r" using low key(2) by (cases n) auto
  then have "c \<noteq> backslash"
    using low key(4) by (auto simp: to_ascii_lowercase_def lower_backslash [THEN iffD2])
  then have "strip_root_slash n = n"
    by (simp add: n strip_root_slash_def strip_prefix_def starts_with_def)
  then show "admits W n v = name_admits W (normalize_alias k) v" "canonical_name n = normalize_alias k"
    using low pseudo by (simp_all add: admits_def canonical_name_def)
qed

text \<open>The names a literal can be below, all in lower case and without a separator.\<close>

definition literal_names :: "str list" where
  "literal_names = [''int'', ''integer'', ''float'', ''double'', ''real'', ''numeric'', ''number'',
     ''scalar'', ''array-key'', ''positive-int'', ''negative-int'', ''non-negative-int'',
     ''non-positive-int'', ''non-zero-int'', ''string'', ''literal-string'', ''non-empty-string'',
     ''non-empty-literal-string'', ''truthy-string'', ''non-falsy-string'', ''numeric-string'',
     ''lowercase-string'', ''non-empty-lowercase-string'', ''uppercase-string'',
     ''non-empty-uppercase-string'']"

lemma literal_names_plain:
  "list_all (\<lambda>k. k \<noteq> [] \<and> to_ascii_lowercase k = k \<and> hd k \<noteq> backslash) literal_names"
  by code_simp

lemma refined_range_cases:
  assumes "refined_int_to_range k = Some (lo, hi)"
  obtains "k = ''positive-int''" "lo = ''1''" "hi = ''max''"
    | "k = ''negative-int''" "lo = ''min''" "hi = ''-1''"
    | "k = ''non-negative-int''" "lo = ''0''" "hi = ''max''"
    | "k = ''non-positive-int''" "lo = ''min''" "hi = ''0''"
  using assms by (auto simp: refined_int_to_range_def split: if_splits)

lemma range_bound_texts:
  "to_ascii_lowercase (trim ''0'') = ''0''" "to_ascii_lowercase (trim ''1'') = ''1''"
  "to_ascii_lowercase (trim ''-1'') = ''-1''" "to_ascii_lowercase (trim ''min'') = ''min''"
  "to_ascii_lowercase (trim ''max'') = ''max''"
  "parse_i64 ''0'' = Some 0" "parse_i64 ''1'' = Some 1" "parse_i64 ''-1'' = Some (- 1)"
  by code_simp+

lemma within_refinement:
  assumes "refined_int_to_range k = Some (lo, hi)" "int_literal_is_within_range i lo hi"
  shows "name_admits W (normalize_alias k) (VInt i) \<and> k \<in> set literal_names"
  using assms(1)
proof (cases rule: refined_range_cases)
qed (use assms(2) in \<open>simp_all add: int_literal_is_within_range_def range_bound_texts Let_def
       normalize_alias_def names literal_names_def\<close>)

lemma int_literal_admitted:
  assumes "literal_is_subtype_of_named (LInt raw) k" "literal_php_value (LInt raw) = Some v"
  shows "name_admits W (normalize_alias k) v \<and> k \<in> set literal_names"
proof -
  obtain i where i: "literal_i64 (LInt raw) = Some i" "v = VInt i" using assms(2) by auto
  consider (wide) "k \<in> set [''int'', ''integer'', ''float'', ''double'', ''numeric'', ''number'',
      ''scalar'', ''array-key'']"
    | (range) lo hi where "refined_int_to_range k = Some (lo, hi)" "int_literal_is_within_range i lo hi"
    | (nonzero) "k = ''non-zero-int''" "i \<noteq> 0"
    using assms(1) i(1) unfolding literal_is_subtype_of_named_def literal_value.case i(1)
    by (simp only: option.case split: if_splits option.splits) blast+
  then show ?thesis
  proof cases
    case wide
    have "list_all (\<lambda>k. name_admits W (normalize_alias k) (VInt i) \<and> k \<in> set literal_names)
      [''int'', ''integer'', ''float'', ''double'', ''numeric'', ''number'', ''scalar'', ''array-key'']"
      by (simp add: normalize_alias_def names is_float_value_def literal_names_def)
    with wide show ?thesis by (simp only: i(2) list_all_iff)
  next
    case range
    then show ?thesis unfolding i(2) by (rule within_refinement)
  next
    case nonzero
    then show ?thesis by (simp add: i(2) normalize_alias_def names literal_names_def)
  qed
qed

lemma float_literal_admitted:
  assumes "literal_is_subtype_of_named (LFloat raw) k"
  shows "name_admits W (normalize_alias k) (VFloat f) \<and> k \<in> set literal_names"
proof -
  have "list_all (\<lambda>k. name_admits W (normalize_alias k) (VFloat f) \<and> k \<in> set literal_names)
      [''float'', ''double'', ''real'', ''numeric'', ''number'', ''scalar'']"
    by (simp add: normalize_alias_def names is_float_value_def literal_names_def)
  then show ?thesis
    using assms unfolding literal_is_subtype_of_named_def literal_value.case list_all_iff by fastforce
qed

text \<open>The names a string literal can be below, with what each asks of the string.\<close>

definition string_tests :: "(str \<Rightarrow> bool) \<Rightarrow> (str \<times> (str \<Rightarrow> bool)) list" where
  "string_tests wr =
    [(''string'', \<lambda>s. True), (''literal-string'', wr), (''scalar'', \<lambda>s. True), (''array-key'', \<lambda>s. True),
     (''non-empty-string'', \<lambda>s. s \<noteq> []), (''non-empty-literal-string'', \<lambda>s. s \<noteq> [] \<and> wr s),
     (''truthy-string'', truthy_text), (''non-falsy-string'', truthy_text),
     (''numeric-string'', is_php_numeric_string), (''numeric'', is_php_numeric_string),
     (''lowercase-string'', no_upper), (''non-empty-lowercase-string'', \<lambda>s. s \<noteq> [] \<and> no_upper s),
     (''uppercase-string'', no_lower), (''non-empty-uppercase-string'', \<lambda>s. s \<noteq> [] \<and> no_lower s)]"

lemma string_tests_sound:
  "list_all (\<lambda>(k, P). k \<in> set literal_names \<and> (P s \<longrightarrow> name_admits W (normalize_alias k) (VString s)))
     (string_tests (written W))"
  by (simp add: string_tests_def normalize_alias_def names literal_names_def)

lemma string_literal_tests:
  assumes "literal_is_subtype_of_named (LString raw) k" "string_content (LString raw) = Some s"
    and "wr s" "k \<noteq> ''view-string''" "k \<noteq> ''callable-string''"
  shows "\<exists>P. (k, P) \<in> set (string_tests wr) \<and> P s"
  using assms(1,3-5)
  unfolding literal_is_subtype_of_named_def literal_value.case assms(2) option.case is_numeric_string_def
    string_tests_def truthy_text_def no_upper_def no_lower_def list.set
  by (elim disjE conjE insertE emptyE) (simp_all add: truthy_text_def)

lemma string_literal_admitted:
  assumes "literal_is_subtype_of_named (LString raw) k" "literal_php_value (LString raw) = Some v"
    and "written_value W v" "k \<noteq> ''view-string''" "k \<noteq> ''callable-string''"
  shows "name_admits W (normalize_alias k) v \<and> k \<in> set literal_names"
proof -
  obtain s where s: "string_content (LString raw) = Some s" "v = VString s" using assms(2) by auto
  then have "written W s" using assms(3) by (simp add: written_value_def)
  from string_literal_tests [where wr = "written W", OF assms(1) s(1) this assms(4,5)]
  obtain P where "(k, P) \<in> set (string_tests (written W))" "P s" by blast
  with string_tests_sound [where s = s and W = W] show ?thesis unfolding s(2) list_all_iff by fastforce
qed

lemma literal_admitted:
  assumes "literal_is_subtype_of_named lit k" "literal_php_value lit = Some v"
    and "written_value W v" "k \<noteq> ''view-string''" "k \<noteq> ''callable-string''"
  shows "name_admits W (normalize_alias k) v \<and> k \<in> set literal_names"
proof (cases lit)
  case (LInt raw)
  then show ?thesis using int_literal_admitted assms(1,2) by simp
next
  case (LFloat raw)
  then show ?thesis using float_literal_admitted assms(1,2) by auto
next
  case (LString raw)
  then show ?thesis using string_literal_admitted assms by simp
qed

lemma literal_key_admits:
  "keyword_key n \<in> set literal_names \<Longrightarrow> admits W n v = name_admits W (normalize_alias (keyword_key n)) v"
  using literal_names_plain key_admits(1) [OF refl, of n W v] by (simp add: list_all_iff)

text \<open>Every float is a value of the names a float literal is below.\<close>

lemma float_below_name:
  "literal_below_name (LFloat raw) n \<Longrightarrow> admits W n (VFloat f)"
  using float_literal_admitted [of raw "keyword_key n" W f] literal_key_admits [of n W "VFloat f"]
  by (simp add: literal_below_name_def with_keyword_lowercase_key)

lemma literal_name_admits:
  assumes "literal_below_name lit n" "literal_php_value lit = Some v" "written_value W v"
    and "keyword_key n \<noteq> ''view-string''" "keyword_key n \<noteq> ''callable-string''"
  shows "admits W n v"
proof -
  have "literal_is_subtype_of_named lit (keyword_key n)"
    using assms(1) by (simp add: literal_below_name_def with_keyword_lowercase_key)
  then have "name_admits W (normalize_alias (keyword_key n)) v \<and> keyword_key n \<in> set literal_names"
    by (rule literal_admitted) (use assms in simp_all)
  then show ?thesis using literal_key_admits by blast
qed

text \<open>
  C26. A literal is accepted below a type name only when its value is one of the name's values,
  read the way PHP reads the literal: an integer within the range, a string that is numeric, empty,
  falsy or cased as the name demands; the literal counts as written in the program.  Of \<open>view-string\<close> and \<open>callable-string\<close>, which depend on the
  project, any string literal is accepted.
\<close>

theorem literal_below_name_sound:
  assumes "literal_below_name lit n" "literal_php_value lit = Some v" "written_value W v"
    and "keyword_key n \<noteq> ''view-string''" "keyword_key n \<noteq> ''callable-string''"
  shows "admits W n v"
  using assms by (rule literal_name_admits)

lemma literal_below_name_sound_witness:
  "admits bare_world ''Numeric-String'' (VString ''1e3'')"
proof -
  have "literal_below_name (LString ([quote] @ ''1e3'' @ [quote])) ''Numeric-String''"
    and "literal_php_value (LString ([quote] @ ''1e3'' @ [quote])) = Some (VString ''1e3'')"
    and "keyword_key ''Numeric-String'' \<noteq> ''view-string''"
    and "keyword_key ''Numeric-String'' \<noteq> ''callable-string''"
    by code_simp+
  moreover have "written_value bare_world (VString ''1e3'')"
    by (simp add: written_value_def bare_world_def)
  ultimately show ?thesis by (intro literal_below_name_sound)
qed

text \<open>
  The rules for literals and for ranges disagree about one alias: an integer literal is not below
  \<open>real\<close>, while \<open>int\<close> is.
\<close>

lemma int_literal_not_real:
  "\<not> literal_below_name (LInt ''5'') ''real''" "literal_below_name (LInt ''5'') ''double''"
  "is_named_subtype ''int'' ''real''"
  by code_simp+

end
