(* ===== verification/Type_Dedup.thy ===== *)
theory Type_Dedup
  imports Type_Predicates Named_Lattice
begin

section \<open>Equivalent types and their deduplication\<close>

text \<open>
  The deduplication of \<open>src/php_type/normalize.rs\<close>: when two types are the same alternative
  (identifiers in any casing, literals by value), the hash that agrees with it, and the bucketed
  pass that drops repeated alternatives.  The hash is the list of what is fed to the hasher; the
  hasher itself, \<open>DefaultHasher\<close> of the standard library, is an argument.
\<close>

subsection \<open>Equivalence\<close>

definition named_identifiers_equivalent :: "str \<Rightarrow> str \<Rightarrow> bool" where
  "named_identifiers_equivalent left right =
     (if eq_ignore_ascii_case left ''number'' \<and> eq_ignore_ascii_case right ''number''
      then (left = ''number'') = (right = ''number'')
      else eq_ignore_ascii_case left right)"

definition identifiers_equivalent :: "str \<Rightarrow> str \<Rightarrow> bool" where
  "identifiers_equivalent left right = eq_ignore_ascii_case left right"

text \<open>The cases before the \<open>match\<close>: what the markers around a node say.\<close>

definition marker_equivalence :: "php_type \<Rightarrow> php_type \<Rightarrow> bool option" where
  "marker_equivalence left right =
     (if left = right then Some True
      else if as_unsealed_shape left \<noteq> None \<or> as_unsealed_shape right \<noteq> None then Some False
      else if (as_class_name_literal left \<noteq> None) \<noteq> (as_class_name_literal right \<noteq> None) then Some False
      else if as_dql_builder left \<noteq> None \<or> as_dql_builder right \<noteq> None then Some False
      else if as_enum_case left \<noteq> None \<or> as_enum_case right \<noteq> None then
        Some (case (as_enum_case left, as_enum_case right) of
                (Some (left_enum, left_case), Some (right_enum, right_case)) \<Rightarrow>
                  left_case = right_case \<and> identifiers_equivalent left_enum right_enum
              | _ \<Rightarrow> False)
      else None)"

function equivalent_for_dedup :: "php_type \<Rightarrow> php_type \<Rightarrow> bool" where
  "equivalent_for_dedup left right =
     (case marker_equivalence left right of Some answer \<Rightarrow> answer | None \<Rightarrow>
     (case (kind left, kind right) of
        (Named a, Named b) \<Rightarrow> named_identifiers_equivalent a b
      | (StaticType a, StaticType b) \<Rightarrow> identifiers_equivalent a b
      | (ThisType a, ThisType b) \<Rightarrow> identifiers_equivalent a b
      | (Nullable a, Nullable b) \<Rightarrow> equivalent_for_dedup a b
      | (Array a, Array b) \<Rightarrow> equivalent_for_dedup a b
      | (KeyOf a, KeyOf b) \<Rightarrow> equivalent_for_dedup a b
      | (ValueOf a, ValueOf b) \<Rightarrow> equivalent_for_dedup a b
      | (UnionT a, UnionT b) \<Rightarrow> length a = length b \<and>
          list_all (\<lambda>(x, y). equivalent_for_dedup x y) (zip a b)
      | (Intersection a, Intersection b) \<Rightarrow> length a = length b \<and>
          list_all (\<lambda>(x, y). equivalent_for_dedup x y) (zip a b)
      | (Generic a, Generic b) \<Rightarrow> identifiers_equivalent (g_name a) (g_name b) \<and>
          length (g_args a) = length (g_args b) \<and>
          list_all (\<lambda>(x, y). equivalent_for_dedup x y) (zip (g_args a) (g_args b))
      | (ArrayShape a, ArrayShape b) \<Rightarrow> length a = length b \<and>
          list_all (\<lambda>(x, y). entry_key x = entry_key y \<and> entry_optional x = entry_optional y \<and>
            equivalent_for_dedup (value_type x) (value_type y)) (zip a b)
      | (ObjectShape a, ObjectShape b) \<Rightarrow> length a = length b \<and>
          list_all (\<lambda>(x, y). entry_key x = entry_key y \<and> entry_optional x = entry_optional y \<and>
            equivalent_for_dedup (value_type x) (value_type y)) (zip a b)
      | (Callable a, Callable b) \<Rightarrow>
          identifiers_equivalent (callable_kind a) (callable_kind b) \<and>
          length (params a) = length (params b) \<and>
          list_all (\<lambda>(x, y). param_optional x = param_optional y \<and> variadic x = variadic y \<and>
            equivalent_for_dedup (type_hint x) (type_hint y)) (zip (params a) (params b)) \<and>
          (case (return_type a, return_type b) of
             (Some x, Some y) \<Rightarrow> equivalent_for_dedup x y
           | (None, None) \<Rightarrow> True
           | _ \<Rightarrow> False)
      | (Conditional a, Conditional b) \<Rightarrow>
          cond_param a = cond_param b \<and> negated a = negated b \<and>
          equivalent_for_dedup (condition a) (condition b) \<and>
          equivalent_for_dedup (then_type a) (then_type b) \<and>
          equivalent_for_dedup (else_type a) (else_type b)
      | (ClassString a, ClassString b) \<Rightarrow>
          (case (a, b) of (Some x, Some y) \<Rightarrow> equivalent_for_dedup x y
           | (None, None) \<Rightarrow> True | _ \<Rightarrow> False)
      | (InterfaceString a, InterfaceString b) \<Rightarrow>
          (case (a, b) of (Some x, Some y) \<Rightarrow> equivalent_for_dedup x y
           | (None, None) \<Rightarrow> True | _ \<Rightarrow> False)
      | (IndexAccess a i, IndexAccess b j) \<Rightarrow> equivalent_for_dedup a b \<and> equivalent_for_dedup i j
      | (Literal a, Literal b) \<Rightarrow> literals_equal a b
      | _ \<Rightarrow> False))"
  by pat_completeness auto
termination
  by (relation "measure (\<lambda>(left, right). size left)")
    (auto dest!: set_zip_leftD intro: kind_child [OF sym] kind_child(15) [OF sym sym])
declare equivalent_for_dedup.simps [simp del]

subsection \<open>The hash\<close>

text \<open>What is written to the hasher, piece by piece; \<open>Node\<close> is the address of an interned node.\<close>

datatype hash_token =
    Discriminant nat
  | Byte char
  | Text str
  | Key "str option"
  | Len nat
  | Flag bool
  | Tag nat
  | Int64 int
  | Bits f64
  | Node php_type

fun discriminant :: "php_type \<Rightarrow> nat" where
  "discriminant (Named _) = 0"
| "discriminant (StaticType _) = 1"
| "discriminant (ThisType _) = 2"
| "discriminant (Nullable _) = 3"
| "discriminant (UnionT _) = 4"
| "discriminant (Intersection _) = 5"
| "discriminant (Generic _) = 6"
| "discriminant (Array _) = 7"
| "discriminant (ArrayShape _) = 8"
| "discriminant (ObjectShape _) = 9"
| "discriminant (Callable _) = 10"
| "discriminant (Conditional _) = 11"
| "discriminant (ClassString _) = 12"
| "discriminant (InterfaceString _) = 13"
| "discriminant (KeyOf _) = 14"
| "discriminant (ValueOf _) = 15"
| "discriminant (IntRange _ _) = 16"
| "discriminant (IndexAccess _ _) = 17"
| "discriminant (Literal _) = 18"
| "discriminant (Raw _) = 19"
| "discriminant (Benevolent _) = 20"
| "discriminant (ListShape _) = 21"
| "discriminant (TemplateParam _ _) = 22"
| "discriminant (UnsealedShape _) = 23"
| "discriminant (ClassNameLiteral _) = 24"
| "discriminant (EnumCase _ _) = 25"
| "discriminant (DqlBuilder _ _) = 26"

definition hash_identifier :: "str \<Rightarrow> hash_token list" where
  "hash_identifier txt = map Byte (to_ascii_lowercase txt)"

definition hash_named_identifier :: "str \<Rightarrow> hash_token list" where
  "hash_named_identifier txt = Flag (txt = ''number'') # hash_identifier txt"

fun hash_literal :: "literal_value \<Rightarrow> hash_token list" where
  "hash_literal (LInt raw) =
     Tag 0 # (case literal_i64 (LInt raw) of Some n \<Rightarrow> [Tag 0, Int64 n] | None \<Rightarrow> [Tag 1, Text raw])"
| "hash_literal (LFloat raw) =
     Tag 1 # (case literal_f64 (LFloat raw) of
                Some f \<Rightarrow> if f = NaN then [Tag 0, Text raw]
                  else [Tag 1, Bits (if f64_eq f (Fin False 0 0) then Fin False 0 0 else f)]
              | None \<Rightarrow> [Tag 2, Text raw])"
| "hash_literal (LString raw) =
     Tag 2 # (case string_content (LString raw) of
                Some content \<Rightarrow> [Tag 0, Text content] | None \<Rightarrow> [Tag 1, Text raw])"

function hash_for_dedup :: "php_type \<Rightarrow> hash_token list" where
  "hash_for_dedup t =
     Discriminant (discriminant (kind t)) #
     (case as_enum_case t of Some (_, c) \<Rightarrow> [Text c] | None \<Rightarrow> []) @
     (case kind t of
        Named name \<Rightarrow> hash_named_identifier name
      | StaticType name \<Rightarrow> hash_identifier name
      | ThisType name \<Rightarrow> hash_identifier name
      | Nullable inner \<Rightarrow> hash_for_dedup inner
      | Array inner \<Rightarrow> hash_for_dedup inner
      | KeyOf inner \<Rightarrow> hash_for_dedup inner
      | ValueOf inner \<Rightarrow> hash_for_dedup inner
      | UnionT members \<Rightarrow> Len (length members) # concat (map hash_for_dedup members)
      | Intersection members \<Rightarrow> Len (length members) # concat (map hash_for_dedup members)
      | Generic g \<Rightarrow> hash_identifier (g_name g) @ Len (length (g_args g)) #
          concat (map hash_for_dedup (g_args g))
      | ArrayShape entries \<Rightarrow> Len (length entries) #
          concat (map (\<lambda>e. Key (entry_key e) # Flag (entry_optional e) # hash_for_dedup (value_type e)) entries)
      | ObjectShape entries \<Rightarrow> Len (length entries) #
          concat (map (\<lambda>e. Key (entry_key e) # Flag (entry_optional e) # hash_for_dedup (value_type e)) entries)
      | Callable c \<Rightarrow> hash_identifier (callable_kind c) @ Len (length (params c)) #
          concat (map (\<lambda>p. Flag (param_optional p) # Flag (variadic p) # hash_for_dedup (type_hint p)) (params c)) @
          Flag (return_type c \<noteq> None) #
          (case return_type c of Some r \<Rightarrow> hash_for_dedup r | None \<Rightarrow> [])
      | Conditional c \<Rightarrow> Text (cond_param c) # Flag (negated c) #
          hash_for_dedup (condition c) @ hash_for_dedup (then_type c) @ hash_for_dedup (else_type c)
      | ClassString inner \<Rightarrow> Flag (inner \<noteq> None) #
          (case inner of Some i \<Rightarrow> hash_for_dedup i | None \<Rightarrow> [])
      | InterfaceString inner \<Rightarrow> Flag (inner \<noteq> None) #
          (case inner of Some i \<Rightarrow> hash_for_dedup i | None \<Rightarrow> [])
      | IndexAccess a b \<Rightarrow> hash_for_dedup a @ hash_for_dedup b
      | Literal v \<Rightarrow> hash_literal v
      | _ \<Rightarrow> [Node t])"
  by pat_completeness auto
termination
  by (relation "measure size") (auto intro: kind_child [OF sym] kind_child(15) [OF sym sym])
declare hash_for_dedup.simps [simp del]

subsection \<open>Dropping repeated alternatives\<close>

definition has_duplicate_members :: "php_type list \<Rightarrow> bool" where
  "has_duplicate_members types =
     list_ex (\<lambda>i. list_ex (\<lambda>seen. equivalent_for_dedup seen (types ! i)) (take i types))
       [1..<length types]"

text \<open>
  The \<open>retain\<close> over the buckets: \<open>hasher\<close> gives the 64-bit hash of a stream, \<open>buckets\<close> the
  alternatives already kept under each hash.
\<close>

fun dedup_loop :: "(hash_token list \<Rightarrow> 'h) \<Rightarrow> ('h \<Rightarrow> php_type list option) \<Rightarrow> php_type list \<Rightarrow> php_type list" where
  "dedup_loop hasher buckets [] = []"
| "dedup_loop hasher buckets (t # ts) =
     (let h = hasher (hash_for_dedup t)
      in case buckets h of
           None \<Rightarrow> t # dedup_loop hasher (buckets(h \<mapsto> [t])) ts
         | Some existing \<Rightarrow>
             if list_ex (\<lambda>e. equivalent_for_dedup e t) existing then dedup_loop hasher buckets ts
             else t # dedup_loop hasher (buckets(h \<mapsto> existing @ [t])) ts)"

definition dedup_types :: "(hash_token list \<Rightarrow> 'h) \<Rightarrow> php_type list \<Rightarrow> php_type list" where
  "dedup_types hasher types = dedup_loop hasher Map.empty types"

subsection \<open>Equivalent types hash the same\<close>

text \<open>
  Types whose enum cases are built the way \<open>enum_case\<close> builds them, of enums not called
  \<open>number\<close>.
\<close>

function hashable_enums :: "php_type \<Rightarrow> bool" where
  "hashable_enums t \<longleftrightarrow>
     (case t of
        EnumCase e _ \<Rightarrow> (case e of Named n \<Rightarrow> \<not> eq_ignore_ascii_case n ''number'' | _ \<Rightarrow> False)
      | _ \<Rightarrow> True) \<and>
     list_all hashable_enums (node_children (kind t))"
  by pat_completeness auto
termination by (relation "measure size") (auto intro: kind_children_size)
declare hashable_enums.simps [simp del]

lemma hashable_child: "hashable_enums t \<Longrightarrow> c \<in> set (node_children (kind t)) \<Longrightarrow> hashable_enums c"
  by (simp add: hashable_enums.simps [of t] list_all_iff)

lemma zip_map_eq:
  "length a = length b \<Longrightarrow> (\<And>x y. (x, y) \<in> set (zip a b) \<Longrightarrow> f x = g y) \<Longrightarrow> map f a = map g b"
  by (induction a b rule: list_induct2) auto

lemma zip_mem: "(x, y) \<in> set (zip a b) \<Longrightarrow> x \<in> set a \<and> y \<in> set b"
  by (auto dest: set_zip_leftD set_zip_rightD)

lemma hash_identifier_eq: "identifiers_equivalent a b \<Longrightarrow> hash_identifier a = hash_identifier b"
  by (simp add: identifiers_equivalent_def eq_ignore_ascii_case_def hash_identifier_def)

lemma hash_named_eq: "named_identifiers_equivalent a b \<Longrightarrow> hash_named_identifier a = hash_named_identifier b"
  by (auto simp: named_identifiers_equivalent_def hash_named_identifier_def hash_identifier_def
      eq_ignore_ascii_case_def split: if_splits)

lemma f64_eq_bits:
  "f64_eq f g \<Longrightarrow> f \<noteq> NaN \<and> g \<noteq> NaN \<and>
     (if f64_eq f (Fin False 0 0) then Fin False 0 0 else f) = (if f64_eq g (Fin False 0 0) then Fin False 0 0 else g)"
  by (cases f; cases g) auto

lemma hash_literal_eq: "literals_equal a b \<Longrightarrow> hash_literal a = hash_literal b"
  by (cases a; cases b)
    (auto simp: same_reading_def dest: f64_eq_bits split: option.splits simp del: literal_i64.simps
      literal_f64.simps string_content.simps)

lemma marker_hash:
  assumes "marker_equivalence a b = Some True" "hashable_enums a" "hashable_enums b"
  shows "hash_for_dedup a = hash_for_dedup b"
proof (cases "a = b")
  case False
  then obtain m n c where enums: "as_enum_case a = Some (m, c)" "as_enum_case b = Some (n, c)"
    and mn: "identifiers_equivalent m n"
    using assms(1) by (auto simp: marker_equivalence_def split: if_splits option.splits)
  have "kind t = Named k \<and> \<not> eq_ignore_ascii_case k ''number''"
    if "as_enum_case t = Some (k, c)" "hashable_enums t" for t k
    using that by (cases t) (auto simp: as_enum_case_def hashable_enums.simps [of "EnumCase _ _"] split: php_type.splits)
  then have "kind a = Named m" "kind b = Named n" "\<not> eq_ignore_ascii_case m ''number''"
    "\<not> eq_ignore_ascii_case n ''number''"
    using enums assms(2,3) by blast+
  moreover from this have "hash_named_identifier m = hash_named_identifier n"
    using mn by (intro hash_named_eq) (simp add: named_identifiers_equivalent_def identifiers_equivalent_def)
  ultimately show ?thesis
    using enums by (simp add: hash_for_dedup.simps [of a] hash_for_dedup.simps [of b])
qed simp

lemma kinds_hash:
  assumes "equivalent_for_dedup a b" "marker_equivalence a b = None"
    and IH: "\<And>x y. x \<in> set (node_children (kind a)) \<Longrightarrow> y \<in> set (node_children (kind b)) \<Longrightarrow>
      equivalent_for_dedup x y \<Longrightarrow> hash_for_dedup x = hash_for_dedup y"
  shows "hash_for_dedup a = hash_for_dedup b"
proof -
  have none: "as_enum_case a = None" "as_enum_case b = None"
    using assms(2) by (cases "as_enum_case a"; cases "as_enum_case b";
        auto simp: marker_equivalence_def split: if_splits)+
  note hash = hash_for_dedup.simps [of a] hash_for_dedup.simps [of b]
  note eqv = assms(1) [unfolded equivalent_for_dedup.simps [of a b] assms(2) option.case]
  show ?thesis
  proof (cases "kind a")
    case (Callable c)
    then obtain d where d: "kind b = Callable d" using eqv by (cases "kind b") auto
    have "map (\<lambda>p. Flag (param_optional p) # Flag (variadic p) # hash_for_dedup (type_hint p)) (params c) =
        map (\<lambda>p. Flag (param_optional p) # Flag (variadic p) # hash_for_dedup (type_hint p)) (params d)"
      using eqv Callable d by (intro zip_map_eq) (auto simp: list_all_iff dest: zip_mem intro!: IH)
    moreover have "hash_identifier (callable_kind c) = hash_identifier (callable_kind d)"
      using eqv Callable d by (simp add: hash_identifier_eq)
    moreover have "rel_option (\<lambda>x y. hash_for_dedup x = hash_for_dedup y) (return_type c) (return_type d)"
      using eqv Callable d by (auto split: option.splits intro!: IH)
    ultimately show ?thesis
      using eqv Callable d none by (auto simp: hash split: option.splits)
  next
    case (UnionT xs)
    then obtain ys where ys: "kind b = UnionT ys" using eqv by (cases "kind b") auto
    have "map hash_for_dedup xs = map hash_for_dedup ys"
      using eqv UnionT ys by (intro zip_map_eq) (auto simp: list_all_iff dest: zip_mem intro!: IH)
    then show ?thesis using eqv UnionT ys none by (simp add: hash)
  next
    case (Intersection xs)
    then obtain ys where ys: "kind b = Intersection ys" using eqv by (cases "kind b") auto
    have "map hash_for_dedup xs = map hash_for_dedup ys"
      using eqv Intersection ys by (intro zip_map_eq) (auto simp: list_all_iff dest: zip_mem intro!: IH)
    then show ?thesis using eqv Intersection ys none by (simp add: hash)
  next
    case (Generic g)
    then obtain h where h: "kind b = Generic h" using eqv by (cases "kind b") auto
    have "map hash_for_dedup (g_args g) = map hash_for_dedup (g_args h)"
      using eqv Generic h by (intro zip_map_eq) (auto simp: list_all_iff dest: zip_mem intro!: IH)
    then show ?thesis using eqv Generic h none by (simp add: hash hash_identifier_eq)
  next
    case (ArrayShape xs)
    then obtain ys where ys: "kind b = ArrayShape ys" using eqv by (cases "kind b") auto
    have "map (\<lambda>e. Key (entry_key e) # Flag (entry_optional e) # hash_for_dedup (value_type e)) xs =
        map (\<lambda>e. Key (entry_key e) # Flag (entry_optional e) # hash_for_dedup (value_type e)) ys"
      using eqv ArrayShape ys by (intro zip_map_eq) (auto simp: list_all_iff dest: zip_mem intro!: IH)
    then show ?thesis using eqv ArrayShape ys none by (simp add: hash)
  next
    case (ObjectShape xs)
    then obtain ys where ys: "kind b = ObjectShape ys" using eqv by (cases "kind b") auto
    have "map (\<lambda>e. Key (entry_key e) # Flag (entry_optional e) # hash_for_dedup (value_type e)) xs =
        map (\<lambda>e. Key (entry_key e) # Flag (entry_optional e) # hash_for_dedup (value_type e)) ys"
      using eqv ObjectShape ys by (intro zip_map_eq) (auto simp: list_all_iff dest: zip_mem intro!: IH)
    then show ?thesis using eqv ObjectShape ys none by (simp add: hash)
  qed (use eqv none in \<open>cases "kind b"; auto simp: hash hash_named_eq hash_identifier_eq hash_literal_eq
         intro!: IH arg_cong2 [of _ _ _ _ "(@)"] split: option.splits; fail\<close>)+
qed

lemma equivalent_same_hash:
  "equivalent_for_dedup a b \<Longrightarrow> hashable_enums a \<Longrightarrow> hashable_enums b \<Longrightarrow>
     hash_for_dedup a = hash_for_dedup b"
proof (induction a arbitrary: b rule: kind_induct)
  case (node a)
  show ?case
  proof (cases "marker_equivalence a b")
    case None
    with node.prems(1) show ?thesis
      by (rule kinds_hash) (use node hashable_child in blast)
  next
    case (Some answer)
    then have "marker_equivalence a b = Some True"
      using node.prems(1) by (simp add: equivalent_for_dedup.simps [of a b])
    then show ?thesis using node.prems(2,3) by (rule marker_hash)
  qed
qed

text \<open>
  The exception is real: the equivalence reads the name of an enum in any casing, the hash takes
  \<open>number\<close> in lower case apart.
\<close>

lemma number_enum_cases_hash_apart:
  "equivalent_for_dedup (enum_case ''number'' ''A'') (enum_case ''Number'' ''A'')"
  "hash_for_dedup (enum_case ''number'' ''A'') \<noteq> hash_for_dedup (enum_case ''Number'' ''A'')"
  by code_simp+

subsection \<open>Deduplication against its reference\<close>

text \<open>Keep an alternative unless one already kept is equivalent to it.\<close>

fun keep_first :: "php_type list \<Rightarrow> php_type list \<Rightarrow> php_type list" where
  "keep_first kept [] = []"
| "keep_first kept (t # ts) =
     (if list_ex (\<lambda>e. equivalent_for_dedup e t) kept then keep_first kept ts
      else t # keep_first (kept @ [t]) ts)"

definition buckets_of :: "(hash_token list \<Rightarrow> 'h) \<Rightarrow> php_type list \<Rightarrow> 'h \<Rightarrow> php_type list option" where
  "buckets_of hasher kept h =
     (let b = filter (\<lambda>t. hasher (hash_for_dedup t) = h) kept in if b = [] then None else Some b)"

lemma buckets_of_snoc:
  "buckets_of hasher (kept @ [t]) =
     (buckets_of hasher kept)(hasher (hash_for_dedup t) \<mapsto>
       (case buckets_of hasher kept (hasher (hash_for_dedup t)) of None \<Rightarrow> [t] | Some b \<Rightarrow> b @ [t]))"
  by (rule ext) (simp add: buckets_of_def Let_def)

lemma bucket_finds_equivalent:
  assumes "list_all hashable_enums kept" "hashable_enums t"
  shows "list_ex (\<lambda>e. equivalent_for_dedup e t) kept \<longleftrightarrow>
    (case buckets_of hasher kept (hasher (hash_for_dedup t)) of
       None \<Rightarrow> False | Some b \<Rightarrow> list_ex (\<lambda>e. equivalent_for_dedup e t) b)"
  using assms equivalent_same_hash [of _ t]
  by (auto simp: buckets_of_def Let_def list_ex_iff list_all_iff filter_empty_conv)

lemma dedup_loop_keep_first:
  assumes "list_all hashable_enums kept" "list_all hashable_enums ts"
  shows "dedup_loop hasher (buckets_of hasher kept) ts = keep_first kept ts"
  using assms
proof (induction ts arbitrary: kept)
  case (Cons t ts)
  have IH: "dedup_loop hasher (buckets_of hasher kept) ts = keep_first kept ts"
    "dedup_loop hasher (buckets_of hasher (kept @ [t])) ts = keep_first (kept @ [t]) ts"
    using Cons by simp_all
  show ?case
    using bucket_finds_equivalent [of kept t hasher] Cons.prems IH
    by (auto simp: Let_def buckets_of_snoc split: option.splits)
qed simp

lemma equivalent_refl: "equivalent_for_dedup t t"
  by (simp add: equivalent_for_dedup.simps marker_equivalence_def)

lemma keep_first_members:
  "set (keep_first kept ts) \<subseteq> set ts"
  "t \<in> set ts \<Longrightarrow> \<exists>k \<in> set kept \<union> set (keep_first kept ts). equivalent_for_dedup k t"
proof (induction kept ts rule: keep_first.induct)
  case (2 kept x ts)
  { case 1 then show ?case using 2 by auto
  next
    case 2
    then show ?case
      using "2.IH" equivalent_refl [of t] by (cases "t = x") (auto simp: list_ex_iff)
  }
qed simp_all

lemma keep_first_distinct:
  "k \<in> set kept \<Longrightarrow> t \<in> set (keep_first kept ts) \<Longrightarrow> \<not> equivalent_for_dedup k t"
  by (induction kept ts rule: keep_first.induct) (auto simp: list_ex_iff split: if_splits)

lemma keep_first_pairwise:
  "sorted_wrt (\<lambda>k t. \<not> equivalent_for_dedup k t) (keep_first kept ts)"
proof (induction kept ts rule: keep_first.induct)
  case (2 kept t ts)
  then show ?case using keep_first_distinct [of t "kept @ [t]" _ ts] by auto
qed simp

lemma keep_first_changes:
  "\<forall>i < length ts. \<not> list_ex (\<lambda>e. equivalent_for_dedup e (ts ! i)) (kept @ take i ts) \<Longrightarrow>
     keep_first kept ts = ts"
proof (induction ts arbitrary: kept)
  case (Cons t ts)
  have "\<not> list_ex (\<lambda>e. equivalent_for_dedup e t) kept" using Cons.prems by (auto dest: spec [of _ 0])
  moreover have "keep_first (kept @ [t]) ts = ts"
  proof (rule Cons.IH, intro allI impI)
    fix i assume "i < length ts"
    then show "\<not> list_ex (\<lambda>e. equivalent_for_dedup e (ts ! i)) ((kept @ [t]) @ take i ts)"
      using Cons.prems by (auto dest: spec [of _ "Suc i"])
  qed
  ultimately show ?case by simp
qed simp

lemma pairwise_no_duplicates:
  "sorted_wrt (\<lambda>k t. \<not> equivalent_for_dedup k t) ts \<longleftrightarrow> \<not> has_duplicate_members ts"
  by (fastforce simp: has_duplicate_members_def list_ex_iff in_set_conv_nth sorted_wrt_iff_nth_less)

lemma no_duplicates_unchanged:
  assumes "\<not> has_duplicate_members ts"
  shows "keep_first [] ts = ts"
proof (rule keep_first_changes, intro allI impI)
  fix i assume "i < length ts"
  then show "\<not> list_ex (\<lambda>e. equivalent_for_dedup e (ts ! i)) ([] @ take i ts)"
    using assms by (cases i) (auto simp: has_duplicate_members_def list_ex_iff)
qed

text \<open>
  C6. Deduplication does not depend on the hasher: whatever 64-bit values (and collisions) it
  gives, the bucketed pass keeps exactly the alternatives the pairwise rule keeps, the first of
  each group.  Nothing is invented, every alternative is equivalent to one that is kept, no two
  kept ones repeat each other, and the pairwise test \<open>union\<close> uses to skip the pass on short
  unions answers whether there is anything to drop.  No enum of a single-case alternative may be
  called \<open>number\<close>, the one name whose hash depends on its casing although its equivalence does not.
\<close>

theorem dedup_types_correct:
  assumes "list_all hashable_enums ts"
  shows "dedup_types hasher ts = keep_first [] ts \<and>
    set (dedup_types hasher ts) \<subseteq> set ts \<and>
    (\<forall>t \<in> set ts. \<exists>k \<in> set (dedup_types hasher ts). equivalent_for_dedup k t) \<and>
    \<not> has_duplicate_members (dedup_types hasher ts) \<and>
    (has_duplicate_members ts \<longleftrightarrow> dedup_types hasher ts \<noteq> ts)"
proof (intro conjI)
  have "buckets_of hasher [] = Map.empty" by (rule ext) (simp add: buckets_of_def)
  then show ref: "dedup_types hasher ts = keep_first [] ts"
    using dedup_loop_keep_first [of "[]" ts hasher] assms by (simp add: dedup_types_def)
  show "set (dedup_types hasher ts) \<subseteq> set ts"
    and "\<forall>t \<in> set ts. \<exists>k \<in> set (dedup_types hasher ts). equivalent_for_dedup k t"
    using keep_first_members(1) [of "[]" ts] keep_first_members(2) [where kept = "[]"] by (auto simp: ref)
  show "\<not> has_duplicate_members (dedup_types hasher ts)"
    using keep_first_pairwise [of "[]" ts] pairwise_no_duplicates by (simp add: ref)
  then show "has_duplicate_members ts \<longleftrightarrow> dedup_types hasher ts \<noteq> ts"
    using no_duplicates_unchanged [of ts] by (auto simp: ref)
qed

lemma dedup_types_correct_witness:
  "dedup_types (\<lambda>ts. length ts mod 2) [named ''Foo'', literal_int ''16'', named ''FOO'', array_of (named ''foo'')] =
     [named ''Foo'', literal_int ''16'', array_of (named ''foo'')]"
proof -
  have "list_all hashable_enums [named ''Foo'', literal_int ''16'', named ''FOO'', array_of (named ''foo'')]"
    by (simp add: hashable_enums.simps named_def literal_int_def literal_def array_of_def)
  moreover have "keep_first [] [named ''Foo'', literal_int ''16'', named ''FOO'', array_of (named ''foo'')] =
      [named ''Foo'', literal_int ''16'', array_of (named ''foo'')]"
    by code_simp
  ultimately show ?thesis using dedup_types_correct [THEN conjunct1] by metis
qed

end
