(* ===== verification/Type_Union.thy ===== *)
theory Type_Union
  imports Type_Dedup Int_Interval "HOL-Library.Option_ord"
begin

section \<open>Unions and what they absorb\<close>

text \<open>
  \<open>PhpType::union\<close> of \<open>src/php_type/constructors.rs\<close> and the passes of
  \<open>src/php_type/normalize.rs\<close> it runs over the alternatives: a refinement beside its base, integer
  ranges that overlap or touch, shapes another shape covers and exact values beside the type they
  are one of.  A pass that edits the list in place answers the edited list.
\<close>

text \<open>\<open>retain_by_mask\<close> of \<open>src/util.rs\<close>, for a mask as long as the list.\<close>

definition retain_by_mask :: "'a list \<Rightarrow> bool list \<Rightarrow> 'a list" where
  "retain_by_mask items keep = map fst (filter snd (zip items keep))"

subsection \<open>Refinements beside their base\<close>

definition non_empty_prefix :: str where "non_empty_prefix = ''non-empty-''"

definition non_empty_base_name :: "str \<Rightarrow> str option" where
  "non_empty_base_name name =
     (let prefix = take (length non_empty_prefix) name; base = drop (length non_empty_prefix) name
      in if length non_empty_prefix \<le> length name \<and> base \<noteq> [] \<and>
            eq_ignore_ascii_case prefix non_empty_prefix
         then Some base else None)"

definition is_non_empty_refinement :: "php_type \<Rightarrow> bool" where
  "is_non_empty_refinement t =
     (case kind t of
        Named name \<Rightarrow> non_empty_base_name name \<noteq> None
      | Generic g \<Rightarrow> non_empty_base_name (g_name g) \<noteq> None
      | _ \<Rightarrow> False)"

definition unrefined_base :: "php_type \<Rightarrow> php_type option" where
  "unrefined_base t =
     (case kind t of
        Named name \<Rightarrow> map_option named (non_empty_base_name name)
      | Generic g \<Rightarrow> map_option (\<lambda>base. generic base (g_args g)) (non_empty_base_name (g_name g))
      | _ \<Rightarrow> None)"

definition is_non_empty_array_refinement :: "php_type \<Rightarrow> bool" where
  "is_non_empty_array_refinement t = (is_non_empty_refinement t \<and> is_array_like t)"

text \<open>The list, and whether the pass changed it.\<close>

definition absorb_empty_shape_into_non_empty_array :: "php_type list \<Rightarrow> php_type list \<times> bool" where
  "absorb_empty_shape_into_non_empty_array types =
     (if \<not> list_ex is_empty_array_shape types \<or> \<not> list_ex is_non_empty_array_refinement types
      then (types, False)
      else
        (filter (\<lambda>t. \<not> is_empty_array_shape t)
          (map (\<lambda>t. if is_non_empty_array_refinement t
             then (case unrefined_base t of Some base \<Rightarrow> base | None \<Rightarrow> t) else t) types), True))"

definition absorb_non_empty_refinements :: "php_type list \<Rightarrow> php_type list \<times> bool" where
  "absorb_non_empty_refinements types =
     (if length types < 2 \<or> \<not> list_ex is_non_empty_refinement types then (types, False)
      else
        let (types, changed) = absorb_empty_shape_into_non_empty_array types
        in if length types < 2 then (types, True)
           else
             let keep = map (\<lambda>t. case unrefined_base t of
                   Some base \<Rightarrow> \<not> list_ex (\<lambda>other. equivalent_for_dedup other base) types
                 | None \<Rightarrow> True) types;
                 kept = retain_by_mask types keep
             in (kept, changed \<or> length kept \<noteq> length types))"

subsection \<open>Integer ranges\<close>

text \<open>The interval an alternative stands for; an absent bound is unbounded.\<close>

definition int_alternative :: "php_type \<Rightarrow> (int option \<times> int option) option" where
  "int_alternative t =
     (case kind t of
        IntRange lo hi \<Rightarrow> Some
          ((if eq_ignore_ascii_case lo ''min'' then None else Some (parse_range_bound lo)),
           (if eq_ignore_ascii_case hi ''max'' then None else Some (parse_range_bound hi)))
      | Literal l \<Rightarrow> (case l of LInt _ \<Rightarrow> map_option (\<lambda>v. (Some v, Some v)) (literal_i64 l) | _ \<Rightarrow> None)
      | Named _ \<Rightarrow> if is_int t then Some (None, None) else None
      | _ \<Rightarrow> None)"

definition touches :: "int option \<Rightarrow> int option \<Rightarrow> bool" where
  "touches last_max lo =
     (case (last_max, lo) of (Some m, Some l) \<Rightarrow> l \<le> m + 1 | _ \<Rightarrow> True)"

definition wider_max :: "int option \<Rightarrow> int option \<Rightarrow> int option" where
  "wider_max a b = (case (a, b) of (Some x, Some y) \<Rightarrow> Some (max x y) | _ \<Rightarrow> None)"

text \<open>The merge loop; \<open>last\<close> is the interval last pushed.\<close>

fun merge_from :: "int option \<times> int option \<Rightarrow> (int option \<times> int option) list \<Rightarrow> (int option \<times> int option) list" where
  "merge_from (lo, hi) [] = [(lo, hi)]"
| "merge_from (lo, hi) ((lo', hi') # rest) =
     (if touches hi lo' then merge_from (lo, wider_max hi hi') rest
      else (lo, hi) # merge_from (lo', hi') rest)"

definition merge_intervals :: "(int option \<times> int option) list \<Rightarrow> (int option \<times> int option) list" where
  "merge_intervals ivs = (case ivs of [] \<Rightarrow> [] | i # rest \<Rightarrow> merge_from i rest)"

definition interval_type :: "int option \<times> int option \<Rightarrow> php_type" where
  "interval_type = (\<lambda>(lo, hi).
     case (lo, hi) of
       (None, None) \<Rightarrow> pt_int
     | (Some a, Some b) \<Rightarrow>
         if a = b then literal_int (show_int a) else int_range (show_int a) (show_int b)
     | (Some a, None) \<Rightarrow> int_range (show_int a) ''max''
     | (None, Some b) \<Rightarrow> int_range ''min'' (show_int b))"

definition is_int_range_type :: "php_type \<Rightarrow> bool" where
  "is_int_range_type t = (case kind t of IntRange _ _ \<Rightarrow> True | _ \<Rightarrow> False)"

definition absorb_int_ranges :: "php_type list \<Rightarrow> php_type list" where
  "absorb_int_ranges types =
     (if length types < 2 \<or> \<not> list_ex is_int_range_type types then types
      else
        let ivs = sort_key fst (List.map_filter int_alternative types);
            merged = merge_intervals ivs
        in if length merged = length ivs then types
           else
             let first = length (takeWhile (\<lambda>t. int_alternative t = None) types);
                 others = filter (\<lambda>t. int_alternative t = None) types
             in take first others @ map interval_type merged @ drop first others)"

subsection \<open>Shapes\<close>

definition is_list_shape :: "php_type \<Rightarrow> bool" where
  "is_list_shape t = (case t of ListShape _ \<Rightarrow> True | _ \<Rightarrow> False)"

definition is_array_shape_kind :: "php_type \<Rightarrow> bool" where
  "is_array_shape_kind t = (case kind t of ArrayShape _ \<Rightarrow> True | _ \<Rightarrow> False)"

text \<open>A key spelled out that is neither an integer nor a class constant.\<close>

definition plain_key :: "str option \<Rightarrow> bool" where
  "plain_key k = (case k of Some key \<Rightarrow> \<not> contains_str key ''::'' \<and> canonical_int_key key = None | None \<Rightarrow> False)"

definition lists_key :: "'a shape_entry list \<Rightarrow> str option \<Rightarrow> bool" where
  "lists_key entries key = list_ex (\<lambda>e. entry_key e = key) entries"

definition keys_rule_out_nesting :: "'a shape_entry list \<Rightarrow> 'a shape_entry list \<Rightarrow> bool" where
  "keys_rule_out_nesting narrower wider =
     (let plain = (\<lambda>entries. length entries \<le> 8 \<and> list_all (\<lambda>e. plain_key (entry_key e)) entries)
      in if \<not> plain narrower \<or> \<not> plain wider then False
         else list_ex (\<lambda>e. \<not> lists_key wider (entry_key e)) narrower \<or>
              list_ex (\<lambda>e. \<not> entry_optional e \<and> \<not> lists_key narrower (entry_key e)) wider)"

definition plain_shape_entries :: "php_type \<Rightarrow> php_type shape_entry list option" where
  "plain_shape_entries t =
     (case kind t of
        ArrayShape entries \<Rightarrow>
          if entries \<noteq> [] \<and> list_all (\<lambda>e. plain_key (entry_key e)) entries then Some entries else None
      | _ \<Rightarrow> None)"

record shape_key_index =
  by_key :: "str \<Rightarrow> nat list"
  others :: "nat list"
  built :: bool

definition shape_key_index_new :: "php_type list \<Rightarrow> shape_key_index" where
  "shape_key_index_new members =
     (if length members < 16 then \<lparr>by_key = (\<lambda>k. []), others = [], built = False\<rparr>
      else
        \<lparr>by_key = (\<lambda>k. concat (map (\<lambda>(i, m). case plain_shape_entries m of
             Some entries \<Rightarrow> map (\<lambda>e. i) (filter (\<lambda>e. entry_key e = Some k) entries)
           | None \<Rightarrow> []) (enumerate 0 members))),
         others = map fst (filter (\<lambda>(i, m). plain_shape_entries m = None) (enumerate 0 members)),
         built = True\<rparr>)"

definition candidates :: "shape_key_index \<Rightarrow> php_type \<Rightarrow> nat list option" where
  "candidates index member =
     (if \<not> built index then None
      else case plain_shape_entries member of
        Some (e # _) \<Rightarrow>
          (case entry_key e of Some k \<Rightarrow> Some (others index @ by_key index k) | None \<Rightarrow> None)
      | _ \<Rightarrow> None)"

definition position_where :: "('a \<Rightarrow> bool) \<Rightarrow> 'a list \<Rightarrow> nat option" where
  "position_where P xs = (if list_ex P xs then Some (length (takeWhile (\<lambda>x. \<not> P x) xs)) else None)"

definition shape_exactly_contained_in :: "php_type shape_entry list \<Rightarrow> bool \<Rightarrow> php_type \<Rightarrow> bool" where
  "shape_exactly_contained_in entries is_list supertype =
     (case kind supertype of
        ArrayShape wider \<Rightarrow>
          if is_list_shape supertype \<and> \<not> is_list \<or> keys_rule_out_nesting entries wider then False
          else (case (runtime_shape_keys entries, runtime_shape_keys wider) of
            (Some keys, Some wider_keys) \<Rightarrow>
              list_all (\<lambda>(entry, key).
                case position_where (\<lambda>k. k = key) wider_keys of
                  Some i \<Rightarrow> (\<not> entry_optional entry \<or> entry_optional (wider ! i)) \<and>
                    (is_mixed (value_type (wider ! i)) \<or>
                     equivalent_for_dedup (value_type entry) (value_type (wider ! i)))
                | None \<Rightarrow> False) (zip entries keys) \<and>
              list_all (\<lambda>(entry, key). entry_optional entry \<or> key \<in> set keys) (zip wider wider_keys)
          | _ \<Rightarrow> False)
      | _ \<Rightarrow> False)"

definition shape_exactly_contained_in_reverse :: "php_type \<Rightarrow> php_type \<Rightarrow> bool" where
  "shape_exactly_contained_in_reverse narrower wider =
     (case kind narrower of
        ArrayShape entries \<Rightarrow> shape_exactly_contained_in entries (is_list_shape narrower) wider
      | _ \<Rightarrow> False)"

text \<open>Alternative \<open>i\<close> is covered by alternative \<open>j\<close>; of two that cover each other the first stays.\<close>

definition subsumed_by :: "php_type list \<Rightarrow> nat \<Rightarrow> nat \<Rightarrow> bool" where
  "subsumed_by types i j =
     (j \<noteq> i \<and> is_array_shape_kind (types ! j) \<and>
      shape_exactly_contained_in_reverse (types ! i) (types ! j) \<and>
      (\<not> shape_exactly_contained_in_reverse (types ! j) (types ! i) \<or> j < i))"

definition absorb_subsumed_shapes :: "php_type list \<Rightarrow> php_type list" where
  "absorb_subsumed_shapes types =
     (if length types < 2 \<or> \<not> list_ex is_array_shape_kind types then types
      else
        let shapes = shape_key_index_new types;
            keep = map (\<lambda>i.
              if \<not> is_array_shape_kind (types ! i) then True
              else case candidates shapes (types ! i) of
                Some js \<Rightarrow> \<not> list_ex (subsumed_by types i) js
              | None \<Rightarrow> \<not> list_ex (subsumed_by types i) [0..<length types]) [0..<length types]
        in retain_by_mask types keep)"

subsection \<open>Exact values, and the union itself\<close>

definition absorb_exact_values :: "php_type list \<Rightarrow> php_type list" where
  "absorb_exact_values types =
     (if \<not> list_ex is_exact_value_marker types then types
      else
        let wider = map kind (filter (\<lambda>t. \<not> is_exact_value_marker t) types)
        in filter (\<lambda>t. \<not> is_exact_value_marker t \<or> kind t \<notin> set wider) types)"

definition union_deduped :: "(hash_token list \<Rightarrow> 'h) \<Rightarrow> php_type list \<Rightarrow> php_type" where
  "union_deduped hasher members =
     (if length members > 16 \<or> has_duplicate_members members then
        let members = dedup_types hasher members
        in if length members = 1 then hd members else UnionT members
      else UnionT members)"

definition union :: "(hash_token list \<Rightarrow> 'h) \<Rightarrow> php_type list \<Rightarrow> php_type" where
  "union hasher members =
     (if length members = 1 then hd members
      else
        let (members, changed) = absorb_non_empty_refinements members
        in if changed \<and> length members = 1 then hd members
           else
             let members = absorb_exact_values (absorb_subsumed_shapes (absorb_int_ranges members))
             in if length members = 1 then hd members else union_deduped hasher members)"

subsection \<open>Constructors that read enum cases as enums\<close>

definition is_enum_case :: "php_type \<Rightarrow> bool" where
  "is_enum_case t = (as_enum_case t \<noteq> None)"

definition enum_marker :: "php_type \<Rightarrow> php_type option" where
  "enum_marker t = (case t of EnumCase enum_type _ \<Rightarrow> Some enum_type | _ \<Rightarrow> None)"

function enum_cases_as_enums :: "(hash_token list \<Rightarrow> 'h) \<Rightarrow> php_type \<Rightarrow> php_type" where
  "enum_cases_as_enums hasher t =
     (case enum_marker t of
        Some enum_type \<Rightarrow> enum_type
      | None \<Rightarrow>
        (case kind t of
           UnionT members \<Rightarrow>
             if list_ex is_enum_case members then union hasher (map (enum_cases_as_enums hasher) members) else t
         | Nullable inner \<Rightarrow> if is_enum_case inner then nullable (enum_cases_as_enums hasher inner) else t
         | _ \<Rightarrow> t))"
  by pat_completeness auto
termination
  by (relation "measure (\<lambda>(hasher, t). size t)") (auto intro: kind_child [OF sym])
declare enum_cases_as_enums.simps [simp del]

definition class_string :: "(hash_token list \<Rightarrow> 'h) \<Rightarrow> php_type option \<Rightarrow> php_type" where
  "class_string hasher inner = ClassString (map_option (enum_cases_as_enums hasher) inner)"

definition interface_string :: "(hash_token list \<Rightarrow> 'h) \<Rightarrow> php_type option \<Rightarrow> php_type" where
  "interface_string hasher inner = InterfaceString (map_option (enum_cases_as_enums hasher) inner)"

definition class_name_literal :: "(hash_token list \<Rightarrow> 'h) \<Rightarrow> str \<Rightarrow> php_type" where
  "class_name_literal hasher class = ClassNameLiteral (class_string hasher (Some (named class)))"

text \<open>The types of runtime shape keys, of \<open>src/php_type/shape_keys.rs\<close>.\<close>

definition shape_key_type :: "(hash_token list \<Rightarrow> 'h) \<Rightarrow> str \<Rightarrow> php_type" where
  "shape_key_type hasher key =
     (if is_canonical_int_key key then literal_int key
      else case class_name_key key of
        Some class \<Rightarrow> class_string hasher (Some (named class))
      | None \<Rightarrow>
          if class_constant_key key \<noteq> None then named ''array-key''
          else literal (literal_string_value key))"

definition shape_key_literal :: "(hash_token list \<Rightarrow> 'h) \<Rightarrow> str \<Rightarrow> php_type option" where
  "shape_key_literal hasher key =
     (if is_canonical_int_key key then Some (literal_int key)
      else case class_name_key key of
        Some class \<Rightarrow> Some (class_name_literal hasher class)
      | None \<Rightarrow>
          if class_constant_key key \<noteq> None then None
          else Some (literal (literal_string_value key)))"

subsection \<open>Merging ranges keeps the integers\<close>

definition in_interval :: "int option \<times> int option \<Rightarrow> int \<Rightarrow> bool" where
  "in_interval r i =
     ((case fst r of Some l \<Rightarrow> l \<le> i | None \<Rightarrow> True) \<and> (case snd r of Some h \<Rightarrow> i \<le> h | None \<Rightarrow> True))"

lemma touching_union:
  assumes "touches hi lo'" "lo \<le> lo'"
  shows "in_interval (lo, wider_max hi hi') i \<longleftrightarrow> in_interval (lo, hi) i \<or> in_interval (lo', hi') i"
  using assms by (auto simp: touches_def wider_max_def in_interval_def split: option.splits)

lemma merge_from_covers:
  "sorted (lo # map fst ivs) \<Longrightarrow>
     (\<exists>v \<in> set (merge_from (lo, hi) ivs). in_interval v i) \<longleftrightarrow>
     in_interval (lo, hi) i \<or> (\<exists>v \<in> set ivs. in_interval v i)"
proof (induction "(lo, hi)" ivs arbitrary: lo hi rule: merge_from.induct)
  case (2 lo hi lo' hi' rest)
  then show ?case
    using touching_union [of hi lo' lo hi' i] by (cases "touches hi lo'") auto
qed simp

lemma merge_from_hd: "\<exists>hi'. hd (merge_from (lo, hi) ivs) = (lo, hi') \<and> merge_from (lo, hi) ivs \<noteq> []"
  by (induction "(lo, hi)" ivs arbitrary: lo hi rule: merge_from.induct) auto

lemma merge_from_apart: "successively (\<lambda>a b. \<not> touches (snd a) (fst b)) (merge_from (lo, hi) ivs)"
proof (induction "(lo, hi)" ivs arbitrary: lo hi rule: merge_from.induct)
  case (2 lo hi lo' hi' rest)
  then show ?case
    using merge_from_hd [of lo' hi' rest] by (auto simp: successively_Cons)
qed simp

definition bounds_ok :: "int option \<times> int option \<Rightarrow> bool" where
  "bounds_ok r = (pred_option in_i64 (fst r) \<and> pred_option in_i64 (snd r))"

lemma merge_from_bounds:
  "bounds_ok (lo, hi) \<Longrightarrow> list_all bounds_ok ivs \<Longrightarrow> list_all bounds_ok (merge_from (lo, hi) ivs)"
  by (induction "(lo, hi)" ivs arbitrary: lo hi rule: merge_from.induct)
    (auto simp: bounds_ok_def wider_max_def max_def split: option.splits)

lemma parse_i64_range: "parse_i64 s = Some n \<Longrightarrow> in_i64 n"
  by (auto simp: parse_i64_def i64_try_from_Some split: list.splits if_splits option.splits)

lemma parse_range_bound_range: "in_i64 (parse_range_bound s)"
  using parse_i64_range by (auto simp: parse_range_bound_def Let_def i64_defs split: option.split)

lemma parse_php_int_range: "parse_php_int_literal raw = Some n \<Longrightarrow> in_i64 n"
  by (auto simp: parse_php_int_literal_def Let_def i64_try_from_Some split: if_splits option.splits prod.splits)

lemma int_alternative_bounds: "int_alternative t = Some v \<Longrightarrow> bounds_ok v"
  using parse_range_bound_range parse_php_int_range
  by (auto simp: int_alternative_def bounds_ok_def split: php_type.splits if_splits literal_value.splits)

lemma lower_show_nat: "to_ascii_lowercase (show_nat n) = show_nat n"
  using show_nat_digits [of n]
  by (intro to_ascii_lowercase_id) (auto simp: list_all_iff is_ascii_digit_def is_ascii_uppercase_def)

lemma lower_show_int: "to_ascii_lowercase (show_int v) = show_int v"
  by (simp add: show_int_def lower_show_nat to_ascii_lowercase_def [of "_ # _"])
    (simp add: str_eval lower_show_nat flip: to_ascii_lowercase_def)

lemma parse_range_bound_show: "in_i64 v \<Longrightarrow> parse_range_bound (show_int v) = v"
  using show_int_not_keyword [of v]
  by (auto simp: parse_range_bound_def trim_show_int lower_show_int parse_i64_show_int Let_def)

lemma interval_type_reads_back: "bounds_ok v \<Longrightarrow> int_alternative (interval_type v) = Some v"
proof (cases v)
  case (Pair lo hi)
  assume "bounds_ok v"
  moreover have "int_alternative pt_int = Some (None, None)"
    using of_int_pt_int by (simp add: int_alternative_def keyword_types is_int.simps keyword_eval)
  ultimately show ?thesis
    using Pair show_int_not_keyword
    by (cases lo; cases hi) (auto simp: interval_type_def int_alternative_def literal_int_def
        literal_def int_range_def bounds_ok_def parse_range_bound_show parse_php_int_show)
qed

definition holds_int :: "int \<Rightarrow> php_type \<Rightarrow> bool" where
  "holds_int i t = (case int_alternative t of Some v \<Rightarrow> in_interval v i | None \<Rightarrow> False)"

definition int_alternatives :: "php_type list \<Rightarrow> (int option \<times> int option) list" where
  "int_alternatives types = List.map_filter int_alternative types"

lemma holds_int_alternatives:
  "list_ex (holds_int i) ts \<longleftrightarrow> list_ex (\<lambda>v. in_interval v i) (int_alternatives ts)"
  by (induction ts) (auto simp: holds_int_def int_alternatives_def map_filter_simps split: option.splits)

lemma int_alternatives_append: "int_alternatives (xs @ ys) = int_alternatives xs @ int_alternatives ys"
  by (simp add: int_alternatives_def map_filter_def)

lemma int_alternatives_none: "\<forall>t \<in> set ts. int_alternative t = None \<Longrightarrow> int_alternatives ts = []"
  by (simp add: int_alternatives_def map_filter_def filter_empty_conv)

lemma int_alternatives_types:
  "list_all bounds_ok vs \<Longrightarrow> int_alternatives (map interval_type vs) = vs"
  by (induction vs) (auto simp: int_alternatives_def map_filter_simps interval_type_reads_back)

lemma filter_ints_types:
  "list_all bounds_ok vs \<Longrightarrow> filter (\<lambda>t. int_alternative t = None) (map interval_type vs) = []"
  by (induction vs) (auto simp: interval_type_reads_back)

lemma alternatives_bounds: "list_all bounds_ok (int_alternatives ts)"
  using int_alternative_bounds
  by (auto simp: int_alternatives_def map_filter_def list_all_iff)

lemma merge_intervals_facts:
  assumes "sorted (map fst vs)" "list_all bounds_ok vs"
  shows "list_ex (\<lambda>v. in_interval v i) (merge_intervals vs) \<longleftrightarrow> list_ex (\<lambda>v. in_interval v i) vs"
    and "successively (\<lambda>a b. \<not> touches (snd a) (fst b)) (merge_intervals vs)"
    and "list_all bounds_ok (merge_intervals vs)"
proof -
  show "list_ex (\<lambda>v. in_interval v i) (merge_intervals vs) \<longleftrightarrow> list_ex (\<lambda>v. in_interval v i) vs"
  proof (cases vs)
    case (Cons v rest)
    then show ?thesis
      using assms merge_from_covers [of "fst v" rest "snd v" i]
      by (simp add: merge_intervals_def list_ex_iff)
  qed (simp add: merge_intervals_def)
  show "successively (\<lambda>a b. \<not> touches (snd a) (fst b)) (merge_intervals vs)"
    using merge_from_apart by (cases vs) (auto simp: merge_intervals_def)
  show "list_all bounds_ok (merge_intervals vs)"
    using assms merge_from_bounds by (cases vs) (auto simp: merge_intervals_def)
qed

text \<open>
  C7. Merging the integer ranges of a union keeps exactly the integers its alternatives hold,
  for overlapping, touching, empty and unbounded ranges alike, leaves every other alternative in
  its place among the others, and when it changes the union, no two of the ranges it leaves
  overlap or touch.
\<close>

theorem absorb_int_ranges_exact:
  "(list_ex (holds_int i) (absorb_int_ranges ts) \<longleftrightarrow> list_ex (holds_int i) ts) \<and>
   filter (\<lambda>t. int_alternative t = None) (absorb_int_ranges ts) =
     filter (\<lambda>t. int_alternative t = None) ts \<and>
   (absorb_int_ranges ts = ts \<or>
    successively (\<lambda>a b. \<not> touches (snd a) (fst b)) (int_alternatives (absorb_int_ranges ts)))"
proof -
  define vs where "vs = sort_key fst (int_alternatives ts)"
  define rest where "rest = filter (\<lambda>t. int_alternative t = None) ts"
  define n where "n = length (takeWhile (\<lambda>t. int_alternative t = None) ts)"
  have "sorted (map fst vs)" "list_all bounds_ok vs"
    using alternatives_bounds [of ts] by (simp_all add: vs_def list_all_iff)
  note facts = merge_intervals_facts [OF this]
  have plain: "\<forall>t \<in> set rest. int_alternative t = None" by (simp add: rest_def)
  then have none: "int_alternatives (take n rest) = []" "int_alternatives (drop n rest) = []"
    by (auto intro!: int_alternatives_none dest: in_set_takeD in_set_dropD)
  have "filter (\<lambda>t. int_alternative t = None) (take n rest) = take n rest"
    "filter (\<lambda>t. int_alternative t = None) (drop n rest) = drop n rest"
    using plain by (auto simp: filter_id_conv dest: in_set_takeD in_set_dropD)
  then have keep: "filter (\<lambda>t. int_alternative t = None) (take n rest @ ys @ drop n rest) = rest"
    if "filter (\<lambda>t. int_alternative t = None) ys = []" for ys
    using that by simp
  have "absorb_int_ranges ts = ts \<or>
      absorb_int_ranges ts = take n rest @ map interval_type (merge_intervals vs) @ drop n rest"
    unfolding absorb_int_ranges_def Let_def vs_def rest_def n_def int_alternatives_def
    by (simp split: if_split)
  then consider "absorb_int_ranges ts = ts"
    | "absorb_int_ranges ts = take n rest @ map interval_type (merge_intervals vs) @ drop n rest"
    by blast
  then show ?thesis
  proof cases
    case 2
    have alts: "int_alternatives (absorb_int_ranges ts) = merge_intervals vs"
      using none facts(3) by (simp add: 2 int_alternatives_append int_alternatives_types)
    then have "list_ex (holds_int i) (absorb_int_ranges ts) \<longleftrightarrow> list_ex (holds_int i) ts"
      unfolding holds_int_alternatives alts facts(1) by (simp add: vs_def list_ex_iff)
    moreover have "filter (\<lambda>t. int_alternative t = None) (absorb_int_ranges ts) = rest"
      unfolding 2 by (rule keep) (rule filter_ints_types [OF facts(3)])
    ultimately show ?thesis using facts(2) alts by (simp add: rest_def)
  qed simp
qed

subsection \<open>The shortcuts on shapes change nothing\<close>

text \<open>The comparison without the test on the spelled keys, and the pass without the index.\<close>

definition entries_covered :: "php_type shape_entry list \<Rightarrow> php_type shape_entry list \<Rightarrow> bool" where
  "entries_covered entries wider =
     (case (runtime_shape_keys entries, runtime_shape_keys wider) of
        (Some keys, Some wider_keys) \<Rightarrow>
          list_all (\<lambda>(entry, key).
            case position_where (\<lambda>k. k = key) wider_keys of
              Some i \<Rightarrow> (\<not> entry_optional entry \<or> entry_optional (wider ! i)) \<and>
                (is_mixed (value_type (wider ! i)) \<or>
                 equivalent_for_dedup (value_type entry) (value_type (wider ! i)))
            | None \<Rightarrow> False) (zip entries keys) \<and>
          list_all (\<lambda>(entry, key). entry_optional entry \<or> key \<in> set keys) (zip wider wider_keys)
      | _ \<Rightarrow> False)"

definition absorb_shapes_pairwise :: "php_type list \<Rightarrow> php_type list" where
  "absorb_shapes_pairwise types =
     map ((!) types) (filter (\<lambda>i. \<not> (is_array_shape_kind (types ! i) \<and>
       list_ex (subsumed_by types i) [0..<length types])) [0..<length types])"

lemma runtime_keys_plain:
  "list_all (\<lambda>e. plain_key (entry_key e)) es \<Longrightarrow> runtime_keys_from n b es = Some (map (\<lambda>e. the (entry_key e)) es)"
  by (induction es) (auto simp: plain_key_def split: option.splits)

lemma takeWhile_stops:
  "list_ex P xs \<Longrightarrow> length (takeWhile (\<lambda>x. \<not> P x) xs) < length xs \<and> P (xs ! length (takeWhile (\<lambda>x. \<not> P x) xs))"
  by (induction xs) auto

lemma position_where_Some: "position_where P xs = Some i \<Longrightarrow> i < length xs \<and> P (xs ! i)"
  using takeWhile_stops [of P xs] by (auto simp: position_where_def split: if_splits)

lemma plain_key_the: "plain_key k \<Longrightarrow> k = Some (the k)"
  by (auto simp: plain_key_def split: option.splits)

lemma plain_covered_keys:
  assumes "list_all (\<lambda>e. plain_key (entry_key e)) es" "list_all (\<lambda>e. plain_key (entry_key e)) ws"
    and "entries_covered es ws"
  shows "e \<in> set es \<Longrightarrow> lists_key ws (entry_key e)"
    and "w \<in> set ws \<Longrightarrow> entry_optional w \<or> lists_key es (entry_key w)"
proof -
  let ?k = "\<lambda>e. the (entry_key e)"
  have cov: "list_all (\<lambda>(entry, key). position_where (\<lambda>k. k = key) (map ?k ws) \<noteq> None) (zip es (map ?k es))"
    "list_all (\<lambda>(entry, key). entry_optional entry \<or> key \<in> set (map ?k es)) (zip ws (map ?k ws))"
    using assms by (auto simp: entries_covered_def runtime_shape_keys_def runtime_keys_plain list_all_iff
        split: option.splits)
  have plain: "x \<in> set es \<union> set ws \<Longrightarrow> entry_key x = Some (?k x)" for x
    using assms(1,2) plain_key_the by (auto simp: list_all_iff)
  show "lists_key ws (entry_key e)" if e: "e \<in> set es"
  proof -
    obtain i where "i < length es" "es ! i = e" using e by (auto simp: in_set_conv_nth)
    then have "(e, ?k e) \<in> set (zip es (map ?k es))" by (force simp: set_zip)
    then have "\<exists>w \<in> set ws. ?k w = ?k e"
      using cov(1) by (fastforce simp: list_all_iff position_where_def list_ex_iff split: if_splits)
    then show ?thesis using plain e by (auto simp: lists_key_def list_ex_iff) (metis UnI1 UnI2)
  qed
  show "entry_optional w \<or> lists_key es (entry_key w)" if w: "w \<in> set ws"
  proof -
    obtain i where "i < length ws" "ws ! i = w" using w by (auto simp: in_set_conv_nth)
    then have "(w, ?k w) \<in> set (zip ws (map ?k ws))" by (force simp: set_zip)
    then have "entry_optional w \<or> (\<exists>e \<in> set es. ?k e = ?k w)"
      using cov(2) by (fastforce simp: list_all_iff)
    then show ?thesis using plain w by (auto simp: lists_key_def list_ex_iff) (metis UnI1 UnI2)
  qed
qed

lemma keys_rule_out_sound:
  assumes "keys_rule_out_nesting es ws"
  shows "\<not> entries_covered es ws"
proof
  assume cov: "entries_covered es ws"
  have plain: "list_all (\<lambda>e. plain_key (entry_key e)) es" "list_all (\<lambda>e. plain_key (entry_key e)) ws"
    using assms by (auto simp: keys_rule_out_nesting_def Let_def split: if_splits)
  from assms plain plain_covered_keys [OF plain cov] show False
    by (auto simp: keys_rule_out_nesting_def Let_def list_ex_iff split: if_splits)
qed

lemma contained_without_shortcut:
  "shape_exactly_contained_in es is_list t =
     (case kind t of
        ArrayShape ws \<Rightarrow> (\<not> is_list_shape t \<or> is_list) \<and> entries_covered es ws
      | _ \<Rightarrow> False)"
proof (cases "kind t")
  case (ArrayShape ws)
  then show ?thesis
    using keys_rule_out_sound [of es ws]
    by (cases "keys_rule_out_nesting es ws")
      (simp_all add: shape_exactly_contained_in_def, simp add: entries_covered_def)
qed (simp_all add: shape_exactly_contained_in_def)

text \<open>What the index leaves out of the candidates covers nothing.\<close>

lemma plain_shape_entries_Some:
  "plain_shape_entries t = Some es \<longleftrightarrow>
     kind t = ArrayShape es \<and> es \<noteq> [] \<and> list_all (\<lambda>e. plain_key (entry_key e)) es"
  by (auto simp: plain_shape_entries_def split: php_type.splits)

lemma candidates_complete:
  assumes "candidates (shape_key_index_new ts) t = Some js" "j < length ts"
    and "is_array_shape_kind (ts ! j)" "shape_exactly_contained_in_reverse t (ts ! j)"
  shows "j \<in> set js"
proof -
  let ?ix = "shape_key_index_new ts"
  obtain e es k where t: "plain_shape_entries t = Some (e # es)" "entry_key e = Some k"
    and js: "js = others ?ix @ by_key ?ix k" and "built ?ix"
    using assms(1) by (auto simp: candidates_def split: if_splits option.splits list.splits)
  then have ix: "\<not> length ts < 16" by (auto simp: shape_key_index_new_def split: if_splits)
  have enum: "(j, ts ! j) \<in> set (enumerate 0 ts)"
    using assms(2) by (auto simp: in_set_enumerate_eq)
  show ?thesis
  proof (cases "plain_shape_entries (ts ! j)")
    case None
    then show ?thesis using ix enum by (force simp: js shape_key_index_new_def)
  next
    case (Some ws)
    then have "entries_covered (e # es) ws"
      using assms(4) t by (auto simp: shape_exactly_contained_in_reverse_def plain_shape_entries_Some
          contained_without_shortcut)
    then have "lists_key ws (entry_key e)"
      using t(1) Some by (intro plain_covered_keys(1)) (auto simp: plain_shape_entries_Some)
    then have "j \<in> set (by_key ?ix k)"
      using ix enum Some t(2) by (force simp: shape_key_index_new_def lists_key_def list_ex_iff)
    then show ?thesis by (simp add: js)
  qed
qed

lemma candidates_bounded:
  "candidates (shape_key_index_new ts) t = Some js \<Longrightarrow> j \<in> set js \<Longrightarrow> j < length ts"
  by (auto simp: candidates_def shape_key_index_new_def in_set_enumerate_eq
      split: if_splits option.splits list.splits)

lemma retain_by_mask_map: "retain_by_mask xs (map P [0..<length xs]) = map ((!) xs) (filter P [0..<length xs])"
proof -
  have "zip xs (map P [0..<length xs]) = map (\<lambda>i. (xs ! i, P i)) [0..<length xs]"
    by (rule nth_equalityI) simp_all
  then show ?thesis by (simp add: retain_by_mask_def filter_map comp_def)
qed

lemma no_shapes_subsumed:
  "length ts < 2 \<or> \<not> list_ex is_array_shape_kind ts \<Longrightarrow> absorb_shapes_pairwise ts = ts"
proof -
  assume "length ts < 2 \<or> \<not> list_ex is_array_shape_kind ts"
  then have "i < length ts \<Longrightarrow> \<not> (is_array_shape_kind (ts ! i) \<and> list_ex (subsumed_by ts i) [0..<length ts])" for i
    by (auto simp: subsumed_by_def list_ex_iff dest: nth_mem)
  then have "filter (\<lambda>i. \<not> (is_array_shape_kind (ts ! i) \<and> list_ex (subsumed_by ts i) [0..<length ts]))
      [0..<length ts] = [0..<length ts]"
    by (auto simp: filter_id_conv)
  then show ?thesis by (simp only: absorb_shapes_pairwise_def map_nth)
qed

lemma absorb_subsumed_pairwise: "absorb_subsumed_shapes ts = absorb_shapes_pairwise ts"
proof (cases "length ts < 2 \<or> \<not> list_ex is_array_shape_kind ts")
  case True
  then show ?thesis using no_shapes_subsumed by (auto simp: absorb_subsumed_shapes_def)
next
  case False
  have "list_ex (subsumed_by ts i) js \<longleftrightarrow> list_ex (subsumed_by ts i) [0..<length ts]"
    if "candidates (shape_key_index_new ts) (ts ! i) = Some js" for i js
    using candidates_complete [OF that] candidates_bounded [OF that]
    by (auto simp: list_ex_iff subsumed_by_def)
  then have "(if \<not> is_array_shape_kind (ts ! i) then True
      else case candidates (shape_key_index_new ts) (ts ! i) of
        Some js \<Rightarrow> \<not> list_ex (subsumed_by ts i) js
      | None \<Rightarrow> \<not> list_ex (subsumed_by ts i) [0..<length ts]) =
    (\<not> (is_array_shape_kind (ts ! i) \<and> list_ex (subsumed_by ts i) [0..<length ts]))" for i
    by (auto split: option.split)
  then show ?thesis
    using False by (simp add: absorb_subsumed_shapes_def absorb_shapes_pairwise_def retain_by_mask_map)
qed

text \<open>
  C8. The two shortcuts of the shape pass change no answer.  A shape whose spelled keys rule out
  nesting is not covered by the full comparison either, and looking only at the members the key
  index names drops exactly the shapes a comparison of every pair would drop.
\<close>

theorem absorb_subsumed_shapes_correct:
  "absorb_subsumed_shapes ts = absorb_shapes_pairwise ts \<and>
   shape_exactly_contained_in es is_list t =
     (case kind t of
        ArrayShape ws \<Rightarrow> (if is_list_shape t then is_list else True) \<and> entries_covered es ws
      | _ \<Rightarrow> False)"
proof
  show "absorb_subsumed_shapes ts = absorb_shapes_pairwise ts" by (rule absorb_subsumed_pairwise)
qed (simp add: contained_without_shortcut split: php_type.split)

end
