(* ===== verification/Subtype.thy ===== *)
theory Subtype
  imports Type_Union
begin

section \<open>Structural subtyping\<close>

text \<open>
  \<open>PhpType::is_subtype_of\<close> of \<open>src/php_type/subtype.rs\<close>: the subtype relation the structure of
  two types decides without a class hierarchy.  The method calls itself on types it has rewritten
  (\<open>?T\<close> as \<open>T|null\<close>, \<open>array-key\<close> as \<open>int|string\<close>), so each phase is a function of the recursive
  answer \<open>rec\<close>; \<open>is_structural_subtype_of\<close> ties the knot with enough depth for the two types, and
  \<open>structural_subtype_unfold\<close> shows it is the one solution of the code's own recursion.
\<close>

subsection \<open>Shapes read for comparison\<close>

record shape_parts =
  sp_entries :: "php_type shape_entry list"
  sp_tail :: "(php_type \<times> php_type) option"
  sp_is_list :: bool

definition shape_parts_of :: "php_type \<Rightarrow> shape_parts option" where
  "shape_parts_of t =
     (case as_unsealed_shape t of
        Some u \<Rightarrow>
          (case kind (us_shape u) of
             ArrayShape entries \<Rightarrow> Some \<lparr>sp_entries = entries, sp_tail = Some (us_key u, us_value u),
               sp_is_list = is_list_shape (us_shape u)\<rparr>
           | _ \<Rightarrow> None)
      | None \<Rightarrow>
          (case kind t of
             ArrayShape entries \<Rightarrow> Some \<lparr>sp_entries = entries, sp_tail = None, sp_is_list = is_list_shape t\<rparr>
           | _ \<Rightarrow> None))"

text \<open>\<open>KeyPositions::find\<close>; past 15 keys the map built last-in wins for a key listed twice.\<close>

definition last_position :: "str \<Rightarrow> str list \<Rightarrow> nat option" where
  "last_position key keys = map_of (rev (zip keys [0..<length keys])) key"

definition find_key_position :: "str list \<Rightarrow> str \<Rightarrow> nat \<Rightarrow> nat option" where
  "find_key_position keys key hint =
     (if hint < length keys \<and> keys ! hint = key then Some hint
      else if length keys < 16 then position_where (\<lambda>k. k = key) keys
      else last_position key keys)"

fun keys_sequential_from :: "int \<Rightarrow> bool \<Rightarrow> 'a shape_entry list \<Rightarrow> bool" where
  "keys_sequential_from pos seen_optional [] = True"
| "keys_sequential_from pos seen_optional (entry # entries) =
     (if seen_optional \<and> \<not> entry_optional entry then False
      else (case entry_key entry of
              None \<Rightarrow> True
            | Some key \<Rightarrow> canonical_int_key key = Some pos) \<and>
        keys_sequential_from (pos + 1) (seen_optional \<or> entry_optional entry) entries)"

definition shape_keys_are_sequential :: "'a shape_entry list \<Rightarrow> bool" where
  "shape_keys_are_sequential entries = keys_sequential_from 0 False entries"

definition parts_are_list :: "shape_parts \<Rightarrow> bool" where
  "parts_are_list p = (sp_is_list p \<or> (sp_tail p = None \<and> shape_keys_are_sequential (sp_entries p)))"

text \<open>The entries \<open>sub\<close> lists, each against the entry of \<open>wider\<close> under its key or its tail.\<close>

definition listed_fit :: "(hash_token list \<Rightarrow> 'h) \<Rightarrow> (php_type \<Rightarrow> php_type \<Rightarrow> bool) \<Rightarrow>
    shape_parts \<Rightarrow> str list \<Rightarrow> shape_parts \<Rightarrow> str list \<Rightarrow> bool" where
  "listed_fit hasher rec sub keys wider wider_keys =
     list_all (\<lambda>(i, entry, key).
       case find_key_position wider_keys key i of
         Some j \<Rightarrow>
           (\<not> entry_optional entry \<or> entry_optional (sp_entries wider ! j)) \<and>
           rec (value_type entry) (value_type (sp_entries wider ! j))
       | None \<Rightarrow>
           (case sp_tail wider of
              None \<Rightarrow> False
            | Some (tail_key, tail_value) \<Rightarrow>
                rec (shape_key_type hasher key) tail_key \<and> rec (value_type entry) tail_value))
       (enumerate 0 (zip (sp_entries sub) keys))"

definition wider_fit :: "(hash_token list \<Rightarrow> 'h) \<Rightarrow> (php_type \<Rightarrow> php_type \<Rightarrow> bool) \<Rightarrow>
    shape_parts \<Rightarrow> str list \<Rightarrow> shape_parts \<Rightarrow> str list \<Rightarrow> bool" where
  "wider_fit hasher rec sub keys wider wider_keys =
     list_all (\<lambda>(i, entry, key).
       find_key_position keys key i \<noteq> None \<or>
       (entry_optional entry \<and>
        (case sp_tail sub of
           None \<Rightarrow> True
         | Some (tail_key, tail_value) \<Rightarrow>
             \<not> rec (shape_key_type hasher key) tail_key \<or> rec tail_value (value_type entry))))
       (enumerate 0 (zip (sp_entries wider) wider_keys))"

definition tails_fit :: "(php_type \<Rightarrow> php_type \<Rightarrow> bool) \<Rightarrow> shape_parts \<Rightarrow> shape_parts \<Rightarrow> bool" where
  "tails_fit rec sub wider =
     (case sp_tail sub of
        None \<Rightarrow> True
      | Some (tail_key, tail_value) \<Rightarrow>
          (case sp_tail wider of
             None \<Rightarrow> False
           | Some (wider_key, wider_value) \<Rightarrow> rec tail_key wider_key \<and> rec tail_value wider_value))"

definition shape_is_subshape :: "(hash_token list \<Rightarrow> 'h) \<Rightarrow> (php_type \<Rightarrow> php_type \<Rightarrow> bool) \<Rightarrow>
    shape_parts \<Rightarrow> shape_parts \<Rightarrow> bool" where
  "shape_is_subshape hasher rec sub wider =
     (if sp_is_list wider \<and> \<not> parts_are_list sub then False
      else if sp_tail wider = None \<and> keys_rule_out_nesting (sp_entries sub) (sp_entries wider) then False
      else case (runtime_shape_keys (sp_entries sub), runtime_shape_keys (sp_entries wider)) of
        (Some keys, Some wider_keys) \<Rightarrow>
          listed_fit hasher rec sub keys wider wider_keys \<and>
          wider_fit hasher rec sub keys wider wider_keys \<and> tails_fit rec sub wider
      | _ \<Rightarrow> False)"

definition int_or_string :: "(hash_token list \<Rightarrow> 'h) \<Rightarrow> php_type" where
  "int_or_string hasher = union hasher [pt_int, pt_string]"

definition array_like_key_value :: "(hash_token list \<Rightarrow> 'h) \<Rightarrow> php_type generic_type \<Rightarrow> (php_type \<times> php_type) option" where
  "array_like_key_value hasher g =
     (case g_args g of
        [v] \<Rightarrow>
          let name = to_ascii_lowercase (g_name g)
          in Some (if name \<in> set [''list'', ''non-empty-list''] then pt_int
                   else if name = ''iterable'' then pt_mixed else int_or_string hasher, v)
      | [k, v] \<Rightarrow> Some (k, v)
      | _ \<Rightarrow> None)"

text \<open>The key and value types an array that is no shape holds, and whether it is a list.\<close>

definition plain_array_parts :: "(hash_token list \<Rightarrow> 'h) \<Rightarrow> php_type \<Rightarrow> (php_type \<times> php_type \<times> bool) option" where
  "plain_array_parts hasher array =
     (case kind array of
        Generic g \<Rightarrow>
          if is_array_like_name (g_name g) \<and> \<not> eq_ignore_ascii_case (g_name g) ''iterable''
          then map_option (\<lambda>(k, v). (k, v, is_list_name (g_name g))) (array_like_key_value hasher g)
          else None
      | Array v \<Rightarrow> Some (int_or_string hasher, v, False)
      | Named name \<Rightarrow>
          let lower = to_ascii_lowercase name
          in if lower \<in> set [''array'', ''non-empty-array''] then Some (int_or_string hasher, pt_mixed, False)
             else if lower \<in> set [''list'', ''non-empty-list''] then Some (pt_int, pt_mixed, True)
             else None
      | _ \<Rightarrow> None)"

definition array_is_unsealed_subshape :: "(hash_token list \<Rightarrow> 'h) \<Rightarrow> (php_type \<Rightarrow> php_type \<Rightarrow> bool) \<Rightarrow>
    php_type \<Rightarrow> php_type \<Rightarrow> bool option" where
  "array_is_unsealed_subshape hasher rec array wider =
     (case shape_parts_of wider of
        None \<Rightarrow> None
      | Some w \<Rightarrow>
          if sp_tail w = None \<or> shape_parts_of array \<noteq> None then None
          else map_option (\<lambda>(k, v, is_list).
                 shape_is_subshape hasher rec \<lparr>sp_entries = [], sp_tail = Some (k, v), sp_is_list = is_list\<rparr> w)
               (plain_array_parts hasher array))"

subsection \<open>The phases\<close>

type_synonym answers = "php_type \<Rightarrow> php_type \<Rightarrow> bool"

definition template_named :: "php_type \<Rightarrow> php_type \<Rightarrow> bool" where
  "template_named t supertype =
     (case (as_template_param t, supertype) of
        (Some (name, _), Named n) \<Rightarrow> n = name
      | _ \<Rightarrow> False)"

definition is_composite :: "php_type \<Rightarrow> bool" where
  "is_composite t = (case kind t of UnionT _ \<Rightarrow> True | Intersection _ \<Rightarrow> True | _ \<Rightarrow> False)"

definition nullable_inner :: "php_type \<Rightarrow> php_type option" where
  "nullable_inner t = (case kind t of Nullable inner \<Rightarrow> Some inner | _ \<Rightarrow> None)"

definition subtype_by_normalising :: "(hash_token list \<Rightarrow> 'h) \<Rightarrow> answers \<Rightarrow> php_type \<Rightarrow> php_type \<Rightarrow> bool option" where
  "subtype_by_normalising hasher rec self supertype =
     (if self = supertype then Some True
      else if template_named self supertype then Some True
      else if is_never self \<or> is_mixed supertype then Some True
      else case nullable_inner self of
        Some inner \<Rightarrow> Some (rec (union hasher [inner, pt_null]) supertype)
      | None \<Rightarrow>
      case nullable_inner supertype of
        Some inner \<Rightarrow> Some (rec self (union hasher [inner, pt_null]))
      | None \<Rightarrow>
        if is_array_key self then Some (rec (int_or_string hasher) supertype)
        else case as_enum_case supertype of
          Some (sup_enum, sup_case) \<Rightarrow>
            if is_composite self then None
            else Some (case as_enum_case self of
                Some (sub_enum, sub_case) \<Rightarrow> sub_case = sup_case \<and> is_named_subtype sub_enum sup_enum
              | None \<Rightarrow> False)
        | None \<Rightarrow> None)"

definition subtype_of_composite :: "answers \<Rightarrow> php_type \<Rightarrow> php_type \<Rightarrow> bool option" where
  "subtype_of_composite rec self supertype =
     (case kind self of
        UnionT members \<Rightarrow>
          (case kind supertype of
             UnionT wider \<Rightarrow>
               if length wider \<ge> 8
               then Some (list_all (\<lambda>m. m \<in> set wider \<or> rec m supertype) members)
               else Some (list_all (\<lambda>m. rec m supertype) members)
           | _ \<Rightarrow> Some (list_all (\<lambda>m. rec m supertype) members))
      | k \<Rightarrow>
          (case kind supertype of
             UnionT members \<Rightarrow> Some (list_ex (\<lambda>m. rec self m) members)
           | Intersection members \<Rightarrow> Some (list_all (\<lambda>m. rec self m) members)
           | _ \<Rightarrow>
               (case k of
                  Intersection members \<Rightarrow> Some (list_ex (\<lambda>m. rec m supertype) members)
                | _ \<Rightarrow> None)))"

definition literal_is_subtype_of :: "literal_value \<Rightarrow> php_type \<Rightarrow> bool" where
  "literal_is_subtype_of lit supertype =
     (case kind supertype of
        Literal other \<Rightarrow> literals_equal lit other
      | IntRange lo hi \<Rightarrow>
          (case literal_i64 lit of Some v \<Rightarrow> int_literal_is_within_range v lo hi | None \<Rightarrow> False)
      | Named n \<Rightarrow> literal_below_name lit n
      | _ \<Rightarrow> False)"

definition range_below_name :: "str \<Rightarrow> str \<Rightarrow> str \<Rightarrow> bool" where
  "range_below_name sub_min sub_max n =
     (let sup_l = to_ascii_lowercase n
      in if sup_l \<in> set [''int'', ''integer'', ''float'', ''double'', ''real'', ''numeric'', ''number'',
            ''scalar'', ''array-key''] then True
         else case refined_int_to_range sup_l of
           Some (sup_min, sup_max) \<Rightarrow> int_range_is_subrange sub_min sub_max sup_min sup_max
         | None \<Rightarrow>
             sup_l = ''non-zero-int'' \<and> (parse_range_bound sub_min \<ge> 1 \<or> parse_range_bound sub_max \<le> - 1))"

definition subtype_of_scalar :: "php_type \<Rightarrow> php_type \<Rightarrow> bool option" where
  "subtype_of_scalar self supertype =
     (case (kind self, kind supertype) of
        (Named n, Named m) \<Rightarrow> Some (is_named_subtype n m)
      | (StaticType n, Named m) \<Rightarrow> Some (is_named_subtype n m)
      | (StaticType n, StaticType m) \<Rightarrow> Some (is_named_subtype n m)
      | (ThisType n, Named m) \<Rightarrow> Some (is_named_subtype n m)
      | (ThisType n, StaticType m) \<Rightarrow> Some (is_named_subtype n m)
      | (Literal lit, _) \<Rightarrow> Some (literal_is_subtype_of lit supertype)
      | (IntRange lo hi, Named m) \<Rightarrow> Some (range_below_name lo hi m)
      | (IntRange lo hi, IntRange lo' hi') \<Rightarrow> Some (int_range_is_subrange lo hi lo' hi')
      | (Named n, IntRange lo' hi') \<Rightarrow>
          (case refined_int_to_range (to_ascii_lowercase n) of
             Some (lo, hi) \<Rightarrow> Some (int_range_is_subrange lo hi lo' hi')
           | None \<Rightarrow> None)
      | _ \<Rightarrow> None)"

definition shape_is_subtype_of_array :: "answers \<Rightarrow> php_type \<Rightarrow> php_type shape_entry list \<Rightarrow> php_type \<Rightarrow> bool option" where
  "shape_is_subtype_of_array rec self entries supertype =
     (let is_non_empty = list_ex (\<lambda>e. \<not> entry_optional e) entries;
          is_list = is_list_shape self \<or> shape_keys_are_sequential entries
      in case kind supertype of
        Named n \<Rightarrow>
          let lower = to_ascii_lowercase n
          in Some (if lower \<in> set [''array'', ''iterable''] then True
                   else if lower = ''non-empty-array'' then is_non_empty
                   else if lower = ''list'' then is_list
                   else if lower = ''non-empty-list'' then is_list \<and> is_non_empty
                   else False)
      | Generic g \<Rightarrow>
          if \<not> is_array_like_name (g_name g) then None
          else if is_non_empty_array_name (g_name g) \<and> \<not> is_non_empty then Some False
          else if is_list_name (g_name g) \<and> \<not> is_list then Some False
          else (case g_args g of
              [val_type] \<Rightarrow> Some (list_all (\<lambda>e. rec (value_type e) val_type) entries)
            | [key_type, val_type] \<Rightarrow>
                Some (list_all (\<lambda>e.
                  rec (case entry_key e of
                         Some k \<Rightarrow> if is_canonical_int_key k then pt_int else pt_string
                       | None \<Rightarrow> pt_int) key_type \<and>
                  rec (value_type e) val_type) entries)
            | _ \<Rightarrow> None)
      | Array inner \<Rightarrow> Some (list_all (\<lambda>e. rec (value_type e) inner) entries)
      | _ \<Rightarrow> None)"

text \<open>\<open>T[]\<close> and the two rules that start from a generic array.\<close>

definition slice_is_subtype :: "answers \<Rightarrow> php_type \<Rightarrow> php_type \<Rightarrow> bool option" where
  "slice_is_subtype rec inner_sub supertype =
     (case kind supertype of
        Named n \<Rightarrow> Some (to_ascii_lowercase n \<in> set [''array'', ''iterable''])
      | Array inner_sup \<Rightarrow> Some (rec inner_sub inner_sup)
      | Generic g \<Rightarrow>
          if is_array_like_name (g_name g) \<and> g_args g \<noteq> [] then Some (rec inner_sub (last (g_args g)))
          else None
      | _ \<Rightarrow> None)"

definition keeps_promises :: "str \<Rightarrow> str \<Rightarrow> bool" where
  "keeps_promises sub_name sup_name =
     ((\<not> is_list_name sup_name \<or> is_list_name sub_name) \<and>
      (\<not> is_non_empty_array_name sup_name \<or> is_non_empty_array_name sub_name))"

definition bases_compatible :: "str \<Rightarrow> str \<Rightarrow> bool" where
  "bases_compatible sub_name sup_name =
     (to_ascii_lowercase sub_name = to_ascii_lowercase sup_name \<or>
      (is_array_like_name sub_name \<and> is_array_like_name sup_name \<and> keeps_promises sub_name sup_name))"

definition generic_is_subtype :: "(hash_token list \<Rightarrow> 'h) \<Rightarrow> answers \<Rightarrow> php_type generic_type \<Rightarrow> php_type generic_type \<Rightarrow> bool option" where
  "generic_is_subtype hasher rec sub_g sup_g =
     (if bases_compatible (g_name sub_g) (g_name sup_g) \<and> length (g_args sub_g) = length (g_args sup_g)
      then Some (list_all (\<lambda>(a, b). rec a b) (zip (g_args sub_g) (g_args sup_g)))
      else if is_array_like_name (g_name sub_g) \<and> is_array_like_name (g_name sup_g)
      then (case (array_like_key_value hasher sub_g, array_like_key_value hasher sup_g) of
          (Some (sub_key, sub_val), Some (sup_key, sup_val)) \<Rightarrow>
            Some (keeps_promises (g_name sub_g) (g_name sup_g) \<and> rec sub_key sup_key \<and> rec sub_val sup_val)
        | _ \<Rightarrow> None)
      else None)"

definition generic_array_is_subtype :: "answers \<Rightarrow> php_type generic_type \<Rightarrow> php_type \<Rightarrow> bool option" where
  "generic_array_is_subtype rec g supertype =
     (if \<not> is_array_like_name (g_name g) then None
      else case kind supertype of
        Named n \<Rightarrow> Some (to_ascii_lowercase n \<in> set [''array'', ''iterable''])
      | Array inner_sup \<Rightarrow> if g_args g \<noteq> [] then Some (rec (last (g_args g)) inner_sup) else None
      | _ \<Rightarrow> None)"

text \<open>The first answer that is given.\<close>

definition or_else :: "bool option \<Rightarrow> bool option \<Rightarrow> bool option" where
  "or_else a b = (case a of None \<Rightarrow> b | Some _ \<Rightarrow> a)"

definition shapes_are_subtypes :: "(hash_token list \<Rightarrow> 'h) \<Rightarrow> answers \<Rightarrow> php_type \<Rightarrow> php_type \<Rightarrow> bool option" where
  "shapes_are_subtypes hasher rec self supertype =
     (case (shape_parts_of self, shape_parts_of supertype) of
        (Some sub_parts, Some wider) \<Rightarrow> Some (shape_is_subshape hasher rec sub_parts wider)
      | _ \<Rightarrow> None)"

definition subtype_of_array :: "(hash_token list \<Rightarrow> 'h) \<Rightarrow> answers \<Rightarrow> php_type \<Rightarrow> php_type \<Rightarrow> bool option" where
  "subtype_of_array hasher rec self supertype =
     or_else (array_is_unsealed_subshape hasher rec self supertype)
    (or_else (case kind self of Array inner_sub \<Rightarrow> slice_is_subtype rec inner_sub supertype | _ \<Rightarrow> None)
    (or_else (shapes_are_subtypes hasher rec self supertype)
    (or_else (case kind self of ArrayShape entries \<Rightarrow> shape_is_subtype_of_array rec self entries supertype | _ \<Rightarrow> None)
    (or_else (case (kind self, kind supertype) of
                (ObjectShape _, Named n) \<Rightarrow> Some (eq_ignore_ascii_case n ''object'') | _ \<Rightarrow> None)
    (or_else (case (kind self, kind supertype) of
                (Generic sub_g, Generic sup_g) \<Rightarrow> generic_is_subtype hasher rec sub_g sup_g | _ \<Rightarrow> None)
             (case kind self of Generic g \<Rightarrow> generic_array_is_subtype rec g supertype | _ \<Rightarrow> None))))))"

definition subtype_of_symbol_name :: "answers \<Rightarrow> php_type \<Rightarrow> php_type \<Rightarrow> bool option" where
  "subtype_of_symbol_name rec self supertype =
     (case (kind self, kind supertype) of
        (ClassString _, Named n) \<Rightarrow> Some (is_named_subtype ''class-string'' n)
      | (ClassString (Some a), ClassString (Some b)) \<Rightarrow> Some (rec a b)
      | (ClassString (Some _), ClassString None) \<Rightarrow> Some True
      | (InterfaceString _, Named n) \<Rightarrow> Some (is_named_subtype ''interface-string'' n)
      | (Named n, ClassString None) \<Rightarrow>
          if is_named_subtype n ''class-string'' then Some True else None
      | _ \<Rightarrow> None)"

definition subtype_of_callable :: "answers \<Rightarrow> php_type \<Rightarrow> php_type \<Rightarrow> bool option" where
  "subtype_of_callable rec self supertype =
     (case (kind self, kind supertype) of
        (Callable sub_c, Callable sup_c) \<Rightarrow>
          let ret_ok = (case (return_type sub_c, return_type sup_c) of
                (Some rs, Some rp) \<Rightarrow> rec rs rp
              | (_, None) \<Rightarrow> True
              | (None, Some _) \<Rightarrow> False);
              params_ok = length (params sub_c) \<ge> length (params sup_c) \<and>
                list_all (\<lambda>(p_sup, p_sub). rec (type_hint p_sup) (type_hint p_sub))
                  (zip (params sup_c) (params sub_c))
          in Some (ret_ok \<and> params_ok)
      | (Callable _, Named n) \<Rightarrow>
          Some (to_ascii_lowercase n \<in> set [''callable'', ''closure'', ''object''])
      | (Named n, Callable _) \<Rightarrow>
          if to_ascii_lowercase n \<in> set [''callable'', ''closure''] then Some True else None
      | _ \<Rightarrow> None)"

definition subtype_step :: "(hash_token list \<Rightarrow> 'h) \<Rightarrow> answers \<Rightarrow> answers" where
  "subtype_step hasher rec self supertype =
     (case or_else (subtype_by_normalising hasher rec self supertype)
          (or_else (subtype_of_composite rec self supertype)
          (or_else (subtype_of_scalar self supertype)
          (or_else (subtype_of_array hasher rec self supertype)
          (or_else (subtype_of_symbol_name rec self supertype)
                   (subtype_of_callable rec self supertype)))))
      of Some answer \<Rightarrow> answer | None \<Rightarrow> False)"

subsection \<open>Why the recursion ends\<close>

text \<open>
  Rewriting \<open>?T\<close> and \<open>array-key\<close> makes a type larger, so the measure counts what a node may be
  rewritten into: \<open>array-key\<close> outweighs \<open>int|string\<close> and a shape entry the type of its key.
\<close>

fun weight :: "php_type \<Rightarrow> nat" where
  "weight (Named n) = (if ends_with (to_ascii_lowercase n) ''array-key'' then 30 else 1)"
| "weight (Nullable t) = 5 + weight t"
| "weight (UnionT ts) = 1 + sum_list (map weight ts)"
| "weight (Intersection ts) = 1 + sum_list (map weight ts)"
| "weight (Generic g) = 10 + sum_list (map weight (g_args g))"
| "weight (Array t) = 10 + weight t"
| "weight (ArrayShape es) = 10 + sum_list (map (\<lambda>e. 40 + weight (value_type e)) es)"
| "weight (ObjectShape es) = 10 + sum_list (map (\<lambda>e. 40 + weight (value_type e)) es)"
| "weight (Callable c) = 1 + sum_list (map (\<lambda>p. weight (type_hint p)) (params c)) +
     (case return_type c of Some r \<Rightarrow> weight r | None \<Rightarrow> 0)"
| "weight (ClassString inner) = 1 + (case inner of Some t \<Rightarrow> weight t | None \<Rightarrow> 0)"
| "weight (Benevolent t) = weight t"
| "weight (ListShape t) = weight t"
| "weight (TemplateParam _ t) = weight t"
| "weight (UnsealedShape u) = 10 + weight (us_shape u) + weight (us_key u) + weight (us_value u) + weight (us_widened u)"
| "weight (ClassNameLiteral t) = weight t"
| "weight (EnumCase t _) = weight t"
| "weight (DqlBuilder t _) = weight t"
| "weight _ = 1"

lemma weight_pos: "weight t > 0"
  by (induction t rule: weight.induct) auto

lemma weight_kind: "weight (kind t) \<le> weight t"
  by (induction t rule: kind.induct) auto

lemma weight_member: "x \<in> set xs \<Longrightarrow> f x \<le> sum_list (map f xs)" for f :: "'a \<Rightarrow> nat"
  by (induction xs) auto

lemma weight_children:
  "kind t = Nullable i \<Longrightarrow> weight i + 5 \<le> weight t"
  "kind t = UnionT ms \<Longrightarrow> m \<in> set ms \<Longrightarrow> weight m < weight t"
  "kind t = Intersection ms \<Longrightarrow> m \<in> set ms \<Longrightarrow> weight m < weight t"
  "kind t = Generic g \<Longrightarrow> m \<in> set (g_args g) \<Longrightarrow> weight m + 10 \<le> weight t"
  "kind t = Generic g \<Longrightarrow> 10 \<le> weight t"
  "kind t = Array i \<Longrightarrow> weight i + 10 \<le> weight t"
  "kind t = ArrayShape es \<Longrightarrow> e \<in> set es \<Longrightarrow> weight (value_type e) + 50 \<le> weight t"
  "kind t = Callable c \<Longrightarrow> p \<in> set (params c) \<Longrightarrow> weight (type_hint p) < weight t"
  "kind t = Callable c \<Longrightarrow> return_type c = Some r \<Longrightarrow> weight r < weight t"
  "kind t = ClassString (Some i) \<Longrightarrow> weight i < weight t"
proof -
  note k = weight_kind [of t]
  show "kind t = Nullable i \<Longrightarrow> weight i + 5 \<le> weight t" using k by simp
  show "kind t = UnionT ms \<Longrightarrow> m \<in> set ms \<Longrightarrow> weight m < weight t"
    using k weight_member [of m ms weight] by simp
  show "kind t = Intersection ms \<Longrightarrow> m \<in> set ms \<Longrightarrow> weight m < weight t"
    using k weight_member [of m ms weight] by simp
  show "kind t = Generic g \<Longrightarrow> m \<in> set (g_args g) \<Longrightarrow> weight m + 10 \<le> weight t"
    using k weight_member [of m "g_args g" weight] by simp
  show "kind t = Generic g \<Longrightarrow> 10 \<le> weight t" using k by simp
  show "kind t = Array i \<Longrightarrow> weight i + 10 \<le> weight t" using k by simp
  show "kind t = ArrayShape es \<Longrightarrow> e \<in> set es \<Longrightarrow> weight (value_type e) + 50 \<le> weight t"
    using k weight_member [of e es "\<lambda>e. 40 + weight (value_type e)"] by simp
  show "kind t = Callable c \<Longrightarrow> p \<in> set (params c) \<Longrightarrow> weight (type_hint p) < weight t"
    using k weight_member [of p "params c" "\<lambda>p. weight (type_hint p)"] by simp
  show "kind t = Callable c \<Longrightarrow> return_type c = Some r \<Longrightarrow> weight r < weight t" using k by simp
  show "kind t = ClassString (Some i) \<Longrightarrow> weight i < weight t" using k by simp
qed

text \<open>A union weighs no more than the alternatives it is built from.\<close>

abbreviation weights :: "php_type list \<Rightarrow> nat" where
  "weights ts \<equiv> sum_list (map weight ts)"

lemma weights_filter: "weights (filter P ts) \<le> weights ts"
  by (induction ts) auto

lemma weights_retain: "weights (retain_by_mask ts keep) \<le> weights ts"
  unfolding retain_by_mask_def
  by (induction ts keep rule: list_induct2') auto

lemma weights_map: "(\<And>t. weight (f t) \<le> weight t) \<Longrightarrow> weights (map f ts) \<le> weights ts"
  by (induction ts) (auto intro: add_mono)

lemma ends_with_drop: "ends_with (drop n s) x \<Longrightarrow> ends_with s x"
  by (cases "n \<le> length s") (auto simp: ends_with_def le_diff_conv2)

lemma weight_base: "non_empty_base_name n = Some base \<Longrightarrow> weight (Named base) \<le> weight (Named n)"
  using ends_with_drop [of "length non_empty_prefix" "to_ascii_lowercase n"]
  by (auto simp: non_empty_base_name_def Let_def to_ascii_lowercase_def drop_map split: if_splits)

lemma weight_unrefined: "unrefined_base t = Some base \<Longrightarrow> weight base \<le> weight t"
  using weight_kind [of t] weight_base
  by (auto simp: unrefined_base_def named_def generic_def split: php_type.splits simp del: weight.simps(1)
      intro: le_trans)

lemma weights_empty_shape: "weights (fst (absorb_empty_shape_into_non_empty_array ts)) \<le> weights ts"
proof -
  have "weights (filter P (map (\<lambda>t. if is_non_empty_array_refinement t
      then (case unrefined_base t of Some base \<Rightarrow> base | None \<Rightarrow> t) else t) ts)) \<le> weights ts" for P
    by (rule le_trans [OF weights_filter weights_map]) (auto split: option.split dest: weight_unrefined)
  then show ?thesis by (simp add: absorb_empty_shape_into_non_empty_array_def)
qed

lemma weights_non_empty: "weights (fst (absorb_non_empty_refinements ts)) \<le> weights ts"
proof (cases "absorb_empty_shape_into_non_empty_array ts")
  case (Pair types changed)
  then have "weights types \<le> weights ts" using weights_empty_shape [of ts] by simp
  moreover have "fst (absorb_non_empty_refinements ts) \<in> {ts, types} \<union> range (retain_by_mask types)"
    by (auto simp: absorb_non_empty_refinements_def Pair Let_def)
  ultimately show ?thesis using le_trans [OF weights_retain] by auto
qed

lemma interval_type_weight: "weight (interval_type v) = 1"
  by (auto simp: interval_type_def literal_int_def literal_def int_range_def keyword_types str_eval
      ends_with_def split: prod.split option.split)

lemma merge_from_length: "length (merge_from (lo, hi) ivs) \<le> Suc (length ivs)"
  by (induction "(lo, hi)" ivs arbitrary: lo hi rule: merge_from.induct) (auto simp: le_SucI)

lemma merge_intervals_length: "length (merge_intervals ivs) \<le> length ivs"
  using merge_from_length by (cases ivs) (auto simp: merge_intervals_def)

lemma weights_int_split:
  "weights (filter (\<lambda>t. int_alternative t = None) ts) + length (List.map_filter int_alternative ts) \<le> weights ts"
proof (induction ts)
  case (Cons t ts)
  then show ?case using weight_pos [of t] by (auto simp: map_filter_simps)
qed (simp add: map_filter_simps)

lemma weights_int_ranges: "weights (absorb_int_ranges ts) \<le> weights ts"
proof -
  define ivs where "ivs = sort_key fst (List.map_filter int_alternative ts)"
  define others where "others = filter (\<lambda>t. int_alternative t = None) ts"
  have one: "weights (map interval_type vs) = length vs" for vs
    by (induction vs) (simp_all add: interval_type_weight)
  have cut: "weights (take n others) + weights (drop n others) = weights others" for n
    by (metis append_take_drop_id map_append sum_list_append)
  have "length (merge_intervals ivs) \<le> length (List.map_filter int_alternative ts)"
    using merge_intervals_length [of ivs] by (simp add: ivs_def)
  then have "weights (take n others @ map interval_type (merge_intervals ivs) @ drop n others) \<le> weights ts" for n
    using weights_int_split [of ts] one [of "merge_intervals ivs"] cut [of n] by (simp add: others_def)
  then show ?thesis
    unfolding absorb_int_ranges_def Let_def ivs_def others_def by (simp split: if_split)
qed

lemma weights_shapes: "weights (absorb_subsumed_shapes ts) \<le> weights ts"
  using weights_retain by (simp add: absorb_subsumed_shapes_def Let_def)

lemma weights_exact: "weights (absorb_exact_values ts) \<le> weights ts"
  using weights_filter by (simp add: absorb_exact_values_def Let_def)

lemma weights_dedup: "weights (dedup_loop hasher buckets ts) \<le> weights ts"
proof (induction ts arbitrary: buckets)
  case (Cons t ts)
  show ?case
    using Cons.IH by (simp add: Let_def split: option.split) (meson trans_le_add2)
qed simp

lemma weight_hd: "length ts = 1 \<Longrightarrow> weight (hd ts) \<le> weights ts"
  by (cases ts) auto

lemma weight_union: "weight (union hasher ts) \<le> 1 + weights ts"
proof -
  obtain ms changed where ms: "absorb_non_empty_refinements ts = (ms, changed)" by fastforce
  define us where "us = absorb_exact_values (absorb_subsumed_shapes (absorb_int_ranges ms))"
  have "weights ms \<le> weights ts" using weights_non_empty [of ts] by (simp add: ms)
  moreover have "weights us \<le> weights ms"
    unfolding us_def using weights_exact weights_shapes weights_int_ranges le_trans by meson
  moreover have "weight (union_deduped hasher us) \<le> 1 + weights us"
    using weight_hd [of "dedup_types hasher us"] weights_dedup [of hasher Map.empty us]
    by (auto simp: union_deduped_def Let_def dedup_types_def)
  ultimately show ?thesis
    using weight_hd [of ts] weight_hd [of ms] weight_hd [of us]
    by (auto simp: union_def ms Let_def us_def [symmetric])
qed

lemma int_or_string_union: "int_or_string hasher = UnionT [pt_int, pt_string]"
proof -
  have base: "absorb_non_empty_refinements [pt_int, pt_string] = ([pt_int, pt_string], False)"
    "absorb_int_ranges [pt_int, pt_string] = [pt_int, pt_string]"
    "absorb_subsumed_shapes [pt_int, pt_string] = [pt_int, pt_string]"
    "absorb_exact_values [pt_int, pt_string] = [pt_int, pt_string]"
    "\<not> has_duplicate_members [pt_int, pt_string]"
    by code_simp+
  show ?thesis
    by (simp add: int_or_string_def union_def base union_deduped_def)
qed

lemma weight_int_or_string: "weight (int_or_string hasher) = 3"
  by (simp add: int_or_string_union keyword_types ends_with_def str_eval)

lemma weight_nullable_union: "weight (union hasher [inner, pt_null]) \<le> weight inner + 2"
  using weight_union [of hasher "[inner, pt_null]"] by (simp add: keyword_types ends_with_def str_eval)

lemma weight_key_type: "weight (shape_key_type hasher key) \<le> 31"
  by (auto simp: shape_key_type_def literal_int_def literal_def named_def class_string_def
      enum_cases_as_enums.simps enum_marker_def split: option.split)

lemma array_key_weight: "is_array_key t \<Longrightarrow> nullable_inner t = None \<Longrightarrow> 30 \<le> weight t"
  using weight_kind [of t]
  by (auto simp: is_array_key.simps [of t] nullable_inner_def eq_ignore_ascii_case_def ends_with_def str_eval
      split: php_type.splits)

subsection \<open>The answers a phase asks for\<close>

text \<open>Two relations that agree on the pairs lighter than \<open>n\<close>.\<close>

definition agree_below :: "nat \<Rightarrow> answers \<Rightarrow> answers \<Rightarrow> bool" where
  "agree_below n r r' = (\<forall>a b. weight a + weight b < n \<longrightarrow> r a b = r' a b)"

lemma agreeD: "agree_below n r r' \<Longrightarrow> weight a + weight b < n \<Longrightarrow> r a b = r' a b"
  by (simp add: agree_below_def)

lemma list_all_agree: "(\<And>x. x \<in> set xs \<Longrightarrow> P x = Q x) \<Longrightarrow> list_all P xs = list_all Q xs"
  by (rule list.pred_cong) auto

lemma list_ex_agree: "(\<And>x. x \<in> set xs \<Longrightarrow> P x = Q x) \<Longrightarrow> list_ex P xs = list_ex Q xs"
  by (auto simp: list_ex_iff)

lemma normalising_agree:
  assumes "agree_below (weight s + weight t) r r'"
  shows "subtype_by_normalising hasher r s t = subtype_by_normalising hasher r' s t"
proof -
  have null: "r (union hasher [i, pt_null]) t = r' (union hasher [i, pt_null]) t" if "nullable_inner s = Some i" for i
    using that weight_children(1) [of s i] weight_nullable_union [of hasher i]
    by (intro agreeD [OF assms]) (auto simp: nullable_inner_def split: php_type.splits)
  have null': "r s (union hasher [i, pt_null]) = r' s (union hasher [i, pt_null])" if "nullable_inner t = Some i" for i
    using that weight_children(1) [of t i] weight_nullable_union [of hasher i]
    by (intro agreeD [OF assms]) (auto simp: nullable_inner_def split: php_type.splits)
  have key: "r (int_or_string hasher) t = r' (int_or_string hasher) t" if "nullable_inner s = None" "is_array_key s"
    using array_key_weight [OF that(2,1)] by (intro agreeD [OF assms]) (simp add: weight_int_or_string)
  show ?thesis
    unfolding subtype_by_normalising_def by (simp add: null null' key split: option.split)
qed

lemma composite_agree:
  assumes "agree_below (weight s + weight t) r r'"
  shows "subtype_of_composite r s t = subtype_of_composite r' s t"
proof -
  have left: "r m t = r' m t" if "kind s = UnionT ms \<or> kind s = Intersection ms" "m \<in> set ms" for m ms
    using that weight_children(2,3) [of s ms m] by (intro agreeD [OF assms]) auto
  have right: "r s m = r' s m" if "kind t = UnionT ms \<or> kind t = Intersection ms" "m \<in> set ms" for m ms
    using that weight_children(2,3) [of t ms m] by (intro agreeD [OF assms]) auto
  show ?thesis
    unfolding subtype_of_composite_def using left right
    by (auto split: php_type.split intro!: list_all_agree list_ex_agree)
qed

text \<open>How heavy the parts of a shape are beside the type they are read from.\<close>

definition parts_within :: "shape_parts \<Rightarrow> nat \<Rightarrow> bool" where
  "parts_within p n =
     ((\<forall>e \<in> set (sp_entries p). weight (value_type e) + 50 \<le> n) \<and>
      (\<forall>k v. sp_tail p = Some (k, v) \<longrightarrow> weight k < n + 3 \<and> weight v < n + 3))"

definition tail_within :: "shape_parts \<Rightarrow> nat \<Rightarrow> bool" where
  "tail_within p n = (\<forall>k v. sp_tail p = Some (k, v) \<longrightarrow> weight k + 10 \<le> n \<and> weight v + 10 \<le> n)"

lemma shape_parts_within:
  assumes "shape_parts_of t = Some p"
  shows "parts_within p (weight t) \<and> tail_within p (weight t)"
proof (cases t)
  case (UnsealedShape u)
  then obtain es where es: "kind (us_shape u) = ArrayShape es"
    and p: "p = \<lparr>sp_entries = es, sp_tail = Some (us_key u, us_value u), sp_is_list = is_list_shape (us_shape u)\<rparr>"
    using assms by (auto simp: shape_parts_of_def as_unsealed_shape_def split: php_type.splits)
  then show ?thesis
    using UnsealedShape weight_children(7) [OF es] by (force simp: parts_within_def tail_within_def)
qed (use assms weight_children(7) [of t] in \<open>force simp: shape_parts_of_def as_unsealed_shape_def
       parts_within_def tail_within_def split: php_type.splits\<close>)+

lemma enumerate_zip_mem: "(i, e, k) \<in> set (enumerate n (zip es ks)) \<Longrightarrow> e \<in> set es"
  by (auto simp: in_set_enumerate_eq dest!: nth_mem set_zip_leftD)

lemma find_key_bound: "find_key_position keys key i = Some j \<Longrightarrow> j < length keys"
  by (auto simp: find_key_position_def last_position_def dest!: map_of_SomeD position_where_Some set_zip_rightD
      split: if_splits)

lemma runtime_keys_length: "runtime_keys_from n b es = Some ks \<Longrightarrow> length ks = length es"
  by (induction n b es arbitrary: ks rule: runtime_keys_from.induct)
    (auto split: option.splits if_splits)

lemma subshape_agree:
  assumes r: "agree_below (n + m) r r'"
    and p: "parts_within p n" and w: "parts_within w m" "tail_within w m"
  shows "shape_is_subshape hasher r p w = shape_is_subshape hasher r' p w"
proof -
  have keys: "weight (shape_key_type hasher k) < 32" for k using weight_key_type [of hasher k] by simp
  have listed: "listed_fit hasher r p ks w ws = listed_fit hasher r' p ks w ws"
    if "length ws = length (sp_entries w)" for ks ws
    unfolding listed_fit_def
  proof (rule list_all_agree, clarify)
    fix i e k
    assume "(i, e, k) \<in> set (enumerate 0 (zip (sp_entries p) ks))"
    then have e: "weight (value_type e) + 50 \<le> n"
      using p by (auto simp: parts_within_def dest!: enumerate_zip_mem)
    have "r (value_type e) (value_type (sp_entries w ! j)) = r' (value_type e) (value_type (sp_entries w ! j))"
      if "find_key_position ws k i = Some j" for j
      using w(1) e find_key_bound [OF that] \<open>length ws = _\<close>
      by (intro agreeD [OF r]) (auto simp: parts_within_def dest!: bspec [of _ _ "sp_entries w ! j"])
    moreover have "r (shape_key_type hasher k) a = r' (shape_key_type hasher k) a \<and> r (value_type e) b = r' (value_type e) b"
      if "sp_tail w = Some (a, b)" for a b
      using w(2) e that keys [of k] by (auto simp: tail_within_def intro!: agreeD [OF r])
    ultimately show "(case find_key_position ws k i of
         Some j \<Rightarrow> (\<not> entry_optional e \<or> entry_optional (sp_entries w ! j)) \<and>
           r (value_type e) (value_type (sp_entries w ! j))
       | None \<Rightarrow> (case sp_tail w of None \<Rightarrow> False
            | Some (tail_key, tail_value) \<Rightarrow> r (shape_key_type hasher k) tail_key \<and> r (value_type e) tail_value)) =
      (case find_key_position ws k i of
         Some j \<Rightarrow> (\<not> entry_optional e \<or> entry_optional (sp_entries w ! j)) \<and>
           r' (value_type e) (value_type (sp_entries w ! j))
       | None \<Rightarrow> (case sp_tail w of None \<Rightarrow> False
            | Some (tail_key, tail_value) \<Rightarrow> r' (shape_key_type hasher k) tail_key \<and> r' (value_type e) tail_value))"
      by (simp split: option.split prod.split)
  qed
  have wider: "wider_fit hasher r p ks w ws = wider_fit hasher r' p ks w ws" for ks ws
    unfolding wider_fit_def
  proof (rule list_all_agree, clarify)
    fix i e k
    assume "(i, e, k) \<in> set (enumerate 0 (zip (sp_entries w) ws))"
    then have e: "weight (value_type e) + 50 \<le> m"
      using w(1) by (auto simp: parts_within_def dest!: enumerate_zip_mem)
    have "r (shape_key_type hasher k) a = r' (shape_key_type hasher k) a \<and> r b (value_type e) = r' b (value_type e)"
      if "sp_tail p = Some (a, b)" for a b
      using p e that keys [of k] by (auto simp: parts_within_def intro!: agreeD [OF r])
    then show "(find_key_position ks k i \<noteq> None \<or> entry_optional e \<and> (case sp_tail p of None \<Rightarrow> True
         | Some (tail_key, tail_value) \<Rightarrow> \<not> r (shape_key_type hasher k) tail_key \<or> r tail_value (value_type e))) =
      (find_key_position ks k i \<noteq> None \<or> entry_optional e \<and> (case sp_tail p of None \<Rightarrow> True
         | Some (tail_key, tail_value) \<Rightarrow> \<not> r' (shape_key_type hasher k) tail_key \<or> r' tail_value (value_type e)))"
      by (simp split: option.split prod.split)
  qed
  have tails: "tails_fit r p w = tails_fit r' p w"
    using p w(2) by (auto simp: tails_fit_def parts_within_def tail_within_def agreeD [OF r] split: option.split)
  show ?thesis
    unfolding shape_is_subshape_def
    by (auto simp: wider tails runtime_shape_keys_def runtime_keys_length listed split: option.split)
qed

lemma weight_keyword_types: "weight pt_int = 1" "weight pt_string = 1" "weight pt_mixed = 1" "weight pt_null = 1"
  by (simp_all add: keyword_types ends_with_def str_eval)

lemma key_value_weight:
  assumes "array_like_key_value hasher g = Some (k, v)"
  shows "v \<in> set (g_args g) \<and> (k \<in> set (g_args g) \<or> weight k \<le> 3)"
  using assms
  by (auto simp: array_like_key_value_def Let_def weight_int_or_string weight_keyword_types split: list.splits)

lemma plain_array_weight:
  assumes "plain_array_parts hasher t = Some (k, v, l)"
  shows "weight k < weight t + 3 \<and> weight v < weight t + 3"
proof -
  have pos: "weight t > 0" by (rule weight_pos)
  show ?thesis
  proof (cases "kind t")
    case (Generic g)
    then have "array_like_key_value hasher g = Some (k, v)"
      using assms by (auto simp: plain_array_parts_def split: if_splits)
    from key_value_weight [OF this] show ?thesis
      using weight_children(4) [OF Generic, of k] weight_children(4) [OF Generic, of v] pos by auto
  next
    case (Array i)
    then show ?thesis
      using assms weight_children(6) [OF Array] by (auto simp: plain_array_parts_def weight_int_or_string)
  next
    case (Named n)
    then show ?thesis
      using assms pos by (auto simp: plain_array_parts_def Let_def weight_int_or_string
          weight_keyword_types split: if_splits)
  qed (use assms in \<open>simp_all add: plain_array_parts_def\<close>)
qed

lemma unsealed_agree:
  assumes "agree_below (weight s + weight t) r r'"
  shows "array_is_unsealed_subshape hasher r s t = array_is_unsealed_subshape hasher r' s t"
proof (cases "shape_parts_of t")
  case (Some w)
  have "shape_is_subshape hasher r \<lparr>sp_entries = [], sp_tail = Some (k, v), sp_is_list = l\<rparr> w =
      shape_is_subshape hasher r' \<lparr>sp_entries = [], sp_tail = Some (k, v), sp_is_list = l\<rparr> w"
    if "plain_array_parts hasher s = Some (k, v, l)" for k v l
    using plain_array_weight [OF that] shape_parts_within [OF Some]
    by (intro subshape_agree [OF assms]) (auto simp: parts_within_def)
  then show ?thesis
    unfolding array_is_unsealed_subshape_def Some
    by (cases "plain_array_parts hasher s") (auto split: option.split)
qed (simp add: array_is_unsealed_subshape_def)

lemma slice_agree:
  assumes "agree_below (weight s + weight t) r r'" "kind s = Array i"
  shows "slice_is_subtype r i t = slice_is_subtype r' i t"
proof -
  have i: "weight i + 10 \<le> weight s" using assms(2) by (rule weight_children)
  have "r i j = r' i j" if "kind t = Array j" for j
    using i weight_children(6) [OF that] by (intro agreeD [OF assms(1)]) simp
  moreover have "r i (last (g_args g)) = r' i (last (g_args g))" if "kind t = Generic g" "g_args g \<noteq> []" for g
    using i weight_children(4) [OF that(1) last_in_set [OF that(2)]] by (intro agreeD [OF assms(1)]) simp
  ultimately show ?thesis by (auto simp: slice_is_subtype_def split: php_type.split)
qed

lemma shapes_agree:
  assumes "agree_below (weight s + weight t) r r'"
  shows "shapes_are_subtypes hasher r s t = shapes_are_subtypes hasher r' s t"
proof -
  have "shape_is_subshape hasher r p w = shape_is_subshape hasher r' p w"
    if "shape_parts_of s = Some p" "shape_parts_of t = Some w" for p w
    using shape_parts_within [OF that(1)] shape_parts_within [OF that(2)]
    by (intro subshape_agree [OF assms]) auto
  then show ?thesis by (simp add: shapes_are_subtypes_def split: option.split)
qed

lemma shape_array_agree:
  assumes "agree_below (weight s + weight t) r r'" "kind s = ArrayShape es"
  shows "shape_is_subtype_of_array r s es t = shape_is_subtype_of_array r' s es t"
proof -
  have s: "10 \<le> weight s" using weight_kind [of s] assms(2) by simp
  have v: "r (value_type e) x = r' (value_type e) x" if "e \<in> set es" "weight x \<le> weight t" for e x
    using that weight_children(7) [OF assms(2)] by (intro agreeD [OF assms(1)]) fastforce
  have k: "r a x = r' a x" if "a \<in> {pt_int, pt_string}" "weight x \<le> weight t" for a x
    using that s by (intro agreeD [OF assms(1)]) (auto simp: weight_keyword_types)
  have g: "weight a \<le> weight t" if "kind t = Generic g" "a \<in> set (g_args g)" for a g
    using weight_children(4) [OF that] by simp
  have "shape_is_subtype_of_array r s es t = shape_is_subtype_of_array r' s es t" if "kind t = Array i" for i
    using that v weight_children(6) [OF that] by (auto simp: shape_is_subtype_of_array_def intro!: list_all_agree)
  moreover have "shape_is_subtype_of_array r s es t = shape_is_subtype_of_array r' s es t" if t: "kind t = Generic g" for g
  proof -
    have "list_all (\<lambda>e. r (value_type e) x) es = list_all (\<lambda>e. r' (value_type e) x) es" if "x \<in> set (g_args g)" for x
      using g [OF t that] v by (intro list_all_agree) simp
    moreover have "list_all (\<lambda>e. r (f e) y \<and> r (value_type e) x) es = list_all (\<lambda>e. r' (f e) y \<and> r' (value_type e) x) es"
      if "x \<in> set (g_args g)" "y \<in> set (g_args g)" "\<And>e. f e \<in> {pt_int, pt_string}" for x y f
      using g [OF t that(1)] g [OF t that(2)] v k that(3) by (intro list_all_agree) simp
    ultimately show ?thesis
      unfolding shape_is_subtype_of_array_def Let_def t php_type.case
      by (simp split: list.split option.split)
  qed
  ultimately show ?thesis
    by (cases "kind t") (simp_all add: shape_is_subtype_of_array_def)
qed

lemma generic_agree:
  assumes "agree_below (weight s + weight t) r r'" "kind s = Generic g" "kind t = Generic h"
  shows "generic_is_subtype hasher r g h = generic_is_subtype hasher r' g h"
proof -
  have s: "weight a < weight s" if "a \<in> set (g_args g) \<or> weight a \<le> 3" for a
    using that weight_children(4) [OF assms(2), of a] weight_children(5) [OF assms(2)] by auto
  have t: "weight a < weight t" if "a \<in> set (g_args h) \<or> weight a \<le> 3" for a
    using that weight_children(4) [OF assms(3), of a] weight_children(5) [OF assms(3)] by auto
  have below: "r a b = r' a b" if "a \<in> set (g_args g) \<or> weight a \<le> 3" "b \<in> set (g_args h) \<or> weight b \<le> 3" for a b
    using s [OF that(1)] t [OF that(2)] by (intro agreeD [OF assms(1)]) simp
  have "list_all (\<lambda>(a, b). r a b) (zip (g_args g) (g_args h)) = list_all (\<lambda>(a, b). r' a b) (zip (g_args g) (g_args h))"
    by (rule list_all_agree) (auto dest!: zip_mem intro!: below)
  moreover have "(r k k' \<and> r v v') = (r' k k' \<and> r' v v')"
    if "array_like_key_value hasher g = Some (k, v)" "array_like_key_value hasher h = Some (k', v')" for k v k' v'
    using key_value_weight [OF that(1)] key_value_weight [OF that(2)] below by auto
  ultimately show ?thesis
    unfolding generic_is_subtype_def by (auto split: option.split)
qed

lemma generic_array_agree:
  assumes "agree_below (weight s + weight t) r r'" "kind s = Generic g"
  shows "generic_array_is_subtype r g t = generic_array_is_subtype r' g t"
proof -
  have "r (last (g_args g)) i = r' (last (g_args g)) i" if "kind t = Array i" "g_args g \<noteq> []" for i
    using weight_children(4) [OF assms(2) last_in_set [OF that(2)]] weight_children(6) [OF that(1)]
    by (intro agreeD [OF assms(1)]) simp
  then show ?thesis by (auto simp: generic_array_is_subtype_def split: php_type.split)
qed

lemma array_agree:
  assumes "agree_below (weight s + weight t) r r'"
  shows "subtype_of_array hasher r s t = subtype_of_array hasher r' s t"
proof -
  have "(case kind s of Array i \<Rightarrow> slice_is_subtype r i t | _ \<Rightarrow> None) =
      (case kind s of Array i \<Rightarrow> slice_is_subtype r' i t | _ \<Rightarrow> None)"
    using slice_agree [OF assms] by (cases "kind s") simp_all
  moreover have "(case kind s of ArrayShape es \<Rightarrow> shape_is_subtype_of_array r s es t | _ \<Rightarrow> None) =
      (case kind s of ArrayShape es \<Rightarrow> shape_is_subtype_of_array r' s es t | _ \<Rightarrow> None)"
    using shape_array_agree [OF assms] by (cases "kind s") simp_all
  moreover have "(case (kind s, kind t) of (Generic g, Generic h) \<Rightarrow> generic_is_subtype hasher r g h | _ \<Rightarrow> None) =
      (case (kind s, kind t) of (Generic g, Generic h) \<Rightarrow> generic_is_subtype hasher r' g h | _ \<Rightarrow> None)"
    using generic_agree [OF assms] by (simp split: php_type.split) blast
  moreover have "(case kind s of Generic g \<Rightarrow> generic_array_is_subtype r g t | _ \<Rightarrow> None) =
      (case kind s of Generic g \<Rightarrow> generic_array_is_subtype r' g t | _ \<Rightarrow> None)"
    using generic_array_agree [OF assms] by (cases "kind s") simp_all
  ultimately show ?thesis
    unfolding subtype_of_array_def unsealed_agree [OF assms] shapes_agree [OF assms] by (simp only:)
qed

lemma symbol_agree:
  assumes "agree_below (weight s + weight t) r r'"
  shows "subtype_of_symbol_name r s t = subtype_of_symbol_name r' s t"
proof -
  have "r a b = r' a b" if "kind s = ClassString (Some a)" "kind t = ClassString (Some b)" for a b
    using weight_children(10) [OF that(1)] weight_children(10) [OF that(2)]
    by (intro agreeD [OF assms]) simp
  then show ?thesis by (auto simp: subtype_of_symbol_name_def split: php_type.split option.split)
qed

lemma callable_agree:
  assumes "agree_below (weight s + weight t) r r'"
  shows "subtype_of_callable r s t = subtype_of_callable r' s t"
proof -
  have ret: "r a b = r' a b" if "kind s = Callable c" "kind t = Callable d" "return_type c = Some a" "return_type d = Some b" for a b c d
    using weight_children(9) [OF that(1,3)] weight_children(9) [OF that(2,4)]
    by (intro agreeD [OF assms]) simp
  have par: "r (type_hint q) (type_hint p) = r' (type_hint q) (type_hint p)"
    if "kind s = Callable c" "kind t = Callable d" "(q, p) \<in> set (zip (params d) (params c))" for c d p q
    using weight_children(8) [OF that(1), of p] weight_children(8) [OF that(2), of q] zip_mem [OF that(3)]
    by (intro agreeD [OF assms]) simp
  have "list_all (\<lambda>(q, p). r (type_hint q) (type_hint p)) (zip (params d) (params c)) =
      list_all (\<lambda>(q, p). r' (type_hint q) (type_hint p)) (zip (params d) (params c))"
    if "kind s = Callable c" "kind t = Callable d" for c d
    using par [OF that] by (intro list_all_agree) auto
  then show ?thesis
    using ret by (auto simp: subtype_of_callable_def Let_def split: php_type.split option.split)
qed

lemma step_agree:
  "agree_below (weight s + weight t) r r' \<Longrightarrow> subtype_step hasher r s t = subtype_step hasher r' s t"
  unfolding subtype_step_def
  by (simp only: normalising_agree composite_agree array_agree symbol_agree callable_agree)

subsection \<open>The relation\<close>

primrec subtype_within :: "(hash_token list \<Rightarrow> 'h) \<Rightarrow> nat \<Rightarrow> answers" where
  "subtype_within hasher 0 = (\<lambda>self supertype. False)"
| "subtype_within hasher (Suc n) = subtype_step hasher (subtype_within hasher n)"

definition is_structural_subtype_of :: "(hash_token list \<Rightarrow> 'h) \<Rightarrow> php_type \<Rightarrow> php_type \<Rightarrow> bool" where
  "is_structural_subtype_of hasher self supertype =
     subtype_within hasher (Suc (weight self + weight supertype)) self supertype"

lemma subtype_within_stable:
  "weight s + weight t < n \<Longrightarrow> weight s + weight t < m \<Longrightarrow>
     subtype_within hasher n s t = subtype_within hasher m s t"
proof (induction n arbitrary: m s t)
  case (Suc n)
  then obtain k where k: "m = Suc k" by (cases m) auto
  have "agree_below (weight s + weight t) (subtype_within hasher n) (subtype_within hasher k)"
    unfolding agree_below_def using Suc.prems k by (intro allI impI Suc.IH) simp_all
  then show ?case by (simp add: k step_agree)
qed simp

text \<open>No other relation answers the way the phases do: every call goes to a lighter pair.\<close>

lemma step_solution:
  assumes "\<And>s t. f s t = subtype_step hasher f s t"
  shows "f s t = is_structural_subtype_of hasher s t"
proof (induction "weight s + weight t" arbitrary: s t rule: less_induct)
  case (less s t)
  have "agree_below (weight s + weight t) f (subtype_within hasher (weight s + weight t))"
    unfolding agree_below_def
  proof (intro allI impI)
    fix a b assume lighter: "weight a + weight b < weight s + weight t"
    then have "f a b = is_structural_subtype_of hasher a b" by (rule less)
    also have "\<dots> = subtype_within hasher (weight s + weight t) a b"
      unfolding is_structural_subtype_of_def using lighter by (intro subtype_within_stable) simp_all
    finally show "f a b = subtype_within hasher (weight s + weight t) a b" .
  qed
  then show ?case using assms [of s t] step_agree by (simp add: is_structural_subtype_of_def)
qed

lemma structural_step:
  "is_structural_subtype_of hasher s t = subtype_step hasher (is_structural_subtype_of hasher) s t"
proof -
  have "agree_below (weight s + weight t) (subtype_within hasher (weight s + weight t)) (is_structural_subtype_of hasher)"
    unfolding agree_below_def is_structural_subtype_of_def
    by (intro allI impI subtype_within_stable) simp_all
  then show ?thesis
    unfolding is_structural_subtype_of_def [of hasher s t] by (simp add: step_agree)
qed

text \<open>
  C5. The subtype test always returns: the recursion the code writes has one solution and the test is
  it, so no chain of calls goes on forever (a call that came back to its own question would leave the
  answer open), although \<open>?T\<close> and \<open>array-key\<close> are rewritten into larger types on the way.
\<close>

theorem structural_subtype_unfold:
  "(\<forall>s t. f s t = subtype_step hasher f s t) \<longleftrightarrow> f = is_structural_subtype_of hasher"
  using step_solution [of f hasher] structural_step [of hasher] by blast

end
