(* ===== verification/Type_Semantics.thy ===== *)
theory Type_Semantics
  imports Type_Values Subtype
begin

section \<open>The values of a type\<close>

text \<open>
  Which PHP values a type of \<open>src/php_type/mod.rs\<close> stands for, as a reference the rewriting and
  the comparison of types are measured against.  What the type layer cannot evaluate (conditional
  types, \<open>key-of\<close> and the like, unparsed text, open shapes) is a fact of the program, as are the
  case an object is and the class a string spells.  The arguments of a class generic and the
  signature of a callable are not compared: an object of the class, or anything callable, will do.
\<close>

record type_world =
  names_in :: world
  is_case :: "str \<Rightarrow> php_value \<Rightarrow> bool"
  is_spelling :: "str \<Rightarrow> php_value \<Rightarrow> bool"
  other_type :: "php_type \<Rightarrow> php_value \<Rightarrow> bool"

fun key_value :: "int + str \<Rightarrow> php_value" where
  "key_value (Inl i) = VInt i"
| "key_value (Inr s) = VString s"

text \<open>PHP stores a string key that is a canonical integer as that integer.\<close>

definition array_key_of :: "str \<Rightarrow> int + str" where
  "array_key_of key = (case canonical_int_key key of Some i \<Rightarrow> Inl i | None \<Rightarrow> Inr key)"

fun every_entry :: "(php_value \<Rightarrow> php_value \<Rightarrow> bool) \<Rightarrow> php_value \<Rightarrow> bool" where
  "every_entry P (VArray kvs) = list_all (\<lambda>(k, x). P (key_value k) x) kvs"
| "every_entry P _ = True"

text \<open>Integers of PHP are 64 bits wide.\<close>

fun value_ok :: "php_value \<Rightarrow> bool" where
  "value_ok (VInt i) = in_i64 i"
| "value_ok (VArray kvs) = list_all (\<lambda>(k, x). (case k of Inl i \<Rightarrow> in_i64 i | Inr _ \<Rightarrow> True) \<and> value_ok x) kvs"
| "value_ok _ = True"

fun same_value :: "php_value \<Rightarrow> php_value \<Rightarrow> bool" where
  "same_value (VFloat a) (VFloat b) = f64_eq a b"
| "same_value v w = (v = w)"

definition literal_holds :: "world \<Rightarrow> literal_value \<Rightarrow> php_value \<Rightarrow> bool" where
  "literal_holds W lit v =
     (case literal_php_value lit of Some w \<Rightarrow> same_value w v \<and> written_value W v | None \<Rightarrow> False)"

text \<open>
  A sealed shape lists every key of its arrays; one whose keys count up from zero is a list, as
  \<open>shape_is_subshape\<close> reads it.  \<open>entry_holds\<close> is the test of a value against an entry.
\<close>

definition shape_holds :: "('a shape_entry \<Rightarrow> php_value \<Rightarrow> bool) \<Rightarrow> 'a shape_entry list \<Rightarrow> php_value \<Rightarrow> bool" where
  "shape_holds entry_holds es v =
     (case (runtime_shape_keys es, v) of
        (Some keys, VArray kvs) \<Rightarrow>
          list_all (\<lambda>(k, x). list_ex (\<lambda>(e, key). array_key_of key = k \<and> entry_holds e x) (zip es keys)) kvs \<and>
          list_all (\<lambda>(e, key). entry_optional e \<or> array_key_of key \<in> set (map fst kvs)) (zip es keys) \<and>
          (shape_keys_are_sequential es \<longrightarrow> is_list_keys (map fst kvs))
      | _ \<Rightarrow> False)"

lemma shape_holds_cong [fundef_cong]:
  assumes "es = es'" "v = v'" "\<And>e x. e \<in> set es' \<Longrightarrow> P e x = Q e x"
  shows "shape_holds P es v = shape_holds Q es' v'"
proof -
  have "list_ex (\<lambda>(e, key). array_key_of key = k \<and> P e x) (zip es' keys) =
      list_ex (\<lambda>(e, key). array_key_of key = k \<and> Q e x) (zip es' keys)" for k x keys
    using assms(3) by (intro list_ex_agree) (auto dest: set_zip_leftD)
  then show ?thesis
    by (simp add: assms(1,2) shape_holds_def split: option.split php_value.split)
qed

definition args_hold :: "('a \<Rightarrow> php_value \<Rightarrow> bool) \<Rightarrow> 'a list \<Rightarrow> php_value \<Rightarrow> bool" where
  "args_hold arg_holds args v =
     (args \<noteq> [] \<longrightarrow>
        every_entry (\<lambda>k x. arg_holds (last args) x \<and> (length args = 2 \<longrightarrow> arg_holds (hd args) k)) v)"

lemma args_hold_cong [fundef_cong]:
  assumes "args = args'" "v = v'" "\<And>a x. a \<in> set args' \<Longrightarrow> P a x = Q a x"
  shows "args_hold P args v = args_hold Q args' v'"
proof -
  have "args' \<noteq> [] \<Longrightarrow> P (last args') x = Q (last args') x" "args' \<noteq> [] \<Longrightarrow> P (hd args') x = Q (hd args') x" for x
    using assms(3) by simp_all
  then show ?thesis by (cases v) (simp_all add: assms(1,2) args_hold_def)
qed

lemma every_entry_cong [fundef_cong]:
  assumes "v = v'" "\<And>k x. P k x = Q k x"
  shows "every_entry P v = every_entry Q v'"
proof -
  have "P = Q" by (intro ext assms)
  then show ?thesis by (simp add: assms(1))
qed

lemma part_sizes:
  fixes t :: php_type and e :: "php_type shape_entry"
  shows "t \<in> set ts \<Longrightarrow> size t < Suc (size_list size ts)"
  "t \<in> set (g_args g) \<Longrightarrow> size t < Suc (size_generic_type size g)"
  "e \<in> set es \<Longrightarrow> size (value_type e) < Suc (size_list (size_shape_entry size) es)"
  using node_children_size [of t "UnionT ts"] node_children_size [of t "Generic g"]
    node_children_size [of "value_type e" "ArrayShape es"] by simp_all

function holds :: "type_world \<Rightarrow> php_type \<Rightarrow> php_value \<Rightarrow> bool" where
  "holds W (Named n) v = admits (names_in W) n v"
| "holds W (StaticType n) v = admits (names_in W) n v"
| "holds W (ThisType n) v = admits (names_in W) n v"
| "holds W (Nullable t) v = (v = VNull \<or> holds W t v)"
| "holds W (UnionT ts) v = list_ex (\<lambda>t. holds W t v) ts"
| "holds W (Intersection ts) v = list_all (\<lambda>t. holds W t v) ts"
| "holds W (Generic g) v =
     (admits (names_in W) (g_name g) v \<and>
      (is_array_like_name (g_name g) \<longrightarrow> args_hold (holds W) (g_args g) v))"
| "holds W (Array t) v = (on_array (\<lambda>ks. True) v \<and> every_entry (\<lambda>k x. holds W t x) v)"
| "holds W (ArrayShape es) v = shape_holds (\<lambda>e. holds W (value_type e)) es v"
| "holds W (ObjectShape es) v = on_object (\<lambda>c. True) v"
| "holds W (Callable c) v = callable_value (names_in W) v"
| "holds W (ClassString opt) v =
     on_string (\<lambda>s. class_names (names_in W) s \<and>
       (case opt of None \<Rightarrow> True | Some t \<Rightarrow> holds W t (VObject (to_ascii_lowercase s)))) v"
| "holds W (InterfaceString opt) v =
     on_string (\<lambda>s. interface_names (names_in W) s \<and>
       (case opt of None \<Rightarrow> True | Some t \<Rightarrow> holds W t (VObject (to_ascii_lowercase s)))) v"
| "holds W (IntRange lo hi) v = on_int (\<lambda>i. parse_range_bound lo \<le> i \<and> i \<le> parse_range_bound hi) v"
| "holds W (Literal lit) v = literal_holds (names_in W) lit v"
| "holds W (Benevolent t) v = holds W t v"
| "holds W (TemplateParam n t) v = holds W t v"
| "holds W (ListShape t) v = (holds W t v \<and> on_array is_list_keys v)"
| "holds W (ClassNameLiteral t) v =
     (holds W t v \<and>
      (case as_class_name_literal (ClassNameLiteral t) of
         Some n \<Rightarrow> is_spelling W (to_ascii_lowercase n) v | None \<Rightarrow> True))"
| "holds W (EnumCase t c) v = (holds W t v \<and> is_case W c v)"
| "holds W (DqlBuilder t q) v = holds W t v"
| "holds W (Conditional c) v = other_type W (Conditional c) v"
| "holds W (KeyOf t) v = other_type W (KeyOf t) v"
| "holds W (ValueOf t) v = other_type W (ValueOf t) v"
| "holds W (IndexAccess t i) v = other_type W (IndexAccess t i) v"
| "holds W (Raw s) v = other_type W (Raw s) v"
| "holds W (UnsealedShape u) v = other_type W (UnsealedShape u) v"
  by pat_completeness auto
termination
  by (relation "measure (\<lambda>(W, t, v). size t)") (auto simp: part_sizes)

end
