(* ===== verification/Subtype_Sound.thy ===== *)
theory Subtype_Sound
  imports Type_Semantics
begin

section \<open>The subtype test is sound\<close>

text \<open>
  When the structural test of \<open>src/php_type/subtype.rs\<close> accepts a type below another, every value
  of the first is a value of the second.  The theorem is stated for the types on which that holds:
  \<open>left_node\<close> and \<open>right_node\<close> say what the two sides may contain, and each hazard of the test
  may be kept out on whichever side is convenient.
\<close>

subsection \<open>Where the test is lenient\<close>

text \<open>
  \<open>KeywordObjects\<close>: a keyword spelled like a class is below \<open>object\<close>.  \<open>Slices\<close>: \<open>T[]\<close> is below any
  generic array of \<open>T\<close>, lists included.  \<open>EntryOrder\<close>: a shape that lists the keys of a list in
  another order is below it.  \<open>Signatures\<close>: a callable signature is below \<open>Closure\<close> and \<open>object\<close>.
  A hazard in the set is kept out on the left, another on the right.
\<close>

datatype hazard = KeywordObjects | Slices | EntryOrder | Signatures

function every :: "(php_type \<Rightarrow> bool) \<Rightarrow> php_type \<Rightarrow> bool" where
  "every P t = (P t \<and> list_all (every P) (node_children t))"
  by pat_completeness auto
termination by (relation "measure (\<lambda>(P, t). size t)") (auto intro: node_children_size)
declare every.simps [simp del]

definition plain_class_name :: "str \<Rightarrow> bool" where
  "plain_class_name n \<longleftrightarrow> \<not> is_keyword_type (canonical_name n)"

definition keyword_like_class :: "str \<Rightarrow> bool" where
  "keyword_like_class n \<longleftrightarrow> is_keyword_type (canonical_name n) \<and> is_class_like_name n \<and>
     canonical_name n \<noteq> ''object''"

definition shape_readable :: "php_type shape_entry list \<Rightarrow> bool" where
  "shape_readable es \<longleftrightarrow>
     (case runtime_shape_keys es of
        Some keys \<Rightarrow> distinct keys \<and> \<not> list_ex is_opaque_shape_key keys
      | None \<Rightarrow> False)"

definition ordered_shape :: "php_type shape_entry list \<Rightarrow> bool" where
  "ordered_shape es \<longleftrightarrow> shape_keys_are_sequential es \<or>
     list_ex (\<lambda>e. case entry_key e of Some k \<Rightarrow> canonical_int_key k = None | None \<Rightarrow> False) es"

definition is_class_type :: "php_type \<Rightarrow> bool" where
  "is_class_type t \<longleftrightarrow> (case t of Named n \<Rightarrow> plain_class_name n | _ \<Rightarrow> False)"

text \<open>The markers as the constructors place them.\<close>

definition well_built :: "php_type \<Rightarrow> bool" where
  "well_built t \<longleftrightarrow>
     (case t of
        ListShape (ArrayShape _) \<Rightarrow> True | ListShape _ \<Rightarrow> False
      | ClassNameLiteral (ClassString (Some (Named _))) \<Rightarrow> True | ClassNameLiteral _ \<Rightarrow> False
      | Benevolent (UnionT _) \<Rightarrow> True | Benevolent (Nullable _) \<Rightarrow> True | Benevolent _ \<Rightarrow> False
      | EnumCase e _ \<Rightarrow> is_class_type e
      | _ \<Rightarrow> True)"

definition left_node :: "hazard set \<Rightarrow> php_type \<Rightarrow> bool" where
  "left_node H t \<longleftrightarrow> well_built t \<and>
     (case t of
        Named n \<Rightarrow> (KeywordObjects \<in> H \<longrightarrow> \<not> keyword_like_class n) \<and>
          to_ascii_lowercase n \<noteq> ''non-empty-null''
      | StaticType n \<Rightarrow> KeywordObjects \<in> H \<longrightarrow> \<not> keyword_like_class n
      | ThisType n \<Rightarrow> KeywordObjects \<in> H \<longrightarrow> \<not> keyword_like_class n
      | TemplateParam _ _ \<Rightarrow> False
      | UnsealedShape _ \<Rightarrow> False
      | Generic g \<Rightarrow> \<not> is_pseudo_class (strip_root_slash (g_name g)) \<and>
          to_ascii_lowercase (g_name g) \<noteq> ''iterable''
      | Array _ \<Rightarrow> Slices \<notin> H
      | Callable _ \<Rightarrow> Signatures \<notin> H
      | ArrayShape es \<Rightarrow> shape_readable es \<and> (EntryOrder \<in> H \<longrightarrow> ordered_shape es)
      | _ \<Rightarrow> True)"

definition right_node :: "hazard set \<Rightarrow> php_type \<Rightarrow> bool" where
  "right_node H t \<longleftrightarrow> well_built t \<and>
     (case t of
        Named n \<Rightarrow> \<not> is_pseudo_class (strip_root_slash n) \<and>
          keyword_key n \<noteq> ''view-string'' \<and> keyword_key n \<noteq> ''callable-string'' \<and>
          (KeywordObjects \<notin> H \<longrightarrow> canonical_name n \<noteq> ''object'') \<and>
          (Signatures \<notin> H \<longrightarrow> to_ascii_lowercase n \<notin> set [''closure'', ''object''])
      | StaticType n \<Rightarrow> KeywordObjects \<notin> H \<longrightarrow> canonical_name n \<noteq> ''object''
      | TemplateParam _ b \<Rightarrow> kind b = b
      | UnsealedShape _ \<Rightarrow> False
      | ClassNameLiteral _ \<Rightarrow> False
      | Generic g \<Rightarrow> \<not> is_pseudo_class (strip_root_slash (g_name g)) \<and>
          (Slices \<notin> H \<longrightarrow> is_array_like_name (g_name g) \<longrightarrow>
             \<not> is_list_name (g_name g) \<and> \<not> is_non_empty_array_name (g_name g) \<and> length (g_args g) \<le> 1)
      | ArrayShape es \<Rightarrow> shape_readable es \<and>
          (EntryOrder \<notin> H \<longrightarrow> \<not> shape_keys_are_sequential es \<or> es = [])
      | _ \<Rightarrow> True)"

abbreviation left_ok :: "hazard set \<Rightarrow> php_type \<Rightarrow> bool" where "left_ok H \<equiv> every (left_node H)"
abbreviation right_ok :: "hazard set \<Rightarrow> php_type \<Rightarrow> bool" where "right_ok H \<equiv> every (right_node H)"

lemma every_node: "every P t \<Longrightarrow> P t"
  by (simp add: every.simps [of P t])

lemma every_child: "every P t \<Longrightarrow> c \<in> set (node_children t) \<Longrightarrow> every P c"
  by (simp add: every.simps [of P t] list_all_iff)

lemma every_kind: "every P t \<Longrightarrow> every P (kind t)"
proof (induction t rule: kind.induct)
qed (simp_all add: every.simps [of P] )

lemma left_kind: "left_ok H t \<Longrightarrow> holds W t v \<Longrightarrow> holds W (kind t) v"
  by (cases t) (auto dest: every_node simp: left_node_def)

lemma right_kind:
  assumes "right_ok H t" "holds W (kind t) v" "\<not> is_enum_case t" "\<not> is_list_shape t"
  shows "holds W t v"
proof (cases t)
  case (EnumCase e c)
  then show ?thesis using assms(1,3) every_node [OF assms(1)]
    by (auto simp: right_node_def well_built_def is_class_type_def is_enum_case_def as_enum_case_def split: php_type.splits)
next
  case (TemplateParam n b)
  then have "kind b = b" using every_node [OF assms(1)] by (simp add: right_node_def)
  then show ?thesis using TemplateParam assms(2) by simp
qed (use assms every_node [OF assms(1)] in \<open>auto simp: right_node_def is_list_shape_def\<close>)

subsection \<open>Names\<close>

lemma named_sound:
  assumes sub: "is_named_subtype a b" and W: "world_ok W" and v: "admits W a v"
    and obj: "canonical_name b = ''object'' \<longrightarrow> \<not> keyword_like_class a"
  shows "admits W b v"
proof (cases "into_object (canonical_name a) (canonical_name b)")
  case False
  with sub W v show ?thesis by (rule named_subtype_admits)
next
  case True
  then have b: "canonical_name b = ''object''" and a: "is_keyword_type (canonical_name a)"
    "canonical_name a \<noteq> ''callable-object''"
    by (simp_all add: into_object_def)
  have edge: "named_edge a (canonical_name a) ''object'' \<longleftrightarrow> is_class_like_name a"
    using a(2) by (simp add: named_edge_def)
  have "canonical_name a = ''object'' \<or> \<not> is_class_like_name a"
    using obj b a(1) by (auto simp: keyword_like_class_def)
  then show ?thesis
    using sub v b edge
    by (auto simp: is_named_subtype_def admits_def canonical_name_def Let_def names split: if_splits)
qed

lemma lower_admits:
  assumes "to_ascii_lowercase n = k" "k \<noteq> []" "hd k \<noteq> backslash"
    and "\<not> is_pseudo_class (strip_root_slash n)"
  shows "admits W n v = name_admits W (normalize_alias k) v" "canonical_name n = normalize_alias k"
proof -
  obtain c r where n: "n = c # r" using assms(1,2) by (cases n) auto
  then have "c \<noteq> backslash"
    using assms(1,3) by (auto simp: to_ascii_lowercase_def lower_backslash [THEN iffD2])
  then have "strip_root_slash n = n"
    by (simp add: n strip_root_slash_def strip_prefix_def starts_with_def)
  then show "admits W n v = name_admits W (normalize_alias k) v" "canonical_name n = normalize_alias k"
    using assms by (simp_all add: admits_def canonical_name_def)
qed

lemma lower_not_pseudo:
  assumes "to_ascii_lowercase n = k" "k \<noteq> []" "hd k \<noteq> backslash" "\<not> is_lowercase_only_pseudo_type k"
  shows "\<not> is_pseudo_class (strip_root_slash n)"
proof -
  obtain c r where n: "n = c # r" using assms(1,2) by (cases n) auto
  then have "c \<noteq> backslash"
    using assms(1,3) by (auto simp: to_ascii_lowercase_def lower_backslash [THEN iffD2])
  then have "strip_root_slash n = n"
    by (simp add: n strip_root_slash_def strip_prefix_def starts_with_def)
  then show ?thesis using assms(1,4) by (simp add: is_pseudo_class_def)
qed

lemmas lower_keyword_admits = lower_admits [OF _ _ _ lower_not_pseudo]

lemma keyword_type_values [simp]:
  "holds W pt_null v = (v = VNull)" "holds W pt_mixed v" "holds W pt_int v = on_int (\<lambda>i. True) v"
  "holds W pt_string v = on_string (\<lambda>s. True) v"
  by (simp_all add: keyword_types lower_keyword_admits [OF _ _ _ refl] is_lowercase_only_pseudo_type_def
      backslash_code str_eval normalize_alias_def names)

lemma keyword_type_nodes [simp]:
  "left_ok H pt_null" "left_ok H pt_int" "left_ok H pt_string"
  "right_ok H pt_null" "right_ok H pt_int" "right_ok H pt_string" "right_ok H pt_mixed"
proof -
  have "list_all (\<lambda>n. (\<not> keyword_like_class n \<or> n = ''mixed'') \<and> to_ascii_lowercase n \<noteq> ''non-empty-null'' \<and>
      \<not> is_pseudo_class (strip_root_slash n) \<and> keyword_key n \<noteq> ''view-string'' \<and>
      keyword_key n \<noteq> ''callable-string'' \<and> canonical_name n \<noteq> ''object'' \<and>
      to_ascii_lowercase n \<notin> set [''closure'', ''object'']) [''null'', ''int'', ''string'', ''mixed'']"
    by code_simp
  then show "left_ok H pt_null" "left_ok H pt_int" "left_ok H pt_string"
    "right_ok H pt_null" "right_ok H pt_int" "right_ok H pt_string" "right_ok H pt_mixed"
    by (simp_all add: every.simps left_node_def right_node_def well_built_def keyword_types)
qed

subsection \<open>Rewriting into unions\<close>

lemma base_name_length: "non_empty_base_name n = Some b \<Longrightarrow> length b < length n"
  by (auto simp: non_empty_base_name_def non_empty_prefix_def Let_def split: if_splits)

lemma equivalent_names:
  assumes "equivalent_for_dedup s t" "\<not> is_enum_case s \<or> \<not> is_enum_case t"
  shows "kind s = Named a \<Longrightarrow> \<exists>b. kind t = Named b \<and> eq_ignore_ascii_case a b"
    and "kind t = Named b \<Longrightarrow> \<exists>a. kind s = Named a \<and> eq_ignore_ascii_case a b"
    and "kind s = Generic g \<Longrightarrow> \<exists>h. kind t = Generic h \<and> eq_ignore_ascii_case (g_name g) (g_name h)"
proof -
  have marker: "s = t \<or> marker_equivalence s t \<noteq> Some True"
    using assms(2) by (auto simp: marker_equivalence_def is_enum_case_def split: if_splits option.splits)
  note unfold = assms(1) [unfolded equivalent_for_dedup.simps [of s t]]
  show "\<exists>b. kind t = Named b \<and> eq_ignore_ascii_case a b" if k: "kind s = Named a"
  proof (cases "s = t")
    case False
    then show ?thesis
      using unfold marker unfolding k
      by (cases "kind t"; cases "marker_equivalence s t")
        (auto simp: named_identifiers_equivalent_def identifiers_equivalent_def eq_ignore_ascii_case_def split: if_splits)
  qed (use k in \<open>simp add: eq_ignore_ascii_case_def\<close>)
  show "\<exists>a. kind s = Named a \<and> eq_ignore_ascii_case a b" if k: "kind t = Named b"
  proof (cases "s = t")
    case False
    then show ?thesis
      using unfold marker unfolding k
      by (cases "kind s"; cases "marker_equivalence s t")
        (auto simp: named_identifiers_equivalent_def identifiers_equivalent_def eq_ignore_ascii_case_def split: if_splits)
  qed (use k in \<open>simp add: eq_ignore_ascii_case_def\<close>)
  show "\<exists>h. kind t = Generic h \<and> eq_ignore_ascii_case (g_name g) (g_name h)" if k: "kind s = Generic g"
  proof (cases "s = t")
    case False
    then show ?thesis
      using unfold marker unfolding k
      by (cases "kind t"; cases "marker_equivalence s t")
        (auto simp: named_identifiers_equivalent_def identifiers_equivalent_def eq_ignore_ascii_case_def split: if_splits)
  qed (use k in \<open>simp add: eq_ignore_ascii_case_def\<close>)
qed

lemma eq_ignore_length: "eq_ignore_ascii_case a b \<Longrightarrow> length a = length b"
  by (auto simp: eq_ignore_ascii_case_def to_ascii_lowercase_def dest: map_eq_imp_length_eq)

lemma base_not_marked: "unrefined_base t = Some base \<Longrightarrow> \<not> is_enum_case base"
  by (auto simp: unrefined_base_def named_def generic_def is_enum_case_def as_enum_case_def split: php_type.splits)

lemma equivalent_to_base:
  assumes "unrefined_base t = Some base"
  shows "\<not> equivalent_for_dedup t base"
proof
  assume eqv: "equivalent_for_dedup t base"
  note names = equivalent_names [OF eqv disjI2 [OF base_not_marked [OF assms]]]
  show False
  proof (cases "kind t")
    case (Named n)
    then obtain b where b: "non_empty_base_name n = Some b" "base = Named b"
      using assms by (auto simp: unrefined_base_def named_def)
    then have "eq_ignore_ascii_case n b" using names(1) [OF Named] by simp
    then show False using base_name_length [OF b(1)] eq_ignore_length by fastforce
  next
    case (Generic g)
    then obtain b where b: "non_empty_base_name (g_name g) = Some b" "base = Generic (GenericType b (g_args g))"
      using assms by (auto simp: unrefined_base_def generic_def)
    then have "eq_ignore_ascii_case (g_name g) b" using names(3) [OF Generic] by simp
    then show False using base_name_length [OF b(1)] eq_ignore_length by fastforce
  qed (use assms in \<open>simp_all add: unrefined_base_def\<close>)
qed

lemma null_plain:
  "kind pt_null = Named ''null''" "\<not> is_empty_array_shape pt_null" "\<not> is_non_empty_refinement pt_null"
  "unrefined_base pt_null = None" "int_alternative pt_null = None" "\<not> is_array_shape_kind pt_null"
  "\<not> is_exact_value_marker pt_null" "\<not> is_enum_case pt_null"
  by code_simp+

lemma base_name_split:
  assumes "non_empty_base_name n = Some b"
  shows "to_ascii_lowercase n = ''non-empty-'' @ to_ascii_lowercase b"
proof -
  define k where "k = length non_empty_prefix"
  have "to_ascii_lowercase (take k n) = ''non-empty-''" "b = drop k n"
    using assms
    by (auto simp: non_empty_base_name_def Let_def k_def eq_ignore_ascii_case_def non_empty_prefix_def str_eval
        split: if_splits)
  then show ?thesis
    using append_take_drop_id [of k n] by (metis map_append to_ascii_lowercase_def)
qed

lemma merge_single: "length vs \<le> 1 \<Longrightarrow> length (merge_intervals vs) = length vs"
proof (cases vs)
  case (Cons x r)
  moreover assume "length vs \<le> 1"
  ultimately show ?thesis by (cases x) (simp add: merge_intervals_def)
qed (simp add: merge_intervals_def)

lemma absorb_refined_null:
  "absorb_non_empty_refinements [i, pt_null] = ([i, pt_null], False) \<or>
   (absorb_non_empty_refinements [i, pt_null] = ([pt_null], True) \<and>
    (\<exists>n. kind i = Named n \<and> to_ascii_lowercase n = ''non-empty-null''))"
proof -
  have shape: "\<not> (is_empty_array_shape i \<and> is_non_empty_array_refinement i)"
    by (auto simp: is_empty_array_shape_def is_non_empty_array_refinement_def is_non_empty_refinement_def
        split: php_type.splits)
  have empty: "absorb_empty_shape_into_non_empty_array [i, pt_null] = ([i, pt_null], False)"
    using shape null_plain(2,3)
    by (auto simp: absorb_empty_shape_into_non_empty_array_def is_non_empty_array_refinement_def)
  have base: "\<exists>n. kind i = Named n \<and> to_ascii_lowercase n = ''non-empty-null''"
    if b: "unrefined_base i = Some base" and eqv: "equivalent_for_dedup pt_null base" for base
  proof -
    obtain b where "kind base = Named b" "eq_ignore_ascii_case ''null'' b"
      using equivalent_names(1) [OF eqv disjI1 [OF null_plain(8)] null_plain(1)] by blast
    with b obtain n where n: "kind i = Named n" "non_empty_base_name n = Some b"
      by (auto simp: unrefined_base_def named_def generic_def split: php_type.splits)
    moreover have "to_ascii_lowercase b = ''null''"
      using \<open>eq_ignore_ascii_case ''null'' b\<close> by (simp add: eq_ignore_ascii_case_def str_eval)
    ultimately have "to_ascii_lowercase n = ''non-empty-null''"
      using base_name_split [of n b] by simp
    then show ?thesis using n(1) by blast
  qed
  show ?thesis
    using base equivalent_to_base [of i] null_plain(3,4)
    by (cases "unrefined_base i") (auto simp: absorb_non_empty_refinements_def empty Let_def retain_by_mask_def)
qed

lemma union_null:
  "union hasher [i, pt_null] = UnionT [i, pt_null] \<or>
   (union hasher [i, pt_null] = i \<and> equivalent_for_dedup i pt_null) \<or>
   (union hasher [i, pt_null] = pt_null \<and>
    (kind i = Named ''null'' \<or> (\<exists>n. kind i = Named n \<and> to_ascii_lowercase n = ''non-empty-null'')))"
proof -
  have "length (List.map_filter int_alternative [i, pt_null]) \<le> 1"
    by (simp add: map_filter_simps null_plain split: option.split)
  then have ints: "absorb_int_ranges [i, pt_null] = [i, pt_null]"
    using merge_single [of "sort_key fst (List.map_filter int_alternative [i, pt_null])"]
    by (simp add: absorb_int_ranges_def Let_def)
  have shapes: "absorb_subsumed_shapes [i, pt_null] = [i, pt_null]"
    by (auto simp: absorb_subsumed_shapes_def null_plain shape_key_index_new_def candidates_def
        subsumed_by_def retain_by_mask_def upt_rec Let_def)
  have exact: "absorb_exact_values [i, pt_null] = [i, pt_null] \<or>
      (absorb_exact_values [i, pt_null] = [pt_null] \<and> kind i = Named ''null'')"
    by (auto simp: absorb_exact_values_def null_plain Let_def)
  have dedup: "union_deduped hasher [i, pt_null] = UnionT [i, pt_null] \<or>
      (union_deduped hasher [i, pt_null] = i \<and> equivalent_for_dedup i pt_null)"
    by (auto simp: union_deduped_def dedup_types_def Let_def)
  show ?thesis
    using absorb_refined_null [of i] exact dedup
    by (auto simp: union_def ints shapes)
qed

lemma left_named_kind:
  assumes "left_ok H i" "kind i = Named n"
  shows "i = Named n \<or> (\<exists>c. i = EnumCase (Named n) c \<and> plain_class_name n) \<or> as_dql_builder i \<noteq> None"
  using assms(2) every_node [OF assms(1)]
  by (cases i) (auto simp: left_node_def well_built_def is_class_type_def as_dql_builder_def split: php_type.splits)

lemma equivalent_to_null:
  assumes "left_ok H i" "equivalent_for_dedup i pt_null"
  shows "\<exists>n. i = Named n \<and> to_ascii_lowercase n = ''null''"
proof -
  obtain n where n: "kind i = Named n" "eq_ignore_ascii_case n ''null''"
    using equivalent_names(2) [OF assms(2) disjI2 [OF null_plain(8)] null_plain(1)] by blast
  have "marker_equivalence i pt_null \<noteq> Some False"
    using assms(2) by (auto simp: equivalent_for_dedup.simps [of i pt_null])
  then have "i = pt_null \<or> as_dql_builder i = None \<and> as_enum_case i = None"
    using null_plain(8) unfolding is_enum_case_def not_not
    by (cases "as_enum_case i"; cases "as_dql_builder i") (auto simp: marker_equivalence_def split: if_splits)
  then have "i = Named n"
    using left_named_kind [OF assms(1) n(1)] n(1) by (auto simp: keyword_types as_enum_case_def)
  then show ?thesis using n(2) by (simp add: eq_ignore_ascii_case_def str_eval)
qed

lemma left_union_null:
  assumes "left_ok H i" "holds W i v \<or> v = VNull"
  shows "holds W (union hasher [i, pt_null]) v" "left_ok H (union hasher [i, pt_null])"
proof -
  have refined: "\<not> (kind i = Named n \<and> to_ascii_lowercase n = ''non-empty-null'')" for n
    using every_node [OF every_kind [OF assms(1)]] by (auto simp: left_node_def)
  have null: "to_ascii_lowercase n = ''null'' \<Longrightarrow> admits (names_in W) n w = (w = VNull)" for n w
    by (simp add: lower_keyword_admits is_lowercase_only_pseudo_type_def backslash_code normalize_alias_def names)
  show "holds W (union hasher [i, pt_null]) v"
    using union_null [of hasher i]
  proof (elim disjE exE conjE)
    assume "union hasher [i, pt_null] = i" "equivalent_for_dedup i pt_null"
    with equivalent_to_null [OF assms(1)] show ?thesis using assms(2) null by auto
  next
    assume "union hasher [i, pt_null] = pt_null" "kind i = Named ''null''"
    moreover have "admits (names_in W) ''null'' w = (w = VNull)" for w
      by (rule null) (simp add: str_eval)
    ultimately show ?thesis using left_kind [OF assms(1), of W v] assms(2) by auto
  qed (use refined assms(2) in auto)
  show "left_ok H (union hasher [i, pt_null])"
    using union_null [of hasher i] assms(1)
    by (auto simp: every.simps [of _ "UnionT _"] left_node_def [of _ "UnionT _"] well_built_def)
qed

lemma right_union_null:
  assumes "right_ok H i"
  shows "holds W (union hasher [i, pt_null]) v \<Longrightarrow> v = VNull \<or> holds W i v"
    and "right_ok H (union hasher [i, pt_null])"
  using union_null [of hasher i] assms
  by (auto simp: every.simps [of _ "UnionT _"] right_node_def [of _ "UnionT _"] well_built_def)

subsection \<open>The phases\<close>

text \<open>Answers that are sound for the pairs of allowed types lighter than \<open>n\<close>.\<close>

definition sound_below :: "hazard set \<Rightarrow> type_world \<Rightarrow> nat \<Rightarrow> answers \<Rightarrow> bool" where
  "sound_below H W n r \<longleftrightarrow>
     (\<forall>a b v. weight a + weight b < n \<longrightarrow> left_ok H a \<longrightarrow> right_ok H b \<longrightarrow> r a b \<longrightarrow> value_ok v \<longrightarrow>
        holds W a v \<longrightarrow> holds W b v)"

lemma soundD:
  "sound_below H W n r \<Longrightarrow> r a b \<Longrightarrow> holds W a v \<Longrightarrow> weight a + weight b < n \<Longrightarrow> left_ok H a \<Longrightarrow>
     right_ok H b \<Longrightarrow> value_ok v \<Longrightarrow> holds W b v"
  by (simp add: sound_below_def)

lemma kind_child_ok: "every P t \<Longrightarrow> c \<in> set (node_children (kind t)) \<Longrightarrow> every P c"
  by (rule every_child [OF every_kind])

lemma int_or_string_ok: "left_ok H (int_or_string hasher)" "right_ok H (int_or_string hasher)"
  by (simp_all add: int_or_string_union every.simps [of _ "UnionT _"] left_node_def [of _ "UnionT _"]
      right_node_def [of _ "UnionT _"] well_built_def)

lemma int_or_string_values:
  "holds W (int_or_string hasher) v = (on_int (\<lambda>i. True) v \<or> on_string (\<lambda>s. True) v)"
  by (simp add: int_or_string_union)

text \<open>The markers by what they stand above.\<close>

lemma enum_case_form:
  "well_built t \<Longrightarrow> is_enum_case t \<Longrightarrow> \<exists>n c. t = EnumCase (Named n) c \<and> plain_class_name n"
  by (cases t) (auto simp: is_enum_case_def as_enum_case_def well_built_def is_class_type_def split: php_type.splits)

lemma list_shape_form: "well_built t \<Longrightarrow> is_list_shape t \<Longrightarrow> \<exists>es. t = ListShape (ArrayShape es)"
  by (cases t) (auto simp: is_list_shape_def well_built_def split: php_type.splits)

lemma left_well_built: "left_ok H t \<Longrightarrow> well_built t" by (auto dest: every_node simp: left_node_def)
lemma right_well_built: "right_ok H t \<Longrightarrow> well_built t" by (auto dest: every_node simp: right_node_def)

lemmas right_enum_form = enum_case_form [OF right_well_built]
lemmas right_list_form = list_shape_form [OF right_well_built]
lemmas left_enum_form = enum_case_form [OF left_well_built]
lemmas left_list_form = list_shape_form [OF left_well_built]

lemma right_kind_plain:
  assumes "right_ok H t" "holds W (kind t) v"
    and "\<And>n. kind t = Named n \<Longrightarrow> \<not> plain_class_name n" "\<And>es. kind t \<noteq> ArrayShape es"
  shows "holds W t v"
proof (rule right_kind [OF assms(1,2)])
  show "\<not> is_enum_case t" using right_enum_form [OF assms(1)] assms(3) by fastforce
  show "\<not> is_list_shape t" using right_list_form [OF assms(1)] assms(4) by fastforce
qed

lemma normalising_sound:
  assumes rec: "sound_below H W (weight s + weight t) r"
    and ok: "left_ok H s" "right_ok H t" and W: "world_ok (names_in W)"
    and yes: "subtype_by_normalising hasher r s t = Some True" and v: "holds W s v" "value_ok v"
  shows "holds W t v"
proof -
  have kv: "holds W (kind s) v" using left_kind ok(1) v(1) by blast
  have template: "\<not> template_named s t"
    using every_node [OF ok(1)]
    by (auto simp: template_named_def as_template_param_def left_node_def split: php_type.splits)
  consider "s = t" | "is_never s" | "is_mixed t"
    | (left) i where "nullable_inner s = Some i" "r (union hasher [i, pt_null]) t"
    | (right) i where "nullable_inner t = Some i" "r s (union hasher [i, pt_null])"
    | (key) "nullable_inner s = None" "is_array_key s" "r (int_or_string hasher) t"
    | (enum) e c e' where "as_enum_case s = Some (e, c)" "as_enum_case t = Some (e', c)" "is_named_subtype e e'"
    using yes template by (auto simp: subtype_by_normalising_def split: if_splits option.splits)
  then show ?thesis
  proof cases
    case 2
    then obtain n where n: "kind s = Named n" "to_ascii_lowercase n \<in> set
        [''never'', ''no-return'', ''noreturn'', ''never-return'', ''never-returns'']"
      by (auto simp: is_never_def split: php_type.splits)
    have "list_all (\<lambda>k. k \<noteq> [] \<and> hd k \<noteq> backslash \<and> \<not> is_lowercase_only_pseudo_type k \<and>
        normalize_alias k = ''never'') [''never'', ''no-return'', ''noreturn'', ''never-return'', ''never-returns'']"
      by code_simp
    with n(2) have "admits (names_in W) n v = name_admits (names_in W) ''never'' v"
      by (auto simp: list_all_iff lower_keyword_admits [OF refl])
    then show ?thesis using kv n(1) by (simp add: names)
  next
    case 3
    then obtain n where n: "kind t = Named n" "to_ascii_lowercase n = ''mixed''"
      by (auto simp: is_mixed_def eq_ignore_ascii_case_def str_eval split: php_type.splits)
    then have "admits (names_in W) n v"
      by (simp add: lower_keyword_admits is_lowercase_only_pseudo_type_def backslash_code normalize_alias_def names)
    moreover have "canonical_name n = ''mixed''"
      using n(2) by (simp add: lower_keyword_admits is_lowercase_only_pseudo_type_def backslash_code normalize_alias_def)
    moreover have "is_keyword_type ''mixed''" by code_simp
    ultimately show ?thesis by (intro right_kind_plain [OF ok(2)]) (auto simp: n(1) plain_class_name_def)
  next
    case left
    then have i: "kind s = Nullable i" by (auto simp: nullable_inner_def split: php_type.splits)
    then have iok: "left_ok H i" using kind_child_ok [OF ok(1)] by simp
    have "holds W i v \<or> v = VNull" using kv i by auto
    from left_union_null [OF iok this] show ?thesis
      using weight_children(1) [OF i] weight_nullable_union [of hasher i]
      by (intro soundD [OF rec left(2)]) (auto simp: ok(2) v(2))
  next
    case right
    then have i: "kind t = Nullable i" by (auto simp: nullable_inner_def split: php_type.splits)
    then have iok: "right_ok H i" using kind_child_ok [OF ok(2)] by simp
    have "holds W (union hasher [i, pt_null]) v"
      using weight_children(1) [OF i] weight_nullable_union [of hasher i]
      by (intro soundD [OF rec right(2) v(1)]) (auto simp: ok v(2) right_union_null(2) [OF iok])
    from right_union_null(1) [OF iok this] have "holds W (kind t) v" by (auto simp: i)
    then show ?thesis by (rule right_kind_plain [OF ok(2)]) (simp_all add: i)
  next
    case key
    then obtain n where n: "kind s = Named n" "to_ascii_lowercase n = ''array-key''"
      by (auto simp: is_array_key.simps [of s] nullable_inner_def eq_ignore_ascii_case_def str_eval
          split: php_type.splits)
    then have "admits (names_in W) n v = name_admits (names_in W) ''array-key'' v"
      by (simp add: lower_keyword_admits is_lowercase_only_pseudo_type_def backslash_code normalize_alias_def)
    then have "holds W (int_or_string hasher) v"
      using kv n(1) by (simp add: names int_or_string_values)
    then show ?thesis
      using array_key_weight [OF key(2,1)]
      by (intro soundD [OF rec key(3)]) (auto simp: ok(2) v(2) int_or_string_ok weight_int_or_string)
  next
    case enum
    then have s: "s = EnumCase (Named e) c" "plain_class_name e" and t: "t = EnumCase (Named e') c"
      using left_enum_form [OF ok(1)] right_enum_form [OF ok(2)] by (auto simp: is_enum_case_def as_enum_case_def)
    have "admits (names_in W) e' v"
      using v(1) s by (intro named_sound [OF enum(3) W]) (auto simp: plain_class_name_def keyword_like_class_def)
    then show ?thesis using v(1) s(1) t by simp
  qed (use v in simp)
qed

lemma composite_sound:
  assumes rec: "sound_below H W (weight s + weight t) r"
    and ok: "left_ok H s" "right_ok H t"
    and yes: "subtype_of_composite r s t = Some True" and v: "holds W s v" "value_ok v"
  shows "holds W t v"
proof -
  have kv: "holds W (kind s) v" using left_kind ok(1) v(1) by blast
  have left: "holds W t v" if "kind s = UnionT ms \<or> kind s = Intersection ms" "m \<in> set ms" "r m t" "holds W m v" for ms m
    using that weight_children(2,3) [of s ms m] kind_child_ok [OF ok(1), of m]
    by (intro soundD [OF rec that(3,4)]) (auto simp: ok(2) v(2))
  have right: "holds W m v" if "kind t = UnionT ms \<or> kind t = Intersection ms" "m \<in> set ms" "r s m" for ms m
    using that weight_children(2,3) [of t ms m] kind_child_ok [OF ok(2), of m]
    by (intro soundD [OF rec that(3) v(1)]) (auto simp: ok(1) v(2))
  have below: "holds W (kind t) v \<Longrightarrow> kind t = UnionT ms \<or> kind t = Intersection ms \<Longrightarrow> holds W t v" for ms
    by (rule right_kind_plain [OF ok(2)]) auto
  show ?thesis
  proof (cases "kind s")
    case (UnionT ms)
    then obtain m where m: "m \<in> set ms" "holds W m v" using kv by (auto simp: list_ex_iff)
    have "r m t \<or> (\<exists>ws. kind t = UnionT ws \<and> m \<in> set ws)"
      using yes m(1) UnionT
      by (auto simp: subtype_of_composite_def list_all_iff split: php_type.splits if_splits)
    then show ?thesis using left [of ms m] UnionT m below by (fastforce simp: list_ex_iff)
  next
    case (Intersection ms)
    consider ws where "kind t = UnionT ws" "list_ex (r s) ws"
      | ws where "kind t = Intersection ws" "list_all (r s) ws"
      | "list_ex (\<lambda>m. r m t) ms"
      using yes Intersection by (auto simp: subtype_of_composite_def split: php_type.splits)
    then show ?thesis
      using right below left [of ms] kv Intersection by cases (auto simp: list_ex_iff list_all_iff)
  qed (use yes right below in \<open>auto simp: subtype_of_composite_def list_ex_iff list_all_iff split: php_type.splits\<close>)
qed

subsubsection \<open>Scalars\<close>

lemma literal_equal_holds:
  assumes "literals_equal a b" "literal_holds W a v"
  shows "literal_holds W b v"
proof -
  have same: "f64_eq x y \<Longrightarrow> same_value (VFloat x) v \<Longrightarrow> same_value (VFloat y) v" for x y
    using f64_eq_trans [of y x] f64_eq_sym [of x y] by (cases v) simp_all
  show ?thesis
    using assms same
    by (cases a; cases b) (auto simp: literal_holds_def same_reading_def split: option.splits)
qed

lemma literal_name_holds:
  assumes "literal_below_name lit n" "literal_holds W lit v"
    and "keyword_key n \<noteq> ''view-string''" "keyword_key n \<noteq> ''callable-string''"
  shows "admits W n v"
proof -
  obtain w where w: "literal_php_value lit = Some w" "same_value w v" "written_value W v"
    using assms(2) by (auto simp: literal_holds_def split: option.splits)
  show ?thesis
  proof (cases lit)
    case (LFloat raw)
    then obtain f where "v = VFloat f" using w(1,2) by (cases v) auto
    then show ?thesis using float_below_name assms(1) LFloat by simp
  next
    case (LInt raw)
    then have "w = v" using w by auto
    then show ?thesis using literal_name_admits [OF assms(1) w(1)] w(3) assms(3,4) by simp
  next
    case (LString raw)
    then have "w = v" using w by auto
    then show ?thesis using literal_name_admits [OF assms(1) w(1)] w(3) assms(3,4) by simp
  qed
qed

lemma bound_words: "parse_i64 ''min'' = None" "parse_i64 ''max'' = None"
  by code_simp+

lemma within_range_holds:
  assumes "int_literal_is_within_range i lo hi" "in_i64 i"
  shows "parse_range_bound lo \<le> i \<and> i \<le> parse_range_bound hi"
  using assms
  by (auto simp: int_literal_is_within_range_def parse_range_bound_def Let_def in_i64_def bound_words
      split: option.splits)

lemma range_name_holds:
  assumes "range_below_name lo hi m" "parse_range_bound lo \<le> i" "i \<le> parse_range_bound hi"
    and "\<not> is_pseudo_class (strip_root_slash m)"
  shows "admits W m (VInt i)"
proof -
  let ?k = "to_ascii_lowercase m"
  let ?names = "[''int'', ''integer'', ''float'', ''double'', ''real'', ''numeric'', ''number'', ''scalar'', ''array-key'']"
  consider (wide) "?k \<in> set ?names"
    | (range) lo' hi' where "refined_int_to_range ?k = Some (lo', hi')" "int_range_is_subrange lo hi lo' hi'"
    | (nonzero) "?k = ''non-zero-int''" "parse_range_bound lo \<ge> 1 \<or> parse_range_bound hi \<le> - 1"
    using assms(1) unfolding range_below_name_def Let_def
    by (simp only: split: if_splits option.splits prod.splits)
  then have "name_admits W (normalize_alias ?k) (VInt i) \<and> ?k \<noteq> [] \<and> hd ?k \<noteq> backslash"
  proof cases
    case wide
    have "list_all (\<lambda>k. name_admits W (normalize_alias k) (VInt i) \<and> k \<noteq> [] \<and> hd k \<noteq> backslash) ?names"
      by (simp add: normalize_alias_def names is_float_value_def backslash_code)
    with wide show ?thesis unfolding list_all_iff by blast
  next
    case range
    from range(1) show ?thesis
    proof (cases rule: refined_range_cases)
    qed (use range(2) assms(2,3) in \<open>simp_all add: normalize_alias_def names backslash_code
          int_range_is_subrange_def range_bound_values\<close>)
  next
    case nonzero
    then show ?thesis using assms(2,3) by (auto simp: normalize_alias_def names backslash_code)
  qed
  then show ?thesis using lower_admits(1) [OF refl, where n = m and W = W and v = "VInt i"] assms(4) by simp
qed

lemma refined_name_range:
  assumes "refined_int_to_range (to_ascii_lowercase n) = Some (lo, hi)" "admits W n v" "value_ok v"
  shows "\<exists>i. v = VInt i \<and> parse_range_bound lo \<le> i \<and> i \<le> parse_range_bound hi"
proof -
  have "list_all (\<lambda>k. k \<noteq> [] \<and> hd k \<noteq> backslash \<and> \<not> is_lowercase_only_pseudo_type k \<and> normalize_alias k = k)
      [''positive-int'', ''negative-int'', ''non-negative-int'', ''non-positive-int'']"
    by code_simp
  moreover have "to_ascii_lowercase n \<in> set [''positive-int'', ''negative-int'', ''non-negative-int'', ''non-positive-int'']"
    using assms(1) by (auto elim: refined_range_cases)
  ultimately have "name_admits W (to_ascii_lowercase n) v"
    using assms(2) lower_keyword_admits(1) [OF refl, where n = n and W = W and v = v] by (auto simp: list_all_iff)
  then show ?thesis
    using assms(1,3)
    by (cases v; elim refined_range_cases) (simp_all add: names range_bound_values in_i64_def)
qed

text \<open>Two names as the nodes of the two sides allow them.\<close>

lemma names_sound:
  assumes "left_node H s" "right_node H t" "world_ok (names_in W)" "is_named_subtype n m" "admits (names_in W) n v"
    and "s = Named n \<or> s = StaticType n \<or> s = ThisType n" "t = Named m \<or> t = StaticType m"
  shows "admits (names_in W) m v"
proof (rule named_sound [OF assms(4,3,5)])
  show "canonical_name m = ''object'' \<longrightarrow> \<not> keyword_like_class n"
    using assms(1,2,6,7) by (auto simp: left_node_def right_node_def)
qed

lemma scalar_sound:
  assumes ok: "left_ok H s" "right_ok H t" "\<not> is_enum_case t" and W: "world_ok (names_in W)"
    and yes: "subtype_of_scalar s t = Some True" and v: "holds W s v" "value_ok v"
  shows "holds W t v"
proof -
  have kv: "holds W (kind s) v" using left_kind ok(1) v(1) by blast
  note nodes = every_node [OF every_kind [OF ok(1)]] every_node [OF every_kind [OF ok(2)]]
  note names = names_sound [OF nodes W]
  have "\<not> is_list_shape t" if "\<And>es. kind t \<noteq> ArrayShape es"
    using right_list_form [OF ok(2)] that by fastforce
  then have up: "holds W (kind t) v \<Longrightarrow> (\<And>es. kind t \<noteq> ArrayShape es) \<Longrightarrow> holds W t v"
    using right_kind [OF ok(2) _ ok(3)] by blast
  show ?thesis
  proof (cases "kind s")
    case (Named n)
    then show ?thesis
      using yes kv names [of n] refined_name_range [where n = n and W = "names_in W" and v = v] v(2)
      by (cases "kind t") (auto simp: subtype_of_scalar_def int_range_is_subrange_def intro!: up split: option.splits)
  next
    case (StaticType n)
    then show ?thesis
      using yes kv names [of n] by (cases "kind t") (auto simp: subtype_of_scalar_def intro!: up)
  next
    case (ThisType n)
    then show ?thesis
      using yes kv names [of n] by (cases "kind t") (auto simp: subtype_of_scalar_def intro!: up)
  next
    case (Literal lit)
    then have lit: "literal_is_subtype_of lit t" "literal_holds (names_in W) lit v"
      using yes kv by (auto simp: subtype_of_scalar_def)
    show ?thesis
    proof (rule up)
      show "kind t \<noteq> ArrayShape es" for es using lit(1) by (auto simp: literal_is_subtype_of_def)
      show "holds W (kind t) v"
      proof (cases "kind t")
        case (Named m)
        then show ?thesis
          using lit nodes(2) literal_name_holds [of lit m "names_in W" v]
          by (simp add: literal_is_subtype_of_def right_node_def)
      next
        case (Literal other)
        then show ?thesis using lit literal_equal_holds by (simp add: literal_is_subtype_of_def)
      next
        case (IntRange lo hi)
        then obtain i where i: "literal_i64 lit = Some i" "int_literal_is_within_range i lo hi"
          using lit(1) by (auto simp: literal_is_subtype_of_def split: option.splits)
        then have "v = VInt i" using lit(2) by (cases lit) (auto simp: literal_holds_def)
        then show ?thesis using within_range_holds [OF i(2)] v(2) IntRange by simp
      qed (use lit(1) in \<open>auto simp: literal_is_subtype_of_def\<close>)
    qed
  next
    case (IntRange lo hi)
    then obtain i where i: "v = VInt i" "parse_range_bound lo \<le> i" "i \<le> parse_range_bound hi"
      using kv by (cases v) auto
    have "admits (names_in W) m v" if "kind t = Named m" "range_below_name lo hi m" for m
      using range_name_holds [OF that(2) i(2,3)] nodes(2) that(1) i(1) by (simp add: right_node_def)
    then show ?thesis
      using yes IntRange i up [unfolded i(1)]
      by (cases "kind t") (auto simp: subtype_of_scalar_def int_range_is_subrange_def)
  qed (use yes in \<open>simp_all add: subtype_of_scalar_def\<close>)
qed

subsubsection \<open>Shapes\<close>

lemma sealed_parts:
  assumes "shape_parts_of t = Some p" "as_unsealed_shape t = None"
  shows "kind t = ArrayShape (sp_entries p)" "sp_tail p = None" "sp_is_list p = is_list_shape t"
  using assms by (auto simp: shape_parts_of_def split: php_type.splits)

lemma ok_sealed: "left_ok H t \<Longrightarrow> as_unsealed_shape t = None" "right_ok H t \<Longrightarrow> as_unsealed_shape t = None"
  by (auto dest!: every_node simp: left_node_def right_node_def as_unsealed_shape_def split: php_type.splits)

lemma find_key_Some: "find_key_position keys key hint = Some j \<Longrightarrow> j < length keys \<and> keys ! j = key"
  by (auto simp: find_key_position_def last_position_def dest!: position_where_Some map_of_SomeD split: if_splits)
    (auto simp: set_zip)

lemma sequential_int_keys:
  "keys_sequential_from pos b es \<Longrightarrow> runtime_keys_from next_key shifted es = Some ks \<Longrightarrow> in_i64 next_key \<Longrightarrow>
     k \<in> set ks \<Longrightarrow> canonical_int_key k \<noteq> None"
proof (induction es arbitrary: pos b next_key shifted ks)
  case (Cons e es)
  from Cons.prems(1) have rest: "\<exists>b'. keys_sequential_from (pos + 1) b' es"
    by (auto split: if_splits)
  show ?case
  proof (cases "entry_key e")
    case None
    then obtain ks' where ks: "ks = show_int next_key # ks'" "in_i64 (next_key + 1)"
      "runtime_keys_from (next_key + 1) (shifted \<or> entry_optional e) es = Some ks'"
      using Cons.prems(2,3) by (auto simp: checked_add_def i64_try_from_Some split: if_splits option.splits)
    have "canonical_int_key (show_int next_key) = Some next_key"
      using Cons.prems(3) by (simp add: canonical_int_key_iff)
    then show ?thesis
      using Cons.IH [OF _ ks(3,2)] rest Cons.prems(4) ks(1) by auto
  next
    case (Some key)
    then have key: "canonical_int_key key = Some pos" using Cons.prems(1) by (auto split: if_splits)
    then obtain ks' where ks: "ks = key # ks'" "in_i64 (max next_key (pos + 1))"
      "runtime_keys_from (max next_key (pos + 1)) (shifted \<or> entry_optional e) es = Some ks'"
      using Cons.prems(2,3) Some
      by (auto simp: checked_add_def i64_try_from_Some in_i64_def split: option.splits)
    then show ?thesis
      using Cons.IH [OF _ ks(3,2)] rest Cons.prems(4) key by auto
  qed
qed simp

lemma runtime_key_spelled:
  "runtime_keys_from next_key shifted es = Some ks \<Longrightarrow> (e, key) \<in> set (zip es ks) \<Longrightarrow> entry_key e = Some k \<Longrightarrow> key = k"
proof (induction es arbitrary: next_key shifted ks)
  case (Cons d es)
  then obtain key' ks' n b where ks: "ks = key' # ks'" "runtime_keys_from n b es = Some ks'"
    and spelled: "entry_key d = Some k \<longrightarrow> key' = k"
    by (cases "entry_key d") (auto split: option.splits if_splits)
  show ?case using Cons.prems(2,3) Cons.IH [OF ks(2)] spelled by (auto simp: ks(1))
qed simp

lemma list_all_enumerate_zip:
  "list_all P (enumerate 0 (zip xs ys)) \<longleftrightarrow> (\<forall>i. i < length xs \<longrightarrow> i < length ys \<longrightarrow> P (i, xs ! i, ys ! i))"
  by (auto simp: list_all_iff in_set_enumerate_eq)

lemma shape_is_subshape_sealed:
  assumes "shape_is_subshape hasher r p w" "sp_tail p = None" "sp_tail w = None"
  obtains ks ws where "runtime_shape_keys (sp_entries p) = Some ks" "runtime_shape_keys (sp_entries w) = Some ws"
    "length ks = length (sp_entries p)" "length ws = length (sp_entries w)"
    "\<And>i. i < length ks \<Longrightarrow> \<exists>j < length ws. ws ! j = ks ! i \<and>
       (entry_optional (sp_entries p ! i) \<longrightarrow> entry_optional (sp_entries w ! j)) \<and>
       r (value_type (sp_entries p ! i)) (value_type (sp_entries w ! j))"
    "\<And>i. i < length ws \<Longrightarrow> ws ! i \<in> set ks \<or> entry_optional (sp_entries w ! i)"
    "sp_is_list w \<Longrightarrow> parts_are_list p"
proof -
  obtain ks ws where keys: "runtime_shape_keys (sp_entries p) = Some ks" "runtime_shape_keys (sp_entries w) = Some ws"
    and fit: "listed_fit hasher r p ks w ws" "wider_fit hasher r p ks w ws"
    and lists: "sp_is_list w \<Longrightarrow> parts_are_list p"
    using assms(1) by (auto simp: shape_is_subshape_def split: if_splits option.splits)
  have len: "length ks = length (sp_entries p)" "length ws = length (sp_entries w)"
    using keys by (auto simp: runtime_shape_keys_def dest: runtime_keys_length)
  show thesis
  proof (rule that [OF keys len _ _ lists])
    show "\<exists>j < length ws. ws ! j = ks ! i \<and> (entry_optional (sp_entries p ! i) \<longrightarrow> entry_optional (sp_entries w ! j)) \<and>
       r (value_type (sp_entries p ! i)) (value_type (sp_entries w ! j))" if "i < length ks" for i
    proof -
      have "case find_key_position ws (ks ! i) i of None \<Rightarrow> False
        | Some j \<Rightarrow> (\<not> entry_optional (sp_entries p ! i) \<or> entry_optional (sp_entries w ! j)) \<and>
            r (value_type (sp_entries p ! i)) (value_type (sp_entries w ! j))"
        using fit(1) that len(1)
        by (cases "find_key_position ws (ks ! i) i") (auto simp: listed_fit_def list_all_enumerate_zip assms(3))
      then show ?thesis using find_key_Some [of ws "ks ! i" i] by (auto split: option.splits)
    qed
    show "ws ! i \<in> set ks \<or> entry_optional (sp_entries w ! i)" if "i < length ws" for i
      using fit(2) that len find_key_Some [of ks "ws ! i" i]
      by (auto simp: wider_fit_def list_all_enumerate_zip) (metis nth_mem)
  qed
qed

text \<open>A shape whose every entry has its place in a wider one.\<close>

lemma listed_entries_sound:
  assumes keys: "runtime_shape_keys es = Some ks" "runtime_shape_keys us = Some ws"
    and listed: "\<And>i. i < length ks \<Longrightarrow> \<exists>j < length ws. ws ! j = ks ! i \<and>
       (entry_optional (es ! i) \<longrightarrow> entry_optional (us ! j)) \<and>
       (\<forall>x. value_ok x \<longrightarrow> holds W (value_type (es ! i)) x \<longrightarrow> holds W (value_type (us ! j)) x)"
    and wider: "\<And>i. i < length ws \<Longrightarrow> ws ! i \<in> set ks \<or> entry_optional (us ! i)"
    and dist: "distinct ws"
    and order: "ordered_shape es \<or> \<not> shape_keys_are_sequential us \<or> us = []"
    and v: "shape_holds (\<lambda>e. holds W (value_type e)) es v" "value_ok v"
  shows "shape_holds (\<lambda>e. holds W (value_type e)) us v"
proof -
  have len: "length ks = length es" "length ws = length us"
    using keys by (auto simp: runtime_shape_keys_def dest: runtime_keys_length)
  obtain kvs where kvs: "v = VArray kvs" using v(1) by (cases v) (auto simp: shape_holds_def keys)
  have fits: "\<exists>i < length ks. array_key_of (ks ! i) = k \<and> holds W (value_type (es ! i)) x"
    if "(k, x) \<in> set kvs" for k x
    using v(1) that len(1) by (fastforce simp: shape_holds_def keys kvs list_all_iff list_ex_iff set_zip)
  have required: "entry_optional (es ! i) \<or> array_key_of (ks ! i) \<in> set (map fst kvs)" if "i < length ks" for i
    using v(1) that len(1) by (auto simp: shape_holds_def keys kvs list_all_iff set_zip)
  have "\<exists>j < length ws. array_key_of (ws ! j) = k \<and> holds W (value_type (us ! j)) x"
    if kx: "(k, x) \<in> set kvs" for k x
  proof -
    obtain i where i: "i < length ks" "array_key_of (ks ! i) = k" "holds W (value_type (es ! i)) x"
      using fits [OF kx] by blast
    have "value_ok x" using v(2) kx by (auto simp: kvs list_all_iff)
    then show ?thesis using listed [OF i(1)] i(2,3) by force
  qed
  then have entries: "list_all (\<lambda>(k, x). list_ex (\<lambda>(e, key). array_key_of key = k \<and> holds W (value_type e) x)
      (zip us ws)) kvs"
    using len(2) by (fastforce simp: list_all_iff list_ex_iff set_zip)
  have "entry_optional (us ! i) \<or> array_key_of (ws ! i) \<in> set (map fst kvs)" if i: "i < length ws" for i
  proof (rule disjCI)
    assume absent: "array_key_of (ws ! i) \<notin> set (map fst kvs)"
    show "entry_optional (us ! i)"
    proof (cases "ws ! i \<in> set ks")
      case True
      then obtain i' where i': "i' < length ks" "ks ! i' = ws ! i" by (auto simp: in_set_conv_nth)
      then obtain j where j: "j < length ws" "ws ! j = ws ! i" "entry_optional (es ! i') \<longrightarrow> entry_optional (us ! j)"
        using listed [OF i'(1)] by auto
      then have "j = i" using dist i by (simp add: nth_eq_iff_index_eq)
      then show ?thesis using required [OF i'(1)] absent i'(2) j(3) by auto
    qed (use wider [OF i] in blast)
  qed
  then have needed: "list_all (\<lambda>(e, key). entry_optional e \<or> array_key_of key \<in> set (map fst kvs)) (zip us ws)"
    by (auto simp: list_all_iff set_zip)
  have seq: "is_list_keys (map fst kvs)" if "shape_keys_are_sequential es"
    using v(1) that by (simp add: shape_holds_def keys kvs)
  have "is_list_keys (map fst kvs)" if sw: "shape_keys_are_sequential us"
  proof (cases "us = []")
    case True
    then have "kvs = []" using entries by (cases kvs) auto
    then show ?thesis by (simp add: is_list_keys_def)
  next
    case False
    then consider "shape_keys_are_sequential es" | e k where "e \<in> set es" "entry_key e = Some k" "canonical_int_key k = None"
      using order sw by (auto simp: ordered_shape_def list_ex_iff split: option.splits)
    then show ?thesis
    proof cases
      case 2
      then obtain i where i: "i < length ks" "es ! i = e" by (auto simp: in_set_conv_nth len)
      then have "ks ! i = k"
        using keys(1) 2(2) len(1) runtime_key_spelled [of 0 False es ks e "ks ! i" k]
        by (auto simp: runtime_shape_keys_def set_zip)
      then have "k \<in> set ws" using listed [OF i(1)] by (metis nth_mem)
      then have "canonical_int_key k \<noteq> None"
        using sw keys(2) sequential_int_keys [of 0 False us 0 False ws k]
        by (simp add: shape_keys_are_sequential_def runtime_shape_keys_def in_i64_def i64_min_def i64_max_def)
      then show ?thesis using 2(3) by simp
    qed (rule seq)
  qed
  then show ?thesis using entries needed by (simp add: shape_holds_def keys kvs)
qed

lemma subshape_sound:
  assumes rec: "\<And>e e' x. e \<in> set (sp_entries p) \<Longrightarrow> e' \<in> set (sp_entries w) \<Longrightarrow> r (value_type e) (value_type e') \<Longrightarrow>
      value_ok x \<Longrightarrow> holds W (value_type e) x \<Longrightarrow> holds W (value_type e') x"
    and yes: "shape_is_subshape hasher r p w" and sealed: "sp_tail p = None" "sp_tail w = None"
    and readable: "shape_readable (sp_entries w)"
    and order: "ordered_shape (sp_entries p) \<or> \<not> shape_keys_are_sequential (sp_entries w) \<or> sp_entries w = []"
    and v: "shape_holds (\<lambda>e. holds W (value_type e)) (sp_entries p) v" "value_ok v"
      "sp_is_list p \<longrightarrow> on_array is_list_keys v"
  shows "shape_holds (\<lambda>e. holds W (value_type e)) (sp_entries w) v \<and> (sp_is_list w \<longrightarrow> on_array is_list_keys v)"
proof -
  obtain ks ws where keys: "runtime_shape_keys (sp_entries p) = Some ks" "runtime_shape_keys (sp_entries w) = Some ws"
    and len: "length ks = length (sp_entries p)" "length ws = length (sp_entries w)"
    and listed: "\<And>i. i < length ks \<Longrightarrow> \<exists>j < length ws. ws ! j = ks ! i \<and>
       (entry_optional (sp_entries p ! i) \<longrightarrow> entry_optional (sp_entries w ! j)) \<and>
       r (value_type (sp_entries p ! i)) (value_type (sp_entries w ! j))"
    and wider: "\<And>i. i < length ws \<Longrightarrow> ws ! i \<in> set ks \<or> entry_optional (sp_entries w ! i)"
    and lists: "sp_is_list w \<Longrightarrow> parts_are_list p"
    using shape_is_subshape_sealed [OF yes sealed] by blast
  have "\<exists>j < length ws. ws ! j = ks ! i \<and> (entry_optional (sp_entries p ! i) \<longrightarrow> entry_optional (sp_entries w ! j)) \<and>
      (\<forall>x. value_ok x \<longrightarrow> holds W (value_type (sp_entries p ! i)) x \<longrightarrow> holds W (value_type (sp_entries w ! j)) x)"
    if i: "i < length ks" for i
    using listed [OF i] i rec [OF nth_mem nth_mem, of i] by (fastforce simp: len)
  moreover have "distinct ws" using readable keys(2) by (simp add: shape_readable_def)
  ultimately have "shape_holds (\<lambda>e. holds W (value_type e)) (sp_entries w) v"
    using listed_entries_sound [OF keys _ wider _ order v(1,2)] by blast
  moreover have "on_array is_list_keys v" if "sp_is_list w"
    using lists [OF that] v(1,3) keys(1)
    by (cases v) (auto simp: parts_are_list_def shape_holds_def)
  ultimately show ?thesis by blast
qed

subsubsection \<open>Arrays\<close>

definition array_promises :: "str \<Rightarrow> (int + str) list \<Rightarrow> bool" where
  "array_promises n ks \<longleftrightarrow> (is_list_name n \<longrightarrow> is_list_keys ks) \<and> (is_non_empty_array_name n \<longrightarrow> ks \<noteq> [])"

lemma array_names_plain:
  "list_all (\<lambda>k. k \<noteq> [] \<and> hd k \<noteq> backslash \<and> \<not> is_lowercase_only_pseudo_type k \<and> normalize_alias k = k)
     [''array'', ''list'', ''non-empty-array'', ''non-empty-list'', ''iterable'']"
  by code_simp

lemma array_name_admits:
  assumes "is_array_like_name n"
  shows "admits W n v \<longleftrightarrow> name_admits W (to_ascii_lowercase n) v"
  using assms array_names_plain lower_keyword_admits(1) [OF refl, where n = n and W = W and v = v]
  by (auto simp: is_array_like_name_def list_all_iff)

lemma array_name_values:
  assumes "is_array_like_name n" "to_ascii_lowercase n \<noteq> ''iterable''"
  shows "admits W n v \<longleftrightarrow> on_array (array_promises n) v"
proof -
  have "list_all (\<lambda>k. name_admits W k v \<longleftrightarrow> on_array
      (\<lambda>ks. (k \<in> set [''list'', ''non-empty-list''] \<longrightarrow> is_list_keys ks) \<and>
        (k \<in> set [''non-empty-array'', ''non-empty-list''] \<longrightarrow> ks \<noteq> [])) v)
      [''array'', ''list'', ''non-empty-array'', ''non-empty-list'']"
    by (cases v) (auto simp: names)
  moreover have "to_ascii_lowercase n \<in> set [''array'', ''list'', ''non-empty-array'', ''non-empty-list'']"
    using assms by (auto simp: is_array_like_name_def)
  ultimately show ?thesis
    unfolding array_name_admits [OF assms(1)] array_promises_def [abs_def] is_list_name_def
      is_non_empty_array_name_def list_all_iff
    by (rule bspec)
qed

lemma iterable_values:
  assumes "to_ascii_lowercase n \<in> set [''array'', ''iterable'']" "on_array P v"
  shows "admits W n v"
proof -
  have "is_array_like_name n" using assms(1) by (auto simp: is_array_like_name_def)
  then show ?thesis
    using assms by (cases v) (auto simp: array_name_admits names)
qed

lemma array_name_intro:
  assumes "is_array_like_name n" "on_array (array_promises n) v"
  shows "admits W n v"
  using assms array_name_values [of n W v] iterable_values [of n "array_promises n" v W]
  by (cases "to_ascii_lowercase n = ''iterable''") simp_all

text \<open>A value below an array-like generic, entry by entry.\<close>

lemma args_hold_entries:
  "args_hold (holds W) args (VArray kvs) \<longleftrightarrow>
     (args \<noteq> [] \<longrightarrow> (\<forall>(k, x) \<in> set kvs. holds W (last args) x \<and> (length args = 2 \<longrightarrow> holds W (hd args) (key_value k))))"
  by (auto simp: args_hold_def list_all_iff)

lemma list_keys_int: "is_list_keys (map fst kvs) \<Longrightarrow> (k, x) \<in> set kvs \<Longrightarrow> \<exists>i. k = Inl i"
proof -
  assume "is_list_keys (map fst kvs)" "(k, x) \<in> set kvs"
  then have "k \<in> set (map (\<lambda>i. Inl (int i)) [0..<length (map fst kvs)])"
    unfolding is_list_keys_def by (metis fst_conv image_eqI set_map)
  then show ?thesis by auto
qed

lemma generic_key_value:
  assumes "holds W (Generic g) (VArray kvs)" "is_array_like_name (g_name g)" "to_ascii_lowercase (g_name g) \<noteq> ''iterable''"
    and "array_like_key_value hasher g = Some (kt, vt)" "(k, x) \<in> set kvs"
  shows "holds W kt (key_value k) \<and> holds W vt x"
proof -
  have "g_args g = [kt, vt] \<or> (g_args g = [vt] \<and>
      kt = (if is_list_name (g_name g) then pt_int else int_or_string hasher))"
    using assms(3,4) by (auto simp: array_like_key_value_def Let_def is_list_name_def split: list.splits if_splits)
  moreover have "is_list_name (g_name g) \<Longrightarrow> \<exists>i. k = Inl i"
    using assms(1,2,5) array_name_values [OF assms(2,3)] list_keys_int by (auto simp: array_promises_def)
  moreover have "holds W (int_or_string hasher) (key_value k)"
    by (cases k) (simp_all add: int_or_string_values)
  ultimately show ?thesis
    using assms(1,2,5) by (auto simp: args_hold_entries split: if_splits)
qed

lemma generic_key_value_intro:
  assumes "array_like_key_value hasher g = Some (kt, vt)"
    and "\<And>k x. (k, x) \<in> set kvs \<Longrightarrow> holds W kt (key_value k) \<and> holds W vt x"
  shows "args_hold (holds W) (g_args g) (VArray kvs)"
  using assms by (auto simp: array_like_key_value_def args_hold_entries Let_def split: list.splits)

lemma runtime_key_positional:
  assumes "runtime_keys_from next_key shifted es = Some ks" "(e, key) \<in> set (zip es ks)" "entry_key e = None" "in_i64 next_key"
  shows "canonical_int_key key \<noteq> None"
  using assms
proof (induction es arbitrary: next_key shifted ks)
  case (Cons d es)
  obtain key' ks' n b where ks: "ks = key' # ks'" "runtime_keys_from n b es = Some ks'" "in_i64 n"
    and here: "entry_key d = None \<longrightarrow> key' = show_int next_key"
    using Cons.prems(1,4)
    by (cases "entry_key d") (auto simp: checked_add_def i64_try_from_Some in_i64_def split: option.splits if_splits)
  show ?case
    using Cons.prems(2,3,4) Cons.IH [OF ks(2) _ _ ks(3)] here by (auto simp: ks(1) canonical_int_key_iff)
qed simp

text \<open>The type of a listed key, as \<open>shape_is_subtype_of_array\<close> reads it.\<close>

definition listed_key_type :: "'a shape_entry \<Rightarrow> php_type" where
  "listed_key_type e =
     (case entry_key e of Some k \<Rightarrow> if is_canonical_int_key k then pt_int else pt_string | None \<Rightarrow> pt_int)"

lemma canonical_key_iff: "is_canonical_int_key k \<longleftrightarrow> canonical_int_key k \<noteq> None"
  by (auto simp: canonical_int_key_def is_canonical_int_key_def Let_def)

lemma listed_key_holds:
  assumes "runtime_shape_keys es = Some ks" "(e, key) \<in> set (zip es ks)"
  shows "holds W (listed_key_type e) (key_value (array_key_of key))"
proof (cases "entry_key e")
  case None
  then show ?thesis
    using assms runtime_key_positional [of 0 False es ks e key]
    by (auto simp: runtime_shape_keys_def listed_key_type_def array_key_of_def in_i64_def i64_min_def i64_max_def)
next
  case (Some k)
  then have "key = k" using assms runtime_key_spelled unfolding runtime_shape_keys_def by blast
  then show ?thesis
    using Some by (auto simp: listed_key_type_def array_key_of_def canonical_key_iff)
qed

lemma listed_key_nodes: "left_ok H (listed_key_type e)" "weight (listed_key_type e) = 1"
  by (auto simp: listed_key_type_def weight_keyword_types split: option.split)

text \<open>What a value of a shape offers to the array rules.\<close>

lemma shape_values:
  assumes "shape_holds (\<lambda>e. holds W (value_type e)) es v"
  obtains kvs where "v = VArray kvs"
    "\<And>k x. (k, x) \<in> set kvs \<Longrightarrow> \<exists>e \<in> set es. holds W (value_type e) x \<and> holds W (listed_key_type e) (key_value k)"
    "list_ex (\<lambda>e. \<not> entry_optional e) es \<Longrightarrow> kvs \<noteq> []"
    "shape_keys_are_sequential es \<Longrightarrow> is_list_keys (map fst kvs)"
proof -
  obtain ks kvs where ks: "runtime_shape_keys es = Some ks" and v: "v = VArray kvs"
    using assms by (cases v) (auto simp: shape_holds_def split: option.splits)
  have len: "length ks = length es" using ks by (auto simp: runtime_shape_keys_def dest: runtime_keys_length)
  note parts = assms [unfolded shape_holds_def ks v option.case prod.case php_value.case]
  show thesis
  proof (rule that [OF v])
    show "\<exists>e \<in> set es. holds W (value_type e) x \<and> holds W (listed_key_type e) (key_value k)" if "(k, x) \<in> set kvs" for k x
      using parts that listed_key_holds [OF ks] by (fastforce simp: list_all_iff list_ex_iff dest: set_zip_leftD)
    show "kvs \<noteq> []" if some: "list_ex (\<lambda>e. \<not> entry_optional e) es"
    proof
      assume "kvs = []"
      then have "list_all entry_optional (map fst (zip es ks))" using parts by (auto simp: list_all_iff)
      then show False using some len by (simp add: list_all_iff list_ex_iff)
    qed
    show "is_list_keys (map fst kvs)" if "shape_keys_are_sequential es" using parts that by simp
  qed
qed

lemma slice_sound:
  assumes rec: "sound_below H W (weight s + weight t) r" and ok: "left_ok H s" "right_ok H t"
    and s: "kind s = Array i" and yes: "slice_is_subtype r i t = Some True" and v: "holds W s v" "value_ok v"
  shows "holds W (kind t) v"
proof -
  have "holds W (Array i) v" using left_kind [OF ok(1) v(1)] by (simp only: s)
  then obtain kvs where kvs: "v = VArray kvs" "\<And>k x. (k, x) \<in> set kvs \<Longrightarrow> holds W i x"
    by (cases v) (auto simp: list_all_iff)
  have vals: "value_ok x" if "(k, x) \<in> set kvs" for k x using v(2) that by (auto simp: kvs(1) list_all_iff)
  have i: "left_ok H i" "weight i < weight s"
    using kind_child_ok [OF ok(1), of i] weight_children(6) [OF s] by (auto simp: s)
  have below: "holds W j x" if "r i j" "(k, x) \<in> set kvs" "right_ok H j" "weight j \<le> weight t" for j k x
    using i(2) that(4) by (intro soundD [OF rec that(1) kvs(2) [OF that(2)] _ i(1) that(3) vals [OF that(2)]]) simp
  show ?thesis
  proof (cases "kind t")
    case (Named n)
    then show ?thesis
      using yes iterable_values [of n "\<lambda>ks. True" v] by (simp add: slice_is_subtype_def kvs(1))
  next
    case (Array j)
    have "right_ok H j" "weight j \<le> weight t"
      using kind_child_ok [OF ok(2), of j] weight_children(6) [OF Array] by (auto simp: Array)
    then show ?thesis
      using yes below by (auto simp: slice_is_subtype_def Array kvs(1) list_all_iff)
  next
    case (Generic g)
    then have g: "is_array_like_name (g_name g)" "g_args g \<noteq> []" "r i (last (g_args g))"
      using yes by (auto simp: slice_is_subtype_def split: if_splits)
    have "Slices \<notin> H" using every_node [OF every_kind [OF ok(1)]] by (simp add: s left_node_def)
    then have weak: "\<not> is_list_name (g_name g)" "\<not> is_non_empty_array_name (g_name g)" "length (g_args g) \<le> 1"
      using every_node [OF every_kind [OF ok(2)]] g(1) by (simp_all add: Generic right_node_def)
    have "right_ok H (last (g_args g))" "weight (last (g_args g)) \<le> weight t"
      using kind_child_ok [OF ok(2), of "last (g_args g)"] weight_children(4) [OF Generic last_in_set [OF g(2)]] g(2)
      by (auto simp: Generic)
    then have "args_hold (holds W) (g_args g) v"
      using below [OF g(3)] weak(3) by (auto simp: kvs(1) args_hold_entries)
    moreover have "admits (names_in W) (g_name g) v"
      using weak by (intro array_name_intro g(1)) (simp add: kvs(1) array_promises_def)
    ultimately show ?thesis by (simp add: Generic)
  qed (use yes in \<open>simp_all add: slice_is_subtype_def\<close>)
qed

lemma shape_array_sound:
  assumes rec: "sound_below H W (weight s + weight t) r" and ok: "left_ok H s" "right_ok H t"
    and s: "kind s = ArrayShape es" and yes: "shape_is_subtype_of_array r s es t = Some True"
    and v: "holds W s v" "value_ok v"
  shows "holds W (kind t) v"
proof -
  have "holds W (ArrayShape es) v" using left_kind [OF ok(1) v(1)] by (simp only: s)
  then obtain kvs where kvs: "v = VArray kvs"
    and entry: "\<And>k x. (k, x) \<in> set kvs \<Longrightarrow> \<exists>e \<in> set es. holds W (value_type e) x \<and> holds W (listed_key_type e) (key_value k)"
    and non_empty: "list_ex (\<lambda>e. \<not> entry_optional e) es \<Longrightarrow> kvs \<noteq> []"
    and seq: "shape_keys_are_sequential es \<Longrightarrow> is_list_keys (map fst kvs)"
    using shape_values [of W es v] by auto
  have is_list: "is_list_keys (map fst kvs)" if "is_list_shape s \<or> shape_keys_are_sequential es"
  proof (cases "is_list_shape s")
    case True
    then show ?thesis using left_list_form [OF ok(1)] v(1) by (auto simp: kvs)
  qed (use that seq in blast)
  have vals: "value_ok x" "value_ok (key_value k)" if "(k, x) \<in> set kvs" for k x
    using v(2) that by (cases k; auto simp: kvs list_all_iff)+
  have w: "weight (value_type e) < weight s" "left_ok H (value_type e)" if "e \<in> set es" for e
    using weight_children(7) [OF s that] kind_child_ok [OF ok(1), of "value_type e"] that by (auto simp: s)
  have below: "holds W b x" if "r a b" "holds W a x" "left_ok H a" "right_ok H b" "weight a < weight s" "weight b \<le> weight t" "value_ok x"
    for a b x
    using that(5,6) by (intro soundD [OF rec that(1,2) _ that(3,4,7)]) simp
  show ?thesis
  proof (cases "kind t")
    case (Named n)
    let ?l = "to_ascii_lowercase n"
    have yes': "?l \<in> set [''array'', ''iterable''] \<or> (?l = ''non-empty-array'' \<and> kvs \<noteq> []) \<or>
        (?l = ''list'' \<and> is_list_keys (map fst kvs)) \<or> (?l = ''non-empty-list'' \<and> is_list_keys (map fst kvs) \<and> kvs \<noteq> [])"
      using yes is_list non_empty unfolding shape_is_subtype_of_array_def Named Let_def php_type.case
      by (auto split: if_splits)
    then have "is_array_like_name n" by (auto simp: is_array_like_name_def)
    moreover have "array_promises n (map fst kvs)"
      using yes' by (auto simp: array_promises_def is_list_name_def is_non_empty_array_name_def)
    ultimately show ?thesis using array_name_intro by (simp add: Named kvs)
  next
    case (Array j)
    have "right_ok H j" "weight j \<le> weight t"
      using kind_child_ok [OF ok(2), of j] weight_children(6) [OF Array] by (auto simp: Array)
    moreover have "r (value_type e) j" if "e \<in> set es" for e
      using yes that by (simp add: shape_is_subtype_of_array_def Array Let_def list_all_iff)
    ultimately have "holds W j x" if kx: "(k, x) \<in> set kvs" for k x
      using entry [OF kx] below [of "value_type _" j x] w vals(1) [OF kx] by metis
    then show ?thesis by (auto simp: Array kvs list_all_iff)
  next
    case (Generic g)
    have g: "is_array_like_name (g_name g)" "is_non_empty_array_name (g_name g) \<Longrightarrow> kvs \<noteq> []"
      "is_list_name (g_name g) \<Longrightarrow> is_list_keys (map fst kvs)"
      using yes is_list non_empty by (auto simp: shape_is_subtype_of_array_def Generic Let_def split: if_splits)
    have args: "right_ok H a" "weight a \<le> weight t" if "a \<in> set (g_args g)" for a
      using kind_child_ok [OF ok(2), of a] weight_children(4) [OF Generic that] that by (auto simp: Generic)
    consider a where "g_args g = [a]" "\<And>e. e \<in> set es \<Longrightarrow> r (value_type e) a"
      | k a where "g_args g = [k, a]" "\<And>e. e \<in> set es \<Longrightarrow> r (listed_key_type e) k \<and> r (value_type e) a"
      using yes
      by (auto simp: shape_is_subtype_of_array_def Generic Let_def listed_key_type_def list_all_iff
          split: if_splits list.splits)
    then have "args_hold (holds W) (g_args g) v"
    proof cases
      case 1
      then have "holds W a x" if kx: "(k, x) \<in> set kvs" for k x
        using entry [OF kx] below [of "value_type _" a x] w vals(1) [OF kx] args
        by (metis list.set_intros(1))
      then show ?thesis by (auto simp: kvs args_hold_entries 1(1))
    next
      case 2
      have "weight (listed_key_type e) < weight s" for e :: "php_type shape_entry"
        using weight_kind [of s] by (simp add: s listed_key_nodes)
      then have "holds W k (key_value ky) \<and> holds W a x" if kx: "(ky, x) \<in> set kvs" for ky x
        using entry [OF kx] below [of "listed_key_type _" k "key_value ky"] below [of "value_type _" a x]
          2 w vals [OF kx] args listed_key_nodes(1) [of H]
        by (metis list.set_intros(1) list.set_intros(2))
      then show ?thesis by (auto simp: kvs args_hold_entries 2(1))
    qed
    moreover have "admits (names_in W) (g_name g) v"
      using g by (intro array_name_intro) (auto simp: kvs array_promises_def)
    ultimately show ?thesis by (simp add: Generic)
  qed (use yes in \<open>simp_all add: shape_is_subtype_of_array_def\<close>)
qed

lemma strip_lower: "strip_root_slash (to_ascii_lowercase n) = to_ascii_lowercase (strip_root_slash n)"
  by (cases n) (auto simp: strip_root_slash_def strip_prefix_def starts_with_def to_ascii_lowercase_def
      lower_backslash [THEN iffD2] dest: lower_backslash [THEN iffD1])

lemma admits_lower:
  assumes "to_ascii_lowercase a = to_ascii_lowercase b" "\<not> is_pseudo_class (strip_root_slash a)"
    "\<not> is_pseudo_class (strip_root_slash b)"
  shows "admits W a v = admits W b v"
  using assms strip_lower [of a] strip_lower [of b] by (simp add: admits_def canonical_name_def)

lemma list_all_zip_ends:
  "list_all (\<lambda>(x, y). P x y) (zip xs ys) \<Longrightarrow> length xs = length ys \<Longrightarrow> ys \<noteq> [] \<Longrightarrow>
     P (last xs) (last ys) \<and> P (hd xs) (hd ys)"
proof -
  assume "list_all (\<lambda>(x, y). P x y) (zip xs ys)" "length xs = length ys" "ys \<noteq> []"
  then have "i < length ys \<Longrightarrow> P (xs ! i) (ys ! i)" for i by (auto simp: list_all_iff set_zip)
  then show ?thesis
    using \<open>length xs = _\<close> \<open>ys \<noteq> []\<close> by (simp add: last_conv_nth hd_conv_nth flip: length_greater_0_conv)
qed

lemma generic_sound:
  assumes rec: "sound_below H W (weight s + weight t) r" and ok: "left_ok H s" "right_ok H t"
    and s: "kind s = Generic g" and t: "kind t = Generic h"
    and yes: "generic_is_subtype hasher r g h = Some True" and v: "holds W s v" "value_ok v"
  shows "holds W (kind t) v"
proof -
  have sv: "holds W (Generic g) v" using left_kind [OF ok(1) v(1)] by (simp only: s)
  have names: "\<not> is_pseudo_class (strip_root_slash (g_name g))" "to_ascii_lowercase (g_name g) \<noteq> ''iterable''"
    "\<not> is_pseudo_class (strip_root_slash (g_name h))"
    using every_node [OF every_kind [OF ok(1)]] every_node [OF every_kind [OF ok(2)]]
    by (simp_all add: s t left_node_def right_node_def)
  have left: "left_ok H a" "weight a < weight s" if "a \<in> set (g_args g)" for a
    using kind_child_ok [OF ok(1), of a] weight_children(4) [OF s that] that by (auto simp: s)
  have right: "right_ok H a" "weight a < weight t" if "a \<in> set (g_args h)" for a
    using kind_child_ok [OF ok(2), of a] weight_children(4) [OF t that] that by (auto simp: t)
  have below: "holds W b x" if "r a b" "holds W a x" "a \<in> set (g_args g)" "b \<in> set (g_args h)" "value_ok x" for a b x
    using left [OF that(3)] right [OF that(4)] that(5) by (intro soundD [OF rec that(1,2)]) simp_all
  have ten: "10 \<le> weight s" "10 \<le> weight t" using weight_children(5) s t by auto
  show ?thesis
  proof (cases "is_array_like_name (g_name g)")
    case False
    then have "to_ascii_lowercase (g_name g) = to_ascii_lowercase (g_name h)"
      using yes by (auto simp: generic_is_subtype_def bases_compatible_def split: if_splits)
    then show ?thesis
      using sv admits_lower [OF _ names(1,3)] False by (simp add: t is_array_like_name_def)
  next
    case True
    then obtain kvs where kvs: "v = VArray kvs" and pg: "array_promises (g_name g) (map fst kvs)"
      using sv array_name_values [OF True names(2)] by (cases v) auto
    have vals: "value_ok x \<and> value_ok (key_value k)" if "(k, x) \<in> set kvs" for k x
      using v(2) that by (cases k) (auto simp: kvs list_all_iff)
    have hlike: "is_array_like_name (g_name h)"
      using yes True by (auto simp: generic_is_subtype_def bases_compatible_def is_array_like_name_def split: if_splits)
    have keeps: "keeps_promises (g_name g) (g_name h)"
      using yes True
      by (auto simp: generic_is_subtype_def bases_compatible_def keeps_promises_def is_list_name_def
          is_non_empty_array_name_def split: if_splits option.splits)
    then have "array_promises (g_name h) (map fst kvs)"
      using pg by (auto simp: array_promises_def keeps_promises_def)
    then have "admits (names_in W) (g_name h) v"
      by (intro array_name_intro hlike) (simp add: kvs)
    moreover have "args_hold (holds W) (g_args h) v"
    proof (cases "length (g_args g) = length (g_args h)")
      case len: True
      show ?thesis
      proof (cases "g_args h = []")
        case False
        have "bases_compatible (g_name g) (g_name h)"
          using keeps True hlike by (simp add: bases_compatible_def)
        then have "list_all (\<lambda>(a, b). r a b) (zip (g_args g) (g_args h))"
          using yes len by (simp add: generic_is_subtype_def)
        note ends = list_all_zip_ends [OF this len False]
        have ne: "g_args g \<noteq> []" using False len by auto
        have "holds W (last (g_args h)) x \<and> (length (g_args h) = 2 \<longrightarrow> holds W (hd (g_args h)) (key_value k))"
          if kx: "(k, x) \<in> set kvs" for k x
        proof -
          have "holds W (last (g_args g)) x" "length (g_args g) = 2 \<longrightarrow> holds W (hd (g_args g)) (key_value k)"
            using sv kx ne True by (auto simp: kvs args_hold_entries)
          then show ?thesis
            using below [OF conjunct1 [OF ends] _ last_in_set [OF ne] last_in_set [OF False], of x]
              below [OF conjunct2 [OF ends] _ hd_in_set [OF ne] hd_in_set [OF False], of "key_value k"]
              vals [OF kx] len
            by simp
        qed
        then show ?thesis by (auto simp: kvs args_hold_entries)
      qed (simp add: args_hold_def)
    next
      case False
      then obtain kt vt kt' vt' where kv: "array_like_key_value hasher g = Some (kt, vt)"
        "array_like_key_value hasher h = Some (kt', vt')" "r kt kt'" "r vt vt'"
        using yes by (auto simp: generic_is_subtype_def split: if_splits option.splits)
      have l: "left_ok H kt" "left_ok H vt" "weight kt < weight s" "weight vt < weight s"
        using key_value_weight [OF kv(1)] left ten(1) kv(1) int_or_string_ok(1) [of H hasher] names(2)
        by (auto simp: array_like_key_value_def Let_def split: list.splits if_splits)
      have r: "right_ok H kt'" "right_ok H vt'" "weight kt' < weight t" "weight vt' < weight t"
        using key_value_weight [OF kv(2)] right ten(2) kv(2) int_or_string_ok(2) [of H hasher]
        by (auto simp: array_like_key_value_def Let_def split: list.splits if_splits)
      have "holds W kt' (key_value k) \<and> holds W vt' x" if kx: "(k, x) \<in> set kvs" for k x
        using generic_key_value [OF _ True names(2) kv(1) kx] sv vals [OF kx] l r
        by (auto simp: kvs intro!: soundD [OF rec kv(3)] soundD [OF rec kv(4)])
      then show ?thesis unfolding kvs by (intro generic_key_value_intro [OF kv(2)])
    qed
    ultimately show ?thesis by (simp add: t)
  qed
qed

lemma generic_array_sound:
  assumes rec: "sound_below H W (weight s + weight t) r" and ok: "left_ok H s" "right_ok H t"
    and s: "kind s = Generic g" and yes: "generic_array_is_subtype r g t = Some True"
    and v: "holds W s v" "value_ok v"
  shows "holds W (kind t) v"
proof -
  have sv: "holds W (Generic g) v" using left_kind [OF ok(1) v(1)] by (simp only: s)
  have g: "is_array_like_name (g_name g)" using yes by (simp add: generic_array_is_subtype_def split: if_splits)
  have "to_ascii_lowercase (g_name g) \<noteq> ''iterable''"
    using every_node [OF every_kind [OF ok(1)]] by (simp add: s left_node_def)
  then obtain kvs where kvs: "v = VArray kvs"
    using sv array_name_values [OF g] by (cases v) auto
  show ?thesis
  proof (cases "kind t")
    case (Named n)
    then show ?thesis
      using yes g iterable_values [of n "\<lambda>ks. True" v] by (simp add: generic_array_is_subtype_def kvs)
  next
    case (Array j)
    have ne: "g_args g \<noteq> []" and below: "r (last (g_args g)) j"
      using yes g by (auto simp: generic_array_is_subtype_def Array split: if_splits)
    have "holds W j x" if kx: "(k, x) \<in> set kvs" for k x
    proof -
      have "holds W (last (g_args g)) x" using sv kx ne g by (auto simp: kvs args_hold_entries)
      moreover have "value_ok x" using v(2) kx by (auto simp: kvs list_all_iff)
      moreover have "left_ok H (last (g_args g))" "weight (last (g_args g)) < weight s"
        using kind_child_ok [OF ok(1), of "last (g_args g)"] weight_children(4) [OF s last_in_set [OF ne]] ne
        by (auto simp: s)
      moreover have "right_ok H j" "weight j \<le> weight t"
        using kind_child_ok [OF ok(2), of j] weight_children(6) [OF Array] by (auto simp: Array)
      ultimately show ?thesis by (intro soundD [OF rec below]) auto
    qed
    then show ?thesis by (auto simp: Array kvs list_all_iff)
  qed (use yes g in \<open>simp_all add: generic_array_is_subtype_def\<close>)
qed

lemma shapes_sound:
  assumes rec: "sound_below H W (weight s + weight t) r" and ok: "left_ok H s" "right_ok H t"
    and yes: "shapes_are_subtypes hasher r s t = Some True" and v: "holds W s v" "value_ok v"
  shows "holds W t v"
proof -
  obtain p w where p: "shape_parts_of s = Some p" and w: "shape_parts_of t = Some w"
    and sub: "shape_is_subshape hasher r p w"
    using yes by (auto simp: shapes_are_subtypes_def split: option.splits)
  note sp = sealed_parts [OF p ok_sealed(1) [OF ok(1)]] and sw = sealed_parts [OF w ok_sealed(2) [OF ok(2)]]
  have read: "shape_readable (sp_entries w)"
    "ordered_shape (sp_entries p) \<or> \<not> shape_keys_are_sequential (sp_entries w) \<or> sp_entries w = []"
    using every_node [OF every_kind [OF ok(1)]] every_node [OF every_kind [OF ok(2)]]
    by (auto simp: sp(1) sw(1) left_node_def right_node_def)
  have rec': "holds W (value_type e') x"
    if "e \<in> set (sp_entries p)" "e' \<in> set (sp_entries w)" "r (value_type e) (value_type e')" "value_ok x"
      "holds W (value_type e) x" for e e' x
    using kind_child_ok [OF ok(1), of "value_type e"] kind_child_ok [OF ok(2), of "value_type e'"] that
      weight_children(7) [OF sp(1) that(1)] weight_children(7) [OF sw(1) that(2)]
    by (intro soundD [OF rec that(3,5)]) (simp_all add: sp(1) sw(1))
  have "shape_holds (\<lambda>e. holds W (value_type e)) (sp_entries p) v"
    using left_kind [OF ok(1) v(1)] by (simp add: sp(1))
  moreover have "sp_is_list p \<longrightarrow> on_array is_list_keys v"
    using left_list_form [OF ok(1)] v(1) by (auto simp: sp(3))
  ultimately have res: "shape_holds (\<lambda>e. holds W (value_type e)) (sp_entries w) v"
    "is_list_shape t \<longrightarrow> on_array is_list_keys v"
    using subshape_sound [of p w r W, OF rec' sub sp(2) sw(2) read _ v(2)] by (simp_all add: sw(3))
  show ?thesis
  proof (cases "is_list_shape t")
    case True
    then show ?thesis using right_list_form [OF ok(2) True] res sw(1) by auto
  next
    case False
    have "\<not> is_enum_case t" using right_enum_form [OF ok(2)] sw(1) by fastforce
    then show ?thesis using right_kind [OF ok(2) _ _ False] res(1) by (simp add: sw(1))
  qed
qed

lemma array_sound:
  assumes rec: "sound_below H W (weight s + weight t) r" and ok: "left_ok H s" "right_ok H t" "\<not> is_enum_case t"
    and yes: "subtype_of_array hasher r s t = Some True" and v: "holds W s v" "value_ok v"
  shows "holds W t v"
proof -
  have sealed: "array_is_unsealed_subshape hasher r s t = None"
    using sealed_parts(2) ok_sealed(2) [OF ok(2)]
    by (auto simp: array_is_unsealed_subshape_def split: option.splits)
  consider (slice) i where "kind s = Array i" "slice_is_subtype r i t = Some True"
    | (shapes) "shapes_are_subtypes hasher r s t = Some True"
    | (shape) es where "kind s = ArrayShape es" "shape_is_subtype_of_array r s es t = Some True"
    | (object) es n where "kind s = ObjectShape es" "kind t = Named n" "eq_ignore_ascii_case n ''object''"
    | (generic) g h where "kind s = Generic g" "kind t = Generic h" "generic_is_subtype hasher r g h = Some True"
    | (generic_array) g where "kind s = Generic g" "generic_array_is_subtype r g t = Some True"
    using yes unfolding subtype_of_array_def sealed or_else_def
    by (auto split: option.splits php_type.splits)
  then have "shapes_are_subtypes hasher r s t = Some True \<or> holds W (kind t) v \<and> (\<forall>es. kind t \<noteq> ArrayShape es)"
  proof cases
    case slice
    then show ?thesis using slice_sound [OF rec ok(1,2) slice v] by (auto simp: slice_is_subtype_def)
  next
    case shape
    then show ?thesis using shape_array_sound [OF rec ok(1,2) shape v] by (auto simp: shape_is_subtype_of_array_def)
  next
    case object
    then have "on_object (\<lambda>c. True) v" using left_kind [OF ok(1) v(1)] by simp
    moreover have "admits (names_in W) n v = name_admits (names_in W) ''object'' v"
      using object(3) by (simp add: eq_ignore_ascii_case_def str_eval lower_keyword_admits
          is_lowercase_only_pseudo_type_def backslash_code normalize_alias_def)
    ultimately show ?thesis by (simp add: object(2) names)
  next
    case generic
    then show ?thesis using generic_sound [OF rec ok(1,2) generic v] by simp
  next
    case generic_array
    then show ?thesis
      using generic_array_sound [OF rec ok(1,2) generic_array v]
      by (auto simp: generic_array_is_subtype_def split: if_splits)
  qed simp
  then show ?thesis
  proof (elim disjE conjE)
    assume "holds W (kind t) v" "\<forall>es. kind t \<noteq> ArrayShape es"
    moreover from this have "\<not> is_list_shape t" using right_list_form [OF ok(2)] by fastforce
    ultimately show ?thesis using right_kind [OF ok(2) _ ok(3)] by blast
  qed (rule shapes_sound [OF rec ok(1,2) _ v])
qed

subsubsection \<open>Symbol names and callables\<close>

lemma symbol_words:
  "\<not> keyword_like_class ''class-string''" "\<not> keyword_like_class ''interface-string''"
  "canonical_name ''class-string'' = ''class-string''" "canonical_name ''interface-string'' = ''interface-string''"
  "\<not> is_pseudo_class (strip_root_slash ''class-string'')" "\<not> is_pseudo_class (strip_root_slash ''interface-string'')"
  by code_simp+

lemma symbol_values:
  "admits W ''class-string'' v = on_string (class_names W) v"
  "admits W ''interface-string'' v = on_string (interface_names W) v"
  by (simp_all add: admits_def symbol_words names)

lemma symbol_sound:
  assumes rec: "sound_below H W (weight s + weight t) r" and ok: "left_ok H s" "right_ok H t" "\<not> is_enum_case t"
    and W: "world_ok (names_in W)"
    and yes: "subtype_of_symbol_name r s t = Some True" and v: "holds W s v" "value_ok v"
  shows "holds W t v"
proof -
  have kv: "holds W (kind s) v" using left_kind ok(1) v(1) by blast
  have string: "on_string P v \<Longrightarrow> (\<And>x. P x \<Longrightarrow> Q x) \<Longrightarrow> on_string Q v" for P Q by (cases v) simp_all
  have "holds W (kind t) v \<and> (\<forall>es. kind t \<noteq> ArrayShape es)"
  proof (cases "kind s")
    case (ClassString a)
    then have cs: "admits (names_in W) ''class-string'' v"
      using kv by (auto simp: symbol_values intro: string)
    have "holds W b w" if "a = Some a'" "kind t = ClassString (Some b)" "r a' b" "holds W a' w" "value_ok w" for a' b w
      using kind_child_ok [OF ok(1), of a'] kind_child_ok [OF ok(2), of b] weight_children(10) [of s a']
        weight_children(10) [of t b] ClassString that
      by (intro soundD [OF rec that(3,4)]) simp_all
    then show ?thesis
      using yes kv cs named_sound [OF _ W cs] symbol_words(1) ClassString
      by (cases "kind t")
        (auto simp: subtype_of_symbol_name_def intro!: string [of _ "\<lambda>s. class_names (names_in W) s \<and> _ s"]
          intro: string split: option.splits)
  next
    case (InterfaceString a)
    then have cs: "admits (names_in W) ''interface-string'' v"
      using kv by (auto simp: symbol_values intro: string)
    then show ?thesis
      using yes named_sound [OF _ W cs] symbol_words(2) InterfaceString
      by (cases "kind t") (auto simp: subtype_of_symbol_name_def)
  next
    case (Named n)
    then have t: "kind t = ClassString None" "is_named_subtype n ''class-string''"
      using yes by (auto simp: subtype_of_symbol_name_def split: php_type.splits option.splits if_splits)
    have "admits (names_in W) ''class-string'' v"
      using kv Named by (intro named_sound [OF t(2) W]) (simp_all add: symbol_words)
    then show ?thesis by (simp add: t(1) symbol_values)
  qed (use yes in \<open>simp_all add: subtype_of_symbol_name_def\<close>)
  moreover from this have "\<not> is_list_shape t" using right_list_form [OF ok(2)] by fastforce
  ultimately show ?thesis using right_kind [OF ok(2) _ ok(3)] by blast
qed

lemma callable_sound:
  assumes ok: "left_ok H s" "right_ok H t" "\<not> is_enum_case t" and W: "world_ok (names_in W)"
    and yes: "subtype_of_callable r s t = Some True" and v: "holds W s v"
  shows "holds W t v"
proof -
  have kv: "holds W (kind s) v" using left_kind ok(1) v(1) by blast
  have callable: "to_ascii_lowercase n = ''callable'' \<Longrightarrow> admits (names_in W) n v = callable_value (names_in W) v" for n
    by (simp add: lower_keyword_admits is_lowercase_only_pseudo_type_def backslash_code normalize_alias_def names)
  have closure: "to_ascii_lowercase n = ''closure'' \<Longrightarrow> admits (names_in W) n v \<Longrightarrow> callable_value (names_in W) v" for n
    using world_facts(8) [OF W]
    by (cases v) (simp_all add: lower_keyword_admits is_lowercase_only_pseudo_type_def backslash_code
        normalize_alias_def names)
  have "holds W (kind t) v \<and> (\<forall>es. kind t \<noteq> ArrayShape es)"
  proof (cases "kind s")
    case (Callable c)
    then have "Signatures \<notin> H" using every_node [OF every_kind [OF ok(1)]] by (simp add: left_node_def)
    then have "to_ascii_lowercase n \<notin> set [''closure'', ''object'']" if "kind t = Named n" for n
      using every_node [OF every_kind [OF ok(2)]] that by (simp add: right_node_def)
    then show ?thesis
      using yes kv callable Callable by (cases "kind t") (auto simp: subtype_of_callable_def)
  next
    case (Named n)
    then show ?thesis
      using yes kv callable [of n] closure [of n]
      by (cases "kind t") (auto simp: subtype_of_callable_def split: if_splits)
  qed (use yes in \<open>simp_all add: subtype_of_callable_def\<close>)
  moreover from this have "\<not> is_list_shape t" using right_list_form [OF ok(2)] by fastforce
  ultimately show ?thesis using right_kind [OF ok(2) _ ok(3)] by blast
qed

subsection \<open>Soundness\<close>

lemma step_sound:
  assumes rec: "sound_below H W (weight s + weight t) r" and ok: "left_ok H s" "right_ok H t"
    and W: "world_ok (names_in W)" and yes: "subtype_step hasher r s t" and v: "value_ok v" "holds W s v"
  shows "holds W t v"
proof (cases "subtype_by_normalising hasher r s t = Some True \<or> subtype_of_composite r s t = Some True")
  case True
  then show ?thesis using normalising_sound [OF rec ok W _ v(2,1)] composite_sound [OF rec ok _ v(2,1)] by blast
next
  case False
  then have none: "subtype_by_normalising hasher r s t = None" "subtype_of_composite r s t = None"
    and rest: "subtype_of_scalar s t = Some True \<or> subtype_of_array hasher r s t = Some True \<or>
      subtype_of_symbol_name r s t = Some True \<or> subtype_of_callable r s t = Some True"
    using yes by (auto simp: subtype_step_def or_else_def split: option.splits)
  have "\<not> is_composite s"
    using none(2) by (auto simp: is_composite_def subtype_of_composite_def split: php_type.splits if_splits)
  then have "\<not> is_enum_case t"
    using none(1) by (auto simp: subtype_by_normalising_def is_enum_case_def split: if_splits option.splits)
  then show ?thesis
    using rest scalar_sound [OF ok _ W _ v(2,1)] array_sound [OF rec ok _ _ v(2,1)]
      symbol_sound [OF rec ok _ W _ v(2,1)] callable_sound [OF ok _ W _ v(2)]
    by blast
qed

lemma within_sound:
  assumes W: "world_ok (names_in W)"
  shows "sound_below H W m (subtype_within hasher n)"
proof (induction n arbitrary: m)
  case (Suc n)
  show ?case
    unfolding sound_below_def using step_sound [OF Suc.IH _ _ W] by auto
qed (simp add: sound_below_def)

text \<open>
  C1. The structural subtype test is sound: when it accepts a type below another, every PHP value
  of the first is a value of the second.  This covers names, literals, integer ranges, unions,
  intersections, nullable and enum-case types, generic arrays, lists and sealed shapes, \<open>class-string\<close>
  types and callables without their signatures; open shapes and template parameters are left out,
  and each known leniency of the test is kept out of one of the two sides, chosen by \<open>H\<close>.
\<close>

theorem structural_subtype_sound:
  assumes "is_structural_subtype_of hasher s t"
    and "world_ok (names_in W)" "left_ok H s" "right_ok H t" "value_ok v" "holds W s v"
  shows "holds W t v"
  using assms within_sound [OF assms(2), of H "Suc (weight s + weight t)"]
  unfolding is_structural_subtype_of_def sound_below_def by blast

definition bare_type_world :: type_world where
  "bare_type_world = \<lparr>names_in = bare_world, is_case = (\<lambda>c v. False), is_spelling = (\<lambda>t v. False),
     other_type = (\<lambda>t v. False)\<rparr>"

lemma structural_subtype_sound_witness:
  "holds bare_type_world (Nullable (generic ''array'' [pt_string, UnionT [pt_int, pt_string]]))
     (VArray [(Inr ''id'', VInt 3)])"
proof (rule structural_subtype_sound)
  let ?s = "ArrayShape [ShapeEntry (Some ''id'') (IntRange ''1'' ''5'') False,
    ShapeEntry (Some ''name'') (Literal (LString ([quote] @ ''x'' @ [quote]))) True]"
  show "is_structural_subtype_of length ?s (Nullable (generic ''array'' [pt_string, UnionT [pt_int, pt_string]]))"
    by code_simp
  show "left_ok {Slices, EntryOrder} ?s" by code_simp
  show "right_ok {Slices, EntryOrder} (Nullable (generic ''array'' [pt_string, UnionT [pt_int, pt_string]]))"
    by code_simp
  show "value_ok (VArray [(Inr ''id'', VInt 3)])" by code_simp
  show "world_ok (names_in bare_type_world)" using bare_world_ok by (simp add: bare_type_world_def)
  show "holds bare_type_world ?s (VArray [(Inr ''id'', VInt 3)])" by code_simp
qed

subsection \<open>The leniencies\<close>

text \<open>
  The pairs the theorem keeps apart are accepted, each of which some value refutes.  Keywords below
  \<open>object\<close>, slices below lists, signatures below \<open>Closure\<close>, and \<open>iterable\<close> below \<open>array\<close>:
\<close>

lemma lenient_hazards:
  "is_structural_subtype_of length (Named ''mixed'') (Named ''object'')"
  "is_structural_subtype_of length (Array pt_int) (pt_list pt_int)"
  "\<not> is_structural_subtype_of length (generic ''array'' [pt_int]) (pt_list pt_int)"
  "is_structural_subtype_of length (callable_spec ''callable'' [] None) (Named ''Closure'')"
  "is_structural_subtype_of length (generic ''iterable'' [pt_int]) (Named ''array'')"
  by code_simp+

text \<open>The order of the keys of a list is asked of the subtype only, so the relation is not transitive.\<close>

lemma entry_order_not_transitive:
  defines "swapped \<equiv> ArrayShape [ShapeEntry (Some ''1'') pt_int False, ShapeEntry (Some ''0'') pt_int False]"
    and "ordered \<equiv> ArrayShape [ShapeEntry (Some ''0'') pt_int False, ShapeEntry (Some ''1'') pt_int False]"
  shows "is_structural_subtype_of length swapped ordered"
    "is_structural_subtype_of length ordered (pt_list pt_int)"
    "\<not> is_structural_subtype_of length swapped (pt_list pt_int)"
  unfolding assms by code_simp+

text \<open>
  A range is below a class called \<open>Number\<close>, which \<open>int\<close> is not; a class name is below the literal of
  one class; a key that is a class constant counts as a string against \<open>array<string, V>\<close>, though
  \<open>shape_key_type\<close> gives it \<open>array-key\<close>.
\<close>

lemma lenient_names:
  "is_structural_subtype_of length (IntRange ''0'' ''5'') (Named ''Number'')"
  "\<not> is_structural_subtype_of length pt_int (Named ''Number'')"
  "is_structural_subtype_of length (ClassString (Some (Named ''Foo''))) (class_name_literal length ''Foo'')"
  "is_structural_subtype_of length (ArrayShape [ShapeEntry (Some ''Foo::BAR'') pt_int False])
     (generic ''array'' [pt_string, pt_int])"
  "shape_key_type length ''Foo::BAR'' = Named ''array-key''"
  by code_simp+

text \<open>
  A template bound that is a marked type loses its mark: any enum value is below a template bounded by
  one case, and an unordered shape below one bounded by a list shape.
\<close>

lemma template_bounds_unmarked:
  "is_structural_subtype_of length (enum_case ''Suit'' ''Hearts'') (template_param ''T'' (enum_case ''Suit'' ''Spades''))"
  "\<not> is_structural_subtype_of length (enum_case ''Suit'' ''Hearts'') (enum_case ''Suit'' ''Spades'')"
  "is_structural_subtype_of length
     (array_shape [ShapeEntry (Some ''1'') pt_int False, ShapeEntry (Some ''0'') pt_int False])
     (template_param ''T'' (list_shape [ShapeEntry None pt_int False, ShapeEntry None pt_int False]))"
  by code_simp+

text \<open>
  An open array may hold a listed key although its key type does not contain the key's literal:
  \<open>'Foo'\<close> is no subtype of \<open>class-string\<close>, so the entry is taken to be out of reach.
\<close>

lemma open_tail_overlooked:
  "is_structural_subtype_of length (generic ''array'' [Named ''class-string'', pt_int])
     (UnsealedShape (Unsealed (ArrayShape [ShapeEntry (Some ''Foo'') pt_string True]) pt_string pt_int
        (generic ''array'' [pt_string, UnionT [pt_string, pt_int]])))"
  by code_simp

end
