(* ===== verification/Type_Equivalence.thy ===== *)
theory Type_Equivalence
  imports Type_Dedup
begin

section \<open>Equivalence of types\<close>

text \<open>
  \<open>equivalent_for_dedup\<close> of \<open>src/php_type/normalize.rs\<close> is an equivalence relation: the passes over a
  union compare a member with whichever other they meet first, which is sound only then.
\<close>

lemma marker_none:
  "marker_equivalence a b = None \<longleftrightarrow> a \<noteq> b \<and> as_unsealed_shape a = None \<and> as_unsealed_shape b = None \<and>
     (as_class_name_literal a = None) = (as_class_name_literal b = None) \<and>
     as_dql_builder a = None \<and> as_dql_builder b = None \<and> as_enum_case a = None \<and> as_enum_case b = None"
  unfolding marker_equivalence_def by (auto simp del: not_None_eq)

lemma marker_yes:
  "marker_equivalence a b = Some True \<longleftrightarrow> a = b \<or>
     (as_unsealed_shape a = None \<and> as_unsealed_shape b = None \<and>
      (as_class_name_literal a = None) = (as_class_name_literal b = None) \<and>
      as_dql_builder a = None \<and> as_dql_builder b = None \<and>
      (\<exists>m n c. as_enum_case a = Some (m, c) \<and> as_enum_case b = Some (n, c) \<and> identifiers_equivalent m n))"
  unfolding marker_equivalence_def by (auto simp del: not_None_eq split: option.splits)

lemma zip_symmetric:
  "length xs = length ys \<Longrightarrow> list_all (\<lambda>(x, y). P x y) (zip xs ys) \<Longrightarrow>
     (\<And>x y. x \<in> set xs \<Longrightarrow> P x y \<Longrightarrow> P y x) \<Longrightarrow> list_all (\<lambda>(x, y). P x y) (zip ys xs)"
  by (induction xs ys rule: list_induct2) auto

lemma zip_transitive:
  "length xs = length ys \<Longrightarrow> length ys = length zs \<Longrightarrow> list_all (\<lambda>(x, y). P x y) (zip xs ys) \<Longrightarrow>
     list_all (\<lambda>(x, y). P x y) (zip ys zs) \<Longrightarrow>
     (\<And>x y z. x \<in> set xs \<Longrightarrow> P x y \<Longrightarrow> P y z \<Longrightarrow> P x z) \<Longrightarrow> list_all (\<lambda>(x, y). P x y) (zip xs zs)"
  by (induction xs ys zs rule: list_induct3) auto

lemma identifiers_symmetric:
  "identifiers_equivalent a b \<Longrightarrow> identifiers_equivalent b a"
  "named_identifiers_equivalent a b \<Longrightarrow> named_identifiers_equivalent b a"
  by (auto simp: identifiers_equivalent_def named_identifiers_equivalent_def eq_ignore_ascii_case_def split: if_splits)

lemma identifiers_transitive:
  "identifiers_equivalent a b \<Longrightarrow> identifiers_equivalent b c \<Longrightarrow> identifiers_equivalent a c"
  "named_identifiers_equivalent a b \<Longrightarrow> named_identifiers_equivalent b c \<Longrightarrow> named_identifiers_equivalent a c"
  by (auto simp: identifiers_equivalent_def named_identifiers_equivalent_def eq_ignore_ascii_case_def split: if_splits)

lemma literals_transitive: "literals_equal a b \<Longrightarrow> literals_equal b c \<Longrightarrow> literals_equal a c"
  by (cases a; cases b; cases c)
    (auto simp: same_reading_def dest: f64_eq_trans split: option.splits
      simp del: literal_i64.simps literal_f64.simps string_content.simps)

lemma kinds_symmetric:
  assumes "equivalent_for_dedup a b" "marker_equivalence a b = None" "marker_equivalence b a = None"
    and IH: "\<And>x y. x \<in> set (node_children (kind a)) \<Longrightarrow> equivalent_for_dedup x y \<Longrightarrow> equivalent_for_dedup y x"
  shows "equivalent_for_dedup b a"
proof -
  note ab = assms(1) [unfolded equivalent_for_dedup.simps [of a b] assms(2) option.case]
  note goal = equivalent_for_dedup.simps [of b a, unfolded assms(3) option.case]
  show ?thesis
  proof (cases "kind a")
    case (Named x)
    then obtain y where y: "kind b = Named y" using ab by (cases "kind b") auto
    show ?thesis unfolding goal using ab identifiers_symmetric by (auto simp: Named y)
  next
    case (StaticType x)
    then obtain y where y: "kind b = StaticType y" using ab by (cases "kind b") auto
    show ?thesis unfolding goal using ab identifiers_symmetric by (auto simp: StaticType y)
  next
    case (ThisType x)
    then obtain y where y: "kind b = ThisType y" using ab by (cases "kind b") auto
    show ?thesis unfolding goal using ab identifiers_symmetric by (auto simp: ThisType y)
  next
    case (Nullable x)
    then obtain y where y: "kind b = Nullable y" using ab by (cases "kind b") auto
    show ?thesis unfolding goal using ab IH by (auto simp: Nullable y)
  next
    case (Array x)
    then obtain y where y: "kind b = Array y" using ab by (cases "kind b") auto
    show ?thesis unfolding goal using ab IH by (auto simp: Array y)
  next
    case (KeyOf x)
    then obtain y where y: "kind b = KeyOf y" using ab by (cases "kind b") auto
    show ?thesis unfolding goal using ab IH by (auto simp: KeyOf y)
  next
    case (ValueOf x)
    then obtain y where y: "kind b = ValueOf y" using ab by (cases "kind b") auto
    show ?thesis unfolding goal using ab IH by (auto simp: ValueOf y)
  next
    case (UnionT x)
    then obtain y where y: "kind b = UnionT y" using ab by (cases "kind b") auto
    show ?thesis unfolding goal using ab zip_symmetric [OF _ _ IH, of x y] by (auto simp: UnionT y)
  next
    case (Intersection x)
    then obtain y where y: "kind b = Intersection y" using ab by (cases "kind b") auto
    show ?thesis unfolding goal using ab zip_symmetric [OF _ _ IH, of x y] by (auto simp: Intersection y)
  next
    case (Generic x)
    then obtain y where y: "kind b = Generic y" using ab by (cases "kind b") auto
    show ?thesis unfolding goal using ab identifiers_symmetric zip_symmetric [of "g_args x" "g_args y" equivalent_for_dedup] IH by (auto simp: Generic y)
  next
    case (ArrayShape x)
    then obtain y where y: "kind b = ArrayShape y" using ab by (cases "kind b") auto
    show ?thesis unfolding goal using ab zip_symmetric [of x y "\<lambda>d e. entry_key d = entry_key e \<and> entry_optional d = entry_optional e \<and>
          equivalent_for_dedup (value_type d) (value_type e)"] IH by (auto simp: ArrayShape y)
  next
    case (ObjectShape x)
    then obtain y where y: "kind b = ObjectShape y" using ab by (cases "kind b") auto
    show ?thesis unfolding goal using ab zip_symmetric [of x y "\<lambda>d e. entry_key d = entry_key e \<and> entry_optional d = entry_optional e \<and>
          equivalent_for_dedup (value_type d) (value_type e)"] IH by (auto simp: ObjectShape y)
  next
    case (Callable x)
    then obtain y where y: "kind b = Callable y" using ab by (cases "kind b") auto
    show ?thesis unfolding goal using ab identifiers_symmetric zip_symmetric [of "params x" "params y"
          "\<lambda>d e. param_optional d = param_optional e \<and> variadic d = variadic e \<and>
            equivalent_for_dedup (type_hint d) (type_hint e)"] IH
      by (auto simp: Callable y split: option.splits)
  next
    case (Conditional x)
    then obtain y where y: "kind b = Conditional y" using ab by (cases "kind b") auto
    show ?thesis unfolding goal using ab IH by (auto simp: Conditional y)
  next
    case (ClassString x)
    then obtain y where y: "kind b = ClassString y" using ab by (cases "kind b") auto
    show ?thesis unfolding goal using ab IH by (auto simp: ClassString y split: option.splits)
  next
    case (InterfaceString x)
    then obtain y where y: "kind b = InterfaceString y" using ab by (cases "kind b") auto
    show ?thesis unfolding goal using ab IH by (auto simp: InterfaceString y split: option.splits)
  next
    case (IndexAccess x i)
    then obtain y j where y: "kind b = IndexAccess y j" using ab by (cases "kind b") auto
    show ?thesis unfolding goal using ab IH by (auto simp: IndexAccess y)
  next
    case (Literal x)
    then obtain y where y: "kind b = Literal y" using ab by (cases "kind b") auto
    show ?thesis unfolding goal using ab literals_equal_sym by (auto simp: Literal y)
  qed (use ab in simp_all)
qed

lemma equivalent_symmetric: "equivalent_for_dedup a b \<Longrightarrow> equivalent_for_dedup b a"
proof (induction "size a" arbitrary: a b rule: less_induct)
  case less
  have IH: "equivalent_for_dedup y x" if "x \<in> set (node_children (kind a))" "equivalent_for_dedup x y" for x y
    using less.hyps [OF kind_children_size [OF that(1)] that(2)] .
  show ?case
  proof (cases "marker_equivalence a b")
    case None
    moreover from this have "marker_equivalence b a = None" by (auto simp: marker_none)
    ultimately show ?thesis using kinds_symmetric [OF less.prems] IH by blast
  next
    case (Some answer)
    then have "marker_equivalence a b = Some True" using less.prems by (simp add: equivalent_for_dedup.simps [of a b])
    then have "marker_equivalence b a = Some True" unfolding marker_yes using identifiers_symmetric(1) by fastforce
    then show ?thesis by (simp add: equivalent_for_dedup.simps [of b a])
  qed
qed

lemma kinds_transitive:
  assumes "equivalent_for_dedup a b" "equivalent_for_dedup b c"
    and "marker_equivalence a b = None" "marker_equivalence b c = None" "marker_equivalence a c = None"
    and IH: "\<And>x y z. x \<in> set (node_children (kind a)) \<Longrightarrow> equivalent_for_dedup x y \<Longrightarrow> equivalent_for_dedup y z \<Longrightarrow>
      equivalent_for_dedup x z"
  shows "equivalent_for_dedup a c"
proof -
  note ab = assms(1) [unfolded equivalent_for_dedup.simps [of a b] assms(3) option.case]
  note bc = assms(2) [unfolded equivalent_for_dedup.simps [of b c] assms(4) option.case]
  note goal = equivalent_for_dedup.simps [of a c, unfolded assms(5) option.case]
  let ?same = "\<lambda>d e. entry_key d = entry_key e \<and> entry_optional d = entry_optional e \<and>
    equivalent_for_dedup (value_type d) (value_type e)"
  let ?param = "\<lambda>d e. param_optional d = param_optional e \<and> variadic d = variadic e \<and>
    equivalent_for_dedup (type_hint d) (type_hint e)"
  show ?thesis
  proof (cases "kind a")
    case (Named x)
    then obtain y where y: "kind b = Named y" using ab by (cases "kind b") auto
    from bc y obtain z where z: "kind c = Named z" by (cases "kind c") auto
    show ?thesis unfolding goal using ab bc identifiers_transitive by (auto simp: Named y z)
  next
    case (StaticType x)
    then obtain y where y: "kind b = StaticType y" using ab by (cases "kind b") auto
    from bc y obtain z where z: "kind c = StaticType z" by (cases "kind c") auto
    show ?thesis unfolding goal using ab bc identifiers_transitive by (auto simp: StaticType y z)
  next
    case (ThisType x)
    then obtain y where y: "kind b = ThisType y" using ab by (cases "kind b") auto
    from bc y obtain z where z: "kind c = ThisType z" by (cases "kind c") auto
    show ?thesis unfolding goal using ab bc identifiers_transitive by (auto simp: ThisType y z)
  next
    case (Nullable x)
    then obtain y where y: "kind b = Nullable y" using ab by (cases "kind b") auto
    from bc y obtain z where z: "kind c = Nullable z" by (cases "kind c") auto
    show ?thesis unfolding goal using ab bc IH by (auto simp: Nullable y z)
  next
    case (Array x)
    then obtain y where y: "kind b = Array y" using ab by (cases "kind b") auto
    from bc y obtain z where z: "kind c = Array z" by (cases "kind c") auto
    show ?thesis unfolding goal using ab bc IH by (auto simp: Array y z)
  next
    case (KeyOf x)
    then obtain y where y: "kind b = KeyOf y" using ab by (cases "kind b") auto
    from bc y obtain z where z: "kind c = KeyOf z" by (cases "kind c") auto
    show ?thesis unfolding goal using ab bc IH by (auto simp: KeyOf y z)
  next
    case (ValueOf x)
    then obtain y where y: "kind b = ValueOf y" using ab by (cases "kind b") auto
    from bc y obtain z where z: "kind c = ValueOf z" by (cases "kind c") auto
    show ?thesis unfolding goal using ab bc IH by (auto simp: ValueOf y z)
  next
    case (UnionT x)
    then obtain y where y: "kind b = UnionT y" using ab by (cases "kind b") auto
    from bc y obtain z where z: "kind c = UnionT z" by (cases "kind c") auto
    show ?thesis unfolding goal using ab bc zip_transitive [OF _ _ _ _ IH, of x y z] by (auto simp: UnionT y z)
  next
    case (Intersection x)
    then obtain y where y: "kind b = Intersection y" using ab by (cases "kind b") auto
    from bc y obtain z where z: "kind c = Intersection z" by (cases "kind c") auto
    show ?thesis unfolding goal using ab bc zip_transitive [OF _ _ _ _ IH, of x y z] by (auto simp: Intersection y z)
  next
    case (Generic x)
    then obtain y where y: "kind b = Generic y" using ab by (cases "kind b") auto
    from bc y obtain z where z: "kind c = Generic z" by (cases "kind c") auto
    have parts: "length (g_args x) = length (g_args y)" "length (g_args y) = length (g_args z)"
      "list_all (\<lambda>(d, e). equivalent_for_dedup d e) (zip (g_args x) (g_args y))"
      "list_all (\<lambda>(d, e). equivalent_for_dedup d e) (zip (g_args y) (g_args z))"
      using ab bc by (simp_all add: Generic y z)
    have "list_all (\<lambda>(d, e). equivalent_for_dedup d e) (zip (g_args x) (g_args z))"
      by (rule zip_transitive [OF parts]) (rule IH, simp_all add: Generic)
    moreover have "identifiers_equivalent (g_name x) (g_name z)"
      using ab bc identifiers_transitive(1) by (simp add: Generic y z) blast
    ultimately show ?thesis unfolding goal using parts(1,2) by (simp add: Generic z)
  next
    case (ArrayShape x)
    then obtain y where y: "kind b = ArrayShape y" using ab by (cases "kind b") auto
    from bc y obtain z where z: "kind c = ArrayShape z" by (cases "kind c") auto
    have parts: "length x = length y" "length y = length z" "list_all (\<lambda>(d, e). ?same d e) (zip x y)"
      "list_all (\<lambda>(d, e). ?same d e) (zip y z)"
      using ab bc by (simp_all add: ArrayShape y z)
    have "list_all (\<lambda>(d, e). ?same d e) (zip x z)"
    proof (rule zip_transitive [OF parts])
      fix d e f
      assume "d \<in> set x" "?same d e" "?same e f"
      then show "?same d f" using IH [of "value_type d" "value_type e" "value_type f"] by (simp add: ArrayShape)
    qed
    then show ?thesis unfolding goal using parts(1,2) by (simp add: ArrayShape z)
  next
    case (ObjectShape x)
    then obtain y where y: "kind b = ObjectShape y" using ab by (cases "kind b") auto
    from bc y obtain z where z: "kind c = ObjectShape z" by (cases "kind c") auto
    have parts: "length x = length y" "length y = length z" "list_all (\<lambda>(d, e). ?same d e) (zip x y)"
      "list_all (\<lambda>(d, e). ?same d e) (zip y z)"
      using ab bc by (simp_all add: ObjectShape y z)
    have "list_all (\<lambda>(d, e). ?same d e) (zip x z)"
    proof (rule zip_transitive [OF parts])
      fix d e f
      assume "d \<in> set x" "?same d e" "?same e f"
      then show "?same d f" using IH [of "value_type d" "value_type e" "value_type f"] by (simp add: ObjectShape)
    qed
    then show ?thesis unfolding goal using parts(1,2) by (simp add: ObjectShape z)
  next
    case (Callable x)
    then obtain y where y: "kind b = Callable y" using ab by (cases "kind b") auto
    from bc y obtain z where z: "kind c = Callable z" by (cases "kind c") auto
    have parts: "length (params x) = length (params y)" "length (params y) = length (params z)"
      "list_all (\<lambda>(d, e). ?param d e) (zip (params x) (params y))"
      "list_all (\<lambda>(d, e). ?param d e) (zip (params y) (params z))"
      using ab bc by (simp_all add: Callable y z)
    have "list_all (\<lambda>(d, e). ?param d e) (zip (params x) (params z))"
    proof (rule zip_transitive [OF parts])
      fix d e f
      assume "d \<in> set (params x)" "?param d e" "?param e f"
      then show "?param d f" using IH [of "type_hint d" "type_hint e" "type_hint f"] by (simp add: Callable)
    qed
    moreover have "case (return_type x, return_type z) of (Some u, Some v) \<Rightarrow> equivalent_for_dedup u v
        | (None, None) \<Rightarrow> True | _ \<Rightarrow> False"
    proof (cases "return_type y")
      case None
      then have "return_type x = None" "return_type z = None"
        using ab bc by (simp_all add: Callable y z split: option.splits)
      then show ?thesis by simp
    next
      case (Some v)
      then obtain u w where "return_type x = Some u" "return_type z = Some w" "equivalent_for_dedup u v" "equivalent_for_dedup v w"
        using ab bc by (auto simp add: Callable y z split: option.splits)
      then show ?thesis using IH [of u v w] by (simp add: Callable)
    qed
    moreover have "identifiers_equivalent (callable_kind x) (callable_kind z)"
      using ab bc identifiers_transitive(1) by (simp add: Callable y z) blast
    ultimately show ?thesis unfolding goal using parts(1,2) by (simp add: Callable z)
  next
    case (Conditional x)
    then obtain y where y: "kind b = Conditional y" using ab by (cases "kind b") auto
    from bc y obtain z where z: "kind c = Conditional z" by (cases "kind c") auto
    show ?thesis unfolding goal using ab bc IH [of "condition x" "condition y" "condition z"] IH [of "then_type x" "then_type y" "then_type z"] IH [of "else_type x" "else_type y" "else_type z"] by (simp add: Conditional y z)
  next
    case (ClassString x)
    then obtain y where y: "kind b = ClassString y" using ab by (cases "kind b") auto
    from bc y obtain z where z: "kind c = ClassString z" by (cases "kind c") auto
    show ?thesis
    proof (cases y)
      case None
      then have "x = None" "z = None" using ab bc by (simp_all add: ClassString y z split: option.splits)
      then show ?thesis unfolding goal by (simp add: ClassString z)
    next
      case (Some v)
      then obtain u w where uw: "x = Some u" "z = Some w" "equivalent_for_dedup u v" "equivalent_for_dedup v w"
        using ab bc by (auto simp add: ClassString y z split: option.splits)
      then show ?thesis unfolding goal using IH [of u v w] by (simp add: ClassString z)
    qed
  next
    case (InterfaceString x)
    then obtain y where y: "kind b = InterfaceString y" using ab by (cases "kind b") auto
    from bc y obtain z where z: "kind c = InterfaceString z" by (cases "kind c") auto
    show ?thesis
    proof (cases y)
      case None
      then have "x = None" "z = None" using ab bc by (simp_all add: InterfaceString y z split: option.splits)
      then show ?thesis unfolding goal by (simp add: InterfaceString z)
    next
      case (Some v)
      then obtain u w where uw: "x = Some u" "z = Some w" "equivalent_for_dedup u v" "equivalent_for_dedup v w"
        using ab bc by (auto simp add: InterfaceString y z split: option.splits)
      then show ?thesis unfolding goal using IH [of u v w] by (simp add: InterfaceString z)
    qed
  next
    case (IndexAccess x i)
    then obtain y j where y: "kind b = IndexAccess y j" using ab by (cases "kind b") auto
    from bc y obtain z k where z: "kind c = IndexAccess z k" by (cases "kind c") auto
    show ?thesis unfolding goal using ab bc IH [of x y z] IH [of i j k] by (simp add: IndexAccess y z)
  next
    case (Literal x)
    then obtain y where y: "kind b = Literal y" using ab by (cases "kind b") auto
    from bc y obtain z where z: "kind c = Literal z" by (cases "kind c") auto
    show ?thesis unfolding goal using ab bc literals_transitive by (auto simp: Literal y z)
  qed (use ab in simp_all)
qed

lemma equivalent_transitive:
  "equivalent_for_dedup a b \<Longrightarrow> equivalent_for_dedup b c \<Longrightarrow> equivalent_for_dedup a c"
proof (induction "size a" arbitrary: a b c rule: less_induct)
  case less
  have IH: "equivalent_for_dedup x z"
    if "x \<in> set (node_children (kind a))" "equivalent_for_dedup x y" "equivalent_for_dedup y z" for x y z
    using less.hyps [OF kind_children_size [OF that(1)] that(2,3)] .
  show ?case
  proof (cases "a = c \<or> a = b \<or> b = c")
    case True
    then show ?thesis using less.prems equivalent_refl by blast
  next
    case False
    show ?thesis
    proof (cases "marker_equivalence a b = None \<and> marker_equivalence b c = None")
      case True
      moreover from this have "marker_equivalence a c = None" using False by (auto simp: marker_none)
      ultimately show ?thesis using kinds_transitive [OF less.prems] IH by blast
    next
      case some: False
      have "marker_equivalence a b \<noteq> Some False" "marker_equivalence b c \<noteq> Some False"
        using less.prems by (auto simp: equivalent_for_dedup.simps [of a b] equivalent_for_dedup.simps [of b c])
      then have "marker_equivalence a b = Some True" "marker_equivalence b c = Some True"
        using some False marker_none [of a b] marker_none [of b c] marker_yes [of a b] marker_yes [of b c]
        by (cases "marker_equivalence a b"; cases "marker_equivalence b c"; simp del: not_None_eq; metis option.distinct(1))+
      then have "marker_equivalence a c = Some True"
        using False identifiers_transitive(1) unfolding marker_yes by fastforce
      then show ?thesis by (simp add: equivalent_for_dedup.simps [of a c])
    qed
  qed
qed

end
