(* ===== verification/Union_Values.thy ===== *)
theory Union_Values
  imports Subtype_Sound Type_Equivalence
begin

section \<open>A union keeps its values\<close>

text \<open>
  \<open>PhpType::union\<close> of \<open>src/php_type/constructors.rs\<close> rewrites its members in five passes.  Against
  the values of \<open>Type_Semantics\<close>: whatever is merged, absorbed or dropped, the union holds exactly
  the values its members held.
\<close>

subsection \<open>The members this is about\<close>

text \<open>
  Names that exist in lower case only are written so, \<open>non-empty-\<close> refines one of the types it can
  refine, a \<open>list\<close> shape counts its keys up, and nothing is left unevaluated.
\<close>

definition refinable :: "str \<Rightarrow> bool" where
  "refinable n \<longleftrightarrow> (case non_empty_base_name n of
     None \<Rightarrow> True
   | Some b \<Rightarrow> to_ascii_lowercase b \<in> set [''array'', ''list'', ''string'', ''literal-string'',
       ''lowercase-string'', ''uppercase-string'', ''mixed''])"

definition member_node :: "php_type \<Rightarrow> bool" where
  "member_node t \<longleftrightarrow> well_built t \<and>
     (case t of
        Named n \<Rightarrow> \<not> is_pseudo_class (strip_root_slash n) \<and> refinable n
      | StaticType n \<Rightarrow> \<not> is_pseudo_class (strip_root_slash n)
      | ThisType n \<Rightarrow> \<not> is_pseudo_class (strip_root_slash n)
      | Generic g \<Rightarrow> \<not> is_pseudo_class (strip_root_slash (g_name g)) \<and>
          (case non_empty_base_name (g_name g) of None \<Rightarrow> True | Some b \<Rightarrow> to_ascii_lowercase b \<in> set [''array'', ''list''])
      | ArrayShape es \<Rightarrow> shape_readable es \<and> ordered_shape es
      | ListShape (ArrayShape es) \<Rightarrow> shape_keys_are_sequential es
      | TemplateParam _ b \<Rightarrow> kind b = b
      | DqlBuilder c _ \<Rightarrow> is_class_type c
      | Conditional _ \<Rightarrow> False | KeyOf _ \<Rightarrow> False | ValueOf _ \<Rightarrow> False | IndexAccess _ _ \<Rightarrow> False
      | UnsealedShape _ \<Rightarrow> False
      | _ \<Rightarrow> True)"

abbreviation member_ok :: "php_type \<Rightarrow> bool" where "member_ok \<equiv> every member_node"

lemma member_facts:
  assumes "member_ok t"
  shows "well_built t" "member_node (kind t)" "member_ok (kind t)" "as_unsealed_shape t = None"
  using every_node [OF assms] every_node [OF every_kind [OF assms]] every_kind [OF assms]
  by (auto simp: member_node_def as_unsealed_shape_def split: php_type.splits)

text \<open>A node is its kind, but for the markers of exact values.\<close>

lemma member_kind:
  assumes "member_ok t" "\<not> is_exact_value_marker t"
  shows "holds W t v = holds W (kind t) v"
proof (cases t)
  case (ListShape i)
  then obtain es where i: "i = ArrayShape es" "shape_keys_are_sequential es"
    using every_node [OF assms(1)] by (auto simp: member_node_def well_built_def split: php_type.splits)
  then show ?thesis
    using ListShape by (cases v) (auto simp: shape_holds_def split: option.splits)
next
  case (TemplateParam n b)
  then show ?thesis using every_node [OF assms(1)] by (simp add: member_node_def)
qed (use assms member_facts(4) [OF assms(1)] in \<open>simp_all add: is_exact_value_marker_def as_unsealed_shape_def\<close>)

lemma exact_marker_kind: "member_ok t \<Longrightarrow> is_exact_value_marker t \<Longrightarrow> holds W t v \<Longrightarrow> holds W (kind t) v"
  by (cases t) (auto simp: is_exact_value_marker_def)

lemma exact_marker_forms:
  assumes "member_ok t" "is_exact_value_marker t"
  shows "(\<exists>n c. t = EnumCase (Named n) c \<and> plain_class_name n) \<or> (\<exists>n q. t = DqlBuilder (Named n) q) \<or>
    (\<exists>n. t = ClassNameLiteral (ClassString (Some (Named n))))"
  using assms(2) every_node [OF assms(1)]
  by (cases t)
    (auto simp: is_exact_value_marker_def member_node_def well_built_def is_class_type_def
      split: php_type.splits option.splits)

subsection \<open>Equivalent types hold the same values\<close>

lemma equivalent_name_values:
  "to_ascii_lowercase a = to_ascii_lowercase b \<Longrightarrow> \<not> is_pseudo_class (strip_root_slash a) \<Longrightarrow>
     \<not> is_pseudo_class (strip_root_slash b) \<Longrightarrow> admits W a v = admits W b v"
  by (rule admits_lower)

lemma identifiers_lower:
  "named_identifiers_equivalent a b \<Longrightarrow> to_ascii_lowercase a = to_ascii_lowercase b"
  "identifiers_equivalent a b \<Longrightarrow> to_ascii_lowercase a = to_ascii_lowercase b"
  by (auto simp: named_identifiers_equivalent_def identifiers_equivalent_def eq_ignore_ascii_case_def split: if_splits)

lemma list_all_zip_holds:
  assumes "length xs = length ys" "list_all (\<lambda>(x, y). E x y) (zip xs ys)"
    and "\<And>x y. x \<in> set xs \<Longrightarrow> y \<in> set ys \<Longrightarrow> E x y \<Longrightarrow> P x = P y"
  shows "map P xs = map P ys"
  using assms by (induction xs ys rule: list_induct2) auto

lemma runtime_keys_cong:
  "map entry_key es = map entry_key es' \<Longrightarrow> map entry_optional es = map entry_optional es' \<Longrightarrow>
     runtime_keys_from n b es = runtime_keys_from n b es'"
proof (induction es arbitrary: es' n b)
  case (Cons e es)
  then obtain d ds where "es' = d # ds" by (cases es') auto
  with Cons.prems Cons.IH [of ds] show ?case by (auto split: option.split)
qed simp

lemma sequential_cong:
  "map entry_key es = map entry_key es' \<Longrightarrow> map entry_optional es = map entry_optional es' \<Longrightarrow>
     keys_sequential_from n b es = keys_sequential_from n b es'"
proof (induction es arbitrary: es' n b)
  case (Cons e es)
  then obtain d ds where "es' = d # ds" by (cases es') auto
  with Cons.prems Cons.IH [of ds] show ?case by (auto split: option.split)
qed simp

lemma shape_holds_equivalent:
  fixes es es' :: "'a shape_entry list"
  assumes keys: "map entry_key es = map entry_key es'" "map entry_optional es = map entry_optional es'"
    and vals: "map P es = map P es'"
  shows "shape_holds P es v = shape_holds P es' v"
proof -
  have ex: "list_ex (\<lambda>(e, key). array_key_of key = k \<and> P e x) (zip xs ks) =
      list_ex (\<lambda>(f, key). array_key_of key = k \<and> f x) (zip (map P xs) ks)" for xs ks k x
    by (simp add: zip_map1 list_ex_iff) force
  have opt: "list_all (\<lambda>(e, key). entry_optional e \<or> Q key) (zip xs ks) =
      list_all (\<lambda>(b, key). b \<or> Q key) (zip (map entry_optional xs) ks)"
    for xs :: "'a shape_entry list" and ks and Q :: "str \<Rightarrow> bool"
    by (simp add: zip_map1 list_all_iff) force
  have all: "list_all (\<lambda>(e, key). entry_optional e \<or> array_key_of key \<in> K) (zip es ks) =
      list_all (\<lambda>(e, key). entry_optional e \<or> array_key_of key \<in> K) (zip es' ks)" for K ks
    using opt [of "\<lambda>key. array_key_of key \<in> K" es ks] opt [of "\<lambda>key. array_key_of key \<in> K" es' ks] keys(2)
    by simp
  show ?thesis
    unfolding shape_holds_def ex vals runtime_shape_keys_def shape_keys_are_sequential_def
      runtime_keys_cong [OF keys] sequential_cong [OF keys] all ..
qed

lemma kinds_hold:
  assumes eqv: "equivalent_for_dedup a b" "marker_equivalence a b = None" and ok: "member_ok a" "member_ok b"
    and IH: "\<And>x y v. x \<in> set (node_children (kind a)) \<Longrightarrow> y \<in> set (node_children (kind b)) \<Longrightarrow>
      equivalent_for_dedup x y \<Longrightarrow> holds W x v = holds W y v"
  shows "holds W (kind a) v = holds W (kind b) v"
proof -
  note nodes = member_facts(2) [OF ok(1)] member_facts(2) [OF ok(2)]
  note body = eqv(1) [unfolded equivalent_for_dedup.simps [of a b] eqv(2) option.case]
  have pairs: "map (\<lambda>x. holds W x v) xs = map (\<lambda>y. holds W y v) ys"
    if "length xs = length ys" "list_all (\<lambda>(x, y). equivalent_for_dedup x y) (zip xs ys)"
      "set xs \<subseteq> set (node_children (kind a))" "set ys \<subseteq> set (node_children (kind b))" for xs ys v
    using that by (intro zip_map_eq IH) (auto simp: list_all_iff dest: zip_mem)
  show ?thesis
  proof (cases "kind a")
    case (UnionT xs)
    then obtain ys where ys: "kind b = UnionT ys" using body by (cases "kind b") auto
    have "list_ex id (map (\<lambda>x. holds W x v) xs) = list_ex id (map (\<lambda>y. holds W y v) ys)"
      using body UnionT ys by (subst pairs) auto
    then show ?thesis by (simp add: UnionT ys list.pred_map list_ex_iff)
  next
    case (Intersection xs)
    then obtain ys where ys: "kind b = Intersection ys" using body by (cases "kind b") auto
    have "list_all id (map (\<lambda>x. holds W x v) xs) = list_all id (map (\<lambda>y. holds W y v) ys)"
      using body Intersection ys by (subst pairs) auto
    then show ?thesis by (simp add: Intersection ys list.pred_map comp_def)
  next
    case (Generic g)
    then obtain h where h: "kind b = Generic h" using body by (cases "kind b") auto
    have names: "to_ascii_lowercase (g_name g) = to_ascii_lowercase (g_name h)" and len: "length (g_args g) = length (g_args h)"
      using body Generic h identifiers_lower by auto
    have "admits (names_in W) (g_name g) v = admits (names_in W) (g_name h) v"
      using nodes Generic h by (intro admits_lower names) (simp_all add: member_node_def)
    moreover have "args_hold (holds W) (g_args g) v = args_hold (holds W) (g_args h) v"
    proof (cases "g_args g = []")
      case False
      have "map (\<lambda>x. holds W x w) (g_args g) = map (\<lambda>y. holds W y w) (g_args h)" for w
        using body Generic h by (intro pairs) auto
      then have "last (map (\<lambda>x. holds W x w) (g_args g)) = last (map (\<lambda>x. holds W x w) (g_args h))"
        "hd (map (\<lambda>x. holds W x w) (g_args g)) = hd (map (\<lambda>x. holds W x w) (g_args h))" for w
        by simp_all
      moreover have "g_args h \<noteq> []" using False len by auto
      ultimately have "holds W (last (g_args g)) w = holds W (last (g_args h)) w"
        "holds W (hd (g_args g)) w = holds W (hd (g_args h)) w" for w
        using False by (simp_all add: last_map hd_map)
      then show ?thesis using \<open>g_args h \<noteq> []\<close> False by (simp add: args_hold_def len)
    qed (use len in \<open>simp add: args_hold_def\<close>)
    ultimately show ?thesis using names by (simp add: Generic h is_array_like_name_def)
  next
    case (ArrayShape es)
    then obtain ds where ds: "kind b = ArrayShape ds" using body by (cases "kind b") auto
    have parts: "length es = length ds" "map entry_key es = map entry_key ds" "map entry_optional es = map entry_optional ds"
      using body ArrayShape ds by (auto simp: list_all_iff intro!: zip_map_eq)
    have "map (\<lambda>e. holds W (value_type e)) es = map (\<lambda>e. holds W (value_type e)) ds"
      using body ArrayShape ds parts(1)
      by (intro zip_map_eq ext IH) (auto simp: list_all_iff dest: zip_mem)
    then show ?thesis by (simp only: ArrayShape ds holds.simps shape_holds_equivalent [OF parts(2,3)])
  next
    case (Array i)
    then obtain j where j: "kind b = Array j" using body by (cases "kind b") auto
    then have "holds W i = holds W j" using body Array by (intro ext IH) auto
    then show ?thesis by (simp add: Array j)
  next
    case (Nullable i)
    then obtain j where j: "kind b = Nullable j" using body by (cases "kind b") auto
    then have "holds W i = holds W j" using body Nullable by (intro ext IH) auto
    then show ?thesis by (simp add: Nullable j)
  next
    case (ClassString i)
    then obtain j where j: "kind b = ClassString j" using body by (cases "kind b") auto
    show ?thesis
    proof (cases i)
      case None
      then have "j = None" using body unfolding ClassString j by (cases j) simp_all
      then show ?thesis by (simp add: ClassString j None)
    next
      case (Some x)
      then obtain y where y: "j = Some y" "equivalent_for_dedup x y"
        using body unfolding ClassString j by (cases j) simp_all
      then have "holds W x = holds W y" by (intro ext IH) (simp_all add: ClassString j Some)
      then show ?thesis by (simp add: ClassString j Some y(1))
    qed
  next
    case (InterfaceString i)
    then obtain j where j: "kind b = InterfaceString j" using body by (cases "kind b") auto
    show ?thesis
    proof (cases i)
      case None
      then have "j = None" using body unfolding InterfaceString j by (cases j) simp_all
      then show ?thesis by (simp add: InterfaceString j None)
    next
      case (Some x)
      then obtain y where y: "j = Some y" "equivalent_for_dedup x y"
        using body unfolding InterfaceString j by (cases j) simp_all
      then have "holds W x = holds W y" by (intro ext IH) (simp_all add: InterfaceString j Some)
      then show ?thesis by (simp add: InterfaceString j Some y(1))
    qed
  next
    case (Named n)
    then show ?thesis
      using body nodes admits_lower [OF identifiers_lower(1)] by (cases "kind b") (simp_all add: member_node_def)
  next
    case (StaticType n)
    then show ?thesis
      using body nodes admits_lower [OF identifiers_lower(2)] by (cases "kind b") (simp_all add: member_node_def)
  next
    case (ThisType n)
    then show ?thesis
      using body nodes admits_lower [OF identifiers_lower(2)] by (cases "kind b") (simp_all add: member_node_def)
  next
    case (Literal l)
    then obtain l' where l': "kind b = Literal l'" "literals_equal l l'" using body by (cases "kind b") auto
    then have "literal_holds (names_in W) l v = literal_holds (names_in W) l' v"
      using literal_equal_holds literals_equal_sym by blast
    then show ?thesis by (simp add: Literal l'(1))
  next
    case (ObjectShape es)
    then show ?thesis using body by (cases "kind b") simp_all
  next
    case (Callable c)
    then show ?thesis using body by (cases "kind b") simp_all
  qed (use body nodes in \<open>simp_all add: member_node_def\<close>)
qed

lemma unmarked_facts:
  assumes "marker_equivalence a b = None"
  shows "as_enum_case a = None" "as_enum_case b = None" "as_dql_builder a = None" "as_dql_builder b = None"
    "(as_class_name_literal a = None) = (as_class_name_literal b = None)"
proof -
  note def = assms [unfolded marker_equivalence_def]
  show "as_dql_builder a = None" using def by (cases "as_dql_builder a") (simp_all split: if_splits)
  show "as_dql_builder b = None" using def by (cases "as_dql_builder b") (simp_all split: if_splits)
  show "as_enum_case a = None" using def by (cases "as_enum_case a") (simp_all split: if_splits)
  show "as_enum_case b = None" using def by (cases "as_enum_case b") (simp_all split: if_splits)
  show "(as_class_name_literal a = None) = (as_class_name_literal b = None)"
    using def by (cases "as_class_name_literal a"; cases "as_class_name_literal b") (simp_all split: if_splits)
qed

lemma equivalent_holds:
  "equivalent_for_dedup a b \<Longrightarrow> member_ok a \<Longrightarrow> member_ok b \<Longrightarrow> holds W a v = holds W b v"
proof (induction "size a" arbitrary: a b v rule: less_induct)
  case less
  have IH: "holds W x v = holds W y v"
    if "x \<in> set (node_children (kind a))" "y \<in> set (node_children (kind b))" "equivalent_for_dedup x y" for x y v
    using less.hyps [OF kind_children_size [OF that(1)] that(3)] kind_child_ok [OF less.prems(2) that(1)]
      kind_child_ok [OF less.prems(3) that(2)] by blast
  show ?case
  proof (cases "marker_equivalence a b")
    case None
    note kinds = kinds_hold [OF less.prems(1) None less.prems(2,3) IH]
    show ?thesis
    proof (cases "is_exact_value_marker a \<or> is_exact_value_marker b")
      case True
      obtain m n where ab: "a = ClassNameLiteral (ClassString (Some (Named m)))"
        "b = ClassNameLiteral (ClassString (Some (Named n)))"
        using True unmarked_facts [OF None] exact_marker_forms [OF less.prems(2)] exact_marker_forms [OF less.prems(3)]
        by (auto simp: as_enum_case_def as_dql_builder_def as_class_name_literal_def is_exact_value_marker_def
            split: php_type.splits)
      have "equivalent_for_dedup (Named m) (Named n)"
        using less.prems(1) unfolding equivalent_for_dedup.simps [of a b] None by (simp add: ab)
      then have "to_ascii_lowercase m = to_ascii_lowercase n"
        using equivalent_names(1) [of "Named m" "Named n" m]
        by (auto simp: is_enum_case_def as_enum_case_def eq_ignore_ascii_case_def)
      then show ?thesis using kinds by (simp add: ab as_class_name_literal_def)
    next
      case False
      then show ?thesis using kinds member_kind less.prems(2,3) by simp
    qed
  next
    case (Some answer)
    then have "answer" using less.prems(1) by (simp add: equivalent_for_dedup.simps [of a b])
    show ?thesis
    proof (cases "a = b")
      case False
      then obtain m n c where e: "as_enum_case a = Some (m, c)" "as_enum_case b = Some (n, c)" "identifiers_equivalent m n"
        using Some \<open>answer\<close> by (auto simp: marker_equivalence_def split: if_splits option.splits)
      then have ab: "a = EnumCase (Named m) c" "b = EnumCase (Named n) c"
        using enum_case_form [OF member_facts(1) [OF less.prems(2)]] enum_case_form [OF member_facts(1) [OF less.prems(3)]]
        by (auto simp: is_enum_case_def as_enum_case_def)
      have "member_node (Named m)" "member_node (Named n)"
        using every_child [OF less.prems(2), of "Named m"] every_child [OF less.prems(3), of "Named n"]
        by (auto simp: ab dest: every_node)
      then show ?thesis
        using admits_lower [OF identifiers_lower(2) [OF e(3)]] by (simp add: ab member_node_def)
    qed simp
  qed
qed

subsection \<open>The passes\<close>

abbreviation some_holds :: "type_world \<Rightarrow> php_type list \<Rightarrow> php_value \<Rightarrow> bool" where
  "some_holds W ts v \<equiv> list_ex (\<lambda>t. holds W t v) ts"

text \<open>Leaving out a member another one covers changes nothing.\<close>

lemma dedup_covers:
  assumes "\<And>t. t \<in> set ts \<Longrightarrow> member_ok t" "\<And>h es. buckets h = Some es \<Longrightarrow> list_all member_ok es"
    and "t \<in> set ts"
  shows "(\<exists>u \<in> set (dedup_loop hasher buckets ts). holds W u = holds W t) \<or>
    (\<exists>h es u. buckets h = Some es \<and> u \<in> set es \<and> holds W u = holds W t)"
  using assms
proof (induction ts arbitrary: buckets)
  case (Cons x ts)
  let ?h = "hasher (hash_for_dedup x)"
  let ?es = "case buckets ?h of None \<Rightarrow> [] | Some es \<Rightarrow> es"
  have ok: "member_ok x" "\<And>t. t \<in> set ts \<Longrightarrow> member_ok t" using Cons.prems(1) by simp_all
  show ?case
  proof (cases "\<exists>es e. buckets ?h = Some es \<and> e \<in> set es \<and> equivalent_for_dedup e x")
    case True
    then obtain es e where e: "buckets ?h = Some es" "e \<in> set es" "equivalent_for_dedup e x" by blast
    have same: "holds W e = holds W x"
      using equivalent_holds [OF e(3)] Cons.prems(2) [OF e(1)] e(2) ok(1) by (auto simp: list_all_iff)
    have skip: "dedup_loop hasher buckets (x # ts) = dedup_loop hasher buckets ts"
      using e by (auto simp: Let_def list_ex_iff)
    show ?thesis
    proof (cases "t = x")
      case False
      then show ?thesis using Cons.IH [OF ok(2) Cons.prems(2)] Cons.prems(3) unfolding skip by auto
    qed (use e same in blast)
  next
    case False
    then have kept: "dedup_loop hasher buckets (x # ts) = x # dedup_loop hasher (buckets(?h \<mapsto> ?es @ [x])) ts"
      by (auto simp: Let_def list_ex_iff split: option.split)
    have old: "(\<exists>es. buckets h = Some es \<and> u \<in> set es) \<or> u = x"
      if "(buckets(?h \<mapsto> ?es @ [x])) h = Some es" "u \<in> set es" for h es u
      using that by (auto split: if_splits option.splits)
    let ?bs = "buckets(?h \<mapsto> ?es @ [x])"
    have "list_all member_ok es" if "?bs h = Some es" for h es
      using that Cons.prems(2) ok(1) by (auto split: if_splits option.splits)
    then have IH: "t \<in> set ts \<Longrightarrow> (\<exists>u \<in> set (dedup_loop hasher ?bs ts). holds W u = holds W t) \<or>
        (\<exists>h es u. ?bs h = Some es \<and> u \<in> set es \<and> holds W u = holds W t)"
      using Cons.IH [where buckets = ?bs] ok(2) by blast
    show ?thesis
    proof (cases "t = x")
      case True
      then show ?thesis unfolding kept by auto
    next
      case False
      with Cons.prems(3) have "t \<in> set ts" by simp
      from IH [OF this] show ?thesis
      proof (elim disjE exE conjE bexE)
        fix h es u
        assume h: "(buckets(?h \<mapsto> ?es @ [x])) h = Some es" "u \<in> set es" "holds W u = holds W t"
        from old [OF h(1,2)] show ?thesis
        proof (elim disjE exE conjE)
          fix es' assume "buckets h = Some es'" "u \<in> set es'"
          then show ?thesis using h(3) by blast
        next
          assume "u = x"
          then show ?thesis using h(3) unfolding kept by auto
        qed
      next
        fix u assume "u \<in> set (dedup_loop hasher (buckets(?h \<mapsto> ?es @ [x])) ts)" "holds W u = holds W t"
        then show ?thesis unfolding kept by auto
      qed
    qed
  qed
qed simp

lemma some_holds_subset:
  "set ts \<subseteq> set us \<Longrightarrow> (\<And>u. u \<in> set us \<Longrightarrow> holds W u v \<Longrightarrow> some_holds W ts v) \<Longrightarrow>
     some_holds W ts v = some_holds W us v"
  by (auto simp: list_ex_iff)

lemma dedup_loop_members: "set (dedup_loop hasher buckets ts) \<subseteq> set ts"
proof (induction ts arbitrary: buckets)
  case (Cons t ts)
  then show ?case by (fastforce simp: Let_def split: option.splits if_splits)
qed simp

lemma dedup_values:
  assumes "list_all member_ok ts"
  shows "some_holds W (dedup_types hasher ts) v = some_holds W ts v"
proof (rule some_holds_subset)
  show "set (dedup_types hasher ts) \<subseteq> set ts" unfolding dedup_types_def by (rule dedup_loop_members)
  fix t assume t: "t \<in> set ts" "holds W t v"
  have "\<exists>u \<in> set (dedup_loop hasher Map.empty ts). holds W u = holds W t"
    using dedup_covers [where ts = ts and buckets = Map.empty and t = t and W = W and hasher = hasher] assms t(1)
    by (simp add: list_all_iff)
  then show "some_holds W (dedup_types hasher ts) v"
    using t(2) unfolding dedup_types_def list_ex_iff by metis
qed

lemma union_deduped_values:
  "list_all member_ok ts \<Longrightarrow> holds W (union_deduped hasher ts) v = some_holds W ts v"
  using dedup_values [where ts = ts and W = W and hasher = hasher and v = v]
  by (cases "dedup_types hasher ts") (auto simp: union_deduped_def Let_def)

text \<open>Exact values beside the type they are values of.\<close>

lemma exact_values_kept:
  assumes "list_all member_ok ts"
  shows "some_holds W (absorb_exact_values ts) v = some_holds W ts v"
proof (rule some_holds_subset)
  show "set (absorb_exact_values ts) \<subseteq> set ts" by (auto simp: absorb_exact_values_def Let_def)
  fix t assume t: "t \<in> set ts" "holds W t v"
  then have ok: "member_ok t" using assms by (simp add: list_all_iff)
  show "some_holds W (absorb_exact_values ts) v"
  proof (cases "t \<in> set (absorb_exact_values ts)")
    case False
    then obtain u where u: "u \<in> set ts" "\<not> is_exact_value_marker u" "is_exact_value_marker t" "kind t = kind u"
      using t(1) by (auto simp: absorb_exact_values_def Let_def split: if_splits)
    have "member_ok u" using assms u(1) by (simp add: list_all_iff)
    have "holds W (kind t) v" by (rule exact_marker_kind [OF ok u(3) t(2)])
    then have "holds W u v" using member_kind [OF \<open>member_ok u\<close> u(2)] by (simp add: u(4))
    moreover have "u \<in> set (absorb_exact_values ts)" using u by (auto simp: absorb_exact_values_def Let_def)
    ultimately show ?thesis by (auto simp: list_ex_iff)
  qed (use t in \<open>auto simp: list_ex_iff\<close>)
qed

text \<open>Integer ranges.\<close>

lemma int_names:
  assumes "with_keyword_lowercase n (\<lambda>lower. lower \<in> set [''int'', ''integer''])"
  shows "to_ascii_lowercase n \<in> set [''int'', ''integer'']"
proof -
  have "to_ascii_lowercase ''int'' = ''int''" "to_ascii_lowercase ''integer'' = ''integer''" by code_simp+
  then show ?thesis
    using assms keyword_key_cases [of n] by (auto simp: with_keyword_lowercase_key)
qed

lemma int_names_marked: "plain_class_name n \<Longrightarrow> to_ascii_lowercase n \<notin> set [''int'', ''integer'']"
proof
  assume n: "plain_class_name n" "to_ascii_lowercase n \<in> set [''int'', ''integer'']"
  then have "strip_root_slash n = n"
    by (cases n) (auto simp: strip_root_slash_def strip_prefix_def starts_with_def to_ascii_lowercase_def
        lower_backslash [THEN iffD2] backslash_code)
  moreover have "is_keyword_type (normalize_alias ''int'')" "is_keyword_type (normalize_alias ''integer'')" by code_simp+
  ultimately show False using n by (auto simp: plain_class_name_def canonical_name_def)
qed

lemma int_alternative_unmarked:
  assumes "member_ok t" "int_alternative t = Some r"
  shows "\<not> is_exact_value_marker t"
proof
  assume marked: "is_exact_value_marker t"
  have "\<exists>n. kind t = Named n \<and> plain_class_name n"
    using marked every_node [OF assms(1)] assms(2)
    by (cases t) (auto simp: is_exact_value_marker_def member_node_def well_built_def is_class_type_def
        int_alternative_def split: php_type.splits option.splits)
  then obtain n where n: "kind t = Named n" "plain_class_name n" by blast
  then show False
    using assms(2) int_names [of n] int_names_marked [OF n(2)]
    by (auto simp: int_alternative_def is_int.simps [of t] split: if_splits)
qed

lemma edge_words:
  "eq_ignore_ascii_case s ''min'' \<Longrightarrow> parse_range_bound s = i64_min"
  "eq_ignore_ascii_case s ''max'' \<Longrightarrow> parse_range_bound s = i64_max"
proof -
  have letter: "c = d \<or> c = char_of (of_char d - 32 :: nat)" if "lower_char c = d" for c d
  proof (cases "is_ascii_uppercase c")
    case True
    then have "(of_char c :: nat) + 32 < 256" by (simp add: is_ascii_uppercase_def)
    then have "(of_char d :: nat) = of_char c + 32" using that True by (auto simp: lower_char_def)
    then show ?thesis by simp
  qed (use that in \<open>simp add: lower_char_def\<close>)
  have upper: "char_of (of_char CHR ''m'' - 32 :: nat) = CHR ''M''" "char_of (of_char CHR ''i'' - 32 :: nat) = CHR ''I''"
    "char_of (of_char CHR ''n'' - 32 :: nat) = CHR ''N''" "char_of (of_char CHR ''a'' - 32 :: nat) = CHR ''A''"
    "char_of (of_char CHR ''x'' - 32 :: nat) = CHR ''X''"
    by code_simp+
  have letters: "lower_char c = CHR ''m'' \<Longrightarrow> c \<in> set [CHR ''m'', CHR ''M'']"
    "lower_char c = CHR ''i'' \<Longrightarrow> c \<in> set [CHR ''i'', CHR ''I'']"
    "lower_char c = CHR ''n'' \<Longrightarrow> c \<in> set [CHR ''n'', CHR ''N'']"
    "lower_char c = CHR ''a'' \<Longrightarrow> c \<in> set [CHR ''a'', CHR ''A'']"
    "lower_char c = CHR ''x'' \<Longrightarrow> c \<in> set [CHR ''x'', CHR ''X'']" for c
    using letter [of c] unfolding upper [symmetric] by fastforce+
  have lower: "to_ascii_lowercase ''min'' = ''min''" "to_ascii_lowercase ''max'' = ''max''" by code_simp+
  have words: "list_all (\<lambda>s. parse_range_bound s = i64_min) (product_lists [[CHR ''m'', CHR ''M''], [CHR ''i'', CHR ''I''], [CHR ''n'', CHR ''N'']])"
    "list_all (\<lambda>s. parse_range_bound s = i64_max) (product_lists [[CHR ''m'', CHR ''M''], [CHR ''a'', CHR ''A''], [CHR ''x'', CHR ''X'']])"
    by code_simp+
  show "parse_range_bound s = i64_min" if s: "eq_ignore_ascii_case s ''min''"
  proof -
    obtain a b c where "s = [a, b, c]" "lower_char a = CHR ''m''" "lower_char b = CHR ''i''" "lower_char c = CHR ''n''"
      using s unfolding eq_ignore_ascii_case_def lower by (auto simp: to_ascii_lowercase_def map_eq_Cons_conv)
    then have "s \<in> set (product_lists [[CHR ''m'', CHR ''M''], [CHR ''i'', CHR ''I''], [CHR ''n'', CHR ''N'']])"
      using letters(1) [of a] letters(2) [of b] letters(3) [of c] by auto
    then show ?thesis using words(1) unfolding list_all_iff by blast
  qed
  show "parse_range_bound s = i64_max" if s: "eq_ignore_ascii_case s ''max''"
  proof -
    obtain a b c where "s = [a, b, c]" "lower_char a = CHR ''m''" "lower_char b = CHR ''a''" "lower_char c = CHR ''x''"
      using s unfolding eq_ignore_ascii_case_def lower by (auto simp: to_ascii_lowercase_def map_eq_Cons_conv)
    then have "s \<in> set (product_lists [[CHR ''m'', CHR ''M''], [CHR ''a'', CHR ''A''], [CHR ''x'', CHR ''X'']])"
      using letters(1) [of a] letters(4) [of b] letters(5) [of c] by auto
    then show ?thesis using words(2) unfolding list_all_iff by blast
  qed
qed

lemma int_alternative_values:
  assumes "member_ok t" "int_alternative t = Some r" "value_ok v"
  shows "holds W t v = on_int (\<lambda>i. in_interval r i) v"
proof -
  have "holds W t v = holds W (kind t) v" by (rule member_kind [OF assms(1) int_alternative_unmarked [OF assms(1,2)]])
  also have "\<dots> = on_int (\<lambda>i. in_interval r i) v"
  proof (cases "kind t")
    case (Named n)
    then have r: "r = (None, None)" and n: "to_ascii_lowercase n \<in> set [''int'', ''integer'']"
      using assms(2) int_names [of n] by (auto simp: int_alternative_def is_int.simps [of t] split: if_splits)
    have "\<not> is_pseudo_class (strip_root_slash n)"
      using member_facts(2) [OF assms(1)] by (simp add: Named member_node_def)
    then show ?thesis
      using n lower_admits(1) [of n "''int''"] lower_admits(1) [of n "''integer''"]
      by (cases v) (auto simp: Named r in_interval_def backslash_code normalize_alias_def names)
  next
    case (IntRange lo hi)
    show ?thesis
      using assms(2,3) edge_words(1) [of lo] edge_words(2) [of hi]
      by (cases v) (auto simp: int_alternative_def IntRange in_interval_def in_i64_def split: if_splits)
  next
    case (Literal l)
    then show ?thesis using assms(2)
      by (cases l; cases v) (auto simp: int_alternative_def literal_holds_def written_value_def in_interval_def)
  qed (use assms(2) in \<open>simp_all add: int_alternative_def\<close>)
  finally show ?thesis .
qed

lemma interval_type_ok: "member_ok (interval_type r)"
proof -
  have "refinable ''int''" "\<not> is_pseudo_class (strip_root_slash ''int'')" by code_simp+
  then show ?thesis
    by (auto simp: interval_type_def literal_int_def literal_def int_range_def keyword_types every.simps
        member_node_def well_built_def split: option.split prod.split)
qed

lemma interval_type_values:
  assumes "bounds_ok r" "value_ok v"
  shows "holds W (interval_type r) v = on_int (\<lambda>i. in_interval r i) v"
  by (rule int_alternative_values [OF interval_type_ok interval_type_reads_back [OF assms(1)] assms(2)])

lemma absorb_int_ranges_forms:
  "absorb_int_ranges ts = ts \<or>
   (\<exists>n. absorb_int_ranges ts = take n (filter (\<lambda>t. int_alternative t = None) ts) @
      map interval_type (merge_intervals (sort_key fst (int_alternatives ts))) @
      drop n (filter (\<lambda>t. int_alternative t = None) ts))"
  unfolding absorb_int_ranges_def Let_def int_alternatives_def by (simp split: if_split) blast

lemma int_ranges_values:
  assumes "list_all member_ok ts" "value_ok v"
  shows "some_holds W (absorb_int_ranges ts) v = some_holds W ts v"
    and "list_all member_ok (absorb_int_ranges ts)"
proof -
  define ivs where "ivs = sort_key fst (int_alternatives ts)"
  define rest where "rest = filter (\<lambda>t. int_alternative t = None) ts"
  have "sorted (map fst ivs)" "list_all bounds_ok ivs"
    using alternatives_bounds [of ts] by (simp_all add: ivs_def list_all_iff)
  note facts = merge_intervals_facts [OF this]
  consider "absorb_int_ranges ts = ts"
    | n where "absorb_int_ranges ts = take n rest @ map interval_type (merge_intervals ivs) @ drop n rest"
    using absorb_int_ranges_forms [of ts] unfolding ivs_def rest_def by blast
  note forms = this
  have ints: "some_holds W (map interval_type (merge_intervals ivs)) v = on_int (\<lambda>i. list_ex (holds_int i) ts) v"
  proof (cases v)
    case (VInt i)
    have "some_holds W (map interval_type (merge_intervals ivs)) v = list_ex (\<lambda>r. in_interval r i) (merge_intervals ivs)"
      using facts(3) interval_type_values [OF _ assms(2)] by (auto simp: list_ex_iff list_all_iff VInt)
    then show ?thesis unfolding facts(1) holds_int_alternatives by (simp add: VInt ivs_def list_ex_iff)
  qed (use facts(3) interval_type_values [OF _ assms(2)] in \<open>auto simp: list_ex_iff list_all_iff\<close>)
  have old: "some_holds W ts v = (on_int (\<lambda>i. list_ex (holds_int i) ts) v \<or> some_holds W rest v)"
  proof -
    have "t \<in> set ts \<Longrightarrow> int_alternative t = Some r \<Longrightarrow> holds W t v = on_int (\<lambda>i. in_interval r i) v" for t r
      using int_alternative_values assms by (simp add: list_all_iff)
    then show ?thesis
      by (cases v) (fastforce simp: rest_def list_ex_iff holds_int_def split: option.splits)+
  qed
  have whole: "some_holds W (take n rest @ xs @ drop n rest) v = (some_holds W xs v \<or> some_holds W rest v)" for n xs
    using arg_cong [OF append_take_drop_id [of n rest], of "\<lambda>ys. some_holds W ys v"] unfolding list_ex_append by blast
  from forms show "some_holds W (absorb_int_ranges ts) v = some_holds W ts v"
    by cases (simp_all only: whole ints old)
  have "list_all member_ok rest" using assms(1) by (simp add: rest_def list_all_iff)
  then have "list_all member_ok (take n rest)" "list_all member_ok (drop n rest)" for n
    by (auto simp: list_all_iff dest: in_set_takeD in_set_dropD)
  with forms show "list_all member_ok (absorb_int_ranges ts)"
    using assms(1) by cases (auto simp: interval_type_ok list_all_iff)
qed

text \<open>Shapes another shape covers.\<close>

lemma below_forms:
  "shape_exactly_contained_in_reverse s t \<longleftrightarrow>
     (\<exists>es ws. kind s = ArrayShape es \<and> kind t = ArrayShape ws \<and> (is_list_shape t \<longrightarrow> is_list_shape s) \<and>
        entries_covered es ws)"
  by (auto simp: shape_exactly_contained_in_reverse_def contained_without_shortcut split: php_type.splits)

lemma covered_parts:
  assumes "entries_covered es ws"
  obtains ks us where "runtime_shape_keys es = Some ks" "runtime_shape_keys ws = Some us"
    "length ks = length es" "length us = length ws"
    "\<And>i. i < length ks \<Longrightarrow> \<exists>j < length us. us ! j = ks ! i \<and>
       (entry_optional (es ! i) \<longrightarrow> entry_optional (ws ! j)) \<and>
       (is_mixed (value_type (ws ! j)) \<or> equivalent_for_dedup (value_type (es ! i)) (value_type (ws ! j)))"
    "\<And>i. i < length us \<Longrightarrow> us ! i \<in> set ks \<or> entry_optional (ws ! i)"
proof -
  obtain ks us where keys: "runtime_shape_keys es = Some ks" "runtime_shape_keys ws = Some us"
    using assms by (auto simp: entries_covered_def split: option.splits)
  have len: "length ks = length es" "length us = length ws"
    using keys by (auto simp: runtime_shape_keys_def dest: runtime_keys_length)
  note parts = assms [unfolded entries_covered_def keys option.case prod.case]
  show thesis
  proof (rule that [OF keys len])
    fix i assume "i < length ks"
    then have "(es ! i, ks ! i) \<in> set (zip es ks)" by (auto simp: set_zip len)
    then obtain j where j: "position_where (\<lambda>k. k = ks ! i) us = Some j"
      "entry_optional (es ! i) \<longrightarrow> entry_optional (ws ! j)"
      "is_mixed (value_type (ws ! j)) \<or> equivalent_for_dedup (value_type (es ! i)) (value_type (ws ! j))"
      using parts by (fastforce simp: list_all_iff split: option.splits)
    then show "\<exists>j < length us. us ! j = ks ! i \<and> (entry_optional (es ! i) \<longrightarrow> entry_optional (ws ! j)) \<and>
       (is_mixed (value_type (ws ! j)) \<or> equivalent_for_dedup (value_type (es ! i)) (value_type (ws ! j)))"
      using position_where_Some [OF j(1)] by auto
  next
    fix i assume "i < length us"
    then have "(ws ! i, us ! i) \<in> set (zip ws us)" by (auto simp: set_zip len)
    then show "us ! i \<in> set ks \<or> entry_optional (ws ! i)" using parts by (fastforce simp: list_all_iff)
  qed
qed

lemma mixed_holds:
  assumes "member_ok t" "is_mixed t"
  shows "holds W t v" "\<not> is_enum_case t"
proof -
  obtain n where n: "kind t = Named n" "to_ascii_lowercase n = ''mixed''"
    using assms(2) by (auto simp: is_mixed_def eq_ignore_ascii_case_def str_eval split: php_type.splits)
  have "\<not> plain_class_name n"
  proof
    assume "plain_class_name n"
    moreover have "canonical_name n = ''mixed''"
      using lower_keyword_admits(2) [of n "''mixed''"] n(2) by (simp add: is_lowercase_only_pseudo_type_def backslash_code normalize_alias_def)
    moreover have "is_keyword_type ''mixed''" by code_simp
    ultimately show False by (simp add: plain_class_name_def)
  qed
  have "\<not> is_exact_value_marker t"
  proof
    assume "is_exact_value_marker t"
    then have "\<exists>n. kind t = Named n \<and> plain_class_name n"
      using every_node [OF assms(1)] n(1)
      by (cases t) (auto simp: is_exact_value_marker_def member_node_def well_built_def is_class_type_def
          split: php_type.splits option.splits)
    then show False using n(1) \<open>\<not> plain_class_name n\<close> by simp
  qed
  then show "holds W t v" "\<not> is_enum_case t"
    using member_kind [OF assms(1)] lower_keyword_admits(1) [of n "''mixed''"]
    by (simp_all add: n is_lowercase_only_pseudo_type_def backslash_code normalize_alias_def names
        is_enum_case_def as_enum_case_def is_exact_value_marker_def split: php_type.splits)
qed

lemma below_holds:
  assumes ok: "member_ok s" "member_ok t" and below: "shape_exactly_contained_in_reverse s t"
    and v: "value_ok v" "holds W s v"
  shows "holds W t v"
proof -
  obtain es ws where kinds: "kind s = ArrayShape es" "kind t = ArrayShape ws" and cov: "entries_covered es ws"
    using below by (auto simp: below_forms)
  have "\<not> is_exact_value_marker u" if "member_ok u" "kind u = ArrayShape xs" for u xs
    using exact_marker_forms [of u] that by auto
  then have plain: "holds W s v = holds W (kind s) v" "holds W t v = holds W (kind t) v"
    using member_kind ok kinds by blast+
  have shapes: "ordered_shape es" "shape_readable ws"
    using member_facts(2) [OF ok(1)] member_facts(2) [OF ok(2)] by (simp_all add: kinds member_node_def)
  obtain ks us where keys: "runtime_shape_keys es = Some ks" "runtime_shape_keys ws = Some us"
    and len: "length ks = length es" "length us = length ws"
    and listed: "\<And>i. i < length ks \<Longrightarrow> \<exists>j < length us. us ! j = ks ! i \<and>
       (entry_optional (es ! i) \<longrightarrow> entry_optional (ws ! j)) \<and>
       (is_mixed (value_type (ws ! j)) \<or> equivalent_for_dedup (value_type (es ! i)) (value_type (ws ! j)))"
    and wider: "\<And>i. i < length us \<Longrightarrow> us ! i \<in> set ks \<or> entry_optional (ws ! i)"
    using covered_parts [OF cov] by blast
  have okE: "member_ok (value_type (es ! i))" if "i < length es" for i
    using every_child [OF every_kind [OF ok(1)]] that by (simp add: kinds)
  have okW: "member_ok (value_type (ws ! i))" if "i < length ws" for i
    using every_child [OF every_kind [OF ok(2)]] that by (simp add: kinds)
  have vals: "holds W (value_type (ws ! j)) x"
    if "i < length es" "j < length ws" "holds W (value_type (es ! i)) x"
      "is_mixed (value_type (ws ! j)) \<or> equivalent_for_dedup (value_type (es ! i)) (value_type (ws ! j))" for i j x
    using that mixed_holds(1) [OF okW [OF that(2)]] equivalent_holds [OF _ okE [OF that(1)] okW [OF that(2)]] by blast
  have "\<exists>j < length us. us ! j = ks ! i \<and> (entry_optional (es ! i) \<longrightarrow> entry_optional (ws ! j)) \<and>
      (\<forall>x. value_ok x \<longrightarrow> holds W (value_type (es ! i)) x \<longrightarrow> holds W (value_type (ws ! j)) x)" if "i < length ks" for i
    using listed [OF that] vals that len by metis
  moreover have "distinct us" using shapes(2) keys(2) by (simp add: shape_readable_def)
  ultimately have "shape_holds (\<lambda>e. holds W (value_type e)) ws v"
    using listed_entries_sound [OF keys _ wider, where W = W and v = v] shapes(1) v plain(1) by (simp add: kinds)
  then show ?thesis using plain(2) by (simp add: kinds)
qed

lemma mixed_equivalent: "is_mixed t \<Longrightarrow> member_ok t \<Longrightarrow> equivalent_for_dedup t u \<Longrightarrow> is_mixed u"
  using equivalent_names(1) [of t u] mixed_holds(2) [of t]
  by (auto simp: is_mixed_def eq_ignore_ascii_case_def split: php_type.splits)

lemma position_where_distinct:
  assumes "distinct ks" "j < length ks"
  shows "position_where (\<lambda>k. k = ks ! j) ks = Some j"
proof -
  have "list_ex (\<lambda>k. k = ks ! j) ks" using assms(2) by (auto simp: list_ex_iff)
  then obtain i where i: "position_where (\<lambda>k. k = ks ! j) ks = Some i" by (simp add: position_where_def)
  then have "i = j" using position_where_Some [OF i] nth_eq_iff_index_eq [OF assms(1), of i j] assms(2) by blast
  with i show ?thesis by simp
qed

lemma covered_intro:
  assumes keys: "runtime_shape_keys es = Some ks" "runtime_shape_keys ws = Some us" "distinct us"
    and listed: "\<And>i. i < length ks \<Longrightarrow> \<exists>j < length us. us ! j = ks ! i \<and>
       (entry_optional (es ! i) \<longrightarrow> entry_optional (ws ! j)) \<and>
       (is_mixed (value_type (ws ! j)) \<or> equivalent_for_dedup (value_type (es ! i)) (value_type (ws ! j)))"
    and wider: "\<And>i. i < length us \<Longrightarrow> us ! i \<in> set ks \<or> entry_optional (ws ! i)"
  shows "entries_covered es ws"
  unfolding entries_covered_def keys option.case prod.case
proof
  show "list_all (\<lambda>(entry, key). case position_where (\<lambda>k. k = key) us of
      Some i \<Rightarrow> (\<not> entry_optional entry \<or> entry_optional (ws ! i)) \<and>
        (is_mixed (value_type (ws ! i)) \<or> equivalent_for_dedup (value_type entry) (value_type (ws ! i)))
    | None \<Rightarrow> False) (zip es ks)"
    unfolding list_all_iff
  proof (clarify)
    fix e k assume "(e, k) \<in> set (zip es ks)"
    then obtain i where i: "i < length ks" "e = es ! i" "k = ks ! i" by (auto simp: set_zip)
    obtain j where j: "j < length us" "us ! j = ks ! i" "entry_optional (es ! i) \<longrightarrow> entry_optional (ws ! j)"
      "is_mixed (value_type (ws ! j)) \<or> equivalent_for_dedup (value_type (es ! i)) (value_type (ws ! j))"
      using listed [OF i(1)] by blast
    have "position_where (\<lambda>k'. k' = k) us = Some j"
      using position_where_distinct [OF keys(3) j(1)] by (simp add: i j(2))
    then show "case position_where (\<lambda>k'. k' = k) us of
        Some i \<Rightarrow> (\<not> entry_optional e \<or> entry_optional (ws ! i)) \<and>
          (is_mixed (value_type (ws ! i)) \<or> equivalent_for_dedup (value_type e) (value_type (ws ! i)))
      | None \<Rightarrow> False"
      using j(3,4) i by simp
  qed
  show "list_all (\<lambda>(entry, key). entry_optional entry \<or> key \<in> set ks) (zip ws us)"
    using wider by (auto simp: list_all_iff set_zip)
qed

lemma below_trans:
  assumes ok: "member_ok r" "member_ok s" "member_ok t"
    and below: "shape_exactly_contained_in_reverse r s" "shape_exactly_contained_in_reverse s t"
  shows "shape_exactly_contained_in_reverse r t"
proof -
  obtain es ws us where kinds: "kind r = ArrayShape es" "kind s = ArrayShape ws" "kind t = ArrayShape us"
    and lists: "is_list_shape t \<longrightarrow> is_list_shape r" and cov: "entries_covered es ws" "entries_covered ws us"
    using below by (auto simp: below_forms)
  obtain eks wks where a: "runtime_shape_keys es = Some eks" "runtime_shape_keys ws = Some wks"
    "length wks = length ws"
    "\<And>i. i < length eks \<Longrightarrow> \<exists>j < length wks. wks ! j = eks ! i \<and>
       (entry_optional (es ! i) \<longrightarrow> entry_optional (ws ! j)) \<and>
       (is_mixed (value_type (ws ! j)) \<or> equivalent_for_dedup (value_type (es ! i)) (value_type (ws ! j)))"
    "\<And>i. i < length wks \<Longrightarrow> wks ! i \<in> set eks \<or> entry_optional (ws ! i)"
    using covered_parts [OF cov(1)] by metis
  obtain wks' uks where b': "runtime_shape_keys ws = Some wks'" "runtime_shape_keys us = Some uks"
    "\<And>i. i < length wks' \<Longrightarrow> \<exists>j < length uks. uks ! j = wks' ! i \<and>
       (entry_optional (ws ! i) \<longrightarrow> entry_optional (us ! j)) \<and>
       (is_mixed (value_type (us ! j)) \<or> equivalent_for_dedup (value_type (ws ! i)) (value_type (us ! j)))"
    "\<And>i. i < length uks \<Longrightarrow> uks ! i \<in> set wks' \<or> entry_optional (us ! i)"
    using covered_parts [OF cov(2)] by metis
  have "wks' = wks" using a(2) b'(1) by simp
  note b = b'(2-4) [unfolded this]
  have dist: "distinct uks"
    using member_facts(2) [OF ok(3)] b(1) by (simp add: kinds member_node_def shape_readable_def)
  have okW: "member_ok (value_type (ws ! i))" if "i < length ws" for i
    using every_child [OF every_kind [OF ok(2)]] that by (simp add: kinds)
  have "entries_covered es us"
  proof (rule covered_intro [OF a(1) b(1) dist])
    fix i assume "i < length eks"
    from a(4) [OF this] obtain j where j: "j < length wks" "wks ! j = eks ! i"
      "entry_optional (es ! i) \<longrightarrow> entry_optional (ws ! j)"
      "is_mixed (value_type (ws ! j)) \<or> equivalent_for_dedup (value_type (es ! i)) (value_type (ws ! j))"
      by blast
    from b(2) [OF j(1)] obtain k where k: "k < length uks" "uks ! k = wks ! j"
      "entry_optional (ws ! j) \<longrightarrow> entry_optional (us ! k)"
      "is_mixed (value_type (us ! k)) \<or> equivalent_for_dedup (value_type (ws ! j)) (value_type (us ! k))"
      by blast
    have "is_mixed (value_type (us ! k)) \<or> equivalent_for_dedup (value_type (es ! i)) (value_type (us ! k))"
    proof (rule disjCI)
      assume "\<not> equivalent_for_dedup (value_type (es ! i)) (value_type (us ! k))"
      then show "is_mixed (value_type (us ! k))"
        using j(4) k(4) mixed_equivalent [OF _ okW, of j "value_type (us ! k)"] j(1) a(3)
          equivalent_transitive [of "value_type (es ! i)" "value_type (ws ! j)" "value_type (us ! k)"] by auto
    qed
    then show "\<exists>j < length uks. uks ! j = eks ! i \<and> (entry_optional (es ! i) \<longrightarrow> entry_optional (us ! j)) \<and>
       (is_mixed (value_type (us ! j)) \<or> equivalent_for_dedup (value_type (es ! i)) (value_type (us ! j)))"
      using j k by (intro exI [of _ k]) simp
  next
    fix i assume i: "i < length uks"
    show "uks ! i \<in> set eks \<or> entry_optional (us ! i)"
    proof (cases "entry_optional (us ! i)")
      case False
      then obtain j where j: "j < length wks" "wks ! j = uks ! i" using b(3) [OF i] by (auto simp: in_set_conv_nth)
      from b(2) [OF j(1)] obtain k where k: "k < length uks" "uks ! k = uks ! i" "entry_optional (ws ! j) \<longrightarrow> entry_optional (us ! k)"
        using j(2) by auto
      then have "k = i" using dist i by (simp add: nth_eq_iff_index_eq)
      then show ?thesis using a(5) [OF j(1)] k(3) False j(2) by auto
    qed simp
  qed
  then show ?thesis using kinds lists by (simp add: below_forms)
qed

lemma subsumed_shapes_values:
  assumes ok: "list_all member_ok ts" and v: "value_ok v"
  shows "some_holds W (absorb_subsumed_shapes ts) v = some_holds W ts v"
proof (rule some_holds_subset)
  show "set (absorb_subsumed_shapes ts) \<subseteq> set ts"
    by (auto simp: absorb_subsumed_pairwise absorb_shapes_pairwise_def)
  let ?n = "length ts"
  define R where "R = {(j, i). i < ?n \<and> j < ?n \<and> is_array_shape_kind (ts ! i) \<and> subsumed_by ts i j}"
  have mem: "i < ?n \<Longrightarrow> member_ok (ts ! i)" for i using ok by (simp add: list_all_length)
  have "trans R"
  proof (rule transI)
    fix k j i assume R: "(k, j) \<in> R" "(j, i) \<in> R"
    let ?b = "\<lambda>i j. shape_exactly_contained_in_reverse (ts ! i) (ts ! j)"
    have n: "i < ?n" "j < ?n" "k < ?n" using R by (auto simp: R_def)
    note trans = below_trans [OF mem mem mem]
    have "?b i k" using R trans [OF n] by (auto simp: R_def subsumed_by_def)
    moreover have "?b k i \<Longrightarrow> ?b j i \<and> ?b k j"
      using R trans [OF n(2,3,1)] trans [OF n(3,1,2)] by (auto simp: R_def subsumed_by_def)
    ultimately show "(k, i) \<in> R" using R by (auto simp: R_def subsumed_by_def)
  qed
  moreover have "irrefl R" by (auto simp: R_def irrefl_def subsumed_by_def)
  moreover have "R \<subseteq> {..<?n} \<times> {..<?n}" by (auto simp: R_def)
  then have "finite R" by (rule finite_subset) simp
  ultimately have "wf R" by (intro finite_acyclic_wf) (simp_all add: acyclic_irrefl)
  have "some_holds W (absorb_shapes_pairwise ts) v" if "i < ?n" "holds W (ts ! i) v" for i
    using that
  proof (induction i rule: wf_induct_rule [OF \<open>wf R\<close>])
    case (1 i)
    show ?case
    proof (cases "is_array_shape_kind (ts ! i) \<and> list_ex (subsumed_by ts i) [0..<?n]")
      case True
      then obtain j where j: "j < ?n" "subsumed_by ts i j" by (auto simp: list_ex_iff)
      then have "holds W (ts ! j) v"
        using below_holds [OF mem mem _ v 1(3)] 1(2) by (simp add: subsumed_by_def)
      moreover have "(j, i) \<in> R" using True j 1(2) by (simp add: R_def)
      ultimately show ?thesis using 1(1) j(1) by blast
    next
      case False
      then have "ts ! i \<in> set (absorb_shapes_pairwise ts)" using 1(2) by (auto simp: absorb_shapes_pairwise_def)
      then show ?thesis using 1(3) by (auto simp: list_ex_iff)
    qed
  qed
  then show "some_holds W (absorb_subsumed_shapes ts) v" if "t \<in> set ts" "holds W t v" for t
    using that by (auto simp: absorb_subsumed_pairwise in_set_conv_nth)
qed

text \<open>Refinements of a type beside it.\<close>

definition refined_bases :: "str list" where
  "refined_bases = [''array'', ''list'', ''string'', ''literal-string'', ''lowercase-string'', ''uppercase-string'', ''mixed'']"

lemma refined_bases_plain:
  "list_all (\<lambda>w. w \<noteq> [] \<and> hd w \<noteq> backslash \<and> \<not> is_lowercase_only_pseudo_type w \<and> \<not> starts_with w ''non-empty-'' \<and>
     normalize_alias w = w) refined_bases"
  by code_simp

lemma refined_base_admits:
  "w \<in> set refined_bases \<Longrightarrow> name_admits W (normalize_alias (''non-empty-'' @ w)) v \<Longrightarrow> name_admits W w v"
  by (cases v) (auto simp: refined_bases_def normalize_alias_def names)

lemma base_facts:
  assumes "non_empty_base_name n = Some b" "to_ascii_lowercase b \<in> set refined_bases"
    and "\<not> is_pseudo_class (strip_root_slash n)"
  shows "\<not> is_pseudo_class (strip_root_slash b)" "non_empty_base_name b = None"
    "admits W n v \<Longrightarrow> admits W b v"
proof -
  let ?w = "to_ascii_lowercase b"
  have w: "?w \<noteq> []" "hd ?w \<noteq> backslash" "\<not> is_lowercase_only_pseudo_type ?w" "\<not> starts_with ?w ''non-empty-''"
    "normalize_alias ?w = ?w"
    using refined_bases_plain assms(2) by (simp_all add: list_all_iff)
  show b: "\<not> is_pseudo_class (strip_root_slash b)" by (rule lower_not_pseudo [OF refl w(1-3)])
  show "non_empty_base_name b = None"
  proof (cases "non_empty_base_name b")
    case (Some c)
    then show ?thesis using base_name_split [OF Some] w(4) by (simp add: starts_with_def)
  qed
  show "admits W b v" if "admits W n v"
  proof -
    have "name_admits W (normalize_alias (''non-empty-'' @ ?w)) v"
      using that lower_admits(1) [OF base_name_split [OF assms(1)] _ _ assms(3), of W v]
      by (simp add: backslash_code)
    then show ?thesis
      using lower_admits(1) [OF refl w(1,2) b, of W v] refined_base_admits [OF assms(2)] w(5) by simp
  qed
qed

lemma unrefined_forms:
  assumes "member_ok t" "unrefined_base t = Some base"
  obtains (name) n b where "kind t = Named n" "base = Named b" "non_empty_base_name n = Some b"
      "to_ascii_lowercase b \<in> set refined_bases" "\<not> is_pseudo_class (strip_root_slash n)"
  | (args) g b where "kind t = Generic g" "base = Generic (GenericType b (g_args g))" "non_empty_base_name (g_name g) = Some b"
      "to_ascii_lowercase b \<in> set [''array'', ''list'']" "\<not> is_pseudo_class (strip_root_slash (g_name g))"
  using assms member_facts(2) [OF assms(1)]
  by (cases "kind t") (auto simp: unrefined_base_def named_def generic_def member_node_def refinable_def refined_bases_def)

lemma unrefined_base_facts:
  assumes ok: "member_ok t" and base: "unrefined_base t = Some base"
  shows "member_ok base" "holds W (kind t) v \<Longrightarrow> holds W base v" "equivalent_for_dedup u base \<Longrightarrow> unrefined_base u = None"
proof -
  have "member_ok base \<and> (holds W (kind t) v \<longrightarrow> holds W base v) \<and> (equivalent_for_dedup u base \<longrightarrow> unrefined_base u = None)"
    using ok base
  proof (cases rule: unrefined_forms)
    case (name n b)
    note facts = base_facts [OF name(3-5)]
    have "unrefined_base u = None" if eqv: "equivalent_for_dedup u base"
    proof -
      obtain a where a: "kind u = Named a" "eq_ignore_ascii_case a b"
        using equivalent_names(2) [OF eqv disjI2 [OF base_not_marked [OF base]], of b] name(2) by auto
      have "non_empty_base_name a = None"
      proof (cases "non_empty_base_name a")
        case (Some c)
        then have "to_ascii_lowercase b = ''non-empty-'' @ to_ascii_lowercase c"
          using base_name_split [OF Some] a(2) by (simp add: eq_ignore_ascii_case_def)
        then show ?thesis using refined_bases_plain name(4) by (auto simp: list_all_iff starts_with_def)
      qed
      then show ?thesis by (simp add: unrefined_base_def a(1))
    qed
    moreover have "member_ok base"
      using facts(1,2) by (simp add: name(2) every.simps member_node_def well_built_def refinable_def)
    ultimately show ?thesis using facts(3) by (simp add: name(1,2))
  next
    case (args g b)
    have b: "to_ascii_lowercase b \<in> set refined_bases" using args(4) by (auto simp: refined_bases_def)
    note facts = base_facts [OF args(3) b args(5)]
    have "unrefined_base u = None" if eqv: "equivalent_for_dedup u base"
    proof -
      have "\<exists>h. kind u = Generic h \<and> eq_ignore_ascii_case b (g_name h)"
        using equivalent_names(3) [OF equivalent_symmetric [OF eqv] disjI1 [OF base_not_marked [OF base]],
            of "GenericType b (g_args g)"] args(2) by simp
      then obtain h where h: "kind u = Generic h" "eq_ignore_ascii_case b (g_name h)" by blast
      have "non_empty_base_name (g_name h) = None"
      proof (cases "non_empty_base_name (g_name h)")
        case (Some c)
        then have "to_ascii_lowercase b = ''non-empty-'' @ to_ascii_lowercase c"
          using base_name_split [OF Some] h(2) by (simp add: eq_ignore_ascii_case_def)
        then show ?thesis using refined_bases_plain b by (auto simp: list_all_iff starts_with_def)
      qed
      then show ?thesis by (simp add: unrefined_base_def h(1))
    qed
    moreover have "member_ok base"
    proof -
      have "list_all member_ok (g_args g)" using every_kind [OF ok] by (simp add: args(1) every.simps [of _ "Generic g"])
      then show ?thesis
        using facts(1,2) by (simp add: args(2) every.simps [of _ "Generic _"] member_node_def well_built_def)
    qed
    moreover have "is_array_like_name (g_name g)" if "is_array_like_name b"
      using args(4) base_name_split [OF args(3)] by (auto simp: is_array_like_name_def)
    ultimately show ?thesis using facts(3) by (auto simp: args(1,2))
  qed
  then show "member_ok base" "holds W (kind t) v \<Longrightarrow> holds W base v" "equivalent_for_dedup u base \<Longrightarrow> unrefined_base u = None"
    by simp_all
qed

lemma array_like_not_plain: "is_array_like_name n \<Longrightarrow> \<not> plain_class_name n"
proof -
  assume n: "is_array_like_name n"
  let ?w = "to_ascii_lowercase n"
  have words: "list_all (\<lambda>w. is_keyword_type w \<and> w \<noteq> [] \<and> hd w \<noteq> backslash \<and> normalize_alias w = w \<and>
      \<not> is_lowercase_only_pseudo_type w) [''array'', ''list'', ''non-empty-array'', ''non-empty-list'', ''iterable'']"
    by code_simp
  have w: "is_keyword_type ?w" "?w \<noteq> []" "hd ?w \<noteq> backslash" "normalize_alias ?w = ?w" "\<not> is_lowercase_only_pseudo_type ?w"
    using n words by (auto simp: is_array_like_name_def list_all_iff)
  have "canonical_name n = normalize_alias ?w" by (rule lower_keyword_admits(2) [OF refl w(2,3) refl w(2,3,5)])
  then show ?thesis using w by (simp add: plain_class_name_def)
qed

lemma array_refinement_plain:
  assumes "member_ok t" "is_array_like t" "kind t = Named n \<or> kind t = Generic g"
  shows "\<not> is_exact_value_marker t"
proof
  assume marked: "is_exact_value_marker t"
  have "\<exists>n. kind t = Named n \<and> plain_class_name n \<or> (\<exists>c. kind t = ClassString c)"
    using marked every_node [OF assms(1)]
    by (cases t) (auto simp: is_exact_value_marker_def member_node_def well_built_def is_class_type_def
        split: php_type.splits option.splits)
  then show False
    using assms(2,3) array_like_not_plain by (auto simp: is_array_like.simps [of t])
qed

lemma empty_array_shape_values:
  assumes "member_ok t" "is_empty_array_shape t"
  shows "holds W t v = (v = VArray [])"
proof -
  have kind: "kind t = ArrayShape []" using assms(2) by (auto simp: is_empty_array_shape_def split: php_type.splits)
  have "\<not> is_exact_value_marker t" using exact_marker_forms [OF assms(1)] kind by auto
  then have "holds W t v = holds W (ArrayShape []) v" using member_kind [OF assms(1)] kind by simp
  then show ?thesis
    by (cases v; cases "case v of VArray kvs \<Rightarrow> kvs | _ \<Rightarrow> []")
      (auto simp: shape_holds_def runtime_shape_keys_def is_list_keys_def)
qed

lemma array_refinement_values:
  assumes ok: "member_ok t" and refines: "is_non_empty_array_refinement t"
  obtains base where "unrefined_base t = Some base" "holds W base v \<longleftrightarrow> holds W t v \<or> v = VArray []"
proof -
  obtain base where base: "unrefined_base t = Some base"
    using refines by (auto simp: is_non_empty_array_refinement_def is_non_empty_refinement_def unrefined_base_def
        split: php_type.splits)
  have array: "is_array_like t" using refines by (simp add: is_non_empty_array_refinement_def)
  have promises: "array_promises b ks \<longleftrightarrow> array_promises n ks \<or> ks = []"
    and names: "to_ascii_lowercase n \<noteq> ''iterable''" "to_ascii_lowercase b \<noteq> ''iterable''" "is_array_like_name b"
    if "non_empty_base_name n = Some b" "is_array_like_name n" for n b ks
    using that base_name_split [OF that(1)]
    by (auto simp: array_promises_def is_list_name_def is_non_empty_array_name_def is_array_like_name_def is_list_keys_def)
  have "holds W base v \<longleftrightarrow> holds W t v \<or> v = VArray []"
    using ok base
  proof (cases rule: unrefined_forms)
    case (name n b)
    have n: "is_array_like_name n" using array name(1) by (simp add: is_array_like.simps [of t])
    have "holds W t v = admits (names_in W) n v"
      using member_kind [OF ok array_refinement_plain [OF ok array disjI1 [OF name(1)]]] by (simp add: name(1))
    then show ?thesis
      using array_name_values [OF n names(1) [OF name(3) n]] promises [OF name(3) n]
        array_name_values [OF names(3) [OF name(3) n] names(2) [OF name(3) n]]
      by (cases v) (auto simp: name(2))
  next
    case (args g b)
    have n: "is_array_like_name (g_name g)" using array args(1) by (simp add: is_array_like.simps [of t])
    have "holds W t v = holds W (Generic g) v"
      using member_kind [OF ok array_refinement_plain [OF ok array disjI2 [OF args(1)]]] by (simp add: args(1))
    then show ?thesis
      using array_name_values [OF n names(1) [OF args(3) n]] promises [OF args(3) n] n names(3) [OF args(3) n]
        array_name_values [OF names(3) [OF args(3) n] names(2) [OF args(3) n]]
      by (cases v) (auto simp: args(2) args_hold_def)
  qed
  then show thesis by (rule that [OF base])
qed

lemma empty_shapes_values:
  assumes ok: "list_all member_ok ts"
  shows "some_holds W (fst (absorb_empty_shape_into_non_empty_array ts)) v = some_holds W ts v"
    and "list_all member_ok (fst (absorb_empty_shape_into_non_empty_array ts))"
proof -
  let ?f = "\<lambda>t. if is_non_empty_array_refinement t then (case unrefined_base t of Some base \<Rightarrow> base | None \<Rightarrow> t) else t"
  let ?empty = "list_ex is_empty_array_shape ts \<and> list_ex is_non_empty_array_refinement ts"
  have form: "fst (absorb_empty_shape_into_non_empty_array ts) =
      (if ?empty then filter (\<lambda>t. \<not> is_empty_array_shape t) (map ?f ts) else ts)"
    by (auto simp: absorb_empty_shape_into_non_empty_array_def)
  have mem: "t \<in> set ts \<Longrightarrow> member_ok t" for t using ok by (simp add: list_all_iff)
  have refined: "holds W (?f t) v \<longleftrightarrow> holds W t v \<or> v = VArray []" "member_ok (?f t)" "\<not> is_empty_array_shape (?f t)"
    if t: "t \<in> set ts" "is_non_empty_array_refinement t" for t
  proof -
    obtain base where base: "unrefined_base t = Some base" "holds W base v \<longleftrightarrow> holds W t v \<or> v = VArray []"
      using array_refinement_values [OF mem [OF t(1)] t(2), where W = W and v = v] .
    then show "holds W (?f t) v \<longleftrightarrow> holds W t v \<or> v = VArray []" by (simp add: t(2))
    show "member_ok (?f t)" using unrefined_base_facts(1) [OF mem [OF t(1)] base(1)] by (simp add: base(1) t(2))
    show "\<not> is_empty_array_shape (?f t)"
      using base(1) by (auto simp: t(2) is_empty_array_shape_def unrefined_base_def named_def generic_def split: php_type.splits)
  qed
  show "list_all member_ok (fst (absorb_empty_shape_into_non_empty_array ts))"
    using refined(2) mem by (auto simp: form list_all_iff)
  show "some_holds W (fst (absorb_empty_shape_into_non_empty_array ts)) v = some_holds W ts v"
  proof (cases ?empty)
    case True
    then obtain e r where e: "e \<in> set ts" "is_empty_array_shape e" and r: "r \<in> set ts" "is_non_empty_array_refinement r"
      by (auto simp: list_ex_iff)
    have new: "some_holds W (filter (\<lambda>t. \<not> is_empty_array_shape t) (map ?f ts)) v \<longleftrightarrow>
        (\<exists>t \<in> set ts. \<not> is_empty_array_shape (?f t) \<and> holds W (?f t) v)"
      by (simp add: list_ex_iff) blast
    have old: "holds W e v = (v = VArray [])" by (rule empty_array_shape_values [OF mem [OF e(1)] e(2)])
    have "(\<exists>t \<in> set ts. \<not> is_empty_array_shape (?f t) \<and> holds W (?f t) v) \<longleftrightarrow> (\<exists>t \<in> set ts. holds W t v)"
    proof
      assume "\<exists>t \<in> set ts. \<not> is_empty_array_shape (?f t) \<and> holds W (?f t) v"
      then obtain t where "t \<in> set ts" "holds W (?f t) v" by blast
      then have "t \<in> set ts \<and> holds W t v \<or> v = VArray []"
        using refined(1) [of t] by (cases "is_non_empty_array_refinement t") auto
      then show "\<exists>t \<in> set ts. holds W t v" using old e(1) by blast
    next
      assume "\<exists>t \<in> set ts. holds W t v"
      then obtain t where t: "t \<in> set ts" "holds W t v" by blast
      show "\<exists>t \<in> set ts. \<not> is_empty_array_shape (?f t) \<and> holds W (?f t) v"
      proof (cases "is_empty_array_shape t \<or> is_non_empty_array_refinement t")
        case True
        then have "v = VArray [] \<or> t \<in> set ts \<and> is_non_empty_array_refinement t"
          using empty_array_shape_values [OF mem [OF t(1)]] t by auto
        then show ?thesis using refined(1,3) r t(2) by metis
      qed (use t in \<open>intro bexI [of _ t], auto\<close>)
    qed
    then have "(\<exists>t \<in> set ts. \<not> is_empty_array_shape (?f t) \<and> holds W (?f t) v) \<longleftrightarrow> some_holds W ts v"
      by (simp only: list_ex_iff)
    then show ?thesis unfolding form if_P [OF True] by (rule trans [OF new])
  next
    case False
    show ?thesis unfolding form if_not_P [OF False] ..
  qed
qed

lemma refinements_values:
  assumes ok: "list_all member_ok ts"
  shows "some_holds W (fst (absorb_non_empty_refinements ts)) v = some_holds W ts v"
    and "list_all member_ok (fst (absorb_non_empty_refinements ts))"
proof -
  obtain us changed where eq: "absorb_empty_shape_into_non_empty_array ts = (us, changed)" by fastforce
  let ?kept = "filter (\<lambda>t. case unrefined_base t of
      Some base \<Rightarrow> \<not> list_ex (\<lambda>other. equivalent_for_dedup other base) us | None \<Rightarrow> True) us"
  note old = empty_shapes_values(1) [OF ok, where W = W and v = v, unfolded eq fst_conv]
    empty_shapes_values(2) [OF ok, unfolded eq fst_conv]
  have mask: "retain_by_mask xs (map P xs) = filter P xs" for P and xs :: "'x list"
    by (induction xs) (simp_all add: retain_by_mask_def)
  have cases: "fst (absorb_non_empty_refinements ts) \<in> {ts, us, ?kept}"
    by (auto simp: absorb_non_empty_refinements_def Let_def mask eq)
  have kept: "some_holds W ?kept v = some_holds W us v"
  proof (rule some_holds_subset)
    fix t assume t: "t \<in> set us" "holds W t v"
    then have mt: "member_ok t" using old(2) by (simp add: list_all_iff)
    show "some_holds W ?kept v"
    proof (cases "t \<in> set ?kept")
      case False
      then obtain base u where base: "unrefined_base t = Some base" and u: "u \<in> set us" "equivalent_for_dedup u base"
        using t(1) by (auto simp: list_ex_iff split: option.splits)
      note facts = unrefined_base_facts [OF mt base]
      have mu: "member_ok u" using u(1) old(2) by (simp add: list_all_iff)
      have "holds W (kind t) v"
        using exact_marker_kind [OF mt _ t(2)] member_kind [OF mt] t(2) by blast
      then have "holds W u v"
        using facts(2) equivalent_holds [OF u(2) mu facts(1)] by simp
      moreover have "u \<in> set ?kept" using u(1) facts(3) [OF u(2)] by simp
      ultimately show ?thesis by (auto simp: list_ex_iff)
    qed (use t(2) in \<open>auto simp: list_ex_iff\<close>)
  qed auto
  show "some_holds W (fst (absorb_non_empty_refinements ts)) v = some_holds W ts v"
    using cases kept old(1) by auto
  have "list_all member_ok ?kept" using old(2) by (simp add: list_all_iff)
  then show "list_all member_ok (fst (absorb_non_empty_refinements ts))"
    using cases old(2) ok by auto
qed

lemma subsumed_shapes_ok: "list_all member_ok ts \<Longrightarrow> list_all member_ok (absorb_subsumed_shapes ts)"
  by (auto simp: absorb_subsumed_pairwise absorb_shapes_pairwise_def list_all_iff)

lemma exact_values_ok: "list_all member_ok ts \<Longrightarrow> list_all member_ok (absorb_exact_values ts)"
  by (auto simp: absorb_exact_values_def Let_def list_all_iff)

lemma singleton_values: "length ts = 1 \<Longrightarrow> holds W (hd ts) v = some_holds W ts v"
  by (cases ts) auto

lemma union_holds:
  assumes "list_all member_ok ts" "value_ok v"
  shows "holds W (union hasher ts) v \<longleftrightarrow> list_ex (\<lambda>t. holds W t v) ts"
proof (cases "length ts = 1")
  case False
  obtain us changed where us: "absorb_non_empty_refinements ts = (us, changed)" by fastforce
  define ws where "ws = absorb_exact_values (absorb_subsumed_shapes (absorb_int_ranges us))"
  have ok: "list_all member_ok us" and vals: "some_holds W us v = some_holds W ts v"
    using refinements_values(1) [OF assms(1), where W = W and v = v] refinements_values(2) [OF assms(1)]
    by (simp_all add: us)
  note ints = int_ranges_values [OF ok assms(2)]
  note shapes = subsumed_shapes_values [OF ints(2) assms(2)] subsumed_shapes_ok [OF ints(2)]
  have ws: "list_all member_ok ws" "some_holds W ws v = some_holds W ts v"
    using exact_values_ok [OF shapes(2)] exact_values_kept [OF shapes(2)] shapes(1) ints(1) vals
    by (simp_all add: ws_def)
  show ?thesis
    using False singleton_values [of us] singleton_values [of ws] vals ws(2)
      union_deduped_values [OF ws(1), where hasher = hasher and W = W and v = v]
    by (simp add: union_def us Let_def flip: ws_def)
qed (simp add: union_def singleton_values)

lemma union_ok:
  assumes "list_all member_ok ts"
  shows "member_ok (union hasher ts)"
proof -
  obtain us changed where us: "absorb_non_empty_refinements ts = (us, changed)" by fastforce
  define ws where "ws = absorb_exact_values (absorb_subsumed_shapes (absorb_int_ranges us))"
  have ok: "list_all member_ok us" using refinements_values(2) [OF assms] by (simp add: us)
  have ints: "list_all member_ok (absorb_int_ranges us)" using int_ranges_values(2) [OF ok, of "VNull"] by simp
  then have ws: "list_all member_ok ws" by (simp add: ws_def exact_values_ok subsumed_shapes_ok)
  have node: "list_all member_ok xs \<Longrightarrow> member_ok (UnionT xs)" for xs
    by (simp add: every.simps [of _ "UnionT xs"] member_node_def well_built_def)
  have hd: "list_all member_ok xs \<Longrightarrow> length xs = 1 \<Longrightarrow> member_ok (hd xs)" for xs by (cases xs) auto
  have "list_all member_ok (dedup_types hasher ws)"
    using ws dedup_loop_members [of hasher Map.empty ws] by (auto simp: dedup_types_def list_all_iff)
  then have "member_ok (union_deduped hasher ws)"
    using node hd ws by (simp add: union_deduped_def Let_def)
  then show ?thesis using hd ok ws assms by (simp add: union_def us Let_def flip: ws_def)
qed

text \<open>
  C2. A union holds exactly the values of its members.  Whatever \<open>PhpType::union\<close> merges (integer
  ranges), absorbs (a refinement beside its base, the empty shape beside a non-empty array, a shape
  another covers, an exact value beside its type) or drops as a repetition, for any hash function,
  a 64-bit value belongs to the type it builds iff it belongs to one of the types given to it.  The
  members are those of \<open>member_ok\<close>: no keyword spelled like a class (\<open>Resource\<close>) or refined by an
  unknown \<open>non-empty-\<close> name, shapes whose keys can be read, markers as the constructors build them,
  template bounds without one, and no open shape, conditional type or
  \<open>key-of\<close> and the like.
\<close>

theorem union_values:
  assumes "list_all member_ok ts" "value_ok v"
  shows "holds W (union hasher ts) v \<longleftrightarrow> list_ex (\<lambda>t. holds W t v) ts"
  using assms by (rule union_holds)

lemma union_values_witness:
  "holds bare_type_world (union length
     [generic ''non-empty-array'' [pt_int], ArrayShape [], int_range ''1'' ''3'', literal_int ''4'', Named ''INT'']) (VArray [])"
proof -
  let ?ts = "[generic ''non-empty-array'' [pt_int], ArrayShape [], int_range ''1'' ''3'', literal_int ''4'', Named ''INT'']"
  have "list_all member_ok ?ts" "value_ok (VArray [])" by code_simp+
  from union_values [OF this, of bare_type_world length] show ?thesis
    by (simp add: shape_holds_def runtime_shape_keys_def is_list_keys_def)
qed

text \<open>
  Outside \<open>member_ok\<close> an alternative is lost: \<open>resource\<close> is a keyword in lower case only, yet the
  comparison of names takes it for the class \<open>Resource\<close>.
\<close>

lemma resource_class_lost:
  defines "W \<equiv> bare_type_world\<lparr>names_in := bare_world\<lparr>instance_of := (=)\<rparr>\<rparr>"
  shows "holds W (Named ''Resource'') (VObject ''resource'')"
    "union length [Named ''resource'', Named ''Resource''] = Named ''resource''"
    "\<not> holds W (Named ''resource'') (VObject ''resource'')"
proof -
  have names: "is_pseudo_class (strip_root_slash ''Resource'')" "\<not> is_pseudo_class (strip_root_slash ''resource'')"
    "to_ascii_lowercase (strip_root_slash ''Resource'') = ''resource''" "canonical_name ''resource'' = ''resource''"
    by code_simp+
  show "holds W (Named ''Resource'') (VObject ''resource'')" "\<not> holds W (Named ''resource'') (VObject ''resource'')"
    by (simp_all add: admits_def name_admits_def keyword_table_def is_resource_value_def names W_def)
  show "union length [Named ''resource'', Named ''Resource''] = Named ''resource''" by code_simp
qed

end
