(* ===== verification/Truthiness.thy ===== *)
theory Truthiness
  imports Union_Values
begin

section \<open>Truthy and falsy halves of a type\<close>

text \<open>
  \<open>src/php_type/truthiness.rs\<close>: whether the values of a type are truthy, the part of a type a
  truthy or a falsy test leaves, and the arrays that promise an entry.  Measured against the values
  of \<open>Type_Semantics\<close>.
\<close>

subsection \<open>Truthiness\<close>

definition named_truthiness :: "str \<Rightarrow> bool option" where
  "named_truthiness name =
     (let other = to_ascii_lowercase name
      in if other \<in> set [''object'', ''non-falsy-string'', ''truthy-string'', ''non-empty-array'',
           ''non-empty-list'', ''positive-int'', ''negative-int'', ''non-zero-int'', ''callable'',
           ''closure'', ''class-string'', ''interface-string'', ''trait-string'', ''enum-string'']
         then Some True
         else if is_keyword_type other then None
         else Some True)"

definition non_null_type :: "(hash_token list \<Rightarrow> 'h) \<Rightarrow> php_type \<Rightarrow> php_type option" where
  "non_null_type hasher t =
     (case kind t of
        Nullable inner \<Rightarrow> Some inner
      | UnionT members \<Rightarrow>
          (let non_null = filter (\<lambda>m. \<not> is_null m) members
           in if length non_null = 0 then None
              else if length non_null = 1 then Some (non_null ! 0)
              else Some (union hasher non_null))
      | _ \<Rightarrow> None)"

text \<open>\<open>shape_entries\<close> of \<open>src/php_type/shapes.rs\<close>.\<close>

fun shape_entries :: "php_type \<Rightarrow> php_type shape_entry list option" where
  "shape_entries t =
     (case kind t of
        ArrayShape entries \<Rightarrow> Some entries
      | ObjectShape entries \<Rightarrow> Some entries
      | Nullable inner \<Rightarrow> shape_entries inner
      | UnionT members \<Rightarrow> find_map shape_entries members
      | _ \<Rightarrow> None)"
declare shape_entries.simps [simp del]

definition zero_f64 :: f64 where "zero_f64 = Fin False 0 0"

fun literal_truthiness :: "literal_value \<Rightarrow> bool" where
  "literal_truthiness (LString raw) =
     (case string_content (LString raw) of None \<Rightarrow> True | Some txt \<Rightarrow> txt \<noteq> [] \<and> txt \<noteq> ''0'')"
| "literal_truthiness (LInt raw) = (case literal_i64 (LInt raw) of None \<Rightarrow> True | Some i \<Rightarrow> i \<noteq> 0)"
| "literal_truthiness (LFloat raw) =
     (case literal_f64 (LFloat raw) of None \<Rightarrow> True | Some f \<Rightarrow> \<not> f64_eq f zero_f64)"

definition truthiness :: "php_type \<Rightarrow> bool option" where
  "truthiness t =
     (if is_null t \<or> is_void t \<or> is_false t then Some False
      else if is_true t then Some True
      else case kind t of
        Literal value \<Rightarrow> Some (literal_truthiness value)
      | Named name \<Rightarrow> named_truthiness name
      | Generic g \<Rightarrow> named_truthiness (g_name g)
      | ClassString _ \<Rightarrow> Some True
      | InterfaceString _ \<Rightarrow> Some True
      | Intersection _ \<Rightarrow> Some True
      | ObjectShape _ \<Rightarrow> Some True
      | ArrayShape _ \<Rightarrow> map_option (list_ex (\<lambda>e. \<not> entry_optional e)) (shape_entries t)
      | ListShape _ \<Rightarrow> map_option (list_ex (\<lambda>e. \<not> entry_optional e)) (shape_entries t)
      | _ \<Rightarrow> None)"

subsection \<open>Narrowing\<close>

definition non_empty_array_form :: "php_type \<Rightarrow> php_type" where
  "non_empty_array_form t =
     (case kind t of
        Named name \<Rightarrow>
          if name = ''array'' then named ''non-empty-array''
          else if name = ''list'' then named ''non-empty-list'' else t
      | Generic g \<Rightarrow>
          if g_name g = ''array'' then generic ''non-empty-array'' (g_args g)
          else if g_name g = ''list'' then generic ''non-empty-list'' (g_args g) else t
      | Array element \<Rightarrow> generic ''non-empty-array'' [element]
      | _ \<Rightarrow> t)"

definition falsy_free :: "str \<Rightarrow> php_type" where
  "falsy_free name = intersection [named name, named ''non-falsy-string'']"

text \<open>The strings the code has a truthy spelling for.\<close>

definition truthy_name :: "str \<Rightarrow> php_type option" where
  "truthy_name = map_of
     [(''string'', named ''non-falsy-string''), (''non-empty-string'', named ''non-falsy-string''),
      (''lowercase-string'', falsy_free ''lowercase-string''), (''non-empty-lowercase-string'', falsy_free ''lowercase-string''),
      (''uppercase-string'', falsy_free ''uppercase-string''), (''non-empty-uppercase-string'', falsy_free ''uppercase-string''),
      (''literal-string'', falsy_free ''literal-string''), (''non-empty-literal-string'', falsy_free ''literal-string'')]"

fun somes :: "'a option list \<Rightarrow> 'a list" where
  "somes [] = []"
| "somes (None # xs) = somes xs"
| "somes (Some x # xs) = x # somes xs"

text \<open>None, the one, or the union of the types kept.\<close>

definition union_of :: "(hash_token list \<Rightarrow> 'h) \<Rightarrow> php_type list \<Rightarrow> php_type option" where
  "union_of hasher ts =
     (case ts of [] \<Rightarrow> None | [t] \<Rightarrow> Some t | _ \<Rightarrow> Some (union hasher ts))"

fun truthy_type :: "(hash_token list \<Rightarrow> 'h) \<Rightarrow> php_type \<Rightarrow> php_type option" where
  "truthy_type hasher t =
     (case kind t of
        Nullable inner \<Rightarrow> truthy_type hasher inner
      | UnionT members \<Rightarrow> union_of hasher (somes (map (truthy_type hasher) members))
      | k \<Rightarrow>
          if truthiness t = Some False then None
          else if is_bool t then Some pt_true
          else if is_array_like t then Some (non_empty_array_form t)
          else (case k of
             Named name \<Rightarrow> Some (case truthy_name name of Some u \<Rightarrow> u | None \<Rightarrow> t)
           | _ \<Rightarrow> Some t))"
declare truthy_type.simps [simp del]

definition zero_types :: "php_type list" where
  "zero_types = [literal_int ''0'', literal_float ''0.0'']"

definition falsy_strings :: "php_type list" where
  "falsy_strings = [literal (literal_string_value []), literal (literal_string_value ''0'')]"

definition mixed_falsy :: "php_type list" where
  "mixed_falsy = zero_types @ falsy_strings @ [array_shape [], pt_false, pt_null]"

text \<open>The falsy values of a name read as a keyword; \<open>None\<close> where the code goes on.\<close>

definition name_falsy :: "str \<Rightarrow> php_type list option" where
  "name_falsy lower =
     (if lower \<in> set [''int'', ''integer'', ''non-negative-int'', ''non-positive-int'']
      then Some [literal_int ''0'']
      else if lower \<in> set [''float'', ''double''] then Some [literal_float ''0.0'']
      else if lower = ''string'' then Some falsy_strings
      else if lower \<in> set [''non-empty-string'', ''numeric-string'']
      then Some [literal (literal_string_value ''0'')]
      else if lower = ''numeric'' then Some (zero_types @ [literal (literal_string_value ''0'')])
      else if lower = ''array-key'' then Some (literal_int ''0'' # falsy_strings)
      else if lower = ''scalar'' then Some (zero_types @ falsy_strings @ [pt_false])
      else None)"

fun falsy_members :: "php_type \<Rightarrow> php_type list" where
  "falsy_members t =
     (case kind t of
        Nullable inner \<Rightarrow> falsy_members inner @ [pt_null]
      | UnionT members \<Rightarrow> concat (map falsy_members members)
      | k \<Rightarrow>
          if truthiness t = Some True then []
          else if is_bool t then [pt_false]
          else if is_mixed t then mixed_falsy
          else (case k of
             IntRange lo hi \<Rightarrow>
               (let above_min = (case parse_i64 lo of None \<Rightarrow> True | Some n \<Rightarrow> n \<le> 0);
                    below_max = (case parse_i64 hi of None \<Rightarrow> True | Some n \<Rightarrow> n \<ge> 0)
                in if above_min \<and> below_max then [literal_int ''0''] else [])
           | Named name \<Rightarrow>
               (case with_keyword_lowercase name name_falsy of
                  Some ts \<Rightarrow> ts
                | None \<Rightarrow> if is_array_like t then [array_shape []] else [t])
           | _ \<Rightarrow> if is_array_like t then [array_shape []] else [t]))"
declare falsy_members.simps [simp del]

definition falsy_type :: "(hash_token list \<Rightarrow> 'h) \<Rightarrow> php_type \<Rightarrow> php_type option" where
  "falsy_type hasher t = union_of hasher (falsy_members t)"

subsection \<open>Elements\<close>

fun is_provably_non_empty :: "php_type \<Rightarrow> bool" where
  "is_provably_non_empty t =
     (case kind t of
        Named name \<Rightarrow> is_non_empty_array_name name
      | Generic g \<Rightarrow> is_non_empty_array_name (g_name g)
      | ArrayShape _ \<Rightarrow> (case shape_entries t of Some entries \<Rightarrow> list_ex (\<lambda>e. \<not> entry_optional e) entries | None \<Rightarrow> False)
      | ListShape _ \<Rightarrow> (case shape_entries t of Some entries \<Rightarrow> list_ex (\<lambda>e. \<not> entry_optional e) entries | None \<Rightarrow> False)
      | UnionT members \<Rightarrow> list_all is_provably_non_empty members
      | _ \<Rightarrow> False)"
declare is_provably_non_empty.simps [simp del]

subsection \<open>Truthy values\<close>

fun php_truthy :: "php_value \<Rightarrow> bool" where
  "php_truthy VNull = False"
| "php_truthy (VBool b) = b"
| "php_truthy (VInt i) = (i \<noteq> 0)"
| "php_truthy (VFloat f) = (\<not> f64_eq f zero_f64)"
| "php_truthy (VString s) = truthy_text s"
| "php_truthy (VArray kvs) = (kvs \<noteq> [])"
| "php_truthy (VObject c) = True"
| "php_truthy (VResource b) = True"

text \<open>Nothing callable is falsy, and the falsy strings are written somewhere.\<close>

definition truth_world :: "world \<Rightarrow> bool" where
  "truth_world W \<longleftrightarrow> world_ok W \<and> (\<forall>v. callable_value W v \<longrightarrow> php_truthy v) \<and> written W [] \<and> written W ''0''"

text \<open>
  Where the test is sound: a name that is no keyword as written is no keyword by its root separator
  or as the alias \<open>real\<close>, a shape has a required entry or none at all, and an intersection has a
  member that is certainly truthy.
\<close>

definition truth_name :: "str \<Rightarrow> bool" where
  "truth_name n \<longleftrightarrow> is_keyword_type (to_ascii_lowercase n) \<or> \<not> is_keyword_type (canonical_name n)"

definition truth_node :: "php_type \<Rightarrow> bool" where
  "truth_node t \<longleftrightarrow>
     (case t of
        Named n \<Rightarrow> truth_name n
      | Generic g \<Rightarrow> truth_name (g_name g)
      | ArrayShape es \<Rightarrow> es = [] \<or> list_ex (\<lambda>e. \<not> entry_optional e) es
      | Intersection ts \<Rightarrow> list_ex (\<lambda>m. truthiness m = Some True \<and> (case kind m of Nullable _ \<Rightarrow> False | _ \<Rightarrow> True)) ts
      | IntRange lo hi \<Rightarrow> (parse_i64 lo \<noteq> None \<or> lo = ''min'') \<and> (parse_i64 hi \<noteq> None \<or> hi = ''max'')
      | _ \<Rightarrow> True)"

lemma member_holds_kind: "member_ok t \<Longrightarrow> holds W t v \<Longrightarrow> holds W (kind t) v"
  using exact_marker_kind member_kind by (cases "is_exact_value_marker t") auto

lemma member_named:
  assumes "\<not> is_pseudo_class (strip_root_slash n)"
  shows "to_ascii_lowercase n = k \<Longrightarrow> k \<noteq> [] \<Longrightarrow> hd k \<noteq> backslash \<Longrightarrow> admits W n v = name_admits W (normalize_alias k) v"
    and "\<not> is_keyword_type (canonical_name n) \<Longrightarrow> admits W n v = on_object (\<lambda>c. instance_of W c (canonical_name n)) v"
  using assms lower_admits(1) class_admits by (auto simp: admits_def)

lemma truthy_table:
  assumes "truth_world W"
  shows "list_all (\<lambda>k. k \<noteq> [] \<and> hd k \<noteq> backslash \<and> (name_admits W (normalize_alias k) v \<longrightarrow> php_truthy v))
    [''object'', ''non-falsy-string'', ''truthy-string'', ''non-empty-array'',
     ''non-empty-list'', ''positive-int'', ''negative-int'', ''non-zero-int'', ''callable'',
     ''closure'', ''class-string'', ''interface-string'', ''trait-string'', ''enum-string'']"
proof -
  have W: "world_ok W" "callable_value W v \<Longrightarrow> php_truthy v" using assms by (auto simp: truth_world_def)
  show ?thesis
    using world_facts(1-4) [OF W(1)] W(2)
    by (cases v) (auto simp: normalize_alias_def names value_tests backslash_code)
qed

lemma named_truthiness_sound:
  assumes W: "truth_world W" and n: "\<not> is_pseudo_class (strip_root_slash n)" "truth_name n"
    and b: "named_truthiness n = Some b" and v: "admits W n v"
  shows "php_truthy v = b"
proof -
  have "b" using b by (auto simp: named_truthiness_def Let_def split: if_splits)
  moreover have "php_truthy v"
  proof (cases "is_keyword_type (to_ascii_lowercase n)")
    case True
    then have "to_ascii_lowercase n \<in> set [''object'', ''non-falsy-string'', ''truthy-string'', ''non-empty-array'',
       ''non-empty-list'', ''positive-int'', ''negative-int'', ''non-zero-int'', ''callable'',
       ''closure'', ''class-string'', ''interface-string'', ''trait-string'', ''enum-string'']"
      using b unfolding named_truthiness_def Let_def by (metis option.distinct(1))
    then show ?thesis
      using truthy_table [OF W, of v] member_named(1) [OF n(1) refl, of W v] v unfolding list_all_iff by blast
  next
    case False
    then have "\<not> is_keyword_type (canonical_name n)" using n(2) by (simp add: truth_name_def)
    then show ?thesis using member_named(2) [OF n(1)] v by (cases v) auto
  qed
  ultimately show ?thesis by simp
qed


lemma keyword_admits:
  "to_ascii_lowercase n = ''null'' \<Longrightarrow> admits W n v = (v = VNull)"
  "to_ascii_lowercase n = ''void'' \<Longrightarrow> admits W n v = (v = VNull)"
  "to_ascii_lowercase n = ''true'' \<Longrightarrow> admits W n v = (v = VBool True)"
  "to_ascii_lowercase n = ''false'' \<Longrightarrow> admits W n v = (v = VBool False)"
  "to_ascii_lowercase n = ''mixed'' \<Longrightarrow> admits W n v"
  "to_ascii_lowercase n = ''non-falsy-string'' \<Longrightarrow> admits W n v = on_string truthy_text v"
  by (cases v; simp add: lower_keyword_admits is_lowercase_only_pseudo_type_def backslash_code normalize_alias_def
      names value_tests)+

lemma literal_truthiness_sound: "literal_holds W lit v \<Longrightarrow> php_truthy v = literal_truthiness lit"
proof (cases lit)
  case (LFloat raw)
  moreover assume "literal_holds W lit v"
  moreover have "f64_eq f zero_f64 = f64_eq g zero_f64" if "f64_eq g f" for f g
    using that by (cases f; cases g) (auto simp: zero_f64_def)
  ultimately show ?thesis by (cases v) (auto simp: literal_holds_def split: option.splits)
qed (auto simp: literal_holds_def truthy_text_def split: option.splits)

lemma shape_truthiness:
  assumes "shape_holds P es v" "es = [] \<or> list_ex (\<lambda>e. \<not> entry_optional e) es"
  shows "php_truthy v = list_ex (\<lambda>e. \<not> entry_optional e) es"
proof -
  obtain keys kvs where keys: "runtime_shape_keys es = Some keys" and v: "v = VArray kvs"
    and entries: "list_all (\<lambda>(k, x). list_ex (\<lambda>(e, key). array_key_of key = k \<and> P e x) (zip es keys)) kvs"
    and req: "list_all (\<lambda>(e, key). entry_optional e \<or> array_key_of key \<in> set (map fst kvs)) (zip es keys)"
    using assms(1) by (cases v) (auto simp: shape_holds_def split: option.splits)
  show ?thesis
  proof (cases "es = []")
    case True
    then show ?thesis using entries v by (cases kvs) auto
  next
    case False
    then obtain i where i: "i < length es" "\<not> entry_optional (es ! i)"
      using assms(2) by (auto simp: list_ex_iff in_set_conv_nth)
    moreover have "length keys = length es" using keys by (auto simp: runtime_shape_keys_def dest: runtime_keys_length)
    ultimately have "array_key_of (keys ! i) \<in> set (map fst kvs)"
      using req unfolding list_all_iff by (auto simp: set_zip)
    then have "kvs \<noteq> []" by auto
    then show ?thesis using assms(2) False by (simp add: v)
  qed
qed

lemma null_kinds:
  "is_null t = (\<exists>n. kind t = Named n \<and> to_ascii_lowercase n = ''null'')"
  "is_void t = (\<exists>n. kind t = Named n \<and> to_ascii_lowercase n = ''void'')"
  "is_mixed t = (\<exists>n. kind t = Named n \<and> to_ascii_lowercase n = ''mixed'')"
  by (auto simp: is_null_def is_void_def is_mixed_def eq_ignore_ascii_case_def str_eval split: php_type.splits)

lemma true_false_kinds:
  assumes "\<forall>i. kind t \<noteq> Nullable i"
  shows "is_true t = (\<exists>n. kind t = Named n \<and> to_ascii_lowercase n = ''true'')"
    and "is_false t = (\<exists>n. kind t = Named n \<and> to_ascii_lowercase n = ''false'')"
  using assms by (auto simp: is_true.simps [of t] is_false.simps [of t] eq_ignore_ascii_case_def str_eval split: php_type.splits)

lemma not_nullable: "(case k of Nullable _ \<Rightarrow> False | _ \<Rightarrow> True) = (\<forall>i. k \<noteq> Nullable i)"
  by (cases k) simp_all

lemma name_strings_truthy: "truth_world W \<Longrightarrow> class_names W s \<or> interface_names W s \<Longrightarrow> truthy_text s"
  using world_facts(1,2) [of W s] by (auto simp: truth_world_def)

lemma truthiness_holds:
  assumes "truth_world (names_in W)" "member_ok t" "every truth_node t" "truthiness t = Some b" "\<forall>i. kind t \<noteq> Nullable i"
    "holds W t v"
  shows "php_truthy v = b"
  using assms(2-6)
proof (induction t arbitrary: b rule: kind_induct)
  case (node t)
  have v: "holds W (kind t) v" by (rule member_holds_kind [OF node.prems(1,5)])
  note nodes = member_facts(2) [OF node.prems(1)] every_node [OF every_kind [OF node.prems(2)]]
  note null = null_kinds [of t] true_false_kinds [OF node.prems(4)]
  show ?case
  proof (cases "kind t")
    case (Named n)
    consider "is_null t \<or> is_void t \<or> is_false t" "\<not> b" | "is_true t" "b"
      | "\<not> (is_null t \<or> is_void t \<or> is_false t)" "\<not> is_true t" "named_truthiness n = Some b"
      using node.prems(3) by (auto simp: truthiness_def Named split: if_splits)
    then show ?thesis
    proof cases
      case 3
      then show ?thesis
        using named_truthiness_sound [OF assms(1), of n b v] nodes v by (simp add: Named member_node_def truth_node_def)
    qed (use v in \<open>auto simp: null Named keyword_admits\<close>)
  next
    case (Generic g)
    then show ?thesis
      using named_truthiness_sound [OF assms(1), of "g_name g" b v] nodes v node.prems(3)
      by (simp add: truthiness_def null member_node_def truth_node_def)
  next
    case (Literal lit)
    then show ?thesis using literal_truthiness_sound v node.prems(3) by (simp add: truthiness_def null)
  next
    case (ClassString opt)
    then show ?thesis using name_strings_truthy [OF assms(1)] v node.prems(3) by (cases v) (simp_all add: truthiness_def null)
  next
    case (InterfaceString opt)
    then show ?thesis using name_strings_truthy [OF assms(1)] v node.prems(3) by (cases v) (simp_all add: truthiness_def null)
  next
    case (Intersection ts)
    then obtain m where m: "m \<in> set ts" "truthiness m = Some True" "\<forall>i. kind m \<noteq> Nullable i"
      using nodes(2) by (auto simp: truth_node_def list_ex_iff not_nullable)
    moreover have "member_ok m" "every truth_node m"
      using every_child [OF every_kind [OF node.prems(1)], of m] every_child [OF every_kind [OF node.prems(2)], of m] m(1)
      by (simp_all add: Intersection)
    moreover have "holds W m v" using v m(1) by (simp add: Intersection list_all_iff)
    ultimately have "php_truthy v = True" using node.IH [of m True] by (simp add: Intersection)
    then show ?thesis using node.prems(3) by (simp add: truthiness_def null Intersection)
  next
    case (ObjectShape es)
    then show ?thesis using v node.prems(3) by (cases v) (simp_all add: truthiness_def null)
  next
    case (ArrayShape es)
    then show ?thesis
      using shape_truthiness [of "\<lambda>e. holds W (value_type e)" es v] v nodes(2) node.prems(3)
      by (simp add: truthiness_def null shape_entries.simps [of t] truth_node_def)
  next
    case (ListShape i)
    then show ?thesis using node.prems(3) by (simp add: truthiness_def null shape_entries.simps [of t])
  qed (use node.prems(3,4) in \<open>simp_all add: truthiness_def null\<close>)
qed


subsection \<open>The truthy half\<close>

lemma array_words:
  "admits W ''array'' v = on_array (\<lambda>ks. True) v" "admits W ''list'' v = on_array is_list_keys v"
  "admits W ''non-empty-array'' v = on_array (\<lambda>ks. ks \<noteq> []) v"
  "admits W ''non-empty-list'' v = on_array (\<lambda>ks. ks \<noteq> [] \<and> is_list_keys ks) v"
  by (simp_all add: array_name_admits is_array_like_name_def str_eval names)

lemma array_word_nodes:
  "\<not> is_pseudo_class (strip_root_slash ''non-empty-array'')" "\<not> is_pseudo_class (strip_root_slash ''non-empty-list'')"
  "\<not> is_pseudo_class (strip_root_slash ''array'')"
  "non_empty_base_name ''non-empty-array'' = Some ''array''" "non_empty_base_name ''non-empty-list'' = Some ''list''"
  "non_empty_base_name ''array'' = None"
  "to_ascii_lowercase ''array'' = ''array''" "to_ascii_lowercase ''list'' = ''list''"
  "is_array_like_name ''array''" "is_array_like_name ''list''" "is_array_like_name ''non-empty-array''"
  "is_array_like_name ''non-empty-list''"
  by (simp_all add: is_pseudo_class_def is_lowercase_only_pseudo_type_def strip_root_slash_def strip_prefix_def
      starts_with_def non_empty_base_name_def non_empty_prefix_def eq_ignore_ascii_case_def is_array_like_name_def str_eval)

lemma member_ok_words:
  "member_ok (Named ''non-empty-array'')" "member_ok (Named ''non-empty-list'')" "member_ok (Named ''array'')"
  "list_all member_ok args \<Longrightarrow> n \<in> {''non-empty-array'', ''non-empty-list'', ''array''} \<Longrightarrow>
     member_ok (Generic (GenericType n args))"
  by (auto simp: every.simps member_node_def well_built_def refinable_def array_word_nodes)

definition keeps_truthy :: "type_world \<Rightarrow> php_type \<Rightarrow> php_type option \<Rightarrow> bool" where
  "keeps_truthy W t opt \<longleftrightarrow>
     (case opt of None \<Rightarrow> True | Some u \<Rightarrow> member_ok u) \<and>
     (\<forall>v. value_ok v \<longrightarrow>
        ((case opt of None \<Rightarrow> False | Some u \<Rightarrow> holds W u v) \<longrightarrow> holds W t v) \<and>
        (holds W t v \<longrightarrow> php_truthy v \<longrightarrow> (case opt of None \<Rightarrow> False | Some u \<Rightarrow> holds W u v)))"

lemma keeps_same: "member_ok t \<Longrightarrow> keeps_truthy W t (Some t)"
  by (simp add: keeps_truthy_def)

lemma array_form_keeps:
  assumes ok: "member_ok t" and array: "is_array_like t" and plain: "\<forall>i. kind t \<noteq> Nullable i"
  shows "keeps_truthy W t (Some (non_empty_array_form t))"
proof (cases "kind t")
  case (Named n)
  then have t: "holds W t v = admits (names_in W) n v" for v
    using member_kind [OF ok array_refinement_plain [OF ok array]] by simp
  show ?thesis
  proof (cases "n = ''array'' \<or> n = ''list''")
    case True
    have "holds W t v \<and> php_truthy v \<longleftrightarrow> holds W (non_empty_array_form t) v" for v
      using True by (cases v) (auto simp: t non_empty_array_form_def Named named_def array_words)
    moreover have "member_ok (non_empty_array_form t)"
      using True by (auto simp: non_empty_array_form_def Named named_def member_ok_words)
    ultimately show ?thesis by (auto simp: keeps_truthy_def)
  qed (use Named keeps_same [OF ok] in \<open>simp add: non_empty_array_form_def\<close>)
next
  case (Generic g)
  then have t: "holds W t v = holds W (Generic g) v" for v
    using member_kind [OF ok array_refinement_plain [OF ok array]] by simp
  show ?thesis
  proof (cases "g_name g = ''array'' \<or> g_name g = ''list''")
    case True
    have "holds W t v \<and> php_truthy v \<longleftrightarrow> holds W (non_empty_array_form t) v" for v
      using True by (cases v) (auto simp: t non_empty_array_form_def Generic generic_def array_words array_word_nodes)
    moreover have "list_all member_ok (g_args g)" using every_kind [OF ok] by (simp add: Generic every.simps [of _ "Generic g"])
    then have "member_ok (non_empty_array_form t)"
      using True by (auto simp: non_empty_array_form_def Generic generic_def intro!: member_ok_words)
    ultimately show ?thesis by (auto simp: keeps_truthy_def)
  qed (use Generic keeps_same [OF ok] in \<open>simp add: non_empty_array_form_def\<close>)
next
  case (Array e)
  have "\<not> is_exact_value_marker t"
    using exact_marker_forms [OF ok] Array by auto
  then have t: "holds W t v = holds W (Array e) v" for v using member_kind [OF ok] by (simp add: Array)
  have "holds W t v \<and> php_truthy v \<longleftrightarrow> holds W (non_empty_array_form t) v" for v
    by (cases v) (auto simp: t non_empty_array_form_def Array generic_def array_words array_word_nodes args_hold_def)
  moreover have "member_ok e" using every_kind [OF ok] by (simp add: Array every.simps [of _ "Array e"])
  then have "member_ok (non_empty_array_form t)"
    by (auto simp: non_empty_array_form_def Array generic_def intro!: member_ok_words)
  ultimately show ?thesis by (auto simp: keeps_truthy_def)
qed (use plain array keeps_same [OF ok] in \<open>simp_all add: non_empty_array_form_def is_array_like.simps [of t]\<close>)

definition string_words :: "str list" where
  "string_words =
     [''string'', ''non-empty-string'', ''lowercase-string'', ''non-empty-lowercase-string'', ''uppercase-string'',
      ''non-empty-uppercase-string'', ''literal-string'', ''non-empty-literal-string'', ''non-falsy-string'']"

lemma string_words_plain:
  "list_all (\<lambda>k. to_ascii_lowercase k = k \<and> k \<noteq> [] \<and> hd k \<noteq> backslash \<and> \<not> is_lowercase_only_pseudo_type k \<and>
      normalize_alias k = k \<and> is_keyword_type k \<and> refinable k) string_words"
  by (simp add: string_words_def str_eval backslash_code is_lowercase_only_pseudo_type_def normalize_alias_def
      is_keyword_type_def is_scalar_name_def is_scalar_name_lower_def is_keyword_type_lower_def int_refinement_def
      string_refinement_def with_ascii_lowercase_def refinable_def non_empty_base_name_def non_empty_prefix_def
      eq_ignore_ascii_case_def)

lemma string_word_admits:
  assumes "k \<in> set string_words"
  shows "admits W k v = name_admits W k v" "member_ok (Named k)" "\<not> plain_class_name k"
proof -
  have k: "to_ascii_lowercase k = k" "k \<noteq> []" "hd k \<noteq> backslash" "\<not> is_lowercase_only_pseudo_type k"
    "normalize_alias k = k" "is_keyword_type k" "refinable k"
    using string_words_plain assms by (simp_all add: list_all_iff)
  show "admits W k v = name_admits W k v" using lower_keyword_admits(1) [OF k(1-3) k(1-4)] k(5) by simp
  show "\<not> plain_class_name k"
    using lower_keyword_admits(2) [OF k(1-3) k(1-4)] k(5,6) by (simp add: plain_class_name_def)
  show "member_ok (Named k)"
    using lower_not_pseudo [OF k(1-4)] k(7) by (simp add: every.simps member_node_def well_built_def)
qed

lemma falsy_free_values:
  assumes "k \<in> {''lowercase-string'', ''uppercase-string'', ''literal-string''}"
  shows "holds W (falsy_free k) v \<longleftrightarrow> name_admits (names_in W) k v \<and> on_string truthy_text v" "member_ok (falsy_free k)"
proof -
  have "k \<in> set string_words" "''non-falsy-string'' \<in> set string_words" using assms by (auto simp: string_words_def)
  note words = string_word_admits [OF this(1)] string_word_admits [OF this(2)]
  show "holds W (falsy_free k) v \<longleftrightarrow> name_admits (names_in W) k v \<and> on_string truthy_text v"
    by (simp add: falsy_free_def named_def intersection_def words names)
  show "member_ok (falsy_free k)"
    using words by (simp add: falsy_free_def named_def intersection_def every.simps [of _ "Intersection _"] member_node_def well_built_def)
qed

lemma truthy_name_values:
  assumes "truthy_name n = Some u"
  shows "\<not> plain_class_name n \<and> member_ok u \<and> (holds W u v \<longleftrightarrow> admits (names_in W) n v \<and> php_truthy v)"
proof -
  have entry: "(n, u) \<in> set
     [(''string'', named ''non-falsy-string''), (''non-empty-string'', named ''non-falsy-string''),
      (''lowercase-string'', falsy_free ''lowercase-string''), (''non-empty-lowercase-string'', falsy_free ''lowercase-string''),
      (''uppercase-string'', falsy_free ''uppercase-string''), (''non-empty-uppercase-string'', falsy_free ''uppercase-string''),
      (''literal-string'', falsy_free ''literal-string''), (''non-empty-literal-string'', falsy_free ''literal-string'')]"
    using assms unfolding truthy_name_def by (rule map_of_SomeD)
  have "''non-falsy-string'' \<in> set string_words" by (simp add: string_words_def)
  note strong = string_word_admits [OF this]
  have "list_all (\<lambda>(n, u). n \<in> set string_words \<and> member_ok u \<and> (holds W u v \<longleftrightarrow> name_admits (names_in W) n v \<and> php_truthy v))
     [(''string'', named ''non-falsy-string''), (''non-empty-string'', named ''non-falsy-string''),
      (''lowercase-string'', falsy_free ''lowercase-string''), (''non-empty-lowercase-string'', falsy_free ''lowercase-string''),
      (''uppercase-string'', falsy_free ''uppercase-string''), (''non-empty-uppercase-string'', falsy_free ''uppercase-string''),
      (''literal-string'', falsy_free ''literal-string''), (''non-empty-literal-string'', falsy_free ''literal-string'')]"
    by (cases v) (auto simp: falsy_free_values named_def strong string_words_def names truthy_text_def)
  then have "n \<in> set string_words \<and> member_ok u \<and> (holds W u v \<longleftrightarrow> name_admits (names_in W) n v \<and> php_truthy v)"
    using entry unfolding list_all_iff by fast
  then show ?thesis using string_word_admits [of n] by simp
qed


lemma somes_set [simp]: "set (somes xs) = {x. Some x \<in> set xs}"
  by (induction xs rule: somes.induct) auto

lemma union_of_holds:
  assumes "list_all member_ok ts"
  shows "value_ok v \<Longrightarrow> (case union_of hasher ts of None \<Rightarrow> False | Some u \<Rightarrow> holds W u v) = some_holds W ts v"
    and "case union_of hasher ts of None \<Rightarrow> True | Some u \<Rightarrow> member_ok u"
  using assms union_holds [OF assms, of v W hasher] union_ok [OF assms, of hasher]
  by (auto simp: union_of_def split: list.split)

lemma plain_kind:
  assumes "member_ok t" "kind t = Named n" "\<not> plain_class_name n"
  shows "holds W t v = admits (names_in W) n v"
proof -
  have "\<not> is_exact_value_marker t"
    using assms every_node [OF assms(1)]
    by (cases t) (auto simp: is_exact_value_marker_def member_node_def well_built_def is_class_type_def
        split: php_type.splits option.splits)
  then show ?thesis using member_kind [OF assms(1)] by (simp add: assms(2))
qed

lemma bool_names:
  assumes "is_bool t" "\<forall>i. kind t \<noteq> Nullable i"
  obtains n where "kind t = Named n" "\<not> plain_class_name n" "\<And>W v. admits W n v = is_bool_value (\<lambda>b. True) v"
proof -
  obtain n where n: "kind t = Named n" "keyword_key n \<in> set [''bool'', ''boolean'']"
    using assms by (auto simp: is_bool.simps [of t] with_keyword_lowercase_key split: php_type.splits)
  have "list_all (\<lambda>k. k \<noteq> [] \<and> to_ascii_lowercase k = k \<and> hd k \<noteq> backslash \<and> normalize_alias k = ''bool'') [''bool'', ''boolean'']"
    by (simp add: str_eval backslash_code normalize_alias_def)
  then have k: "keyword_key n \<noteq> []" "to_ascii_lowercase (keyword_key n) = keyword_key n" "hd (keyword_key n) \<noteq> backslash"
    "normalize_alias (keyword_key n) = ''bool''" using n(2) by (auto simp: list_all_iff)
  have "is_keyword_type ''bool''" by code_simp
  then have "\<not> plain_class_name n" using key_admits(2) [OF refl k(1-3)] k(4) by (simp add: plain_class_name_def)
  then show thesis using that [OF n(1)] key_admits(1) [OF refl k(1-3)] by (simp add: k(4) names)
qed

lemma true_false_types:
  "holds W pt_true v = (v = VBool True)" "holds W pt_false v = (v = VBool False)" "member_ok pt_true" "member_ok pt_false"
  "member_ok pt_null"
  by (simp_all add: keyword_types keyword_admits str_eval) code_simp+

lemma certain_falsy_keeps:
  assumes W: "truth_world (names_in W)" and ok: "member_ok t" "every truth_node t" "\<forall>i. kind t \<noteq> Nullable i"
    and "truthiness t = Some False"
  shows "keeps_truthy W t None"
  using truthiness_holds [OF W ok(1,2) assms(5) ok(3)] by (auto simp: keeps_truthy_def)

lemma truthy_type_keeps:
  assumes W: "truth_world (names_in W)" and ok: "member_ok t" "every truth_node t"
  shows "keeps_truthy W t (truthy_type hasher t)"
  using ok
proof (induction t rule: kind_induct)
  case (node t)
  note eq = truthy_type.simps [of hasher t]
  have child: "member_ok c" "every truth_node c" if "c \<in> set (node_children (kind t))" for c
    using every_child [OF every_kind [OF node.prems(1)] that] every_child [OF every_kind [OF node.prems(2)] that] .
  have unmarked: "holds W t v = holds W (kind t) v" if "\<forall>n. kind t \<noteq> Named n" "\<forall>c. kind t \<noteq> ClassString c" for v
  proof (rule member_kind [OF node.prems(1)], rule notI)
    assume "is_exact_value_marker t"
    then show False using exact_marker_forms [OF node.prems(1)] that by auto
  qed
  consider (inner) i where "kind t = Nullable i" | (members) ms where "kind t = UnionT ms"
    | (atom) "\<forall>i. kind t \<noteq> Nullable i" "\<forall>ms. kind t \<noteq> UnionT ms" by blast
  then show ?case
  proof cases
    case (inner i)
    then show ?thesis
      using node.IH [of i] child [of i] unmarked
      by (auto simp: eq keeps_truthy_def split: option.splits)
  next
    case (members ms)
    let ?us = "somes (map (truthy_type hasher) ms)"
    have part: "keeps_truthy W m (truthy_type hasher m)" if "m \<in> set ms" for m
      using node.IH [of m] child [of m] that by (simp add: members)
    have us: "list_all member_ok ?us"
      unfolding list_all_iff
    proof
      fix u assume "u \<in> set ?us"
      then obtain m where "m \<in> set ms" "truthy_type hasher m = Some u" by auto
      then show "member_ok u" using part [of m] by (simp add: keeps_truthy_def)
    qed
    have "holds W t v = some_holds W ms v" for v using unmarked by (simp add: members)
    moreover have "some_holds W ?us v \<longrightarrow> some_holds W ms v" if vok: "value_ok v" for v
    proof
      assume "some_holds W ?us v"
      then obtain u where u: "u \<in> set ?us" "holds W u v" unfolding list_ex_iff by blast
      then obtain m where m: "m \<in> set ms" "truthy_type hasher m = Some u" by auto
      then have "holds W m v" using part [of m] vok u(2) by (simp add: keeps_truthy_def)
      then show "some_holds W ms v" using m(1) by (auto simp: list_ex_iff)
    qed
    moreover have "some_holds W ms v \<longrightarrow> php_truthy v \<longrightarrow> some_holds W ?us v" if vok: "value_ok v" for v
    proof (intro impI)
      assume "some_holds W ms v" "php_truthy v"
      then obtain m where m: "m \<in> set ms" "holds W m v" by (auto simp: list_ex_iff)
      have "case truthy_type hasher m of None \<Rightarrow> False | Some u \<Rightarrow> holds W u v"
        using part [OF m(1)] vok m(2) \<open>php_truthy v\<close> by (simp add: keeps_truthy_def)
      then obtain u where u: "truthy_type hasher m = Some u" "holds W u v" by (auto split: option.splits)
      have "Some u \<in> set (map (truthy_type hasher) ms)" using m(1) u(1) by (metis image_eqI set_map)
      then show "some_holds W ?us v" using u(2) by (auto simp: list_ex_iff)
    qed
    ultimately show ?thesis
      using union_of_holds(1) [OF us, where W = W and hasher = hasher] union_of_holds(2) [OF us, of hasher]
      by (simp add: eq members keeps_truthy_def)
  next
    case atom
    have atom_eq: "truthy_type hasher t = (if truthiness t = Some False then None
          else if is_bool t then Some pt_true
          else if is_array_like t then Some (non_empty_array_form t)
          else case kind t of Named name \<Rightarrow> Some (case truthy_name name of Some u \<Rightarrow> u | None \<Rightarrow> t) | _ \<Rightarrow> Some t)"
      using atom unfolding eq by (cases "kind t") simp_all
    show ?thesis
    proof (cases "truthiness t = Some False")
      case True
      then show ?thesis using certain_falsy_keeps [OF W node.prems atom(1)] by (simp add: atom_eq)
    next
      case certain: False
      show ?thesis
      proof (cases "is_bool t")
        case True
        then obtain n where n: "kind t = Named n" "\<not> plain_class_name n" "admits (names_in W) n v = is_bool_value (\<lambda>b. True) v" for v
          using bool_names [OF True atom(1)] by metis
        have "holds W t v \<and> php_truthy v \<longleftrightarrow> v = VBool True" for v
          using plain_kind [OF node.prems(1) n(1,2)] by (cases v) (auto simp: n(3) value_tests)
        then show ?thesis using certain True by (auto simp: atom_eq keeps_truthy_def true_false_types)
      next
        case False
        show ?thesis
        proof (cases "is_array_like t")
          case True
          then show ?thesis
            using certain False array_form_keeps [OF node.prems(1) True atom(1)] by (simp add: atom_eq)
        next
          case plain: False
          show ?thesis
          proof (cases "\<exists>n u. kind t = Named n \<and> truthy_name n = Some u")
            case True
            then obtain n u where n: "kind t = Named n" "truthy_name n = Some u" by blast
            note vals = truthy_name_values [OF n(2), of W]
            have "holds W u v \<longleftrightarrow> holds W t v \<and> php_truthy v" "member_ok u" for v
              using vals [of v] plain_kind [OF node.prems(1) n(1)] by auto
            then show ?thesis using n certain False plain by (auto simp: atom_eq keeps_truthy_def)
          next
            case no_name: False
            have "truthy_type hasher t = Some t"
              using certain False plain no_name by (cases "kind t") (auto simp: atom_eq split: option.split)
            then show ?thesis using keeps_same [OF node.prems(1)] by simp
          qed
        qed
      qed
    qed
  qed
qed


subsection \<open>The falsy half\<close>

definition float_free :: "php_type \<Rightarrow> bool" where
  "float_free t \<longleftrightarrow> (case t of Named n \<Rightarrow> keyword_key n \<notin> {''float'', ''double''} | _ \<Rightarrow> True)"

lemma zero:
  "literal_i64 (LInt ''0'') = Some 0" "parse_php_float_literal ''0.0'' = Some (Fin False 0 0)"
proof -
  have "show_int 0 = ''0''" by code_simp
  then show "literal_i64 (LInt ''0'') = Some 0"
    using parse_php_int_literal_show [of 0] by (simp add: in_i64_def i64_defs)
  have t: "trim ''0.0'' = ''0.0''" by (rule trim_number) (simp_all add: number_char_def is_ascii_digit_def)
  show "parse_php_float_literal ''0.0'' = Some (Fin False 0 0)"
    by (simp add: parse_php_float_literal_def t parse_f64_text_def strip_sign_char_def scan_decimal_def digits_of_def
        Let_def decimal_f64_def round_f64_def radix_value_def digit_value_def str_eval)
qed

lemma falsy_literals:
  "holds W (literal_int ''0'') v = (v = VInt 0)"
  "f64_eq f zero_f64 \<Longrightarrow> holds W (literal_float ''0.0'') (VFloat f)"
  "written (names_in W) [] \<Longrightarrow> holds W (literal (literal_string_value [])) (VString [])"
  "written (names_in W) ''0'' \<Longrightarrow> holds W (literal (literal_string_value ''0'')) (VString ''0'')"
  "holds W (array_shape []) (VArray [])"
proof -
  have strings: "string_content (literal_string_value []) = Some []" "string_content (literal_string_value ''0'') = Some ''0''"
    using literal_string_content [of "[]"] literal_string_content [of "''0''"] by (simp_all add: byte_in_def)
  then have texts: "literal_php_value (literal_string_value []) = Some (VString [])"
    "literal_php_value (literal_string_value ''0'') = Some (VString ''0'')"
    by (simp_all add: literal_string_value_def)
  show "holds W (literal_int ''0'') v = (v = VInt 0)"
    by (cases v) (auto simp: literal_int_def literal_def literal_holds_def zero written_value_def simp del: literal_i64.simps)
  show "f64_eq f zero_f64 \<Longrightarrow> holds W (literal_float ''0.0'') (VFloat f)"
    by (cases f) (auto simp: literal_float_def literal_def literal_holds_def zero written_value_def zero_f64_def)
  show "written (names_in W) [] \<Longrightarrow> holds W (literal (literal_string_value [])) (VString [])"
    and "written (names_in W) ''0'' \<Longrightarrow> holds W (literal (literal_string_value ''0'')) (VString ''0'')"
    by (simp_all add: literal_def literal_holds_def texts written_value_def)
  show "holds W (array_shape []) (VArray [])"
    by (simp add: array_shape_def shape_holds_def runtime_shape_keys_def is_list_keys_def)
qed

lemma parse_i64_bound:
  assumes "parse_i64 s = Some n"
  shows "parse_range_bound s = n"
proof -
  have chars: "s \<noteq> []" "list_all number_char s"
    using assms by (auto simp: parse_i64_def from_digits_Some list_all_iff number_char_def split: list.splits if_splits option.splits)
  then have trim: "trim s = s" by (intro trim_number) (auto simp: list_all_iff)
  have "lower_char c = c" if "number_char c" for c
    using that by (auto simp: number_char_def is_ascii_digit_def lower_char_def is_ascii_uppercase_def)
  then have lower: "to_ascii_lowercase s = s"
    using chars(2) by (simp add: to_ascii_lowercase_def list_all_iff map_idI)
  have "s \<noteq> ''min''" "s \<noteq> ''max''" using assms bound_words by auto
  then show ?thesis by (simp add: parse_range_bound_def Let_def trim lower assms)
qed

definition falsy_words :: "str list" where
  "falsy_words = [''int'', ''integer'', ''non-negative-int'', ''non-positive-int'', ''float'', ''double'', ''string'',
     ''non-empty-string'', ''numeric-string'', ''numeric'', ''array-key'', ''scalar'']"

lemma falsy_words_plain:
  "list_all (\<lambda>k. k \<noteq> [] \<and> to_ascii_lowercase k = k \<and> hd k \<noteq> backslash \<and> is_keyword_type (normalize_alias k)) falsy_words"
  by (simp add: falsy_words_def str_eval backslash_code normalize_alias_def is_keyword_type_def is_scalar_name_def
      is_scalar_name_lower_def is_keyword_type_lower_def int_refinement_def string_refinement_def with_ascii_lowercase_def)

lemma name_falsy_words: "name_falsy k = Some ts \<Longrightarrow> k \<in> set falsy_words"
  by (auto simp: name_falsy_def falsy_words_def split: if_splits)

lemma falsy_names_hold:
  assumes W: "truth_world (names_in W)" and k: "name_falsy k = Some ts" "name_admits (names_in W) (normalize_alias k) v"
    and v: "\<not> php_truthy v" "v = VInt 0 \<longrightarrow> k \<notin> {''float'', ''double''}"
  shows "some_holds W ts v"
proof -
  have written: "written (names_in W) []" "written (names_in W) ''0''" using W by (simp_all add: truth_world_def)
  note lits = falsy_literals(1) falsy_literals(2) falsy_literals(3) [OF written(1)] falsy_literals(4) [OF written(2)]
  have "list_all (\<lambda>k. name_admits (names_in W) (normalize_alias k) v \<longrightarrow> (v = VInt 0 \<longrightarrow> k \<notin> {''float'', ''double''}) \<longrightarrow>
      (case name_falsy k of None \<Rightarrow> True | Some ts \<Rightarrow> some_holds W ts v)) falsy_words"
    using v(1)
    by (cases v) (auto simp: falsy_words_def name_falsy_def normalize_alias_def names value_tests truthy_text_def
      zero_types_def falsy_strings_def lits true_false_types)
  then show ?thesis using name_falsy_words [OF k(1)] k v(2) by (auto simp: list_all_iff)
qed


lemma array_name_falsy:
  assumes "is_array_like_name n" "admits W n v" "\<not> php_truthy v"
  shows "v = VArray []"
  using assms array_name_values [of n W v] array_name_admits [OF assms(1), of W v]
  by (cases "to_ascii_lowercase n = ''iterable''"; cases v) (auto simp: names value_tests)

lemma array_falsy:
  assumes "is_array_like t" "\<forall>i. kind t \<noteq> Nullable i" "holds W (kind t) v" "\<not> php_truthy v"
  shows "v = VArray []"
proof (cases "kind t")
  case (Named n)
  then show ?thesis using assms array_name_falsy [of n "names_in W" v] by (simp add: is_array_like.simps [of t])
next
  case (Generic g)
  then show ?thesis using assms array_name_falsy [of "g_name g" "names_in W" v] by (simp add: is_array_like.simps [of t])
next
  case (Array e)
  then show ?thesis using assms by (cases v) simp_all
next
  case (ArrayShape es)
  then show ?thesis using assms by (cases v) (simp_all add: shape_holds_def split: option.splits)
qed (use assms in \<open>simp_all add: is_array_like.simps [of t]\<close>)

lemma mixed_falsy_holds:
  assumes W: "truth_world (names_in W)" and "\<not> php_truthy v"
  shows "some_holds W mixed_falsy v"
proof -
  have written: "written (names_in W) []" "written (names_in W) ''0''" using W by (simp_all add: truth_world_def)
  note lits = falsy_literals(1) falsy_literals(2) falsy_literals(3) [OF written(1)] falsy_literals(4) [OF written(2)]
  show ?thesis
    using assms(2) by (cases v) (auto simp: mixed_falsy_def zero_types_def falsy_strings_def truthy_text_def lits
        falsy_literals(5) true_false_types)
qed

text \<open>The falsy members of a type that is neither nullable nor a union.\<close>

lemma falsy_atom:
  assumes W: "truth_world (names_in W)" and ok: "member_ok t" "every truth_node t"
    and atom: "\<forall>i. kind t \<noteq> Nullable i" "\<forall>ms. kind t \<noteq> UnionT ms"
    and v: "holds W t v" "\<not> php_truthy v" "v = VInt 0 \<longrightarrow> every float_free t"
  shows "some_holds W (falsy_members t) v"
proof -
  have kv: "holds W (kind t) v" by (rule member_holds_kind [OF ok(1) v(1)])
  have array: "v = VArray []" if "is_array_like t" by (rule array_falsy [OF that atom(1) kv v(2)])
  have decided: "truthiness t \<noteq> Some True" using truthiness_holds [OF W ok _ atom(1) v(1), of True] v(2) by auto
  consider (bool) "is_bool t" | (mixed) "\<not> is_bool t" "is_mixed t" | (rest) "\<not> is_bool t" "\<not> is_mixed t" by blast
  then show ?thesis
  proof cases
    case bool
    then obtain n where n: "kind t = Named n" "admits (names_in W) n v = is_bool_value (\<lambda>b. True) v"
      using bool_names [OF bool atom(1)] by metis
    then have "v = VBool False" using kv v(2) by (cases v) (simp_all add: value_tests)
    then show ?thesis using decided bool n(1) by (simp add: falsy_members.simps [of t] true_false_types)
  next
    case mixed
    then obtain n where "kind t = Named n" by (auto simp: null_kinds)
    then show ?thesis
      using decided mixed mixed_falsy_holds [OF W v(2)] by (simp add: falsy_members.simps [of t])
  next
    case rest
    note eq = falsy_members.simps [of t] and go_on = decided rest
    consider (range) lo hi where "kind t = IntRange lo hi" | (name) n where "kind t = Named n"
      | (other) "falsy_members t = (if is_array_like t then [array_shape []] else [t])"
      using atom go_on by (cases "kind t") (simp_all add: eq)
    then show ?thesis
    proof cases
      case (range lo hi)
      then have "v = VInt 0" "parse_range_bound lo \<le> 0" "0 \<le> parse_range_bound hi" using kv v(2) by (cases v; simp)+
      then show ?thesis
        using go_on by (auto simp: eq range falsy_literals(1) dest!: parse_i64_bound split: option.split)
    next
      case (name n)
      show ?thesis
      proof (cases "name_falsy (keyword_key n)")
        case None
        then show ?thesis using go_on array falsy_literals(5) v(1) by (simp add: eq name with_keyword_lowercase_key)
      next
        case (Some ts)
        have k: "keyword_key n \<noteq> []" "to_ascii_lowercase (keyword_key n) = keyword_key n" "hd (keyword_key n) \<noteq> backslash"
          using falsy_words_plain name_falsy_words [OF Some] by (simp_all add: list_all_iff)
        have "every float_free t \<Longrightarrow> keyword_key n \<notin> {''float'', ''double''}"
          using every_node [OF every_kind, of float_free t] by (simp add: name float_free_def)
        then have "some_holds W ts v"
          using falsy_names_hold [OF W Some _ v(2)] key_admits(1) [OF refl k, of "names_in W" v] kv v(3) by (simp add: name)
        then show ?thesis using go_on by (simp add: eq name with_keyword_lowercase_key Some)
      qed
    next
      case other
      then show ?thesis using array falsy_literals(5) v(1) by simp
    qed
  qed
qed

lemma falsy_members_hold:
  assumes W: "truth_world (names_in W)" and "member_ok t" "every truth_node t"
    and "holds W t v" "\<not> php_truthy v" "v = VInt 0 \<longrightarrow> every float_free t"
  shows "some_holds W (falsy_members t) v"
  using assms(2-)
proof (induction t rule: kind_induct)
  case (node t)
  have child: "member_ok c" "every truth_node c" "v = VInt 0 \<longrightarrow> every float_free c" if "c \<in> set (node_children (kind t))" for c
    using every_child [OF every_kind [OF node.prems(1)] that] every_child [OF every_kind [OF node.prems(2)] that]
      every_child [OF every_kind [of float_free t] that] node.prems(5) by blast+
  have kv: "holds W (kind t) v" by (rule member_holds_kind [OF node.prems(1,3)])
  consider (inner) i where "kind t = Nullable i" | (members) ms where "kind t = UnionT ms"
    | (atom) "\<forall>i. kind t \<noteq> Nullable i" "\<forall>ms. kind t \<noteq> UnionT ms" by blast
  then show ?case
  proof cases
    case (inner i)
    have "holds W pt_null VNull" by (simp add: keyword_types keyword_admits str_eval)
    then show ?thesis
      using node.IH [of i] child [of i] kv node.prems(4) by (auto simp: falsy_members.simps [of t] inner)
  next
    case (members ms)
    then obtain m where m: "m \<in> set ms" "holds W m v" using kv by (auto simp: list_ex_iff)
    then have "some_holds W (falsy_members m) v" using node.IH [of m] child [of m] node.prems(4) members by simp
    then show ?thesis using m(1) by (auto simp: falsy_members.simps [of t] members list_ex_iff)
  next
    case atom
    then show ?thesis using falsy_atom [OF W node.prems(1,2) atom node.prems(3-5)] by simp
  qed
qed


lemma readable_bounds: "parse_range_bound ''min'' = i64_min" "parse_range_bound ''max'' = i64_max" "i64_min \<le> 0" "0 \<le> i64_max"
  by code_simp+

lemma literal_values:
  "holds W (literal_float ''0.0'') v \<Longrightarrow> \<exists>f. v = VFloat f"
  "holds W (literal (literal_string_value [])) v \<Longrightarrow> v = VString []"
  "holds W (literal (literal_string_value ''0'')) v \<Longrightarrow> v = VString ''0''"
  "holds W (array_shape []) v \<Longrightarrow> v = VArray []"
proof -
  have strings: "string_content (literal_string_value []) = Some []" "string_content (literal_string_value ''0'') = Some ''0''"
    using literal_string_content [of "[]"] literal_string_content [of "''0''"] by (simp_all add: byte_in_def)
  then have texts: "literal_php_value (literal_string_value []) = Some (VString [])"
    "literal_php_value (literal_string_value ''0'') = Some (VString ''0'')"
    by (simp_all add: literal_string_value_def)
  show "holds W (literal_float ''0.0'') v \<Longrightarrow> \<exists>f. v = VFloat f"
    by (cases v) (auto simp: literal_float_def literal_def literal_holds_def zero)
  show "holds W (literal (literal_string_value [])) v \<Longrightarrow> v = VString []"
    and "holds W (literal (literal_string_value ''0'')) v \<Longrightarrow> v = VString ''0''"
    by (cases v; simp add: literal_def literal_holds_def texts)+
  show "holds W (array_shape []) v \<Longrightarrow> v = VArray []"
    using shape_truthiness [of "\<lambda>e. holds W (value_type e)" "[]" v]
    by (cases v) (simp_all add: array_shape_def shape_holds_def split: option.splits)
qed

lemma numeric_zero: "is_php_numeric_string ''0''"
  by code_simp

lemma falsy_names_within:
  assumes "name_falsy k = Some ts" "some_holds W ts v"
  shows "name_admits (names_in W) (normalize_alias k) v"
proof -
  have "list_all (\<lambda>k. case name_falsy k of None \<Rightarrow> True
      | Some ts \<Rightarrow> some_holds W ts v \<longrightarrow> name_admits (names_in W) (normalize_alias k) v) falsy_words"
    by (auto simp: falsy_words_def name_falsy_def normalize_alias_def names value_tests numeric_zero zero_types_def
        falsy_strings_def falsy_literals(1) true_false_types dest!: literal_values)
  then show ?thesis using name_falsy_words [OF assms(1)] assms by (auto simp: list_all_iff)
qed

text \<open>The falsy members hold no value their type does not.\<close>

lemma falsy_atom_within:
  assumes ok: "member_ok t" "every truth_node t" and atom: "\<forall>i. kind t \<noteq> Nullable i" "\<forall>ms. kind t \<noteq> UnionT ms"
    and v: "some_holds W (falsy_members t) v"
  shows "holds W t v"
proof -
  note eq = falsy_members.simps [of t]
  have decided: "truthiness t \<noteq> Some True"
    using v atom by (cases "kind t") (auto simp: eq split: if_splits)
  have unmarked: "holds W t v = holds W (kind t) v" if "\<forall>n. kind t \<noteq> Named n" "\<forall>c. kind t \<noteq> ClassString c"
  proof (rule member_kind [OF ok(1)], rule notI)
    assume "is_exact_value_marker t"
    then show False using exact_marker_forms [OF ok(1)] that by auto
  qed
  have nodes: "truth_node (kind t)" by (rule every_node [OF every_kind [OF ok(2)]])
  have empty_array: "holds W t v" if array: "is_array_like t" and e: "holds W (array_shape []) v"
  proof -
    have v: "v = VArray []" by (rule literal_values(4) [OF e])
    have names: "admits (names_in W) n (VArray [])" if "is_array_like_name n" "named_truthiness n \<noteq> Some True" for n
    proof -
      have "\<not> is_non_empty_array_name n"
        using that(2) by (auto simp: named_truthiness_def is_non_empty_array_name_def split: if_splits)
      then show ?thesis using array_name_intro [OF that(1)] by (simp add: array_promises_def is_list_keys_def)
    qed
    show ?thesis
    proof (cases "kind t")
      case (Named n)
      then have "holds W t v = admits (names_in W) n v"
        using member_kind [OF ok(1) array_refinement_plain [OF ok(1) array]] by simp
      moreover have "named_truthiness n \<noteq> Some True"
        using decided array Named
        by (auto simp: truthiness_def null_kinds true_false_kinds [OF atom(1)] is_array_like.simps [of t] is_array_like_name_def)
      ultimately show ?thesis using names array v by (simp add: is_array_like.simps [of t] Named)
    next
      case (Generic g)
      then have "named_truthiness (g_name g) \<noteq> Some True" using decided by (auto simp: truthiness_def null_kinds true_false_kinds [OF atom(1)])
      then show ?thesis
        using names array v unmarked Generic by (simp add: is_array_like.simps [of t] args_hold_def)
    next
      case (Array e)
      then show ?thesis using v unmarked by simp
    next
      case (ArrayShape es)
      then have "es = []"
        using nodes decided atom by (auto simp: truth_node_def truthiness_def null_kinds true_false_kinds [OF atom(1)] shape_entries.simps [of t])
      then show ?thesis using v e unmarked ArrayShape by (simp add: array_shape_def)
    qed (use array atom in \<open>simp_all add: is_array_like.simps [of t]\<close>)
  qed
  consider (bool) "is_bool t" | (mixed) "\<not> is_bool t" "is_mixed t" | (rest) "\<not> is_bool t" "\<not> is_mixed t" by blast
  then show ?thesis
  proof cases
    case bool
    then obtain n where n: "kind t = Named n" "\<not> plain_class_name n" "admits (names_in W) n v = is_bool_value (\<lambda>b. True) v"
      using bool_names [OF bool atom(1)] by metis
    then show ?thesis
      using v decided bool plain_kind [OF ok(1) n(1,2), of W v] by (simp add: eq true_false_types value_tests)
  next
    case mixed
    then obtain n where n: "kind t = Named n" "to_ascii_lowercase n = ''mixed''" by (auto simp: null_kinds)
    have "is_keyword_type ''mixed''" by code_simp
    moreover have "canonical_name n = ''mixed''"
      using lower_keyword_admits(2) [OF n(2)] n(2)
      by (simp add: is_lowercase_only_pseudo_type_def backslash_code normalize_alias_def)
    ultimately have "\<not> plain_class_name n" by (simp add: plain_class_name_def)
    then show ?thesis using plain_kind [OF ok(1) n(1)] keyword_admits(5) [OF n(2)] by simp
  next
    case rest
    consider (range) lo hi where "kind t = IntRange lo hi" | (name) n where "kind t = Named n"
      | (other) "falsy_members t = (if is_array_like t then [array_shape []] else [t])"
      using atom rest decided by (cases "kind t") (simp_all add: eq)
    then show ?thesis
    proof cases
      case (range lo hi)
      have b: "parse_i64 lo \<noteq> None \<or> lo = ''min''" "parse_i64 hi \<noteq> None \<or> hi = ''max''"
        using nodes by (simp_all add: range truth_node_def)
      have "v = VInt 0" "\<And>n. parse_i64 lo = Some n \<Longrightarrow> n \<le> 0" "\<And>n. parse_i64 hi = Some n \<Longrightarrow> 0 \<le> n"
        using v rest decided by (auto simp: eq range falsy_literals(1) Let_def split: if_splits option.splits)
      then have "parse_range_bound lo \<le> 0" "0 \<le> parse_range_bound hi" "v = VInt 0"
        using b parse_i64_bound readable_bounds by (metis not_None_eq)+
      then show ?thesis using unmarked by (simp add: range)
    next
      case (name n)
      show ?thesis
      proof (cases "name_falsy (keyword_key n)")
        case None
        then show ?thesis
          using rest decided v empty_array by (auto simp: eq name with_keyword_lowercase_key split: if_splits)
      next
        case (Some ts)
        have k: "keyword_key n \<noteq> []" "to_ascii_lowercase (keyword_key n) = keyword_key n" "hd (keyword_key n) \<noteq> backslash"
          "is_keyword_type (normalize_alias (keyword_key n))"
          using falsy_words_plain name_falsy_words [OF Some] by (simp_all add: list_all_iff)
        have "some_holds W ts v" using rest decided v by (simp add: eq name with_keyword_lowercase_key Some)
        then have "admits (names_in W) n v"
          using falsy_names_within [OF Some] key_admits(1) [OF refl k(1-3)] by simp
        moreover have "\<not> plain_class_name n" using key_admits(2) [OF refl k(1-3)] k(4) by (simp add: plain_class_name_def)
        ultimately show ?thesis using plain_kind [OF ok(1) name] by simp
      qed
    next
      case other
      then show ?thesis using v empty_array by (simp split: if_splits)
    qed
  qed
qed


lemma falsy_members_within:
  assumes "member_ok t" "every truth_node t" "some_holds W (falsy_members t) v"
  shows "holds W t v"
  using assms
proof (induction t rule: kind_induct)
  case (node t)
  have child: "member_ok c" "every truth_node c" if "c \<in> set (node_children (kind t))" for c
    using every_child [OF every_kind [OF node.prems(1)] that] every_child [OF every_kind [OF node.prems(2)] that] .
  have unmarked: "holds W t v = holds W (kind t) v" if "\<forall>n. kind t \<noteq> Named n" "\<forall>c. kind t \<noteq> ClassString c"
  proof (rule member_kind [OF node.prems(1)], rule notI)
    assume "is_exact_value_marker t"
    then show False using exact_marker_forms [OF node.prems(1)] that by auto
  qed
  consider (inner) i where "kind t = Nullable i" | (members) ms where "kind t = UnionT ms"
    | (atom) "\<forall>i. kind t \<noteq> Nullable i" "\<forall>ms. kind t \<noteq> UnionT ms" by blast
  then show ?case
  proof cases
    case (inner i)
    have "holds W pt_null v \<Longrightarrow> v = VNull" by (simp add: keyword_types keyword_admits str_eval)
    then show ?thesis
      using node.IH [of i] child [of i] node.prems(3) unmarked by (auto simp: falsy_members.simps [of t] inner)
  next
    case (members ms)
    then obtain m where m: "m \<in> set ms" "some_holds W (falsy_members m) v"
      using node.prems(3) by (auto simp: falsy_members.simps [of t] list_ex_iff)
    then have "holds W m v" using node.IH [of m] child [of m] members by simp
    then show ?thesis using m(1) unmarked by (auto simp: members list_ex_iff)
  next
    case atom
    then show ?thesis using falsy_atom_within [OF node.prems(1,2) atom node.prems(3)] by simp
  qed
qed

lemma falsy_literals_ok:
  "list_all member_ok mixed_falsy" "list_all member_ok falsy_strings" "list_all member_ok zero_types"
  by code_simp+

lemma falsy_names_ok:
  assumes "name_falsy k = Some ts"
  shows "list_all member_ok ts"
proof -
  have ok: "member_ok (literal_int ''0'')" "member_ok (literal_float ''0.0'')" "member_ok (literal (literal_string_value ''0''))"
    using falsy_literals_ok by (simp_all add: zero_types_def falsy_strings_def)
  have "list_all (\<lambda>k. case name_falsy k of None \<Rightarrow> True | Some ts \<Rightarrow> list_all member_ok ts) falsy_words"
    by (simp add: falsy_words_def name_falsy_def ok falsy_literals_ok(2,3) true_false_types)
  then show ?thesis using name_falsy_words [OF assms] assms by (auto simp: list_all_iff)
qed

lemma falsy_members_ok: "member_ok t \<Longrightarrow> list_all member_ok (falsy_members t)"
proof (induction t rule: kind_induct)
  case (node t)
  have child: "list_all member_ok (falsy_members c)" if "c \<in> set (node_children (kind t))" for c
    using node.IH [OF that] every_child [OF every_kind [OF node.prems] that] .
  have lits: "list_all member_ok mixed_falsy" "member_ok (literal_int ''0'')" "member_ok (array_shape [])"
    using falsy_literals_ok by (simp_all add: mixed_falsy_def zero_types_def)
  have rest: "set (falsy_members t) \<subseteq> {pt_false, array_shape [], t} \<union> set mixed_falsy"
    if "\<forall>i. kind t \<noteq> Nullable i" "\<forall>ms. kind t \<noteq> UnionT ms" "\<forall>n. kind t \<noteq> Named n" "\<forall>lo hi. kind t \<noteq> IntRange lo hi"
  proof -
    have "falsy_members t = (if truthiness t = Some True then [] else if is_bool t then [pt_false]
        else if is_mixed t then mixed_falsy else if is_array_like t then [array_shape []] else [t])"
      using that unfolding falsy_members.simps [of t] by (cases "kind t") simp_all
    then show ?thesis by auto
  qed
  consider (inner) i where "kind t = Nullable i" | (members) ms where "kind t = UnionT ms"
    | (name) n where "kind t = Named n" | (range) lo hi where "kind t = IntRange lo hi"
    | (other) "set (falsy_members t) \<subseteq> {pt_false, array_shape [], t} \<union> set mixed_falsy"
    using rest by metis
  then show ?case
  proof cases
    case (inner i)
    then show ?thesis using child [of i] by (simp add: falsy_members.simps [of t] true_false_types)
  next
    case (members ms)
    then have "\<forall>m\<in>set ms. list_all member_ok (falsy_members m)" using child by simp
    then show ?thesis by (simp add: falsy_members.simps [of t] members list_all_iff)
  next
    case (name n)
    then show ?thesis
      using lits node.prems falsy_names_ok [of "keyword_key n"]
      by (simp add: falsy_members.simps [of t] true_false_types with_keyword_lowercase_key split: option.split)
  next
    case (range lo hi)
    then show ?thesis
      using lits by (simp add: falsy_members.simps [of t] true_false_types)
  next
    case other
    then show ?thesis using lits node.prems true_false_types(4) unfolding list_all_iff by blast
  qed
qed

lemma falsy_type_values:
  assumes "member_ok t" "value_ok v"
  shows "(case falsy_type hasher t of None \<Rightarrow> False | Some u \<Rightarrow> holds W u v) = some_holds W (falsy_members t) v"
  using union_of_holds(1) [OF falsy_members_ok [OF assms(1)] assms(2)] by (simp add: falsy_type_def)


subsection \<open>Arrays with an entry\<close>

lemma non_empty_name_values:
  assumes "is_non_empty_array_name n" "admits W n v"
  shows "\<exists>e es. v = VArray (e # es)"
proof -
  have "is_array_like_name n" "to_ascii_lowercase n \<noteq> ''iterable''"
    using assms(1) by (auto simp: is_non_empty_array_name_def is_array_like_name_def)
  then have "on_array (array_promises n) v" using array_name_values [of n W v] assms(2) by simp
  then show ?thesis using assms(1) by (cases v) (auto simp: array_promises_def neq_Nil_conv)
qed

lemma non_empty_holds:
  assumes "member_ok t" "is_provably_non_empty t" "holds W t v"
  shows "\<exists>e es. v = VArray (e # es)"
  using assms
proof (induction t rule: kind_induct)
  case (node t)
  have kv: "holds W (kind t) v" by (rule member_holds_kind [OF node.prems(1,3)])
  show ?case
  proof (cases "kind t")
    case (Named n)
    then show ?thesis using node.prems(2) kv non_empty_name_values by (simp add: is_provably_non_empty.simps [of t])
  next
    case (Generic g)
    then show ?thesis using node.prems(2) kv non_empty_name_values [of "g_name g" "names_in W" v] by (simp add: is_provably_non_empty.simps [of t])
  next
    case (ArrayShape es)
    then have "list_ex (\<lambda>e. \<not> entry_optional e) es"
      using node.prems(2) by (simp add: is_provably_non_empty.simps [of t] shape_entries.simps [of t])
    then have "php_truthy v" using shape_truthiness [of "\<lambda>e. holds W (value_type e)" es v] kv by (simp add: ArrayShape)
    then show ?thesis using kv by (cases v) (auto simp: ArrayShape shape_holds_def neq_Nil_conv split: option.splits)
  next
    case (UnionT ms)
    then obtain m where m: "m \<in> set ms" "holds W m v" using kv by (auto simp: list_ex_iff)
    have "is_provably_non_empty m"
      using node.prems(2) m(1) by (simp add: is_provably_non_empty.simps [of t] UnionT list_all_iff)
    then show ?thesis using node.IH [of m] m every_child [OF every_kind [OF node.prems(1)], of m] by (simp add: UnionT)
  qed (use node.prems(2) in \<open>simp_all add: is_provably_non_empty.simps [of t] shape_entries.simps [of t]\<close>)
qed

subsection \<open>Properties\<close>

text \<open>
  C16. The truthy part of a type: nothing outside the type is in it, and every truthy value of the
  type is, so a test that passes never narrows a value away.  The types are those of \<open>truth_node\<close>
  (no shape of optional entries only, no intersection without a certainly truthy member, no keyword
  written with a root separator or as \<open>real\<close>, readable range bounds) in a world where callable values
  are truthy.
\<close>

theorem truthy_type_sound:
  assumes "truth_world (names_in W)" "member_ok t" "every truth_node t" "value_ok v"
  shows "((case truthy_type hasher t of None \<Rightarrow> False | Some u \<Rightarrow> holds W u v) \<longrightarrow> holds W t v) \<and>
    (holds W t v \<and> php_truthy v \<longrightarrow> (case truthy_type hasher t of None \<Rightarrow> False | Some u \<Rightarrow> holds W u v))"
  using truthy_type_keeps [OF assms(1-3), of hasher] assms(4) unfolding keeps_truthy_def by blast

lemma bare_truth_world: "truth_world (names_in bare_type_world)"
  using bare_world_ok by (simp add: truth_world_def bare_type_world_def bare_world_def)

lemma truthy_type_sound_witness:
  "case truthy_type length (UnionT [Nullable (Named ''Bool''), Named ''string'', Array pt_int]) of
     None \<Rightarrow> False | Some u \<Rightarrow> holds bare_type_world u (VString ''yes'')"
proof -
  let ?t = "UnionT [Nullable (Named ''Bool''), Named ''string'', Array pt_int]"
  have "member_ok ?t" "every truth_node ?t" "value_ok (VString ''yes'')" by code_simp+
  note sound = truthy_type_sound [OF bare_truth_world this, of length]
  have "holds bare_type_world ?t (VString ''yes'') \<and> php_truthy (VString ''yes'')" by code_simp
  then show ?thesis by (rule mp [OF conjunct2 [OF sound]])
qed

text \<open>
  C17. The falsy part of a type: nothing outside the type is in it, and every falsy value of the type
  is, except an integer zero where the type is written \<open>float\<close> (read as \<open>0.0\<close> alone).  The types are
  those of \<open>truth_node\<close>, in a world where callable values are truthy and the program writes the
  literals \<open>''\<close> and \<open>'0'\<close>.
\<close>

theorem falsy_type_sound:
  assumes "truth_world (names_in W)" "member_ok t" "every truth_node t" "value_ok v"
  shows "((case falsy_type hasher t of None \<Rightarrow> False | Some u \<Rightarrow> holds W u v) \<longrightarrow> holds W t v) \<and>
    (holds W t v \<and> \<not> php_truthy v \<and> (v = VInt 0 \<longrightarrow> every float_free t) \<longrightarrow>
      (case falsy_type hasher t of None \<Rightarrow> False | Some u \<Rightarrow> holds W u v))"
  using falsy_members_within [OF assms(2,3), of W v] falsy_members_hold [OF assms(1-3), of v]
  by (simp add: falsy_type_values [OF assms(2,4)])

lemma falsy_type_sound_witness:
  "case falsy_type length (Nullable (UnionT [IntRange ''min'' ''5'', Named ''numeric-string'', generic ''list'' [pt_int]])) of
     None \<Rightarrow> False | Some u \<Rightarrow> holds bare_type_world u (VInt 0)"
proof -
  let ?t = "Nullable (UnionT [IntRange ''min'' ''5'', Named ''numeric-string'', generic ''list'' [pt_int]])"
  have "member_ok ?t" "every truth_node ?t" "value_ok (VInt 0)" by code_simp+
  note sound = falsy_type_sound [OF bare_truth_world this, of length]
  have "holds bare_type_world ?t (VInt 0)" "\<not> php_truthy (VInt 0)" "every float_free ?t" by code_simp+
  then have "holds bare_type_world ?t (VInt 0) \<and> \<not> php_truthy (VInt 0) \<and> (VInt 0 = VInt 0 \<longrightarrow> every float_free ?t)" by blast
  then show ?thesis by (rule mp [OF conjunct2 [OF sound]])
qed

text \<open>
  C40. A type that promises an entry holds only arrays with one: the walker enters the body of a
  \<open>foreach\<close> over it.  The types are those of \<open>member_ok\<close>.
\<close>

theorem provably_non_empty_sound:
  assumes "member_ok t" "is_provably_non_empty t" "holds W t v"
  shows "\<exists>e es. v = VArray (e # es)"
  using assms by (rule non_empty_holds)

lemma provably_non_empty_sound_witness:
  "is_provably_non_empty (UnionT [generic ''Non-Empty-Array'' [pt_string, pt_int], ArrayShape [ShapeEntry (Some ''a'') pt_int False]]) \<and>
   (\<exists>e es. VArray [(Inr ''a'', VInt 1)] = VArray (e # es))"
proof -
  let ?t = "UnionT [generic ''Non-Empty-Array'' [pt_string, pt_int], ArrayShape [ShapeEntry (Some ''a'') pt_int False]]"
  have "member_ok ?t" "is_provably_non_empty ?t" "holds bare_type_world ?t (VArray [(Inr ''a'', VInt 1)])" by code_simp+
  from provably_non_empty_sound [OF this] this(2) show ?thesis by blast
qed

text \<open>The values the test misjudges outside those types.\<close>

lemma optional_shape_dropped:
  "truthy_type length (ArrayShape [ShapeEntry (Some ''a'') pt_int True]) = None"
  "holds bare_type_world (ArrayShape [ShapeEntry (Some ''a'') pt_int True]) (VArray [(Inr ''a'', VInt 1)])"
  "php_truthy (VArray [(Inr ''a'', VInt 1)])"
  by code_simp+

lemma string_intersection_truthy:
  "falsy_type length (Intersection [Named ''lowercase-string'', Named ''non-empty-string'']) = None"
  "holds bare_type_world (Intersection [Named ''lowercase-string'', Named ''non-empty-string'']) (VString ''0'')"
  "\<not> php_truthy (VString ''0'')"
  by code_simp+

lemma real_always_truthy:
  "falsy_type length (Named ''real'') = None" "holds bare_type_world (Named ''real'') (VFloat zero_f64)"
  "\<not> php_truthy (VFloat zero_f64)"
  by code_simp+

lemma nullable_true_decided: "truthiness (Nullable pt_true) = Some True" "holds W (Nullable pt_true) VNull"
  by code_simp simp

end
