(* ===== verification/Element_Unset.thy ===== *)
theory Element_Unset
  imports Truthiness
begin

section \<open>A type after an element is unset\<close>

text \<open>
  \<open>after_element_unset\<close> of \<open>src/php_type/truthiness.rs\<close>: the type of an array once
  \<open>unset($a[$key])\<close> has removed one entry.  Measured against the values of \<open>Type_Semantics\<close>.
\<close>

definition make_optional :: "'a shape_entry \<Rightarrow> 'a shape_entry" where
  "make_optional e = ShapeEntry (entry_key e) (value_type e) True"

definition unset_entries :: "str option \<Rightarrow> 'a shape_entry list \<Rightarrow> 'a shape_entry list" where
  "unset_entries key entries =
     (case key of
        Some k \<Rightarrow> filter (\<lambda>e. entry_key e \<noteq> Some k) entries
      | None \<Rightarrow> map make_optional entries)"

fun after_element_unset :: "(hash_token list \<Rightarrow> 'h) \<Rightarrow> str option \<Rightarrow> php_type \<Rightarrow> php_type" where
  "after_element_unset hasher key t =
     (case kind t of
        Nullable inner \<Rightarrow> nullable (after_element_unset hasher key inner)
      | UnionT members \<Rightarrow> union hasher (map (after_element_unset hasher key) members)
      | Named name \<Rightarrow>
          if key \<noteq> None \<and> is_list_name name then t
          else if name = ''non-empty-array'' then named ''array''
          else if is_list_name name then generic_array pt_int pt_mixed
          else t
      | Generic g \<Rightarrow>
          if key \<noteq> None \<and> is_list_name (g_name g) then t
          else if g_name g = ''non-empty-array'' then generic ''array'' (g_args g)
          else if is_list_name (g_name g)
          then generic_array pt_int (case g_args g of [] \<Rightarrow> pt_mixed | a # _ \<Rightarrow> a)
          else t
      | ArrayShape entries \<Rightarrow> array_shape (unset_entries key entries)
      | _ \<Rightarrow> t)"
declare after_element_unset.simps [simp del]

subsection \<open>What unset does\<close>

fun unset_value :: "int + str \<Rightarrow> php_value \<Rightarrow> php_value" where
  "unset_value k (VArray kvs) = VArray (filter (\<lambda>(k', x). k' \<noteq> k) kvs)"
| "unset_value k v = v"

text \<open>
  The key a caller passes is a string key PHP does not cast to an integer
  (\<open>extract_array_key_for_shape\<close> of \<open>src/type_engine/variable/array_shape_writes.rs\<close> drops those), or
  none for a key not known.
\<close>

definition unset_key :: "str option \<Rightarrow> int + str \<Rightarrow> bool" where
  "unset_key key k \<longleftrightarrow> (case key of None \<Rightarrow> True | Some s \<Rightarrow> canonical_int_key s = None \<and> k = Inr s)"

text \<open>
  The types the answer is right for.  A name that promises an entry or a list is spelled the way the
  code reads it; the entries left of a shape have keys that can be read and are not those of a list,
  which a shape without the marker of a list would be taken for; an intersection is not looked into.
\<close>

definition promises :: "str \<Rightarrow> bool" where
  "promises n \<longleftrightarrow> canonical_name n \<in> set [''list'', ''non-empty-list'', ''non-empty-array'']"

text \<open>
  An array that can be called cannot be once an entry is gone, and a keyword whose values the model
  leaves to the program says nothing of what is left.
\<close>

definition survives :: "str \<Rightarrow> bool" where
  "survives n \<longleftrightarrow>
     n \<noteq> ''callable'' \<and> n \<noteq> ''callable-array'' \<and>
     (is_keyword_type n \<longrightarrow> n \<in> set (map fst (keyword_table bare_world)))"

definition unset_name :: "str \<Rightarrow> bool" where
  "unset_name n \<longleftrightarrow>
     survives (canonical_name n) \<and> (promises n \<longrightarrow> is_list_name n \<or> n = ''non-empty-array'')"

definition unset_shape :: "str option \<Rightarrow> php_type shape_entry list \<Rightarrow> bool" where
  "unset_shape key es \<longleftrightarrow>
     (let left = unset_entries key es
      in runtime_shape_keys left \<noteq> None \<and> ordered_shape left \<and> (left = [] \<or> \<not> shape_keys_are_sequential left))"

fun unset_ok :: "str option \<Rightarrow> php_type \<Rightarrow> bool" where
  "unset_ok key t =
     (case kind t of
        Nullable i \<Rightarrow> unset_ok key i
      | UnionT ms \<Rightarrow> list_all (unset_ok key) ms
      | Named n \<Rightarrow> unset_name n
      | Generic g \<Rightarrow> unset_name (g_name g) \<and> (is_list_name (g_name g) \<longrightarrow> length (g_args g) \<le> 1)
      | StaticType n \<Rightarrow> \<not> promises n \<and> survives (canonical_name n)
      | ThisType n \<Rightarrow> \<not> promises n \<and> survives (canonical_name n)
      | ArrayShape es \<Rightarrow> unset_shape key es
      | Array _ \<Rightarrow> True | Literal _ \<Rightarrow> True | IntRange _ _ \<Rightarrow> True | ObjectShape _ \<Rightarrow> True
      | ClassString _ \<Rightarrow> True | InterfaceString _ \<Rightarrow> True
      | _ \<Rightarrow> False)"
declare unset_ok.simps [simp del]

subsection \<open>Names\<close>

lemma unset_other [simp]: "(\<And>kvs. v \<noteq> VArray kvs) \<Longrightarrow> unset_value k v = v"
  by (cases v) auto

lemma table_names: "map fst (keyword_table W) = map fst (keyword_table bare_world)"
  by (simp add: keyword_table_def)

lemma name_unset:
  assumes n: "n \<notin> set [''list'', ''non-empty-list'', ''non-empty-array'']" "survives n"
    and v: "name_admits W n v"
  shows "name_admits W n (unset_value k v)"
proof (cases "map_of (keyword_table W) n")
  case None
  then have "n \<notin> set (map fst (keyword_table W))" by (simp add: map_of_eq_None_iff)
  then have "\<not> is_keyword_type n" using n(2) by (simp only: survives_def table_names [of W]) blast
  then show ?thesis using v by (cases v) (simp_all add: class_admits)
next
  case (Some P)
  have "list_all (\<lambda>(n, P). n \<notin> set [''list'', ''non-empty-list'', ''non-empty-array''] \<longrightarrow>
      n \<noteq> ''callable'' \<longrightarrow> n \<noteq> ''callable-array'' \<longrightarrow> P v \<longrightarrow> P (unset_value k v)) (keyword_table W)"
    by (cases v) (simp_all add: keyword_table_def value_tests)
  moreover have "(n, P) \<in> set (keyword_table W)" using Some by (rule map_of_SomeD)
  ultimately have "P v \<longrightarrow> P (unset_value k v)" using n unfolding list_all_iff survives_def by fast
  then show ?thesis using v by (simp add: name_admits_def Some)
qed

lemma admits_unset:
  assumes "\<not> is_pseudo_class (strip_root_slash n)" "\<not> promises n" "survives (canonical_name n)" "admits W n v"
  shows "admits W n (unset_value k v)"
  using name_unset [of "canonical_name n" W v k] assms by (simp add: admits_def promises_def)

lemma list_name_values:
  assumes "is_list_name n" "admits W n v"
  shows "on_array is_list_keys v"
proof -
  have "is_array_like_name n" "to_ascii_lowercase n \<noteq> ''iterable''"
    using assms(1) by (auto simp: is_list_name_def is_array_like_name_def)
  then have "on_array (array_promises n) v" using array_name_values [of n W v] assms(2) by simp
  then show ?thesis using assms(1) by (cases v) (simp_all add: array_promises_def)
qed

lemma list_keys_ints: "is_list_keys (map fst kvs) \<Longrightarrow> (key, x) \<in> set kvs \<Longrightarrow> \<exists>i. key = Inl i"
proof -
  assume "is_list_keys (map fst kvs)" "(key, x) \<in> set kvs"
  then have "key \<in> set (map (\<lambda>i. Inl (int i)) [0..<length kvs])"
    by (metis (no_types, lifting) fst_conv image_eqI is_list_keys_def length_map list.set_map)
  then show ?thesis by auto
qed

lemma list_unset_string:
  assumes "is_list_keys (map fst kvs)"
  shows "filter (\<lambda>(k', x). k' \<noteq> Inr s) kvs = kvs"
  using list_keys_ints [OF assms] by (intro filter_True) fastforce

lemma array_word: "admits W ''array'' v = on_array (\<lambda>ks. True) v" "\<not> promises ''array''"
  "is_array_like_name ''array''" "\<not> is_pseudo_class (strip_root_slash ''array'')"
  by (simp_all add: array_words array_word_nodes) code_simp


subsection \<open>Shapes\<close>

lemma runtime_keys_optional:
  "runtime_keys_from n s' (map make_optional es) = Some ks \<Longrightarrow> s \<longrightarrow> s' \<Longrightarrow> runtime_keys_from n s es = Some ks"
proof (induction es arbitrary: n s s' ks)
  case (Cons e es)
  show ?case
  proof (cases "entry_key e")
    case None
    then show ?thesis
      using Cons.prems Cons.IH [where s = "s \<or> entry_optional e" and s' = "True"]
      by (auto simp: make_optional_def split: if_splits option.splits)
  next
    case (Some key)
    then show ?thesis
      using Cons.prems Cons.IH [where s = s and s' = s'] Cons.IH [where s = "s \<or> entry_optional e" and s' = "True"]
      by (auto simp: make_optional_def split: option.splits)
  qed
qed simp

lemma runtime_keys_filter:
  assumes d: "canonical_int_key d = None"
  shows "runtime_keys_from n s es = Some ks \<Longrightarrow> in_i64 n \<Longrightarrow>
    \<exists>ks'. runtime_keys_from n s (filter (\<lambda>e. entry_key e \<noteq> Some d) es) = Some ks' \<and>
      zip (filter (\<lambda>e. entry_key e \<noteq> Some d) es) ks' = filter (\<lambda>(e, k). k \<noteq> d) (zip es ks)"
proof (induction n s es arbitrary: ks rule: runtime_keys_from.induct)
  case (2 n s e es)
  show ?case
  proof (cases "entry_key e")
    case None
    then obtain ks1 where ks: "ks = show_int n # ks1" "\<not> s" "in_i64 (n + 1)"
      "runtime_keys_from (n + 1) (s \<or> entry_optional e) es = Some ks1"
      "checked_add n 1 = Some (n + 1)"
      using 2(4) by (auto simp: checked_add_def i64_try_from_def split: if_splits option.splits)
    have "show_int n \<noteq> d" using d 2(5) canonical_int_key_iff [of "show_int n" n] by auto
    then show ?thesis using 2(1) [OF None ks(2,5) ks(4,3)] None ks by auto
  next
    case (Some key)
    show ?thesis
    proof (cases "canonical_int_key key")
      case None
      then obtain ks1 where ks: "ks = key # ks1" "runtime_keys_from n s es = Some ks1" using 2(4) Some by auto
      then show ?thesis using 2(2) [OF Some None ks(2) 2(5)] Some None by auto
    next
      case index: (Some index)
      then obtain ks1 where ks: "ks = key # ks1" "checked_add index 1 = Some (index + 1)" "in_i64 (max n (index + 1))"
        "runtime_keys_from (max n (index + 1)) (s \<or> entry_optional e) es = Some ks1"
        using 2(4,5) Some by (auto simp: checked_add_def i64_try_from_def max_def split: if_splits option.splits)
      have "key \<noteq> d" using d index by auto
      then show ?thesis using 2(3) [OF Some index ks(2) ks(4,3)] Some index ks by auto
    qed
  qed
qed simp

lemma dynamic_left:
  assumes "runtime_shape_keys (map make_optional es) = Some ks'" "runtime_shape_keys es = Some ks"
  shows "ks' = ks"
    and "(e, key') \<in> set (zip es ks) \<Longrightarrow> \<exists>e'. (e', key') \<in> set (zip (map make_optional es) ks) \<and> value_type e' = value_type e"
    and "(e', key') \<in> set (zip (map make_optional es) ks) \<Longrightarrow> entry_optional e'"
proof -
  show "ks' = ks"
    using assms runtime_keys_optional [of 0 False es ks' False] by (simp add: runtime_shape_keys_def)
  show "\<exists>e'. (e', key') \<in> set (zip (map make_optional es) ks) \<and> value_type e' = value_type e"
    if "(e, key') \<in> set (zip es ks)"
    using that by (intro exI [of _ "make_optional e"]) (force simp: zip_map1 make_optional_def)
  show "(e', key') \<in> set (zip (map make_optional es) ks) \<Longrightarrow> entry_optional e'"
    by (auto simp: zip_map1 make_optional_def)
qed

lemma named_left:
  assumes d: "canonical_int_key d = None" and left: "runtime_shape_keys (filter (\<lambda>e. entry_key e \<noteq> Some d) es) = Some ks'"
    and keys: "runtime_shape_keys es = Some ks"
  shows "zip (filter (\<lambda>e. entry_key e \<noteq> Some d) es) ks' = filter (\<lambda>(e, k). k \<noteq> d) (zip es ks)"
    and "ks' = filter (\<lambda>k. k \<noteq> d) ks"
proof -
  have "in_i64 0" by (simp add: i64_defs)
  from runtime_keys_filter [OF d keys [unfolded runtime_shape_keys_def] this]
  show z: "zip (filter (\<lambda>e. entry_key e \<noteq> Some d) es) ks' = filter (\<lambda>(e, k). k \<noteq> d) (zip es ks)"
    using left by (simp add: runtime_shape_keys_def)
  have lens: "length ks' = length (filter (\<lambda>e. entry_key e \<noteq> Some d) es)" "length ks = length es"
    using left keys by (auto simp: runtime_shape_keys_def dest: runtime_keys_length)
  have snds: "map snd (filter (\<lambda>(e, k). k \<noteq> d) ps) = filter (\<lambda>k. k \<noteq> d) (map snd ps)" for ps :: "('a shape_entry \<times> str) list"
    by (induction ps) auto
  have "ks' = map snd (filter (\<lambda>(e, k). k \<noteq> d) (zip es ks))" using lens(1) by (simp flip: z)
  then show "ks' = filter (\<lambda>k. k \<noteq> d) ks" using lens(2) by (simp add: snds)
qed

lemma array_key_inverse:
  assumes "canonical_int_key d = None"
  shows "array_key_of x = Inr d \<longleftrightarrow> x = d"
  using assms by (auto simp: array_key_of_def split: option.splits)

lemma shape_left:
  assumes k: "unset_key key k" and left: "runtime_shape_keys (unset_entries key es) = Some ks'"
    and keys: "runtime_shape_keys es = Some ks"
  shows "(e, key') \<in> set (zip es ks) \<Longrightarrow> array_key_of key' \<noteq> k \<Longrightarrow>
      \<exists>e'. (e', key') \<in> set (zip (unset_entries key es) ks') \<and> value_type e' = value_type e"
    and "(e', key') \<in> set (zip (unset_entries key es) ks') \<Longrightarrow>
      entry_optional e' \<or> (e', key') \<in> set (zip es ks) \<and> array_key_of key' \<noteq> k"
    and "set ks' \<subseteq> set ks \<and> (distinct ks \<longrightarrow> distinct ks')"
proof -
  consider (dynamic) "unset_entries key es = map make_optional es"
    | (named) d where "unset_entries key es = filter (\<lambda>e. entry_key e \<noteq> Some d) es" "k = Inr d" "canonical_int_key d = None"
    using k by (cases key) (auto simp: unset_entries_def unset_key_def)
  then have "((e, key') \<in> set (zip es ks) \<longrightarrow> array_key_of key' \<noteq> k \<longrightarrow>
      (\<exists>e'. (e', key') \<in> set (zip (unset_entries key es) ks') \<and> value_type e' = value_type e)) \<and>
    ((e', key') \<in> set (zip (unset_entries key es) ks') \<longrightarrow>
      entry_optional e' \<or> (e', key') \<in> set (zip es ks) \<and> array_key_of key' \<noteq> k) \<and>
    set ks' \<subseteq> set ks \<and> (distinct ks \<longrightarrow> distinct ks')"
  proof cases
    case dynamic
    note d = dynamic_left [OF left [unfolded dynamic] keys]
    show ?thesis unfolding dynamic d(1) using d(2) [of e key'] d(3) [of e' key'] by blast
  next
    case (named d)
    note l = named_left [OF named(3) left [unfolded named(1)] keys]
    show ?thesis unfolding named(1,2) l(1) using l(2) by (auto simp: array_key_inverse [OF named(3)])
  qed
  then show "(e, key') \<in> set (zip es ks) \<Longrightarrow> array_key_of key' \<noteq> k \<Longrightarrow>
      \<exists>e'. (e', key') \<in> set (zip (unset_entries key es) ks') \<and> value_type e' = value_type e"
    and "(e', key') \<in> set (zip (unset_entries key es) ks') \<Longrightarrow>
      entry_optional e' \<or> (e', key') \<in> set (zip es ks) \<and> array_key_of key' \<noteq> k"
    and "set ks' \<subseteq> set ks \<and> (distinct ks \<longrightarrow> distinct ks')"
    by blast+
qed

lemma shape_unset:
  assumes k: "unset_key key k" and left: "unset_shape key es"
    and v: "shape_holds (\<lambda>e. P (value_type e)) es (VArray kvs)"
  shows "shape_holds (\<lambda>e. P (value_type e)) (unset_entries key es) (unset_value k (VArray kvs))"
proof -
  obtain ks ks' where keys: "runtime_shape_keys es = Some ks" and keys': "runtime_shape_keys (unset_entries key es) = Some ks'"
    using v left by (auto simp: shape_holds_def unset_shape_def Let_def split: option.splits)
  note parts = shape_left(1,2) [OF k keys' keys]
  have v1: "\<forall>(k', x) \<in> set kvs. \<exists>(e, key') \<in> set (zip es ks). array_key_of key' = k' \<and> P (value_type e) x"
    and v2: "\<forall>(e, key') \<in> set (zip es ks). entry_optional e \<or> array_key_of key' \<in> set (map fst kvs)"
    using v by (simp_all add: shape_holds_def keys list_all_iff list_ex_iff)
  let ?kvs = "filter (\<lambda>(k', x). k' \<noteq> k) kvs"
  have listed: "\<exists>(e, key') \<in> set (zip (unset_entries key es) ks'). array_key_of key' = k' \<and> P (value_type e) x"
    if "(k', x) \<in> set ?kvs" for k' x
  proof -
    have kv: "(k', x) \<in> set kvs" "k' \<noteq> k" using that by auto
    then obtain e key' where e: "(e, key') \<in> set (zip es ks)" "array_key_of key' = k'" "P (value_type e) x"
      using v1 by fast
    obtain e' where "(e', key') \<in> set (zip (unset_entries key es) ks')" "value_type e' = value_type e"
      using parts(1) [OF e(1)] e(2) kv(2) by blast
    then show ?thesis using e(2,3) by (intro bexI [of _ "(e', key')"]) simp_all
  qed
  moreover have "entry_optional e \<or> array_key_of key' \<in> set (map fst ?kvs)"
    if "(e, key') \<in> set (zip (unset_entries key es) ks')" for e key'
  proof -
    have "entry_optional e \<or> (e, key') \<in> set (zip es ks) \<and> array_key_of key' \<noteq> k" using parts(2) [OF that] .
    then have "entry_optional e \<or> array_key_of key' \<in> set (map fst kvs) \<and> array_key_of key' \<noteq> k" using v2 by blast
    then show ?thesis by force
  qed
  moreover have "is_list_keys (map fst ?kvs)" if "shape_keys_are_sequential (unset_entries key es)"
  proof -
    have "unset_entries key es = []" using left that by (auto simp: unset_shape_def Let_def)
    then have "?kvs = []" using listed by (cases ?kvs) auto
    then show ?thesis by (simp add: is_list_keys_def)
  qed
  ultimately show ?thesis
    by (auto simp: shape_holds_def keys' list_all_iff list_ex_iff)
qed


subsection \<open>One type\<close>

lemma after_elements_ok:
  assumes "member_ok (Generic g)" "length (g_args g) \<le> 1 \<or> \<not> is_list_name (g_name g)"
  shows "member_ok (generic ''array'' (g_args g))"
    and "member_ok (generic_array pt_int (case g_args g of [] \<Rightarrow> pt_mixed | a # _ \<Rightarrow> a))"
proof -
  have args: "list_all member_ok (g_args g)" using assms(1) by (simp add: every.simps [of _ "Generic g"])
  have basic: "member_ok pt_int" "member_ok pt_mixed" by code_simp+
  show "member_ok (generic ''array'' (g_args g))" using args by (simp add: generic_def member_ok_words)
  show "member_ok (generic_array pt_int (case g_args g of [] \<Rightarrow> pt_mixed | a # _ \<Rightarrow> a))"
    unfolding generic_array_def generic_def using args basic
    by (intro member_ok_words) (auto split: list.split)
qed

text \<open>The type of a list that lost an entry.\<close>

lemma list_to_array:
  assumes "is_list_keys (map fst kvs)" "\<forall>(k', x) \<in> set kvs. holds W el x" "set kvs' \<subseteq> set kvs"
  shows "holds W (generic_array pt_int el) (VArray kvs')"
proof -
  have "holds W pt_int (key_value k')" if "(k', x) \<in> set kvs'" for k' x
  proof -
    have "\<exists>i. k' = Inl i" using list_keys_ints [OF assms(1), of k' x] that assms(3) by blast
    then show ?thesis by auto
  qed
  moreover have "holds W el x" if "(k', x) \<in> set kvs'" for k' x using assms(2,3) that by blast
  ultimately show ?thesis
    by (auto simp: generic_array_def generic_def array_words args_hold_def list_all_iff)
qed

lemma named_unset:
  assumes k: "unset_key key k" and ok: "member_ok t" "kind t = Named n" "unset_name n" and v: "holds W t v"
  shows "holds W (after_element_unset hasher key t) (unset_value k v)"
proof -
  have node: "\<not> is_pseudo_class (strip_root_slash n)" using member_facts(2) [OF ok(1)] by (simp add: ok(2) member_node_def)
  have kv: "admits (names_in W) n v" using member_holds_kind [OF ok(1) v] by (simp add: ok(2))
  note eq = after_element_unset.simps [of hasher key t]
  consider (kept) "key \<noteq> None" "is_list_name n" | (nea) "n = ''non-empty-array''" | (list) "key = None" "is_list_name n"
    | (other) "\<not> is_list_name n" "n \<noteq> ''non-empty-array''" by blast
  then show ?thesis
  proof cases
    case kept
    then obtain s where s: "k = Inr s" using k by (auto simp: unset_key_def)
    have "on_array is_list_keys v" by (rule list_name_values [OF kept(2) kv])
    then obtain kvs where "v = VArray kvs" "is_list_keys (map fst kvs)" by (cases v) auto
    then show ?thesis using kept v by (simp add: eq ok(2) s list_unset_string)
  next
    case nea
    then show ?thesis
      using kv by (cases v) (auto simp: eq ok(2) nea is_list_name_def str_eval named_def array_words)
  next
    case list
    have "on_array is_list_keys v" by (rule list_name_values [OF list(2) kv])
    then obtain kvs where kvs: "v = VArray kvs" "is_list_keys (map fst kvs)" by (cases v) auto
    have "n \<noteq> ''non-empty-array''" using list(2) by (auto simp: is_list_name_def str_eval)
    then show ?thesis
      using list list_to_array [OF kvs(2), of W pt_mixed] by (auto simp: after_element_unset.simps [of hasher None t] ok(2) kvs(1))
  next
    case other
    then have "\<not> promises n" "survives (canonical_name n)" using ok(3) by (simp_all add: unset_name_def)
    then have a: "admits (names_in W) n (unset_value k v)" by (rule admits_unset [OF node _ _ kv])
    have "holds W t (unset_value k v)"
    proof (cases "is_exact_value_marker t")
      case True
      then have "plain_class_name n \<and> \<not> is_pseudo_class (strip_root_slash n)"
        using exact_marker_forms [OF ok(1)] every_node [OF ok(1)] ok(2) node by (auto simp: member_node_def is_class_type_def)
      then have "on_object (\<lambda>c. instance_of (names_in W) c (canonical_name n)) v"
        using class_admits kv by (simp add: admits_def plain_class_name_def)
      then show ?thesis using v by (cases v) simp_all
    next
      case False
      then show ?thesis using member_kind [OF ok(1)] a by (simp add: ok(2))
    qed
    then show ?thesis using other by (simp add: eq ok(2))
  qed
qed


lemma generic_unset:
  assumes k: "unset_key key k" and ok: "member_ok t" "kind t = Generic g"
    and name: "unset_name (g_name g)" "is_list_name (g_name g) \<Longrightarrow> length (g_args g) \<le> 1" and v: "holds W t v"
  shows "holds W (after_element_unset hasher key t) (unset_value k v)"
proof -
  have unmarked: "holds W t u = holds W (Generic g) u" for u
    using member_kind [OF ok(1)] exact_marker_forms [OF ok(1)] ok(2) by (metis php_type.distinct kind.simps)
  have node: "\<not> is_pseudo_class (strip_root_slash (g_name g))" using member_facts(2) [OF ok(1)] by (simp add: ok(2) member_node_def)
  have kv: "admits (names_in W) (g_name g) v" "is_array_like_name (g_name g) \<Longrightarrow> args_hold (holds W) (g_args g) v"
    using v by (simp_all add: unmarked)
  have sub: "args_hold (holds W) as v \<Longrightarrow> args_hold (holds W) as (unset_value k v)" for as
    by (cases v) (auto simp: args_hold_def list_all_iff)
  note eq = after_element_unset.simps [of hasher _ t]
  consider (kept) "key \<noteq> None" "is_list_name (g_name g)" | (nea) "g_name g = ''non-empty-array''"
    | (list) "key = None" "is_list_name (g_name g)" | (other) "\<not> is_list_name (g_name g)" "g_name g \<noteq> ''non-empty-array''" by blast
  then show ?thesis
  proof cases
    case kept
    then obtain s where s: "k = Inr s" using k by (auto simp: unset_key_def)
    have "on_array is_list_keys v" by (rule list_name_values [OF kept(2) kv(1)])
    then obtain kvs where "v = VArray kvs" "is_list_keys (map fst kvs)" by (cases v) auto
    then show ?thesis using kept v by (simp add: eq ok(2) s list_unset_string)
  next
    case nea
    then have "is_array_like_name (g_name g)" by (simp add: array_word_nodes)
    then have "args_hold (holds W) (g_args g) (unset_value k v)" using sub kv(2) by blast
    moreover have "on_array (\<lambda>ks. True) (unset_value k v)" using kv(1) by (cases v) (simp_all add: nea array_words)
    ultimately show ?thesis by (simp add: eq ok(2) nea is_list_name_def str_eval generic_def array_words)
  next
    case list
    have "on_array is_list_keys v" by (rule list_name_values [OF list(2) kv(1)])
    then obtain kvs where kvs: "v = VArray kvs" "is_list_keys (map fst kvs)" by (cases v) auto
    have neq: "g_name g \<noteq> ''non-empty-array''" using list(2) by (auto simp: is_list_name_def str_eval)
    have like: "is_array_like_name (g_name g)" using list(2) by (auto simp: is_list_name_def is_array_like_name_def)
    let ?el = "case g_args g of [] \<Rightarrow> pt_mixed | a # _ \<Rightarrow> a"
    have "\<forall>(k', x) \<in> set kvs. holds W ?el x"
      using kv(2) [OF like] name(2) [OF list(2)]
      by (cases "g_args g") (auto simp: kvs(1) args_hold_def list_all_iff)
    from list_to_array [OF kvs(2) this]
    show ?thesis using list neq by (auto simp: eq ok(2) kvs(1))
  next
    case other
    then have "\<not> promises (g_name g)" "survives (canonical_name (g_name g))" using name(1) by (simp_all add: unset_name_def)
    then have "admits (names_in W) (g_name g) (unset_value k v)" by (rule admits_unset [OF node _ _ kv(1)])
    then have "holds W t (unset_value k v)" using sub kv(2) by (simp add: unmarked)
    then show ?thesis using other by (simp add: eq ok(2))
  qed
qed

lemma readable_left:
  assumes "shape_readable es" "unset_key key k" "unset_shape key es"
  shows "member_ok (ArrayShape es) \<Longrightarrow> member_ok (array_shape (unset_entries key es))"
proof -
  assume ok: "member_ok (ArrayShape es)"
  obtain ks where ks: "runtime_shape_keys es = Some ks" "distinct ks" "\<not> list_ex is_opaque_shape_key ks"
    using assms(1) by (auto simp: shape_readable_def split: option.splits)
  obtain ks' where ks': "runtime_shape_keys (unset_entries key es) = Some ks'"
    using assms(3) by (auto simp: unset_shape_def Let_def)
  have "set ks' \<subseteq> set ks" "distinct ks'" using shape_left(3) [OF assms(2) ks' ks(1)] ks(2) by auto
  then have "shape_readable (unset_entries key es)" using ks(3) by (auto simp: shape_readable_def ks' list_ex_iff)
  moreover have "\<forall>e \<in> set (unset_entries key es). \<exists>e' \<in> set es. value_type e = value_type e'"
    by (auto simp: unset_entries_def make_optional_def split: option.splits)
  then have "\<forall>e \<in> set (unset_entries key es). member_ok (value_type e)"
    using ok by (force simp: every.simps [of _ "ArrayShape es"] list_all_iff)
  ultimately show ?thesis
    using assms(3)
    by (auto simp: array_shape_def every.simps [of _ "ArrayShape _"] member_node_def well_built_def unset_shape_def Let_def list_all_iff)
qed


text \<open>The type after the unset, and what it is built of.\<close>

lemma unset_holds:
  assumes k: "unset_key key k" and "member_ok t" "unset_ok key t"
  shows "member_ok (after_element_unset hasher key t) \<and>
    (\<forall>v. value_ok v \<longrightarrow> holds W t v \<longrightarrow> holds W (after_element_unset hasher key t) (unset_value k v))"
  using assms(2-)
proof (induction t rule: kind_induct)
  case (node t)
  note eq = after_element_unset.simps [of hasher key t] and ok = node.prems(1) and okk = member_facts(2,3) [OF node.prems(1)]
  have unmarked: "holds W t v = holds W (kind t) v" if "\<forall>n. kind t \<noteq> Named n" "\<forall>c. kind t \<noteq> ClassString c" for v
  proof (rule member_kind [OF ok], rule notI)
    assume "is_exact_value_marker t"
    then show False using exact_marker_forms [OF ok] that by auto
  qed
  have vok: "value_ok v \<Longrightarrow> value_ok (unset_value k v)" for v by (cases v) (auto simp: list_all_iff)
  have child: "member_ok c" if "c \<in> set (node_children (kind t))" for c
    by (rule every_child [OF okk(2) that])
  note allowed = node.prems(2) [unfolded unset_ok.simps [of key t]]
  show ?case
  proof (cases "kind t")
    case (Named n)
    then have "unset_name n" using allowed by simp
    moreover have "member_ok (after_element_unset hasher key t)"
    proof -
      have "member_ok (named ''array'')" "member_ok (generic_array pt_int pt_mixed)" by code_simp+
      then show ?thesis using ok by (simp add: eq Named)
    qed
    ultimately show ?thesis using named_unset [OF k ok Named] by blast
  next
    case (Generic g)
    then have g: "unset_name (g_name g)" "is_list_name (g_name g) \<Longrightarrow> length (g_args g) \<le> 1" using allowed by simp_all
    have "member_ok (Generic g)" using okk(2) by (simp add: Generic)
    note parts = after_elements_ok [OF this]
    have "member_ok (after_element_unset hasher key t)"
    proof (cases "is_list_name (g_name g)")
      case True
      then show ?thesis using ok g(2) parts by (auto simp: eq Generic)
    next
      case False
      then show ?thesis using ok parts by (auto simp: eq Generic)
    qed
    then show ?thesis using generic_unset [OF k ok Generic g] by blast
  next
    case (Nullable i)
    then have "member_ok (after_element_unset hasher key i)"
      "\<And>v. value_ok v \<Longrightarrow> holds W i v \<Longrightarrow> holds W (after_element_unset hasher key i) (unset_value k v)"
      using node.IH [of i] child [of i] allowed by simp_all
    moreover have "member_ok (Nullable a) = member_ok a" for a
      by (simp add: every.simps [of _ "Nullable a"] member_node_def [of "Nullable a"] well_built_def [of "Nullable a"])
    ultimately show ?thesis using unmarked by (auto simp: eq Nullable nullable_def)
  next
    case (UnionT ms)
    let ?after = "map (after_element_unset hasher key) ms"
    have m: "member_ok (after_element_unset hasher key m)"
      "\<And>v. value_ok v \<Longrightarrow> holds W m v \<Longrightarrow> holds W (after_element_unset hasher key m) (unset_value k v)" if "m \<in> set ms" for m
      using node.IH [of m] child [of m] allowed that by (simp_all add: UnionT list_all_iff)
    have ms: "list_all member_ok ?after" using m(1) by (simp add: list_all_iff)
    have "holds W (union hasher ?after) (unset_value k v)" if v: "value_ok v" "holds W t v" for v
    proof -
      obtain m where "m \<in> set ms" "holds W m v" using v(2) unmarked by (auto simp: UnionT list_ex_iff)
      then have "some_holds W ?after (unset_value k v)" using m(2) v(1) by (auto simp: list_ex_iff)
      then show ?thesis by (rule iffD2 [OF union_holds [OF ms vok [OF v(1)]]])
    qed
    then show ?thesis using union_ok [OF ms] by (simp add: eq UnionT)
  next
    case (ArrayShape es)
    then have left: "unset_shape key es" using allowed by simp
    have es: "member_ok (ArrayShape es)" "shape_readable es" using okk by (simp_all add: ArrayShape member_node_def)
    have "holds W (array_shape (unset_entries key es)) (unset_value k v)" if "holds W t v" for v
    proof -
      have "shape_holds (\<lambda>e. holds W (value_type e)) es v" using that unmarked by (simp add: ArrayShape)
      then show ?thesis using shape_unset [OF k left, of "holds W"] by (cases v) (auto simp: array_shape_def shape_holds_def split: option.splits)
    qed
    then show ?thesis using readable_left [OF es(2) k left es(1)] by (simp add: eq ArrayShape)
  next
    case (Array e)
    have "holds W t (unset_value k v)" if "holds W t v" for v
      using that unmarked by (cases v) (auto simp: Array list_all_iff)
    then show ?thesis using ok by (simp add: eq Array)
  next
    case (StaticType n)
    then show ?thesis
      using admits_unset [of n "names_in W"] allowed okk(1) unmarked ok by (simp add: eq member_node_def)
  next
    case (ThisType n)
    then show ?thesis
      using admits_unset [of n "names_in W"] allowed okk(1) unmarked ok by (simp add: eq member_node_def)
  next
    case (Literal lit)
    have "\<forall>kvs. literal_php_value lit \<noteq> Some (VArray kvs)" by (cases lit) (auto split: option.splits)
    then have "holds W t (unset_value k v)" if "holds W t v" for v
      using that unmarked by (cases v) (auto simp: Literal literal_holds_def split: option.splits php_value.splits)
    then show ?thesis using ok by (simp add: eq Literal)
  next
    case (ClassString c)
    have "unset_value k v = v" if "holds W t v" for v
      using member_holds_kind [OF ok that] by (cases v) (simp_all add: ClassString)
    then show ?thesis using ok by (simp add: eq ClassString)
  next
    case (InterfaceString c)
    have "unset_value k v = v" if "holds W t v" for v
      using member_holds_kind [OF ok that] by (cases v) (simp_all add: InterfaceString)
    then show ?thesis using ok by (simp add: eq InterfaceString)
  next
    case (ObjectShape es)
    have "unset_value k v = v" if "holds W t v" for v
      using member_holds_kind [OF ok that] by (cases v) (simp_all add: ObjectShape)
    then show ?thesis using ok by (simp add: eq ObjectShape)
  next
    case (IntRange lo hi)
    have "unset_value k v = v" if "holds W t v" for v
      using member_holds_kind [OF ok that] by (cases v) (simp_all add: IntRange)
    then show ?thesis using ok by (simp add: eq IntRange)
  qed (use allowed in simp_all)
qed

text \<open>
  C18. The type after an unset holds the array that is left: whatever value the type held, removing the
  named string key, or any key where the code does not know it, gives a value of the new type.  The
  types are those of \<open>unset_ok\<close>: no intersection, no open shape, no \<open>callable\<close>; promises of an entry
  or of a list spelled in lower case; and no shape whose remaining entries have keys that cannot be
  read or are those of a list.
\<close>

theorem after_element_unset_sound:
  assumes "unset_key key k" "member_ok t" "unset_ok key t" "value_ok v" "holds W t v"
  shows "holds W (after_element_unset hasher key t) (unset_value k v)"
  using unset_holds [OF assms(1-3)] assms(4,5) by blast

lemma after_element_unset_sound_witness:
  "holds bare_type_world
     (after_element_unset length (Some ''id'')
       (UnionT [ArrayShape [ShapeEntry (Some ''id'') pt_int False, ShapeEntry (Some ''tag'') pt_string True], pt_null]))
     (VArray [(Inr ''tag'', VString ''x'')])"
proof -
  let ?t = "UnionT [ArrayShape [ShapeEntry (Some ''id'') pt_int False, ShapeEntry (Some ''tag'') pt_string True], pt_null]"
  let ?v = "VArray [(Inr ''id'', VInt 3), (Inr ''tag'', VString ''x'')]"
  have "unset_key (Some ''id'') (Inr ''id'')" "member_ok ?t" "unset_ok (Some ''id'') ?t" "value_ok ?v"
    "holds bare_type_world ?t ?v" by code_simp+
  from after_element_unset_sound [OF this, of length] show ?thesis by simp
qed

text \<open>Outside them the answer is too narrow.\<close>

lemma intersection_keeps_promise:
  "after_element_unset length None (Intersection [Named ''non-empty-array'', generic ''array'' [pt_string, pt_int]]) =
    Intersection [Named ''non-empty-array'', generic ''array'' [pt_string, pt_int]]"
  "holds bare_type_world (Intersection [Named ''non-empty-array'', generic ''array'' [pt_string, pt_int]]) (VArray [(Inr ''a'', VInt 1)])"
  "unset_value (Inr ''a'') (VArray [(Inr ''a'', VInt 1)]) = VArray []"
  "\<not> holds bare_type_world (Intersection [Named ''non-empty-array'', generic ''array'' [pt_string, pt_int]]) (VArray [])"
  by code_simp+

lemma callable_array_kept:
  defines "call \<equiv> VArray [(Inl 0, VString ''C''), (Inl 1, VString ''m'')]"
  defines "W \<equiv> bare_type_world\<lparr>names_in := bare_world\<lparr>callable_value := \<lambda>v. v = call\<rparr>\<rparr>"
  shows "after_element_unset length None (Named ''callable'') = Named ''callable''"
    "holds W (Named ''callable'') call" "\<not> holds W (Named ''callable'') (unset_value (Inl 1) call)"
proof -
  have name: "\<not> is_pseudo_class (strip_root_slash ''callable'')" "canonical_name ''callable'' = ''callable''" by code_simp+
  show "after_element_unset length None (Named ''callable'') = Named ''callable''" by code_simp
  show "holds W (Named ''callable'') call" "\<not> holds W (Named ''callable'') (unset_value (Inl 1) call)"
    by (simp_all add: admits_def name names W_def call_def)
qed

lemma cased_name_keeps_promise:
  "after_element_unset length None (Named ''Non-Empty-Array'') = Named ''Non-Empty-Array''"
  "is_provably_non_empty (Named ''Non-Empty-Array'')"
  by code_simp+

lemma positional_keys_lost:
  "after_element_unset length None (ArrayShape [ShapeEntry None pt_int False, ShapeEntry None pt_int False]) =
    ArrayShape [ShapeEntry None pt_int True, ShapeEntry None pt_int True]"
  "runtime_shape_keys [ShapeEntry None pt_int True, ShapeEntry None pt_int True] = None"
  by code_simp+

end
