(* ===== verification/Phar_Archive.thy ===== *)
theory Phar_Archive
  imports Prelude "HOL-Library.Word" "HOL-Library.Monad_Syntax"
begin

unbundle bit_operations_syntax

section \<open>Phar archives\<close>

text \<open>
  The reader of \<open>src/phar.rs\<close>: finding the manifest behind the stub, parsing it with every length
  checked against the bytes there are, and reading one file back off the disk.  Bytes are
  characters; offsets are natural numbers, as no sum of them leaves a 64-bit \<open>usize\<close>.  An early
  return with \<open>?\<close> is \<open>Option.bind\<close>.
\<close>

subsection \<open>Reading numbers\<close>

fun le_value :: "str \<Rightarrow> nat" where
  "le_value [] = 0"
| "le_value (b # bs) = of_char b + 256 * le_value bs"

definition read_u32 :: "str \<Rightarrow> nat \<Rightarrow> (32 word \<times> nat) option" where
  "read_u32 data cursor =
     (let after = cursor + 4
      in if after > length data then None
         else Some (word_of_nat (le_value (take 4 (drop cursor data))), after))"

definition read_u16 :: "str \<Rightarrow> nat \<Rightarrow> (16 word \<times> nat) option" where
  "read_u16 data cursor =
     (let after = cursor + 2
      in if after > length data then None
         else Some (word_of_nat (le_value (take 2 (drop cursor data))), after))"

text \<open>Skipping \<open>n\<close> bytes that must be there.\<close>

definition skip_bytes :: "str \<Rightarrow> nat \<Rightarrow> nat \<Rightarrow> nat option" where
  "skip_bytes data cursor n = (if cursor + n > length data then None else Some (cursor + n))"

text \<open>\<open>String::from_utf8_lossy\<close>: each maximal piece that is not UTF-8 becomes U+FFFD.\<close>

definition byte_in :: "nat \<Rightarrow> nat \<Rightarrow> str \<Rightarrow> nat \<Rightarrow> bool" where
  "byte_in lo hi s i = (i < length s \<and> lo \<le> of_char (s ! i) \<and> of_char (s ! i) \<le> hi)"

definition utf8_head :: "str \<Rightarrow> bool \<times> nat" where
  "utf8_head s =
     (let b = of_char (hd s) :: nat;
          next = (\<lambda>i. byte_in 128 191 s i)
      in if b < 128 then (True, 1)
         else if 194 \<le> b \<and> b \<le> 223 then (if next 1 then (True, 2) else (False, 1))
         else if 224 \<le> b \<and> b \<le> 239 then
           (if \<not> byte_in (if b = 224 then 160 else 128) (if b = 237 then 159 else 191) s 1 then (False, 1)
            else if \<not> next 2 then (False, 2) else (True, 3))
         else if 240 \<le> b \<and> b \<le> 244 then
           (if \<not> byte_in (if b = 240 then 144 else 128) (if b = 244 then 143 else 191) s 1 then (False, 1)
            else if \<not> next 2 then (False, 2) else if \<not> next 3 then (False, 3) else (True, 4))
         else (False, 1))"

lemma utf8_head_pos: "0 < snd (utf8_head s)"
  by (simp add: utf8_head_def Let_def)

function from_utf8_lossy :: "str \<Rightarrow> str" where
  "from_utf8_lossy s =
     (if s = [] then []
      else let (valid, n) = utf8_head s
           in (if valid then take n s else [CHR 0xEF, CHR 0xBF, CHR 0xBD]) @ from_utf8_lossy (drop n s))"
  by pat_completeness auto
termination
proof (relation "measure length")
  fix s :: str and x valid n
  assume "s \<noteq> []" "x = utf8_head s" "(valid, n) = x"
  then have "0 < n" using utf8_head_pos [of s] by (metis snd_conv)
  then show "(drop n s, s) \<in> measure length" using \<open>s \<noteq> []\<close> by simp
qed simp
declare from_utf8_lossy.simps [simp del]

subsection \<open>The manifest\<close>

definition halt_compiler_marker :: str where
  "halt_compiler_marker = ''__HALT_COMPILER(); ?>''"

definition compression_mask :: "32 word" where "compression_mask = 0xF000"

record raw_entry =
  filename :: str
  uncompressed_size :: nat
  compressed_size :: nat
  flags :: "32 word"

definition read_entry :: "str \<Rightarrow> nat \<Rightarrow> (raw_entry \<times> nat) option" where
  "read_entry data cursor =
     do {
       (filename_len, cursor) \<leftarrow> read_u32 data cursor;
       after_name \<leftarrow> skip_bytes data cursor (unat filename_len);
       let name = from_utf8_lossy (take (unat filename_len) (drop cursor data));
       (uncompressed, cursor) \<leftarrow> read_u32 data after_name;
       (timestamp, cursor) \<leftarrow> read_u32 data cursor;
       (compressed, cursor) \<leftarrow> read_u32 data cursor;
       (crc32, cursor) \<leftarrow> read_u32 data cursor;
       (flag_bits, cursor) \<leftarrow> read_u32 data cursor;
       (file_metadata_len, cursor) \<leftarrow> read_u32 data cursor;
       cursor \<leftarrow> skip_bytes data cursor (unat file_metadata_len);
       Some (\<lparr>filename = name, uncompressed_size = unat uncompressed,
              compressed_size = unat compressed, flags = flag_bits\<rparr>, cursor)
     }"

fun read_entries :: "str \<Rightarrow> nat \<Rightarrow> nat \<Rightarrow> raw_entry list option" where
  "read_entries data 0 cursor = Some []"
| "read_entries data (Suc n) cursor =
     do {
       (e, cursor) \<leftarrow> read_entry data cursor;
       es \<leftarrow> read_entries data n cursor;
       Some (e # es)
     }"

text \<open>The index: where each uncompressed file starts and how long it is, and the manifest order.\<close>

type_synonym phar_index = "(str \<rightharpoonup> nat \<times> nat) \<times> str list"

fun index_entries :: "str \<Rightarrow> nat \<Rightarrow> raw_entry list \<Rightarrow> phar_index \<Rightarrow> phar_index option" where
  "index_entries data offset [] index = Some index"
| "index_entries data offset (e # es) (found, order) =
     (if flags e AND compression_mask = 0 then
        (if offset + compressed_size e > length data then None
         else index_entries data (offset + compressed_size e) es
           (found(filename e \<mapsto> (offset, uncompressed_size e)),
            if found (filename e) = None then order @ [filename e] else order))
      else index_entries data (offset + compressed_size e) es (found, order))"

record ('p, 't) phar_archive =
  archive_path :: 'p
  archive_len :: nat
  modified :: "'t option"
  files :: "str \<rightharpoonup> nat \<times> nat"
  paths :: "str list"

text \<open>
  A disk: the bytes of a file and its modification time, where the system reports one.
\<close>

type_synonym ('p, 't) disk = "'p \<rightharpoonup> str \<times> 't option"

text \<open>Steps 2 and 3: the header and the entries, and where the contents start; step 4: the index.\<close>

definition read_manifest :: "str \<Rightarrow> nat \<Rightarrow> (nat \<times> raw_entry list) option" where
  "read_manifest data manifest_start =
     do {
       (manifest_length, cursor) \<leftarrow> read_u32 data manifest_start;
       let manifest_end = manifest_start + 4 + unat manifest_length;
       (if manifest_end > length data then None else Some ());
       (file_count, cursor) \<leftarrow> read_u32 data cursor;
       (api_version, cursor) \<leftarrow> read_u16 data cursor;
       (global_flags, cursor) \<leftarrow> read_u32 data cursor;
       (alias_len, cursor) \<leftarrow> read_u32 data cursor;
       cursor \<leftarrow> skip_bytes data cursor (unat alias_len);
       (metadata_len, cursor) \<leftarrow> read_u32 data cursor;
       cursor \<leftarrow> skip_bytes data cursor (unat metadata_len);
       entries \<leftarrow> read_entries data (unat file_count) cursor;
       Some (manifest_end, entries)
     }"

definition parse_manifest_at :: "('p, 't) disk \<Rightarrow> 'p \<Rightarrow> str \<Rightarrow> nat \<Rightarrow> ('p, 't) phar_archive option" where
  "parse_manifest_at disk path data manifest_start =
     do {
       (data_area_start, entries) \<leftarrow> read_manifest data manifest_start;
       (found, order) \<leftarrow> index_entries data data_area_start entries (Map.empty, []);
       Some \<lparr>archive_path = path, archive_len = length data,
             modified = Option.bind (disk path) snd, files = found, paths = order\<rparr>
     }"

text \<open>\<open>memmem::find\<close>.\<close>

fun find_sub :: "str \<Rightarrow> str \<Rightarrow> nat option" where
  "find_sub [] p = (if p = [] then Some 0 else None)"
| "find_sub (c # s) p = (if starts_with (c # s) p then Some 0 else map_option Suc (find_sub s p))"

definition parse_phar :: "('p, 't) disk \<Rightarrow> 'p \<Rightarrow> str \<Rightarrow> ('p, 't) phar_archive option" where
  "parse_phar disk path data =
     do {
       marker_pos \<leftarrow> find_sub data halt_compiler_marker;
       let after_marker = marker_pos + length halt_compiler_marker;
       let rest = drop after_marker data;
       let manifest_start =
         (if starts_with rest [CHR 0x0D, newline] then after_marker + 2
          else if starts_with rest [newline] then after_marker + 1 else after_marker);
       (case parse_manifest_at disk path data manifest_start of
          Some archive \<Rightarrow> Some archive
        | None \<Rightarrow>
            if manifest_start \<noteq> after_marker then parse_manifest_at disk path data after_marker else None)
     }"

definition file_range :: "('p, 't) phar_archive \<Rightarrow> str \<Rightarrow> (nat \<times> nat) option" where
  "file_range archive internal_path =
     map_option (\<lambda>(offset, size). (offset, offset + size)) (files archive internal_path)"

text \<open>Seeking past the end is allowed, reading past it is an error.\<close>

definition read_file :: "('p, 't) disk \<Rightarrow> ('p, 't) phar_archive \<Rightarrow> str \<Rightarrow> str option" where
  "read_file disk archive internal_path =
     do {
       (lo, hi) \<leftarrow> file_range archive internal_path;
       (content, time) \<leftarrow> disk (archive_path archive);
       (if length content \<noteq> archive_len archive \<or> time \<noteq> modified archive then None else Some ());
       (if lo < hi \<and> hi > length content then None else Some ());
       Some (take (hi - lo) (drop lo content))
     }"

definition file_paths :: "('p, 't) phar_archive \<Rightarrow> str list" where
  "file_paths archive = paths archive"

subsection \<open>What PHP writes\<close>

text \<open>A writer of the format, as the reference the reader is measured against.\<close>

fun le_bytes :: "nat \<Rightarrow> nat \<Rightarrow> str" where
  "le_bytes 0 n = []"
| "le_bytes (Suc k) n = char_of n # le_bytes k (n div 256)"
declare le_bytes.simps [simp del]

abbreviation u32_le :: "nat \<Rightarrow> str" where "u32_le \<equiv> le_bytes 4"

record phar_file =
  pf_name :: str
  pf_content :: str
  pf_size :: nat
  pf_stamp :: nat
  pf_crc :: nat
  pf_flags :: nat
  pf_meta :: str

definition stored :: "phar_file \<Rightarrow> bool" where
  "stored f \<longleftrightarrow> (word_of_nat (pf_flags f) :: 32 word) AND compression_mask = 0"

definition entry_bytes :: "phar_file \<Rightarrow> str" where
  "entry_bytes f =
     u32_le (length (pf_name f)) @ pf_name f @ u32_le (pf_size f) @ u32_le (pf_stamp f) @
     u32_le (length (pf_content f)) @ u32_le (pf_crc f) @ u32_le (pf_flags f) @
     u32_le (length (pf_meta f)) @ pf_meta f"

record phar_header =
  ph_api :: nat
  ph_flags :: nat
  ph_alias :: str
  ph_meta :: str

definition manifest_body :: "phar_header \<Rightarrow> phar_file list \<Rightarrow> str" where
  "manifest_body h fs =
     u32_le (length fs) @ le_bytes 2 (ph_api h) @ u32_le (ph_flags h) @
     u32_le (length (ph_alias h)) @ ph_alias h @ u32_le (length (ph_meta h)) @ ph_meta h @
     concat (map entry_bytes fs)"

definition manifest_bytes :: "phar_header \<Rightarrow> phar_file list \<Rightarrow> str" where
  "manifest_bytes h fs = u32_le (length (manifest_body h fs)) @ manifest_body h fs"

definition file_bytes :: "phar_file list \<Rightarrow> str" where
  "file_bytes fs = concat (map pf_content fs)"

definition file_fits :: "phar_file \<Rightarrow> bool" where
  "file_fits f \<longleftrightarrow> length (pf_name f) < 2 ^ 32 \<and> from_utf8_lossy (pf_name f) = pf_name f \<and>
     length (pf_content f) < 2 ^ 32 \<and> pf_size f < 2 ^ 32 \<and> length (pf_meta f) < 2 ^ 32 \<and>
     (stored f \<longrightarrow> pf_size f = length (pf_content f))"

definition phar_fits :: "phar_header \<Rightarrow> phar_file list \<Rightarrow> bool" where
  "phar_fits h fs \<longleftrightarrow> length (manifest_body h fs) < 2 ^ 32 \<and> list_all file_fits fs"

subsection \<open>Reading numbers back\<close>

lemma length_le_bytes [simp]: "length (le_bytes k n) = k"
  by (induction k n rule: le_bytes.induct) (simp_all add: le_bytes.simps)

lemma le_value_bytes: "le_value (le_bytes k n) = n mod 256 ^ k"
  by (induction k n rule: le_bytes.induct) (simp_all add: le_bytes.simps mod_mult2_eq add.commute)

lemma read_u32_at:
  assumes "drop c data = u32_le n @ t"
  shows "read_u32 data c = Some (word_of_nat n, c + 4)" "drop (c + 4) data = t"
proof -
  have len: "length data \<ge> c + 4" using arg_cong [OF assms, of length] by simp
  show "drop (c + 4) data = t" using assms by (metis append_eq_conv_conj drop_drop add.commute length_le_bytes)
  show "read_u32 data c = Some (word_of_nat n, c + 4)"
    using len by (simp add: read_u32_def assms le_value_bytes word_unat_eq_iff unat_of_nat)
qed

lemma read_u16_at:
  assumes "drop c data = le_bytes 2 n @ t"
  shows "\<exists>w. read_u16 data c = Some (w, c + 2)" "drop (c + 2) data = t"
proof -
  have len: "length data \<ge> c + 2" using arg_cong [OF assms, of length] by simp
  show "drop (c + 2) data = t" using assms by (metis append_eq_conv_conj drop_drop add.commute length_le_bytes)
  show "\<exists>w. read_u16 data c = Some (w, c + 2)" using len by (simp add: read_u16_def)
qed

lemma skip_at:
  assumes "drop c data = s @ t" "length s = n" "c \<le> length data"
  shows "skip_bytes data c n = Some (c + n)" "drop (c + n) data = t" "take n (drop c data) = s" "c + n \<le> length data"
proof -
  have "length data - c = n + length t" using arg_cong [OF assms(1), of length] assms(2) by simp
  then show le: "c + n \<le> length data" using assms(3) by simp
  then show "skip_bytes data c n = Some (c + n)" by (simp add: skip_bytes_def)
  show "drop (c + n) data = t" using assms by (metis append_eq_conv_conj drop_drop add.commute)
  show "take n (drop c data) = s" using assms by simp
qed

lemma unat_small: "n < 2 ^ 32 \<Longrightarrow> unat (word_of_nat n :: 32 word) = n"
  by (simp add: unat_of_nat)

text \<open>The entry the reader makes of a written one.\<close>

definition raw_of :: "phar_file \<Rightarrow> raw_entry" where
  "raw_of f = \<lparr>filename = pf_name f, uncompressed_size = pf_size f,
     compressed_size = length (pf_content f), flags = word_of_nat (pf_flags f)\<rparr>"

lemma read_entry_at:
  assumes "drop c data = entry_bytes f @ t" "file_fits f" "c \<le> length data"
  shows "read_entry data c = Some (raw_of f, c + length (entry_bytes f))"
    "drop (c + length (entry_bytes f)) data = t" "c + length (entry_bytes f) \<le> length data"
proof -
  note fits = assms(2) [unfolded file_fits_def]
  note r1 = read_u32_at [OF assms(1) [unfolded entry_bytes_def append_assoc]]
  have c1: "c + 4 \<le> length data" using arg_cong [OF assms(1), of length] by (simp add: entry_bytes_def)
  note s1 = skip_at [OF r1(2) refl c1]
  note r2 = read_u32_at [OF s1(2)] note r3 = read_u32_at [OF r2(2)] note r4 = read_u32_at [OF r3(2)]
  note r5 = read_u32_at [OF r4(2)] note r6 = read_u32_at [OF r5(2)] note r7 = read_u32_at [OF r6(2)]
  have c2: "c + 4 + length (pf_name f) + 4 + 4 + 4 + 4 + 4 + 4 \<le> length data"
    using arg_cong [OF assms(1), of length] assms(3) by (simp add: entry_bytes_def)
  note s2 = skip_at [OF r7(2) refl c2]
  show "read_entry data c = Some (raw_of f, c + length (entry_bytes f))"
  proof -
    have sizes: "unat (word_of_nat (length (pf_name f)) :: 32 word) = length (pf_name f)"
      "unat (word_of_nat (pf_size f) :: 32 word) = pf_size f"
      "unat (word_of_nat (length (pf_content f)) :: 32 word) = length (pf_content f)"
      "unat (word_of_nat (length (pf_meta f)) :: 32 word) = length (pf_meta f)"
      using fits by (simp_all only: unat_small)
    have name: "from_utf8_lossy (pf_name f) = pf_name f" using fits by simp
    show ?thesis
      unfolding read_entry_def r1(1) r2(1) r3(1) r4(1) r5(1) r6(1) r7(1) s1(1,3) s2(1) sizes name Let_def
        Option.bind.simps prod.case raw_of_def
      by (simp add: r1(1) r2(1) r3(1) r4(1) r5(1) r6(1) r7(1) s1(1,3) s2(1) sizes name entry_bytes_def)
  qed
  show "drop (c + length (entry_bytes f)) data = t" using s2(2) by (simp add: entry_bytes_def ac_simps)
  show "c + length (entry_bytes f) \<le> length data" using s2(4) by (simp add: entry_bytes_def)
qed

lemma read_entries_at:
  "drop c data = concat (map entry_bytes fs) @ t \<Longrightarrow> list_all file_fits fs \<Longrightarrow> c \<le> length data \<Longrightarrow>
     read_entries data (length fs) c = Some (map raw_of fs)"
proof (induction fs arbitrary: c)
  case (Cons f fs)
  from Cons.prems(1) have at: "drop c data = entry_bytes f @ concat (map entry_bytes fs) @ t" by simp
  have "file_fits f" "list_all file_fits fs" using Cons.prems(2) by simp_all
  note e = read_entry_at [OF at this(1) Cons.prems(3)]
  show ?case using Cons.IH [OF e(2) \<open>list_all file_fits fs\<close> e(3)] by (simp add: e(1))
qed simp

subsection \<open>The index\<close>

text \<open>Where the uncompressed files lie when the contents start at \<open>offset\<close>.\<close>

fun placed :: "nat \<Rightarrow> phar_file list \<Rightarrow> (str \<times> nat \<times> nat) list" where
  "placed offset [] = []"
| "placed offset (f # fs) =
     (if stored f then [(pf_name f, offset, pf_size f)] else []) @ placed (offset + length (pf_content f)) fs"

definition add_new :: "str list \<Rightarrow> str list \<Rightarrow> str list" where
  "add_new order names = foldl (\<lambda>order n. if n \<in> set order then order else order @ [n]) order names"

lemma index_entries_at:
  assumes "offset + length (file_bytes fs) \<le> length data" "set order = dom found"
  shows "index_entries data offset (map raw_of fs) (found, order) =
    Some (found ++ map_of (rev (placed offset fs)), add_new order (map fst (placed offset fs)))"
  using assms
proof (induction fs arbitrary: offset found order)
  case (Cons f fs)
  have fits: "offset + length (pf_content f) \<le> length data"
    "offset + length (pf_content f) + length (file_bytes fs) \<le> length data"
    using Cons.prems(1) by (simp_all add: file_bytes_def)
  show ?case
  proof (cases "stored f")
    case True
    let ?o = "if found (pf_name f) = None then order @ [pf_name f] else order"
    have "set ?o = dom (found(pf_name f \<mapsto> (offset, pf_size f)))" using Cons.prems(2) by auto
    note IH = Cons.IH [OF fits(2) this]
    have "pf_name f \<in> set order \<longleftrightarrow> found (pf_name f) \<noteq> None" using Cons.prems(2) by auto
    with IH show ?thesis
      using True fits(1)
      by (cases "found (pf_name f)")
        (simp_all add: raw_of_def stored_def add_new_def map_add_upd_left del: fun_upd_apply)
  next
    case False
    then show ?thesis using Cons.IH [OF fits(2) Cons.prems(2)] by (simp add: raw_of_def stored_def)
  qed
qed (simp add: add_new_def)

lemma add_new_remdups: "add_new [] names = rev (remdups (rev names))"
proof -
  have "set (add_new [] names) = set names \<and> add_new [] names = rev (remdups (rev names))"
    by (induction names rule: rev_induct) (auto simp: add_new_def)
  then show ?thesis by simp
qed

text \<open>The contents of the uncompressed files, and what a slice of the data gives for a name.\<close>

definition contents :: "phar_file list \<Rightarrow> (str \<times> str) list" where
  "contents fs = map (\<lambda>f. (pf_name f, pf_content f)) (filter stored fs)"

lemma placed_contents:
  assumes "drop offset data = file_bytes fs @ t" "list_all file_fits fs"
  shows "map (\<lambda>(n, o', s). (n, take s (drop o' data))) (placed offset fs) = contents fs"
  using assms
proof (induction fs arbitrary: offset)
  case (Cons f fs)
  have at: "drop offset data = pf_content f @ file_bytes fs @ t" using Cons.prems(1) by (simp add: file_bytes_def)
  then have rest: "drop (offset + length (pf_content f)) data = file_bytes fs @ t"
    by (metis append_eq_conv_conj drop_drop add.commute)
  have "stored f \<Longrightarrow> pf_size f = length (pf_content f)" using Cons.prems(2) by (simp add: file_fits_def)
  then show ?case using Cons.IH [OF rest] Cons.prems(2) at by (simp add: contents_def)
qed (simp add: contents_def)

lemma placed_bounds:
  "list_all file_fits fs \<Longrightarrow> (n, o', s) \<in> set (placed offset fs) \<Longrightarrow> o' + s \<le> offset + length (file_bytes fs)"
proof (induction fs arbitrary: offset)
  case (Cons f fs)
  have "(n, o', s) = (pf_name f, offset, length (pf_content f)) \<or>
      (n, o', s) \<in> set (placed (offset + length (pf_content f)) fs)"
    using Cons.prems by (auto simp: file_fits_def split: if_splits)
  then show ?case
    using Cons.IH [of "offset + length (pf_content f)"] Cons.prems(1) by (auto simp: file_bytes_def)
qed simp

lemma placed_names: "map fst (placed offset fs) = map pf_name (filter stored fs)"
  by (induction fs arbitrary: offset) auto

lemma map_of_map_snd: "map_of (map (\<lambda>(n, x). (n, g x)) xs) n = map_option g (map_of xs n)"
  by (induction xs) auto

lemma read_manifest_written:
  assumes data: "drop start data = manifest_bytes h fs @ t" "start \<le> length data"
    and fits: "phar_fits h fs"
  shows "read_manifest data start = Some (start + length (manifest_bytes h fs), map raw_of fs)"
proof -
  let ?body = "manifest_body h fs"
  have small: "length ?body < 2 ^ 32" and files: "list_all file_fits fs" using fits by (simp_all add: phar_fits_def)
  then have smalls: "length fs < 2 ^ 32" "length (ph_alias h) < 2 ^ 32" "length (ph_meta h) < 2 ^ 32"
  proof -
    have "length fs \<le> length (concat (map entry_bytes fs))"
      by (induction fs) (simp_all add: entry_bytes_def)
    then show "length fs < 2 ^ 32" using small by (simp add: manifest_body_def)
  qed (use small in \<open>simp_all add: manifest_body_def\<close>)
  have len: "start + 4 + length ?body \<le> length data"
    using arg_cong [OF data(1), of length] data(2) by (simp add: manifest_bytes_def)
  note r1 = read_u32_at [OF data(1) [unfolded manifest_bytes_def append_assoc]]
  note r2 = read_u32_at [OF r1(2) [unfolded manifest_body_def append_assoc]]
  note r3 = read_u16_at [OF r2(2)]
  note r4 = read_u32_at [OF r3(2)] note r5 = read_u32_at [OF r4(2)]
  have c: "start + 4 + 4 + 2 + 4 + 4 \<le> length data" using len by (simp add: manifest_body_def)
  note s1 = skip_at [OF r5(2) refl c]
  note r6 = read_u32_at [OF s1(2)]
  have c: "start + 4 + 4 + 2 + 4 + 4 + length (ph_alias h) + 4 \<le> length data"
    using len by (simp add: manifest_body_def)
  note s2 = skip_at [OF r6(2) refl c]
  note es = read_entries_at [OF s2(2) files s2(4)]
  obtain w where w: "read_u16 data (start + 4 + 4) = Some (w, start + 4 + 4 + 2)" using r3(1) by blast
  have sizes: "unat (word_of_nat (length ?body) :: 32 word) = length ?body"
    "unat (word_of_nat (length fs) :: 32 word) = length fs"
    "unat (word_of_nat (length (ph_alias h)) :: 32 word) = length (ph_alias h)"
    "unat (word_of_nat (length (ph_meta h)) :: 32 word) = length (ph_meta h)"
    using small smalls by (simp_all only: unat_small)
  have whole: "(if length data < start + 4 + length ?body then None else Some ()) = Some ()"
    using len by simp
  show ?thesis
    unfolding read_manifest_def r1(1) r2(1) w r4(1) r5(1) r6(1) s1(1) s2(1) sizes es whole Let_def
      Option.bind.simps prod.case
    by (simp add: manifest_bytes_def)
qed

lemma parse_manifest_written:
  assumes data: "drop start data = manifest_bytes h fs @ file_bytes fs @ t" "start \<le> length data"
    and fits: "phar_fits h fs"
  defines "area \<equiv> start + length (manifest_bytes h fs)"
  shows "parse_manifest_at disk path data start = Some \<lparr>archive_path = path, archive_len = length data,
      modified = Option.bind (disk path) snd, files = map_of (rev (placed area fs)),
      paths = rev (remdups (rev (map pf_name (filter stored fs))))\<rparr>"
proof -
  have "area + length (file_bytes fs) \<le> length data"
    using arg_cong [OF data(1), of length] data(2) by (simp add: area_def)
  then show ?thesis
    using index_entries_at [of area fs data "[]" Map.empty]
    by (simp add: parse_manifest_at_def read_manifest_written [OF data fits] add_new_remdups placed_names flip: area_def)
qed

subsection \<open>The stub\<close>

definition write_phar :: "str \<Rightarrow> str \<Rightarrow> phar_header \<Rightarrow> phar_file list \<Rightarrow> str \<Rightarrow> str" where
  "write_phar stub eol h fs signature =
     stub @ halt_compiler_marker @ eol @ manifest_bytes h fs @ file_bytes fs @ signature"

text \<open>
  The line ending a reader skips after the marker, and a manifest that claims more bytes than there
  are.  Without a line ending the manifest may begin with the bytes of one, as long as what the
  reader then takes for the manifest is too long.
\<close>

definition line_end_at :: "str \<Rightarrow> nat" where
  "line_end_at rest =
     (if starts_with rest [CHR 0x0D, newline] then 2 else if starts_with rest [newline] then 1 else 0)"

definition too_long :: "str \<Rightarrow> bool" where
  "too_long bytes \<longleftrightarrow> length bytes < 4 + le_value (take 4 bytes)"

definition eol_clear :: "str \<Rightarrow> str \<Rightarrow> bool" where
  "eol_clear eol rest \<longleftrightarrow> eol = [CHR 0x0D, newline] \<or> eol = [newline] \<or>
     (eol = [] \<and> (line_end_at rest = 0 \<or> too_long (drop (line_end_at rest) rest)))"

lemma le_value_bound: "le_value bs < 256 ^ length bs"
proof (induction bs)
  case (Cons b bs)
  have "(of_char b :: nat) < 256" by (rule nat_of_char_less_256)
  then have "of_char b + 256 * le_value bs < 256 * (le_value bs + 1)" by simp
  also have "\<dots> \<le> 256 * 256 ^ length bs" using Cons by (intro mult_le_mono2) simp
  finally show ?case by simp
qed simp

lemma too_long_refused:
  assumes "too_long (drop start data)"
  shows "parse_manifest_at disk path data start = None"
proof (cases "start + 4 \<le> length data")
  case True
  let ?len = "le_value (take 4 (drop start data))"
  have "?len < 2 ^ 32" using le_value_bound [of "take 4 (drop start data)"] True by simp
  then have "read_u32 data start = Some (word_of_nat ?len, start + 4)" "unat (word_of_nat ?len :: 32 word) = ?len"
    using True by (simp_all add: read_u32_def unat_small)
  moreover have "length data < start + 4 + ?len" using assms True unfolding too_long_def length_drop by arith
  ultimately show ?thesis by (simp add: parse_manifest_at_def read_manifest_def Let_def)
next
  case False
  then show ?thesis by (simp add: parse_manifest_at_def read_manifest_def read_u32_def)
qed

lemma parse_phar_eq:
  "parse_phar disk path data =
     (case find_sub data halt_compiler_marker of
        None \<Rightarrow> None
      | Some pos \<Rightarrow>
          let after = pos + length halt_compiler_marker; skip = line_end_at (drop after data)
          in case parse_manifest_at disk path data (after + skip) of
               Some archive \<Rightarrow> Some archive
             | None \<Rightarrow> if skip \<noteq> 0 then parse_manifest_at disk path data after else None)"
  by (auto simp: parse_phar_def line_end_at_def Let_def split: option.split)

definition stub_clear :: "str \<Rightarrow> bool" where
  "stub_clear stub \<longleftrightarrow> find_sub (stub @ halt_compiler_marker) halt_compiler_marker = Some (length stub)"

lemma find_sub_longer:
  "find_sub (s @ p) p = Some (length s) \<Longrightarrow> p \<noteq> [] \<Longrightarrow> find_sub (s @ p @ t) p = Some (length s)"
proof (induction s)
  case Nil
  then show ?case by (cases p) (simp_all add: starts_with_def)
next
  case (Cons c s)
  have "starts_with (c # s @ p @ t) p = starts_with (c # s @ p) p" by (simp add: starts_with_def take_Cons')
  then show ?case using Cons by (auto split: if_splits)
qed

lemma drop_exact: "n = length xs \<Longrightarrow> drop n (xs @ ys) = ys"
  by simp

text \<open>
  C38. What PHP writes into a phar is what the reader gives back: for any stub, line ending, alias
  and metadata, the paths listed are the names of the uncompressed files in manifest order, each
  once, and reading a name from the unchanged archive gives the contents of the last uncompressed
  file of that name, and nothing for a name without one.
\<close>

theorem phar_reads_back:
  assumes "phar_fits h fs" "stub_clear stub" "eol_clear eol (manifest_bytes h fs @ file_bytes fs @ signature)"
    and "disk path = Some (write_phar stub eol h fs signature, time)"
  shows "\<exists>archive. parse_phar disk path (write_phar stub eol h fs signature) = Some archive \<and>
    file_paths archive = rev (remdups (rev (map pf_name (filter stored fs)))) \<and>
    (\<forall>name. read_file disk archive name = map_of (rev (contents fs)) name)"
proof -
  let ?data = "write_phar stub eol h fs signature"
  let ?start = "length stub + length halt_compiler_marker + length eol"
  let ?area = "?start + length (manifest_bytes h fs)" and ?rest = "manifest_bytes h fs @ file_bytes fs @ signature"
  define archive where "archive = \<lparr>archive_path = path, archive_len = length ?data,
      modified = Option.bind (disk path) snd, files = map_of (rev (placed ?area fs)),
      paths = rev (remdups (rev (map pf_name (filter stored fs))))\<rparr>"
  have at: "drop ?start ?data = manifest_bytes h fs @ file_bytes fs @ signature"
    by (simp add: write_phar_def)
  have "find_sub ?data halt_compiler_marker = Some (length stub)"
    unfolding write_phar_def
    by (rule find_sub_longer) (use assms(2) in \<open>simp_all add: stub_clear_def halt_compiler_marker_def\<close>)
  moreover have "parse_manifest_at disk path ?data ?start = Some archive"
    unfolding archive_def by (rule parse_manifest_written [OF at _ assms(1)]) (simp add: write_phar_def)
  moreover have "drop (length stub + length halt_compiler_marker) ?data = eol @ manifest_bytes h fs @ file_bytes fs @ signature"
    by (simp add: write_phar_def)
  moreover have "parse_manifest_at disk path ?data (length stub + length halt_compiler_marker + line_end_at ?rest) = None"
    if "line_end_at ?rest \<noteq> 0" "eol = []"
    using assms(3) that at by (intro too_long_refused) (auto simp: eol_clear_def write_phar_def)
  moreover have "line_end_at (eol @ ?rest) = length eol" if "eol \<noteq> []"
    using assms(3) that by (auto simp: eol_clear_def line_end_at_def starts_with_def)
  ultimately have parsed: "parse_phar disk path ?data = Some archive"
    by (cases "eol = []") (simp_all add: parse_phar_eq Let_def)
  have area: "drop ?area ?data = file_bytes fs @ signature" by (simp add: write_phar_def)
  have fits: "list_all file_fits fs" using assms(1) by (simp add: phar_fits_def)
  have "read_file disk archive name = map_of (rev (contents fs)) name" for name
  proof -
    let ?slice = "\<lambda>(o', s). take s (drop o' ?data)"
    have "map_of (rev (contents fs)) name = map_option ?slice (map_of (rev (placed ?area fs)) name)"
      using map_of_map_snd [of ?slice "rev (placed ?area fs)" name] placed_contents [OF area fits]
      by (simp add: rev_map [symmetric] case_prod_unfold)
    moreover have "o' + s \<le> length ?data" if "map_of (rev (placed ?area fs)) name = Some (o', s)" for o' s
      using placed_bounds [OF fits, of name o' s ?area] that
      by (auto simp: write_phar_def dest!: map_of_SomeD)
    ultimately show ?thesis
      using assms(4)
      by (cases "map_of (rev (placed ?area fs)) name")
        (auto simp: read_file_def file_range_def archive_def)
  qed
  then show ?thesis using parsed by (auto simp: file_paths_def archive_def)
qed

lemma phar_reads_back_witness:
  defines "h \<equiv> \<lparr>ph_api = 4352, ph_flags = 0, ph_alias = ''p'', ph_meta = []\<rparr>"
    and "f \<equiv> \<lparr>pf_name = ''a.php'', pf_content = ''<?php'', pf_size = 5, pf_stamp = 0, pf_crc = 7, pf_flags = 420, pf_meta = []\<rparr>"
    and "g \<equiv> \<lparr>pf_name = ''b.php'', pf_content = ''zip'', pf_size = 50, pf_stamp = 0, pf_crc = 7, pf_flags = 4516, pf_meta = ''m''\<rparr>"
  shows "\<exists>archive. parse_phar [''x'' \<mapsto> (write_phar ''<?php '' [newline] h [f, g] ''GBMB'', Some (3::nat))] ''x''
      (write_phar ''<?php '' [newline] h [f, g] ''GBMB'') = Some archive \<and>
    file_paths archive = [''a.php'']"
proof -
  have flags: "stored f" "\<not> stored g" "stub_clear ''<?php ''" unfolding f_def g_def by code_simp+
  have names: "from_utf8_lossy ''a.php'' = ''a.php''" "from_utf8_lossy ''b.php'' = ''b.php''" by code_simp+
  have "file_fits f" "file_fits g" using flags by (simp_all add: file_fits_def f_def g_def names)
  then have "phar_fits h [f, g]"
    by (simp add: phar_fits_def manifest_body_def entry_bytes_def h_def f_def g_def)
  moreover have "filter stored [f, g] = [f]" using flags by simp
  moreover note flags(3)
  ultimately show ?thesis
    using phar_reads_back [of h "[f, g]" "''<?php ''" "[newline]" "''GBMB''"
        "[''x'' \<mapsto> (write_phar ''<?php '' [newline] h [f, g] ''GBMB'', Some (3::nat))]" "''x''" "Some 3"]
    by (auto simp: eol_clear_def f_def)
qed

subsection \<open>Damaged archives\<close>

lemma read_u32_longer: "read_u32 (take n data) c = Some r \<Longrightarrow> read_u32 data c = Some r"
  by (auto simp: read_u32_def Let_def drop_take min_def split: if_splits)

lemma read_u16_longer: "read_u16 (take n data) c = Some r \<Longrightarrow> read_u16 data c = Some r"
  by (auto simp: read_u16_def Let_def drop_take min_def split: if_splits)

lemma skip_bytes_longer: "skip_bytes (take n data) c k = Some r \<Longrightarrow> skip_bytes data c k = Some r"
  by (auto simp: skip_bytes_def split: if_splits)

lemma skip_bytes_within: "skip_bytes data c k = Some r \<Longrightarrow> r = c + k \<and> c + k \<le> length data"
  by (auto simp: skip_bytes_def split: if_splits)

lemma name_longer: "skip_bytes (take n data) c k = Some r \<Longrightarrow> take k (drop c (take n data)) = take k (drop c data)"
  by (auto simp: skip_bytes_def drop_take min_def split: if_splits)

lemma read_entry_longer:
  assumes "read_entry (take n data) c = Some r"
  shows "read_entry data c = Some r"
proof -
  obtain k c1 c2 where name: "read_u32 (take n data) c = Some (k, c1)" "skip_bytes (take n data) c1 (unat k) = Some c2"
    using assms by (auto simp: read_entry_def bind_eq_Some_conv)
  note name' = read_u32_longer [OF name(1)] skip_bytes_longer [OF name(2)] name_longer [OF name(2)]
  show ?thesis
    using assms unfolding read_entry_def name name' Let_def Option.bind.simps prod.case bind_eq_Some_conv
    by (elim exE conjE case_prodE)
      (auto dest!: read_u32_longer skip_bytes_longer simp: bind_eq_Some_conv)
qed

lemma read_entries_longer: "read_entries (take n data) k c = Some r \<Longrightarrow> read_entries data k c = Some r"
  by (induction k arbitrary: c r) (fastforce simp: bind_eq_Some_conv dest: read_entry_longer)+

lemma read_manifest_longer:
  assumes "read_manifest (take n data) start = Some r"
  shows "read_manifest data start = Some r" "fst r \<le> n"
proof -
  obtain len c where len: "read_u32 (take n data) start = Some (len, c)"
    using assms by (auto simp: read_manifest_def bind_eq_Some_conv)
  have "read_manifest data start = Some r \<and> fst r \<le> n"
    using assms
    unfolding read_manifest_def Let_def len read_u32_longer [OF len] Option.bind.simps prod.case bind_eq_Some_conv
    by (elim exE conjE case_prodE)
      (auto dest!: read_u32_longer read_u16_longer skip_bytes_longer read_entries_longer
        simp: bind_eq_Some_conv split: if_splits)
  then show "read_manifest data start = Some r" "fst r \<le> n" by simp_all
qed

lemma raw_of_fields [simp]:
  "filename (raw_of f) = pf_name f" "compressed_size (raw_of f) = length (pf_content f)"
  "flags (raw_of f) = word_of_nat (pf_flags f)"
  by (simp_all add: raw_of_def)

lemma index_entries_room:
  "index_entries data offset (map raw_of fs) ix = Some r \<Longrightarrow> fs = ahead @ f # behind \<Longrightarrow> stored f \<Longrightarrow>
     offset + length (file_bytes (ahead @ [f])) \<le> length data"
proof (induction ahead arbitrary: fs offset ix)
  case Nil
  then show ?case by (cases ix) (auto simp: stored_def file_bytes_def split: if_splits)
next
  case (Cons g ahead)
  obtain ix' where "index_entries data (offset + length (pf_content g)) (map raw_of (ahead @ f # behind)) ix' = Some r"
    using Cons.prems(1,2) by (cases ix) (auto split: if_splits)
  from Cons.IH [OF this refl Cons.prems(3)] show ?case by (simp add: file_bytes_def)
qed

lemma cut_manifest_refused:
  assumes "phar_fits h fs" "drop start data = manifest_bytes h fs @ file_bytes fs @ signature" "start \<le> length data"
    and "n < start + length (manifest_bytes h fs) \<or>
      (fs = ahead @ f # behind \<and> stored f \<and>
       n < start + length (manifest_bytes h fs) + length (file_bytes (ahead @ [f])))"
  shows "parse_manifest_at disk path (take n data) start = None"
proof (rule ccontr)
  assume "parse_manifest_at disk path (take n data) start \<noteq> None"
  then obtain r ix where r: "read_manifest (take n data) start = Some r"
    "index_entries (take n data) (fst r) (snd r) (Map.empty, []) = Some ix"
    by (auto simp: parse_manifest_at_def bind_eq_Some_conv)
  have "r = (start + length (manifest_bytes h fs), map raw_of fs)"
    using read_manifest_longer(1) [OF r(1)] read_manifest_written [OF assms(2,3,1)] by simp
  then show False
    using assms(4) read_manifest_longer(2) [OF r(1)] index_entries_room [of "take n data" "fst r" fs _ ix ahead f behind] r(2)
    by auto
qed

lemma find_sub_room: "find_sub s p = Some k \<Longrightarrow> k + length p \<le> length s"
proof (induction s arbitrary: k)
  case (Cons c s)
  then show ?case by (auto simp: starts_with_def split: if_splits dest: arg_cong [where f = length])
qed (simp split: if_splits)

lemma find_sub_prefix: "find_sub (take n s) p = Some k \<Longrightarrow> find_sub s p = Some k"
proof (induction s arbitrary: n k)
  case (Cons c s)
  show ?case
  proof (cases n)
    case 0
    then show ?thesis using Cons.prems by (auto simp: starts_with_def split: if_splits)
  next
    case (Suc m)
    have first: "starts_with (c # s) p = starts_with (c # take m s) p" if "length p \<le> Suc m"
      using that by (auto simp: starts_with_def take_Cons' min_def)
    show ?thesis
    proof (cases "starts_with (c # take m s) p")
      case True
      then have "length p \<le> Suc m" by (auto simp: starts_with_def dest: arg_cong [where f = length])
      then show ?thesis using Cons.prems first True Suc by simp
    next
      case False
      then obtain j where j: "find_sub (take m s) p = Some j" "k = Suc j" using Cons.prems Suc by auto
      have "length p \<le> Suc m" using find_sub_room [OF j(1)] by simp
      then show ?thesis using Cons.IH [OF j(1)] j(2) first False by simp
    qed
  qed
qed simp

text \<open>
  C39. A phar that is cut short is an error, never a smaller archive: when the file ends before the end
  of the manifest, or of some uncompressed file, the parser answers nothing, whatever the archive
  holds.  The parser also tries the bytes it took for a line ending as part of the manifest; that
  guess must be refused by its length, which is 256 times that of the manifest or more.
\<close>

theorem phar_truncated:
  assumes "phar_fits h fs" "stub_clear stub"
    and cut: "n < length stub + length halt_compiler_marker + length eol + length (manifest_bytes h fs) \<or>
      (fs = ahead @ f # behind \<and> stored f \<and>
       n < length stub + length halt_compiler_marker + length eol + length (manifest_bytes h fs) +
           length (file_bytes (ahead @ [f])))"
    and guess: "\<forall>k \<in> {0, line_end_at (drop (length stub + length halt_compiler_marker) (take n (write_phar stub eol h fs signature)))}.
      k = length eol \<or>
      too_long (drop (length stub + length halt_compiler_marker + k) (take n (write_phar stub eol h fs signature)))"
  shows "parse_phar disk path (take n (write_phar stub eol h fs signature)) = None"
proof -
  let ?data = "write_phar stub eol h fs signature" and ?after = "length stub + length halt_compiler_marker"
  have at: "drop (?after + length eol) ?data = manifest_bytes h fs @ file_bytes fs @ signature"
    by (simp add: write_phar_def)
  have "parse_manifest_at disk path (take n ?data) (?after + length eol) = None"
    by (rule cut_manifest_refused [OF assms(1) at _ cut]) (simp add: write_phar_def)
  then have none: "parse_manifest_at disk path (take n ?data) (?after + k) = None"
    if "k \<in> {0, line_end_at (drop ?after (take n ?data))}" for k
    using guess that too_long_refused [of "?after + k" "take n ?data" disk path] by metis
  have whole: "find_sub ?data halt_compiler_marker = Some (length stub)"
    unfolding write_phar_def
    by (rule find_sub_longer) (use assms(2) in \<open>simp_all add: stub_clear_def halt_compiler_marker_def\<close>)
  show ?thesis
  proof (cases "find_sub (take n ?data) halt_compiler_marker")
    case (Some pos)
    then have "pos = length stub" using find_sub_prefix [OF Some] whole by simp
    then show ?thesis using Some none [of 0] none [of "line_end_at (drop ?after (take n ?data))"]
      by (simp add: parse_phar_eq Let_def)
  qed (simp add: parse_phar_eq)
qed

lemma phar_truncated_witness:
  defines "h \<equiv> \<lparr>ph_api = 4352, ph_flags = 0, ph_alias = [], ph_meta = []\<rparr>"
    and "f \<equiv> \<lparr>pf_name = ''a'', pf_content = ''<?php'', pf_size = 5, pf_stamp = 0, pf_crc = 7, pf_flags = 420, pf_meta = []\<rparr>"
  shows "parse_phar (Map.empty :: (str, nat) disk) ''x'' (take 80 (write_phar ''<?php '' [newline] h [f] ''GBMB'')) = None"
proof (rule phar_truncated [where ahead = "[]" and f = f and behind = "[]"])
  have "stored f" unfolding f_def by code_simp
  moreover have "from_utf8_lossy ''a'' = ''a''" by code_simp
  ultimately show "phar_fits h [f]"
    by (simp add: phar_fits_def manifest_body_def entry_bytes_def file_fits_def h_def) (simp add: f_def)
  show "stub_clear ''<?php ''" by code_simp
  show "80 < length ''<?php '' + length halt_compiler_marker + length [newline] + length (manifest_bytes h [f]) \<or>
      [f] = [] @ f # [] \<and> stored f \<and>
      80 < length ''<?php '' + length halt_compiler_marker + length [newline] + length (manifest_bytes h [f]) +
        length (file_bytes ([] @ [f]))"
    using \<open>stored f\<close>
    by (simp add: manifest_bytes_def manifest_body_def entry_bytes_def file_bytes_def h_def f_def halt_compiler_marker_def)
  show "\<forall>k \<in> {0, line_end_at (drop (length ''<?php '' + length halt_compiler_marker) (take 80 (write_phar ''<?php '' [newline] h [f] ''GBMB'')))}.
      k = length [newline] \<or>
      too_long (drop (length ''<?php '' + length halt_compiler_marker + k) (take 80 (write_phar ''<?php '' [newline] h [f] ''GBMB'')))"
  proof -
    have size: "length (manifest_body h [f]) = 47"
      by (simp add: manifest_body_def entry_bytes_def h_def f_def)
    have "le_value (newline # take 3 (u32_le 47)) = 12042" by code_simp
    then have long: "too_long (take n (newline # manifest_bytes h [f] @ t))" if "4 \<le> n" "n < 12046" for n t
      using that by (auto simp: too_long_def manifest_bytes_def size take_Cons' min_def)
    show ?thesis
      using long [of 53 "file_bytes [f] @ ''GBMB''"]
      by (simp add: write_phar_def halt_compiler_marker_def line_end_at_def starts_with_def)
  qed
qed

end
