(* ===== verification/Worker_Pool.thy ===== *)
theory Worker_Pool
  imports Prelude
begin

section \<open>The worker pool\<close>

text \<open>
  \<open>map_indexed_with_threads\<close> and \<open>map_in_blocks\<close> of \<open>src/parallel.rs\<close> as runs of
  threads that pull indices off one atomic counter.  A run is any interleaving of atomic steps: a
  spawn the system grants or refuses, a \<open>fetch_add\<close>, a finished item, a panic.  The calling thread
  spawns the workers, joins them and, where the code says so, drains what is left.
\<close>

subsection \<open>Pulling items off a counter\<close>

text \<open>A drain: its results so far while it runs, between two items or on one.\<close>

datatype 'r drain =
    Not_Started
  | Refused
  | Ready "(nat \<times> 'r) list"
  | Working nat "(nat \<times> 'r) list"
  | Drained "(nat \<times> 'r) list"
  | Panicked

text \<open>Drain \<open>n\<close>, behind the workers \<open>0..n-1\<close>, is the calling thread's own.\<close>

record 'r pool =
  next_idx :: nat
  spawned :: nat
  drains :: "nat \<Rightarrow> 'r drain"

definition pool_start :: "'r pool" where
  "pool_start = \<lparr>next_idx = 0, spawned = 0, drains = (\<lambda>w. Not_Started)\<rparr>"

definition claimed :: "nat \<Rightarrow> nat \<Rightarrow> (nat \<times> 'r) list \<Rightarrow> 'r drain" where
  "claimed count i produced = (if i \<ge> count then Drained produced else Working i produced)"

definition push_result :: "(nat \<times> 'r) list \<Rightarrow> nat \<Rightarrow> 'r option \<Rightarrow> (nat \<times> 'r) list" where
  "push_result produced i result =
     (case result of Some r \<Rightarrow> produced @ [(i, r)] | None \<Rightarrow> produced)"

fun joined :: "'r drain \<Rightarrow> bool" where
  "joined Refused = True"
| "joined (Drained produced) = True"
| "joined Panicked = True"
| "joined _ = False"

definition all_joined :: "nat \<Rightarrow> 'r pool \<Rightarrow> bool" where
  "all_joined n s = (spawned s = n \<and> list_all (\<lambda>w. joined (drains s w)) [0..<n])"

definition spawn_failed :: "nat \<Rightarrow> 'r pool \<Rightarrow> bool" where
  "spawn_failed n s = list_ex (\<lambda>w. drains s w = Refused) [0..<n]"

text \<open>\<open>may_panic i\<close>: the work on item \<open>i\<close> may unwind.\<close>

inductive pool_step :: "nat \<Rightarrow> nat \<Rightarrow> (nat \<Rightarrow> nat \<Rightarrow> 'r option) \<Rightarrow> (nat \<Rightarrow> bool) \<Rightarrow> 'r pool \<Rightarrow> 'r pool \<Rightarrow> bool"
  for count n work may_panic where
  pool_spawn: "spawned s < n \<Longrightarrow>
     pool_step count n work may_panic s
       (s\<lparr>spawned := spawned s + 1, drains := (drains s)(spawned s := Ready [])\<rparr>)"
| pool_refuse: "spawned s < n \<Longrightarrow>
     pool_step count n work may_panic s
       (s\<lparr>spawned := spawned s + 1, drains := (drains s)(spawned s := Refused)\<rparr>)"
| pool_claim: "drains s w = Ready produced \<Longrightarrow>
     pool_step count n work may_panic s
       (s\<lparr>next_idx := next_idx s + 1, drains := (drains s)(w := claimed count (next_idx s) produced)\<rparr>)"
| pool_work: "drains s w = Working i produced \<Longrightarrow>
     pool_step count n work may_panic s
       (s\<lparr>drains := (drains s)(w := Ready (push_result produced i (work w i)))\<rparr>)"
| pool_panic: "drains s w = Working i produced \<Longrightarrow> may_panic i \<Longrightarrow>
     pool_step count n work may_panic s (s\<lparr>drains := (drains s)(w := Panicked)\<rparr>)"
| pool_rest: "all_joined n s \<Longrightarrow> spawn_failed n s \<Longrightarrow> drains s n = Not_Started \<Longrightarrow>
     pool_step count n work may_panic s (s\<lparr>drains := (drains s)(n := Ready [])\<rparr>)"

inductive pool_reachable :: "nat \<Rightarrow> nat \<Rightarrow> (nat \<Rightarrow> nat \<Rightarrow> 'r option) \<Rightarrow> (nat \<Rightarrow> bool) \<Rightarrow> 'r pool \<Rightarrow> bool"
  for count n work may_panic where
  pool_init: "pool_reachable count n work may_panic pool_start"
| pool_next: "pool_reachable count n work may_panic s \<Longrightarrow> pool_step count n work may_panic s s' \<Longrightarrow>
     pool_reachable count n work may_panic s'"

fun drained :: "'r drain \<Rightarrow> (nat \<times> 'r) list" where
  "drained (Drained produced) = produced"
| "drained _ = []"

text \<open>What the call returns in a state, if it returns there.\<close>

definition pool_result :: "nat \<Rightarrow> 'r pool \<Rightarrow> (nat \<times> 'r) list option" where
  "pool_result n s =
     (let merged = concat (map (\<lambda>w. drained (drains s w)) [0..<n])
      in if \<not> all_joined n s then None
         else if \<not> spawn_failed n s then Some merged
         else case drains s n of Drained rest \<Rightarrow> Some (merged @ rest) | _ \<Rightarrow> None)"

definition pool_width :: "nat \<Rightarrow> nat \<Rightarrow> nat option \<Rightarrow> nat" where
  "pool_width cores count threads =
     min (case threads of Some n \<Rightarrow> if n > 0 then n else cores | None \<Rightarrow> cores) count"

inductive map_indexed_with_threads ::
  "nat \<Rightarrow> nat \<Rightarrow> nat option \<Rightarrow> (nat \<Rightarrow> nat \<Rightarrow> 'r option) \<Rightarrow> (nat \<Rightarrow> bool) \<Rightarrow> (nat \<times> 'r) list \<Rightarrow> bool"
  for cores count threads work may_panic where
  no_items: "count = 0 \<Longrightarrow> map_indexed_with_threads cores count threads work may_panic []"
| pooled: "count > 0 \<Longrightarrow> n = pool_width cores count threads \<Longrightarrow>
     pool_reachable count n work may_panic s \<Longrightarrow> pool_result n s = Some merged \<Longrightarrow>
     map_indexed_with_threads cores count threads work may_panic merged"

subsection \<open>Blocks of items\<close>

function chunks :: "nat \<Rightarrow> 'a list \<Rightarrow> 'a list list" where
  "chunks n xs = (if xs = [] \<or> n = 0 then [] else take n xs # chunks n (drop n xs))"
  by pat_completeness auto
termination by (relation "measure (\<lambda>(n, xs). length xs)") auto
declare chunks.simps [simp del]

definition filter_map :: "('a \<Rightarrow> 'b option) \<Rightarrow> 'a list \<Rightarrow> 'b list" where
  "filter_map f xs = List.map_filter f xs"

definition block_work :: "('a \<Rightarrow> 'b option) \<Rightarrow> 'a list list \<Rightarrow> nat \<Rightarrow> nat \<Rightarrow> 'b list option" where
  "block_work work blocks worker index =
     (let out = filter_map work (blocks ! index) in if out = [] then None else Some out)"

inductive map_in_blocks :: "nat \<Rightarrow> 'a list \<Rightarrow> nat \<Rightarrow> ('a \<Rightarrow> 'b option) \<Rightarrow> (nat \<Rightarrow> bool) \<Rightarrow> 'b list \<Rightarrow> bool"
  for cores items block work may_panic where
  one_block: "length items \<le> block \<Longrightarrow> map_in_blocks cores items block work may_panic (filter_map work items)"
| in_blocks: "length items > block \<Longrightarrow> block > 0 \<Longrightarrow> blocks = chunks block items \<Longrightarrow>
     map_indexed_with_threads cores (length blocks) None (block_work work blocks) may_panic produced \<Longrightarrow>
     map_in_blocks cores items block work may_panic (concat (map snd (sort_key fst produced)))"

subsection \<open>What a pool returns\<close>

fun results :: "'r drain \<Rightarrow> (nat \<times> 'r) list" where
  "results (Ready produced) = produced"
| "results (Working i produced) = produced"
| "results (Drained produced) = produced"
| "results _ = []"

fun working_on :: "'r drain \<Rightarrow> nat set" where
  "working_on (Working i produced) = {i}"
| "working_on _ = {}"

text \<open>
  What holds of drain \<open>w\<close> when \<open>k\<close> indices have been handed out, item \<open>i\<close> to drain \<open>c i\<close>: its results
  are those of items it claimed, one each, and each of its items is being worked on, has its result
  kept, or was lost to a panic.
\<close>

definition drain_ok :: "nat \<Rightarrow> (nat \<Rightarrow> nat \<Rightarrow> 'r option) \<Rightarrow> (nat \<Rightarrow> bool) \<Rightarrow> nat \<Rightarrow> (nat \<Rightarrow> nat) \<Rightarrow> nat \<Rightarrow> 'r drain \<Rightarrow> bool" where
  "drain_ok count work may_panic k c w d \<longleftrightarrow>
     (\<forall>(i, r) \<in> set (results d). i < k \<and> i < count \<and> c i = w \<and> work w i = Some r) \<and>
     (\<forall>i \<in> working_on d. i < k \<and> i < count \<and> c i = w \<and> i \<notin> fst ` set (results d)) \<and>
     distinct (map fst (results d)) \<and>
     (\<forall>i < k. i < count \<longrightarrow> c i = w \<longrightarrow>
        i \<in> working_on d \<or> d = Panicked \<or> (\<forall>r. work w i = Some r \<longrightarrow> (i, r) \<in> set (results d))) \<and>
     ((\<exists>produced. d = Drained produced) \<longrightarrow> count \<le> k) \<and> (d = Panicked \<longrightarrow> (\<exists>i. may_panic i))"

definition pool_ok :: "nat \<Rightarrow> (nat \<Rightarrow> nat \<Rightarrow> 'r option) \<Rightarrow> (nat \<Rightarrow> bool) \<Rightarrow> 'r pool \<Rightarrow> bool" where
  "pool_ok count work may_panic s \<longleftrightarrow>
     (\<exists>c. \<forall>w. drain_ok count work may_panic (next_idx s) c w (drains s w))"

lemma drain_ok_other:
  "drain_ok count work may_panic k c v d \<Longrightarrow> v \<noteq> w \<Longrightarrow> drain_ok count work may_panic (Suc k) (c(k := w)) v d"
  by (fastforce simp: drain_ok_def less_Suc_eq)

lemma drain_ok_claim:
  "drain_ok count work may_panic k c w (Ready produced) \<Longrightarrow>
     drain_ok count work may_panic (Suc k) (c(k := w)) w (claimed count k produced)"
  by (fastforce simp: drain_ok_def claimed_def less_Suc_eq)

lemma drain_ok_work:
  "drain_ok count work may_panic k c w (Working i produced) \<Longrightarrow>
     drain_ok count work may_panic k c w (Ready (push_result produced i (work w i)))"
  by (cases "work w i") (auto simp: drain_ok_def push_result_def)

lemma drain_ok_start:
  "drain_ok count work may_panic k c w d \<Longrightarrow> results d = [] \<Longrightarrow> working_on d = {} \<Longrightarrow> d \<noteq> Panicked \<Longrightarrow>
     drain_ok count work may_panic k c w (Ready []) \<and> drain_ok count work may_panic k c w Refused"
  by (simp add: drain_ok_def)

lemma pool_ok_set:
  assumes "pool_ok count work may_panic s" "drains s w = old" "next_idx s' = next_idx s" "drains s' = (drains s)(w := d)"
    and "\<And>c. drain_ok count work may_panic (next_idx s) c w old \<Longrightarrow> drain_ok count work may_panic (next_idx s) c w d"
  shows "pool_ok count work may_panic s'"
proof -
  obtain c where "\<forall>w. drain_ok count work may_panic (next_idx s) c w (drains s w)"
    using assms(1) by (auto simp: pool_ok_def)
  then have "\<forall>v. drain_ok count work may_panic (next_idx s') c v (drains s' v)"
    using assms(2-5) by (auto simp: assms(2) [symmetric])
  then show ?thesis by (auto simp: pool_ok_def)
qed

text \<open>Workers are spawned in turn, so the next one has not started, and neither has the caller's drain.\<close>

definition spawns_ok :: "nat \<Rightarrow> 'r pool \<Rightarrow> bool" where
  "spawns_ok n s \<longleftrightarrow> spawned s \<le> n \<and> (\<forall>w < spawned s. drains s w \<noteq> Not_Started) \<and>
     (\<forall>w. spawned s \<le> w \<longrightarrow> (drains s w = Not_Started \<or> w = n \<and> all_joined n s \<and> spawn_failed n s \<and> drains s w \<noteq> Refused))"

lemma pool_step_ok:
  assumes "pool_step count n work may_panic s s'" "pool_ok count work may_panic s" "spawns_ok n s"
  shows "pool_ok count work may_panic s'"
  using assms
proof (induction rule: pool_step.induct)
  case (pool_claim s w produced)
  then obtain c where c: "\<forall>w. drain_ok count work may_panic (next_idx s) c w (drains s w)"
    by (auto simp: pool_ok_def)
  let ?d = "claimed count (next_idx s) produced" and ?c = "c(next_idx s := w)"
  have "drain_ok count work may_panic (Suc (next_idx s)) ?c v (((drains s)(w := ?d)) v)" for v
    using drain_ok_other [OF spec [OF c, of v]] drain_ok_claim [of _ _ _ _ c w produced] c pool_claim.hyps
    by (cases "v = w") (auto dest: spec [of _ w])
  then show ?case unfolding pool_ok_def by (intro exI [of _ ?c]) simp
next
  case (pool_work s w i produced)
  show ?case by (rule pool_ok_set [OF pool_work.prems(1) pool_work.hyps, where d = "Ready (push_result produced i (work w i))"]) (simp_all add: drain_ok_work)
next
  case (pool_panic s w i produced)
  show ?case by (rule pool_ok_set [OF pool_panic.prems(1) pool_panic.hyps(1), where d = Panicked])
      (use pool_panic.hyps(2) in \<open>auto simp: drain_ok_def\<close>)
next
  case (pool_spawn s)
  then have "drains s (spawned s) = Not_Started" by (force simp: spawns_ok_def)
  then show ?case by (rule pool_ok_set [OF pool_spawn.prems(1), where d = "Ready []"]) (simp_all add: drain_ok_start)
next
  case (pool_refuse s)
  then have "drains s (spawned s) = Not_Started" by (force simp: spawns_ok_def)
  then show ?case by (rule pool_ok_set [OF pool_refuse.prems(1), where d = Refused]) (simp_all add: drain_ok_start)
next
  case (pool_rest s)
  show ?case by (rule pool_ok_set [OF pool_rest.prems(1) pool_rest.hyps(3), where d = "Ready []"]) (simp_all add: drain_ok_start)
qed

lemma running_drain: "spawns_ok n s \<Longrightarrow> drains s w \<noteq> Not_Started \<Longrightarrow> w < spawned s \<or> w = n \<and> all_joined n s \<and> spawn_failed n s \<and> drains s w \<noteq> Refused"
  unfolding spawns_ok_def by (meson not_le)

lemma spawns_ok_set:
  assumes "spawns_ok n s" "drains s w \<noteq> Not_Started" "\<not> joined (drains s w)"
    and "spawned s' = spawned s" "drains s' = (drains s)(w := d)" "d \<noteq> Not_Started" "d \<noteq> Refused"
  shows "spawns_ok n s'"
  using running_drain [OF assms(1,2)]
proof
  assume w: "w < spawned s"
  then have "\<not> all_joined n s" using assms(3) by (auto simp: all_joined_def list_all_iff)
  then show ?thesis using assms w by (auto simp: spawns_ok_def)
next
  assume w: "w = n \<and> all_joined n s \<and> spawn_failed n s \<and> drains s w \<noteq> Refused"
  then have "all_joined n s'" "spawn_failed n s'"
    using assms(4,5) by (auto simp: all_joined_def spawn_failed_def list_all_iff list_ex_iff)
  then show ?thesis using assms w by (auto simp: spawns_ok_def)
qed

lemma pool_step_spawns:
  assumes "pool_step count n work may_panic s s'" "spawns_ok n s"
  shows "spawns_ok n s'"
  using assms
proof (induction rule: pool_step.induct)
  case (pool_spawn s)
  then show ?case by (auto simp: spawns_ok_def all_joined_def)
next
  case (pool_refuse s)
  then show ?case by (auto simp: spawns_ok_def all_joined_def)
next
  case (pool_rest s)
  then show ?case by (auto simp: spawns_ok_def all_joined_def spawn_failed_def list_all_iff list_ex_iff)
next
  case (pool_claim s w produced)
  show ?case
    by (rule spawns_ok_set [OF pool_claim.prems, where w = w and d = "claimed count (next_idx s) produced"])
      (use pool_claim.hyps in \<open>simp_all add: claimed_def\<close>)
next
  case (pool_work s w i produced)
  show ?case
    by (rule spawns_ok_set [OF pool_work.prems, where w = w and d = "Ready (push_result produced i (work w i))"])
      (use pool_work.hyps in simp_all)
next
  case (pool_panic s w i produced)
  show ?case
    by (rule spawns_ok_set [OF pool_panic.prems, where w = w and d = Panicked]) (use pool_panic.hyps in simp_all)
qed

lemma reachable_pool:
  "pool_reachable count n work may_panic s \<Longrightarrow> pool_ok count work may_panic s \<and> spawns_ok n s"
proof (induction rule: pool_reachable.induct)
  case pool_init
  then show ?case by (auto simp: pool_ok_def drain_ok_def pool_start_def spawns_ok_def)
next
  case (pool_next s s')
  then show ?case using pool_step_ok pool_step_spawns by blast
qed

lemma distinct_by_owner:
  assumes "\<And>w. distinct (map fst (f w))" "\<And>w i r. (i, r) \<in> set (f w) \<Longrightarrow> c i = w" "distinct ws"
  shows "distinct (map fst (concat (map f ws)))"
  using assms(3)
proof (induction ws)
  case (Cons w ws)
  have "set (map fst (f w)) \<inter> set (map fst (concat (map f ws))) = {}"
  proof (rule ccontr)
    assume "\<not> ?thesis"
    then obtain i r r' v where "(i, r) \<in> set (f w)" "v \<in> set ws" "(i, r') \<in> set (f v)" by auto
    then show False using assms(2) [of i r w] assms(2) [of i r' v] Cons.prems by auto
  qed
  then show ?case using Cons assms(1) by simp
qed simp

lemma joined_results: "joined d \<Longrightarrow> d \<noteq> Panicked \<Longrightarrow> results d = drained d \<and> working_on d = {}"
  by (cases d) auto

lemma drained_results: "set (drained d) \<subseteq> set (results d)" "distinct (map fst (results d)) \<Longrightarrow> distinct (map fst (drained d))"
  by (cases d; simp)+

lemma pool_result_all:
  assumes "spawns_ok n s" "pool_result n s = Some merged"
  shows "merged = concat (map (\<lambda>w. drained (drains s w)) [0..<Suc n])" "all_joined n s"
    "\<not> spawn_failed n s \<Longrightarrow> drains s n = Not_Started" "spawn_failed n s \<Longrightarrow> \<exists>rest. drains s n = Drained rest"
proof -
  show joined: "all_joined n s" using assms(2) by (auto simp: pool_result_def Let_def split: if_splits)
  show idle: "\<not> spawn_failed n s \<Longrightarrow> drains s n = Not_Started"
    using running_drain [OF assms(1), of n] joined by (auto simp: all_joined_def)
  show rest: "spawn_failed n s \<Longrightarrow> \<exists>rest. drains s n = Drained rest"
    using assms(2) by (auto simp: pool_result_def Let_def split: if_splits drain.splits)
  show "merged = concat (map (\<lambda>w. drained (drains s w)) [0..<Suc n])"
    using assms(2) idle rest
    by (cases "spawn_failed n s") (auto simp: pool_result_def Let_def split: if_splits drain.splits)
qed

lemma idle_drain: "spawns_ok n s \<Longrightarrow> all_joined n s \<Longrightarrow> n < w \<Longrightarrow> drains s w = Not_Started"
  using running_drain [of n s w] by (auto simp: all_joined_def)

lemma pool_result_exact:
  assumes "pool_reachable count n (\<lambda>w. f) (\<lambda>i. False) s" "pool_result n s = Some merged" "0 < n"
  shows "distinct (map fst merged) \<and> set merged = {(i, r). i < count \<and> f i = Some r}"
proof -
  have spawns: "spawns_ok n s" and "pool_ok count (\<lambda>w. f) (\<lambda>i. False) s"
    using reachable_pool [OF assms(1)] by simp_all
  then obtain c where ok: "\<And>w. drain_ok count (\<lambda>w. f) (\<lambda>i. False) (next_idx s) c w (drains s w)"
    by (auto simp: pool_ok_def)
  note all = pool_result_all [OF spawns assms(2)]
  have owner: "c i = w \<and> i < count \<and> f i = Some r" if "(i, r) \<in> set (drained (drains s w))" for w i r
    using that ok [of w] drained_results(1) [of "drains s w"] by (auto simp: drain_ok_def)
  have "distinct (map fst (drained (drains s w)))" for w
    using ok [of w] drained_results(2) by (auto simp: drain_ok_def)
  then have "distinct (map fst merged)"
    unfolding all(1) using owner by (intro distinct_by_owner [where c = c]) (blast | simp)+
  moreover have "set merged \<subseteq> {(i, r). i < count \<and> f i = Some r}" using owner by (auto simp: all(1))
  moreover have "(i, r) \<in> set merged" if i: "i < count" "f i = Some r" for i r
  proof -
    have no_panic: "drains s w \<noteq> Panicked" for w using ok [of w] by (auto simp: drain_ok_def)
    have "\<exists>w. \<exists>produced. drains s w = Drained produced"
    proof (cases "spawn_failed n s")
      case False
      then have "joined (drains s 0)" "drains s 0 \<noteq> Refused"
        using all(2) assms(3) by (auto simp: all_joined_def spawn_failed_def list_all_iff list_ex_iff)
      then show ?thesis using no_panic [of 0] by (cases "drains s 0") auto
    qed (use all(4) in blast)
    then have "count \<le> next_idx s" using ok by (auto simp: drain_ok_def)
    then have handed: "i < next_idx s" using i(1) by simp
    let ?d = "drains s (c i)"
    have "i \<in> working_on ?d \<or> ?d = Panicked \<or> (i, r) \<in> set (results ?d)"
      using ok [of "c i"] i handed unfolding drain_ok_def by blast
    moreover have "results ?d = drained ?d \<and> working_on ?d = {}"
    proof (cases "c i < n")
      case True
      then show ?thesis using all(2) no_panic by (intro joined_results) (auto simp: all_joined_def list_all_iff)
    next
      case False
      then have "?d = Not_Started \<or> c i = n" using idle_drain [OF spawns all(2), of "c i"] by linarith
      then show ?thesis using all(3,4) by (cases "spawn_failed n s") auto
    qed
    ultimately have got: "(i, r) \<in> set (drained ?d)" using no_panic [of "c i"] by simp
    have "c i \<le> n"
    proof (rule ccontr)
      assume "\<not> c i \<le> n"
      then have "?d = Not_Started" using idle_drain [OF spawns all(2)] by simp
      then show False using got by simp
    qed
    then have "c i \<in> set [0..<Suc n]" by auto
    then show ?thesis using got unfolding all(1) set_concat set_map by blast
  qed
  ultimately show ?thesis by auto
qed

lemma map_indexed_exact:
  assumes "map_indexed_with_threads cores count threads (\<lambda>w. f) (\<lambda>i. False) merged" "0 < cores"
  shows "distinct (map fst merged) \<and> set merged = {(i, r). i < count \<and> f i = Some r}"
  using assms
proof (induction rule: map_indexed_with_threads.induct)
  case (pooled n s merged)
  then have "0 < n" by (auto simp: pool_width_def split: option.splits)
  then show ?case using pool_result_exact pooled.hyps by blast
qed simp

subsection \<open>Blocks\<close>

lemma concat_chunks: "n > 0 \<Longrightarrow> concat (chunks n xs) = xs"
proof (induction n xs rule: chunks.induct)
  case (1 n xs)
  then show ?case by (cases "xs = []") (simp add: chunks.simps, subst chunks.simps, simp)
qed

lemma map_filter_concat: "filter_map f (concat xss) = concat (map (filter_map f) xss)"
  by (induction xss) (simp_all add: filter_map_def map_filter_def)

lemma concat_filter_empty: "concat (map out (filter (\<lambda>i. out i \<noteq> []) is)) = concat (map out is)"
  by (induction "is") auto

text \<open>
  C36. A list worked on in blocks comes back as if it had been worked on in order by one thread:
  for every interleaving of the workers, every number of cores, every block size and any spawns the
  system refuses, as long as no work panics, the result is the plain \<open>filter_map\<close> of the items.
\<close>

theorem map_in_blocks_sequential:
  assumes "map_in_blocks cores items block work (\<lambda>i. False) out" "0 < cores"
  shows "out = filter_map work items"
  using assms
proof (induction rule: map_in_blocks.induct)
  case (in_blocks blocks produced)
  define n where "n = length blocks"
  define part where "part i = filter_map work (blocks ! i)" for i
  have work: "block_work work blocks = (\<lambda>w i. if part i = [] then None else Some (part i))"
    by (rule ext)+ (simp add: block_work_def part_def Let_def)
  have exact: "distinct (map fst produced)" "set produced = {(i, r). i < n \<and> part i \<noteq> [] \<and> r = part i}"
    using map_indexed_exact [of cores n None "\<lambda>i. if part i = [] then None else Some (part i)" produced]
      in_blocks.hyps(4) in_blocks.prems
    by (auto simp: work n_def split: if_splits)
  let ?ref = "map (\<lambda>i. (i, part i)) (filter (\<lambda>i. part i \<noteq> []) [0..<n])"
  have "sort_key fst produced = ?ref"
  proof (rule map_sorted_distinct_set_unique [where f = fst])
    show "inj_on fst (set (sort_key fst produced) \<union> set ?ref)" by (auto simp: exact(2) inj_on_def)
    show "set (sort_key fst produced) = set ?ref" by (auto simp: exact(2))
    show "sorted (map fst (sort_key fst produced))" by simp
    show "distinct (map fst (sort_key fst produced))" using exact(1) by (simp add: distinct_map)
    show "sorted (map fst ?ref)" by (simp add: comp_def sorted_wrt_filter)
    show "distinct (map fst ?ref)" by (simp add: comp_def)
  qed
  then have "concat (map snd (sort_key fst produced)) = concat (map part [0..<n])"
    by (simp add: comp_def concat_filter_empty)
  also have "map part [0..<n] = map (filter_map work) blocks"
    by (rule nth_equalityI) (simp_all add: n_def part_def)
  finally show ?case
    using concat_chunks [OF in_blocks.hyps(2), of items] in_blocks.hyps(3)
    by (simp add: map_filter_concat [symmetric])
qed simp

text \<open>A run on one worker and two blocks, step by step.\<close>

lemma map_in_blocks_sequential_witness:
  "\<exists>out. map_in_blocks 1 [3, 5 :: nat] (Suc 0) (\<lambda>x. Some (Suc x)) (\<lambda>i. False) out \<and> out = [4, 6]"
proof -
  let ?work = "block_work (\<lambda>x. Some (Suc x)) (chunks (Suc 0) [3, 5 :: nat])"
  have blocks: "chunks (Suc 0) [3, 5 :: nat] = [[3], [5]]" by (simp add: chunks.simps)
  have results: "?work 0 0 = Some [4]" "?work 0 (Suc 0) = Some [6]"
    by (simp_all add: block_work_def blocks filter_map_def map_filter_def)
  let ?at = "\<lambda>k d. \<lparr>next_idx = k, spawned = 1, drains = (\<lambda>w. Not_Started)(0 := d)\<rparr>"
  let ?reached = "pool_reachable 2 1 ?work (\<lambda>i. False)"
  have "?reached (?at 0 (Ready []))"
    using pool_next [OF pool_init pool_spawn, of 1 2 ?work "\<lambda>i. False"] by (simp add: pool_start_def)
  then have "?reached (?at 1 (Working 0 []))"
    using pool_next [OF _ pool_claim [where w = 0 and s = "?at 0 (Ready [])"], of 2 1 ?work "\<lambda>i. False"]
    by (simp add: claimed_def)
  then have "?reached (?at 1 (Ready [(0, [4])]))"
    using pool_next [OF _ pool_work [where w = 0 and s = "?at 1 (Working 0 [])"], of 2 1 ?work "\<lambda>i. False"]
    by (simp add: push_result_def results)
  then have "?reached (?at 2 (Working 1 [(0, [4])]))"
    using pool_next [OF _ pool_claim [where w = 0 and s = "?at 1 (Ready [(0, [4])])"], of 2 1 ?work "\<lambda>i. False"]
    by (simp add: claimed_def numeral_2_eq_2)
  then have "?reached (?at 2 (Ready [(0, [4]), (1, [6])]))"
    using pool_next [OF _ pool_work [where w = 0 and s = "?at 2 (Working 1 [(0, [4])])"], of 2 1 ?work "\<lambda>i. False"]
    by (simp add: push_result_def results)
  then have "?reached (?at 3 (Drained [(0, [4]), (1, [6])]))"
    using pool_next [OF _ pool_claim [where w = 0 and s = "?at 2 (Ready [(0, [4]), (1, [6])])"], of 2 1 ?work "\<lambda>i. False"]
    by (simp add: claimed_def)
  then have "map_indexed_with_threads 1 2 None ?work (\<lambda>i. False) [(0, [4]), (1, [6])]"
    by (rule pooled [rotated 2]) (simp_all add: pool_width_def pool_result_def all_joined_def spawn_failed_def)
  then have run: "map_in_blocks 1 [3, 5 :: nat] (Suc 0) (\<lambda>x. Some (Suc x)) (\<lambda>i. False)
      (concat (map snd (sort_key fst [(0 :: nat, [4]), (1, [6])])))"
    by (intro in_blocks [OF _ _ refl]) (simp_all add: blocks numeral_2_eq_2)
  with map_in_blocks_sequential [OF run] show ?thesis by (auto simp: filter_map_def map_filter_def)
qed

subsection \<open>Every run ends\<close>

text \<open>Steps a drain may still take beside the items left.\<close>

fun pending :: "'r drain \<Rightarrow> nat" where
  "pending Not_Started = 2"
| "pending (Ready produced) = 1"
| "pending (Working i produced) = 2"
| "pending _ = 0"

definition steps_left :: "nat \<Rightarrow> nat \<Rightarrow> 'r pool \<Rightarrow> nat" where
  "steps_left count n s = 2 * (count - next_idx s) + (\<Sum>w \<le> n. pending (drains s w))"

lemma sum_pending_update:
  "w \<le> n \<Longrightarrow> (\<Sum>v \<le> n. pending (((f :: nat \<Rightarrow> 'r drain)(w := d)) v)) + pending (f w) = (\<Sum>v \<le> n. pending (f v)) + pending d"
proof -
  assume "w \<le> n"
  then have split: "sum g {..n} = g w + sum g ({..n} - {w})" for g :: "nat \<Rightarrow> nat" by (simp add: sum.remove)
  have "(\<Sum>v \<in> {..n} - {w}. pending ((f(w := d)) v)) = (\<Sum>v \<in> {..n} - {w}. pending (f v))"
    by (rule sum.cong) auto
  then show ?thesis using split [of "\<lambda>v. pending ((f(w := d)) v)"] split [of "\<lambda>v. pending (f v)"] by simp
qed

lemma active_drain: "spawns_ok n s \<Longrightarrow> drains s w \<noteq> Not_Started \<Longrightarrow> w \<le> n"
  using running_drain [of n s w] by (auto simp: spawns_ok_def)

lemma steps_left_less:
  assumes "w \<le> n" "drains s' = (drains s)(w := d)" "2 * (count - next_idx s') + pending d < 2 * (count - next_idx s) + pending (drains s w)"
  shows "steps_left count n s' < steps_left count n s"
  using sum_pending_update [OF assms(1), of "drains s" d] assms(2,3) by (simp add: steps_left_def)

text \<open>
  C37. No run of the pool gets stuck and none goes on forever: every step uses up one of finitely
  many, and where no step is left the call has returned its results, or a panic of the calling
  thread's own drain is unwinding it.
\<close>

theorem pool_run_returns:
  assumes "pool_reachable count n work may_panic s"
  shows "(\<forall>s'. pool_step count n work may_panic s s' \<longrightarrow> steps_left count n s' < steps_left count n s) \<and>
    ((\<nexists>s'. pool_step count n work may_panic s s') \<longrightarrow> pool_result n s \<noteq> None \<or> drains s n = Panicked)"
proof (intro conjI allI impI)
  note spawns = conjunct2 [OF reachable_pool [OF assms]]
  fix s' assume "pool_step count n work may_panic s s'"
  then show "steps_left count n s' < steps_left count n s"
    using spawns
  proof (induction rule: pool_step.induct)
    case (pool_claim s w produced)
    then have "w \<le> n" using active_drain by fastforce
    then show ?case by (rule steps_left_less) (use pool_claim.hyps in \<open>auto simp: claimed_def\<close>)
  next
    case (pool_work s w i produced)
    then have "w \<le> n" using active_drain by fastforce
    then show ?case by (rule steps_left_less) (use pool_work.hyps in auto)
  next
    case (pool_panic s w i produced)
    then have "w \<le> n" using active_drain by fastforce
    then show ?case by (rule steps_left_less) (use pool_panic.hyps in auto)
  next
    case (pool_spawn s)
    then have "drains s (spawned s) = Not_Started" by (force simp: spawns_ok_def)
    then show ?case by (intro steps_left_less [of "spawned s"]) (use pool_spawn.hyps in auto)
  next
    case (pool_refuse s)
    then have "drains s (spawned s) = Not_Started" by (force simp: spawns_ok_def)
    then show ?case by (intro steps_left_less [of "spawned s"]) (use pool_refuse.hyps in auto)
  next
    case (pool_rest s)
    then show ?case by (intro steps_left_less [of n]) auto
  qed
next
  note spawns = conjunct2 [OF reachable_pool [OF assms]]
  assume stuck: "\<nexists>s'. pool_step count n work may_panic s s'"
  have idle: "joined (drains s w) \<or> drains s w = Not_Started" for w
  proof (cases "drains s w")
    case (Ready produced)
    then show ?thesis using pool_claim [OF Ready] stuck by blast
  next
    case (Working i produced)
    then show ?thesis using pool_work [OF Working] stuck by blast
  qed simp_all
  have "spawned s = n"
    using pool_spawn [of s n count work may_panic] stuck spawns by (force simp: spawns_ok_def)
  then have joined: "all_joined n s"
    using spawns idle unfolding all_joined_def spawns_ok_def list_all_iff by fastforce
  show "pool_result n s \<noteq> None \<or> drains s n = Panicked"
  proof (cases "spawn_failed n s")
    case True
    then have "drains s n \<noteq> Not_Started" using pool_rest [OF joined True] stuck by blast
    moreover from this have "drains s n \<noteq> Refused"
      using running_drain [OF spawns, of n] joined by (auto simp: all_joined_def)
    ultimately show ?thesis
      using idle [of n] joined True by (cases "drains s n") (auto simp: pool_result_def Let_def)
  qed (use joined in \<open>simp add: pool_result_def Let_def\<close>)
qed

lemma pool_run_returns_witness:
  "steps_left 2 1 ((pool_start :: nat pool)\<lparr>spawned := 1, drains := (drains pool_start)(0 := Ready [])\<rparr>)
     < steps_left 2 1 (pool_start :: nat pool)"
proof -
  have "pool_step 2 1 (\<lambda>w i. Some i) (\<lambda>i. True) pool_start
      (pool_start\<lparr>spawned := 1, drains := (drains pool_start)(0 := Ready [])\<rparr>)"
    using pool_spawn [of pool_start 1 2 "\<lambda>w i. Some i" "\<lambda>i. True"] by (simp add: pool_start_def)
  then show ?thesis
    by (rule pool_run_returns [OF pool_init, where count = 2 and n = 1, THEN conjunct1, THEN spec, THEN mp])
qed

text \<open>
  A panic on the only worker loses the items nobody has claimed as well, although the workers that
  did not start would have had theirs done by the calling thread.
\<close>

lemma panic_loses_unclaimed:
  "map_indexed_with_threads 1 2 (Some 1) (\<lambda>w i. Some i) (\<lambda>i. i = 0) []"
proof -
  let ?work = "\<lambda>w i :: nat. Some i" and ?panics = "\<lambda>i :: nat. i = 0"
  let ?at = "\<lambda>k d. \<lparr>next_idx = k, spawned = 1, drains = (\<lambda>w. Not_Started)(0 := d)\<rparr>"
  have "pool_reachable 2 1 ?work ?panics (?at 0 (Ready []))"
    using pool_next [OF pool_init pool_spawn, of 1 2 ?work ?panics] by (simp add: pool_start_def)
  then have "pool_reachable 2 1 ?work ?panics (?at 1 (Working 0 []))"
    using pool_next [OF _ pool_claim [where w = 0 and s = "?at 0 (Ready [])"], of 2 1 ?work ?panics]
    by (simp add: claimed_def)
  then have "pool_reachable 2 1 ?work ?panics (?at 1 Panicked)"
    using pool_next [OF _ pool_panic [where w = 0 and s = "?at 1 (Working 0 [])"], of 2 1 ?work ?panics] by simp
  then show ?thesis
    by (rule pooled [rotated 2]) (simp_all add: pool_width_def pool_result_def all_joined_def spawn_failed_def)
qed

end
