(* ===== verification/Layered_Pool.thy ===== *)
theory Layered_Pool
  imports Prelude
begin

section \<open>Items in layers\<close>

text \<open>
  \<open>for_each_layered\<close> of \<open>src/parallel.rs\<close>: item \<open>i\<close> starts only when \<open>ready_after ! i\<close> items have
  finished.  A worker claims an item off the counter, sleeps on the condition variable until its
  layer is ready, works, and when the guard drops, by a panic too, counts the item as finished and
  notifies; the calling thread then drains what the workers left.  Testing the count and falling
  asleep is one step, as the mutex is given back while going to sleep; counting and notifying are two.
\<close>

text \<open>
  A thread: not started, between items, awake or asleep with a claimed item, on an item, about to
  notify (after a panic or not), out of items, or unwound.
\<close>

datatype hand = Unborn | Free | At_Gate nat | Asleep nat | On nat | Counted bool | Gone | Unwound

text \<open>\<open>notify_all\<close>: every sleeping thread looks at the count again.\<close>

fun wake :: "hand \<Rightarrow> hand" where
  "wake (Asleep i) = At_Gate i"
| "wake h = h"

text \<open>
  Hand \<open>n\<close>, behind the workers, is the calling thread.  \<open>begun\<close> and \<open>ended\<close>, the items in the order
  they start and finish, are not in the code, which only counts the finished ones.
\<close>

record layered =
  counter :: nat
  born :: nat
  finished :: nat
  hands :: "nat \<Rightarrow> hand"
  begun :: "nat list"
  ended :: "nat list"

definition layered_start :: layered where
  "layered_start = \<lparr>counter = 0, born = 0, finished = 0, hands = (\<lambda>w. Unborn), begun = [], ended = []\<rparr>"

text \<open>The longest run of equal entries, \<open>chunk_by\<close> over the layers.\<close>

function widest_layer :: "nat list \<Rightarrow> nat" where
  "widest_layer [] = 0"
| "widest_layer (x # xs) =
     max (Suc (length (takeWhile (\<lambda>y. y = x) xs))) (widest_layer (dropWhile (\<lambda>y. y = x) xs))"
  by pat_completeness auto
termination by (relation "measure length") (auto simp: le_imp_less_Suc length_dropWhile_le)

text \<open>How many workers are spawned; none where one thread would do.\<close>

definition layered_width :: "nat \<Rightarrow> nat list \<Rightarrow> nat" where
  "layered_width cores ready_after =
     (let n_threads = min cores (widest_layer ready_after) in if n_threads \<le> 1 then 0 else n_threads)"

definition all_gone :: "nat \<Rightarrow> layered \<Rightarrow> bool" where
  "all_gone n s = (born s = n \<and> list_all (\<lambda>w. hands s w = Gone \<or> hands s w = Unwound) [0..<n])"

inductive layered_step :: "nat list \<Rightarrow> nat \<Rightarrow> (nat \<Rightarrow> bool) \<Rightarrow> layered \<Rightarrow> layered \<Rightarrow> bool"
  for ready_after n may_panic where
  layered_spawn: "born s < n \<Longrightarrow>
     layered_step ready_after n may_panic s (s\<lparr>born := born s + 1, hands := (hands s)(born s := Free)\<rparr>)"
| layered_lost: "born s < n \<Longrightarrow>
     layered_step ready_after n may_panic s (s\<lparr>born := born s + 1, hands := (hands s)(born s := Gone)\<rparr>)"
| layered_caller: "all_gone n s \<Longrightarrow> hands s n = Unborn \<Longrightarrow>
     layered_step ready_after n may_panic s (s\<lparr>hands := (hands s)(n := Free)\<rparr>)"
| layered_claim: "hands s w = Free \<Longrightarrow>
     layered_step ready_after n may_panic s
       (s\<lparr>counter := counter s + 1,
          hands := (hands s)(w := if counter s \<ge> length ready_after then Gone else At_Gate (counter s))\<rparr>)"
| layered_begin: "hands s w = At_Gate i \<Longrightarrow> ready_after ! i \<le> finished s \<Longrightarrow>
     layered_step ready_after n may_panic s (s\<lparr>hands := (hands s)(w := On i), begun := begun s @ [i]\<rparr>)"
| layered_sleep: "hands s w = At_Gate i \<Longrightarrow> finished s < ready_after ! i \<Longrightarrow>
     layered_step ready_after n may_panic s (s\<lparr>hands := (hands s)(w := Asleep i)\<rparr>)"
| layered_count: "hands s w = On i \<Longrightarrow> panicked \<longrightarrow> may_panic i \<Longrightarrow>
     layered_step ready_after n may_panic s
       (s\<lparr>finished := finished s + 1, hands := (hands s)(w := Counted panicked), ended := ended s @ [i]\<rparr>)"
| layered_notify: "hands s w = Counted panicked \<Longrightarrow>
     layered_step ready_after n may_panic s
       (s\<lparr>hands := (\<lambda>v. wake (hands s v))(w := if panicked then Unwound else Free)\<rparr>)"

inductive layered_reachable :: "nat list \<Rightarrow> nat \<Rightarrow> (nat \<Rightarrow> bool) \<Rightarrow> layered \<Rightarrow> bool"
  for ready_after n may_panic where
  layered_init: "layered_reachable ready_after n may_panic layered_start"
| layered_next: "layered_reachable ready_after n may_panic s \<Longrightarrow> layered_step ready_after n may_panic s s' \<Longrightarrow>
     layered_reachable ready_after n may_panic s'"

subsection \<open>Layers\<close>

text \<open>Each item names where its layer starts.\<close>

definition layers_ok :: "nat list \<Rightarrow> bool" where
  "layers_ok ra \<longleftrightarrow> (\<forall>i < length ra. ra ! i \<le> i \<and> (\<forall>j < length ra. ra ! i \<le> j \<longrightarrow> ra ! i \<le> ra ! j))"

text \<open>Hand \<open>w\<close> when \<open>k\<close> items have been handed out, item \<open>i\<close> to hand \<open>c i\<close>.\<close>

definition hand_ok :: "nat \<Rightarrow> nat \<Rightarrow> (nat \<Rightarrow> nat) \<Rightarrow> nat list \<Rightarrow> nat list \<Rightarrow> nat \<Rightarrow> hand \<Rightarrow> bool" where
  "hand_ok count k c bs es w h \<longleftrightarrow>
     (\<forall>i. h = At_Gate i \<or> h = Asleep i \<longrightarrow> i < k \<and> i < count \<and> c i = w \<and> i \<notin> set bs) \<and>
     (\<forall>i. h = On i \<longrightarrow> i < k \<and> i < count \<and> c i = w \<and> i \<in> set bs \<and> i \<notin> set es) \<and>
     (\<forall>i < k. i < count \<longrightarrow> c i = w \<longrightarrow> i \<in> set es \<or> h = At_Gate i \<or> h = Asleep i \<or> h = On i)"

definition layered_ok :: "nat list \<Rightarrow> layered \<Rightarrow> bool" where
  "layered_ok ra s \<longleftrightarrow>
     (\<exists>c. \<forall>w. hand_ok (length ra) (counter s) c (begun s) (ended s) w (hands s w)) \<and>
     finished s = length (ended s) \<and> distinct (begun s) \<and> distinct (ended s) \<and> set (ended s) \<subseteq> set (begun s) \<and>
     (\<forall>i \<in> set (begun s). i < counter s \<and> i < length ra \<and> (\<forall>j < ra ! i. j \<in> set (ended s)))"

text \<open>Workers are spawned in turn, the calling thread's drain starts behind them and ends with no item left.\<close>

definition born_ok :: "nat list \<Rightarrow> nat \<Rightarrow> layered \<Rightarrow> bool" where
  "born_ok ra n s \<longleftrightarrow> born s \<le> n \<and> (\<forall>w < born s. hands s w \<noteq> Unborn) \<and>
     (\<forall>w. born s \<le> w \<longrightarrow> hands s w = Unborn \<or> w = n \<and> all_gone n s) \<and>
     (hands s n = Gone \<longrightarrow> length ra \<le> counter s)"

text \<open>A thread asleep before a layer that is ready is about to be notified.\<close>

definition wake_ok :: "nat list \<Rightarrow> layered \<Rightarrow> bool" where
  "wake_ok ra s \<longleftrightarrow>
     (\<forall>w i. hands s w = Asleep i \<longrightarrow> ra ! i \<le> finished s \<longrightarrow> (\<exists>v panicked. hands s v = Counted panicked))"

text \<open>At an open gate the whole layers before the item have ended.\<close>

lemma gate_opens:
  assumes layers: "layers_ok ra" and ok: "layered_ok ra s" and i: "i < length ra" "ra ! i \<le> finished s"
  shows "\<forall>j < ra ! i. j \<in> set (ended s)"
proof (rule ccontr)
  note parts = ok [unfolded layered_ok_def]
  let ?k = "ra ! i"
  assume "\<not> ?thesis"
  then obtain j where j: "j < ?k" "j \<notin> set (ended s)" by blast
  have "\<exists>e \<in> set (ended s). ?k \<le> e"
  proof (rule ccontr)
    assume "\<not> ?thesis"
    then have "set (ended s) \<subseteq> {..<?k} - {j}" using j by force
    then have "card (set (ended s)) \<le> card ({..<?k} - {j})" by (intro card_mono) auto
    then have "length (ended s) \<le> ?k - 1" using parts j(1) by (simp add: distinct_card)
    then show False using parts i(2) j(1) by simp
  qed
  then obtain e where e: "e \<in> set (ended s)" "?k \<le> e" by blast
  then have "e \<in> set (begun s)" "e < length ra" using parts by auto
  then have "?k \<le> ra ! e" using layers i(1) e(2) by (auto simp: layers_ok_def)
  then have "j \<in> set (ended s)" using parts \<open>e \<in> set (begun s)\<close> j(1) by auto
  then show False using j(2) by simp
qed

lemma hand_ok_claim:
  "hand_ok count k c bs es w Free \<Longrightarrow> \<forall>i \<in> set bs. i < k \<Longrightarrow>
     hand_ok count (Suc k) (c(k := w)) bs es w (if k \<ge> count then Gone else At_Gate k)"
  by (auto simp: hand_ok_def less_Suc_eq)

lemma hand_ok_other:
  "hand_ok count k c bs es v h \<Longrightarrow> v \<noteq> w \<Longrightarrow> hand_ok count (Suc k) (c(k := w)) bs es v h"
  by (auto simp: hand_ok_def less_Suc_eq)

lemma hand_ok_begin:
  "hand_ok count k c bs es v h \<Longrightarrow> v \<noteq> c i \<Longrightarrow> hand_ok count k c (bs @ [i]) es v h"
  "hand_ok count k c bs es w (At_Gate i) \<Longrightarrow> i \<notin> set es \<Longrightarrow> hand_ok count k c (bs @ [i]) es w (On i)"
  by (auto simp: hand_ok_def)

lemma hand_ok_end:
  "hand_ok count k c bs es v h \<Longrightarrow> v \<noteq> c i \<Longrightarrow> hand_ok count k c bs (es @ [i]) v h"
  "hand_ok count k c bs es w (On i) \<Longrightarrow> hand_ok count k c bs (es @ [i]) w (Counted panicked)"
  by (fastforce simp: hand_ok_def)+

lemma hand_ok_wake:
  "hand_ok count k c bs es w h \<Longrightarrow> hand_ok count k c bs es w (wake h)"
  "hand_ok count k c bs es w (Counted panicked) \<Longrightarrow> h \<in> {Free, Unwound} \<Longrightarrow> hand_ok count k c bs es w h"
  "hand_ok count k c bs es w (At_Gate i) \<Longrightarrow> hand_ok count k c bs es w (Asleep i)"
  by (cases h) (fastforce simp: hand_ok_def)+

lemma hand_ok_new: "hand_ok count k c bs es w Unborn \<Longrightarrow> h \<in> {Free, Gone} \<Longrightarrow> hand_ok count k c bs es w h"
  by (fastforce simp: hand_ok_def)

lemma layered_ok_start_hand:
  assumes ok: "layered_ok ra s" and w: "hands s w = Unborn" "h \<in> {Free, Gone}"
    and s': "hands s' = (hands s)(w := h)" "counter s' = counter s" "finished s' = finished s"
      "begun s' = begun s" "ended s' = ended s"
  shows "layered_ok ra s'"
proof -
  note parts = ok [unfolded layered_ok_def]
  then obtain c where c: "\<And>v. hand_ok (length ra) (counter s) c (begun s) (ended s) v (hands s v)" by blast
  have "hand_ok (length ra) (counter s) c (begun s) (ended s) v (((hands s)(w := h)) v)" for v
    using c [of v] hand_ok_new [of _ _ c _ _ w h] w by (cases "v = w") auto
  then have "\<exists>c. \<forall>v. hand_ok (length ra) (counter s) c (begun s) (ended s) v (((hands s)(w := h)) v)" by blast
  then show ?thesis using conjunct2 [OF parts] unfolding layered_ok_def s' by (rule conjI)
qed

lemma layered_step_ok:
  assumes "layered_step ra n may_panic s s'" "layers_ok ra" "layered_ok ra s" "born_ok ra n s"
  shows "layered_ok ra s'"
  using assms
proof (induction rule: layered_step.induct)
  case (layered_claim s w)
  note parts = layered_claim.prems(2) [unfolded layered_ok_def]
  then obtain c where c: "\<And>v. hand_ok (length ra) (counter s) c (begun s) (ended s) v (hands s v)" by blast
  let ?h = "if counter s \<ge> length ra then Gone else At_Gate (counter s)"
  have "hand_ok (length ra) (Suc (counter s)) (c(counter s := w)) (begun s) (ended s) v (((hands s)(w := ?h)) v)" for v
    using hand_ok_other [OF c [of v], of w] hand_ok_claim [of "length ra" "counter s" c "begun s" "ended s" w] c [of w]
      layered_claim.hyps parts
    by (cases "v = w") auto
  then show ?case
    using parts unfolding layered_ok_def
    by (intro conjI exI [of _ "c(counter s := w)"]) (simp_all add: less_Suc_eq)
next
  case (layered_begin s w i)
  note parts = layered_begin.prems(2) [unfolded layered_ok_def]
  then obtain c where c: "\<And>v. hand_ok (length ra) (counter s) c (begun s) (ended s) v (hands s v)" by blast
  have i: "i < counter s" "i < length ra" "c i = w" "i \<notin> set (begun s)"
    using c [of w] layered_begin.hyps(1) by (auto simp: hand_ok_def)
  have "i \<notin> set (ended s)" using parts i(4) by blast
  then have "hand_ok (length ra) (counter s) c (begun s @ [i]) (ended s) v (((hands s)(w := On i)) v)" for v
    using hand_ok_begin(1) [OF c [of v], of i] hand_ok_begin(2) [of _ _ c _ _ w i] c [of w] i layered_begin.hyps(1)
    by (cases "v = w") auto
  moreover note gate_opens [OF layered_begin.prems(1,2) i(2) layered_begin.hyps(2)]
  ultimately show ?case using parts i unfolding layered_ok_def by (intro conjI exI [of _ c]) auto
next
  case (layered_count s w i panicked)
  note parts = layered_count.prems(2) [unfolded layered_ok_def]
  then obtain c where c: "\<And>v. hand_ok (length ra) (counter s) c (begun s) (ended s) v (hands s v)" by blast
  have i: "c i = w" "i \<in> set (begun s)" "i \<notin> set (ended s)"
    using c [of w] layered_count.hyps(1) by (auto simp: hand_ok_def)
  have "hand_ok (length ra) (counter s) c (begun s) (ended s @ [i]) v (((hands s)(w := Counted panicked)) v)" for v
    using hand_ok_end(1) [OF c [of v], of i] hand_ok_end(2) [of _ _ c _ _ w i] c [of w] i layered_count.hyps(1)
    by (cases "v = w") auto
  then show ?case using parts i unfolding layered_ok_def by (intro conjI exI [of _ c]) auto
next
  case (layered_notify s w panicked)
  note parts = layered_notify.prems(2) [unfolded layered_ok_def]
  then obtain c where c: "\<And>v. hand_ok (length ra) (counter s) c (begun s) (ended s) v (hands s v)" by blast
  let ?h = "if panicked then Unwound else Free"
  have "hand_ok (length ra) (counter s) c (begun s) (ended s) v (((\<lambda>v. wake (hands s v))(w := ?h)) v)" for v
    using hand_ok_wake(1) [OF c [of v]] hand_ok_wake(2) [of _ _ c _ _ w panicked ?h] c [of w] layered_notify.hyps
    by (cases "v = w") auto
  then show ?case using parts unfolding layered_ok_def by (intro conjI exI [of _ c]) auto
next
  case (layered_sleep s w i)
  note parts = layered_sleep.prems(2) [unfolded layered_ok_def]
  then obtain c where c: "\<And>v. hand_ok (length ra) (counter s) c (begun s) (ended s) v (hands s v)" by blast
  have "hand_ok (length ra) (counter s) c (begun s) (ended s) v (((hands s)(w := Asleep i)) v)" for v
    using c [of v] hand_ok_wake(3) [of _ _ c _ _ w i] c [of w] layered_sleep.hyps(1) by (cases "v = w") auto
  then show ?case using parts unfolding layered_ok_def by (intro conjI exI [of _ c]) auto
next
  case (layered_spawn s)
  then have "hands s (born s) = Unborn" by (force simp: born_ok_def)
  then show ?case by (rule layered_ok_start_hand [OF layered_spawn.prems(2), where h = Free]) simp_all
next
  case (layered_lost s)
  then have "hands s (born s) = Unborn" by (force simp: born_ok_def)
  then show ?case by (rule layered_ok_start_hand [OF layered_lost.prems(2), where h = Gone]) simp_all
next
  case (layered_caller s)
  show ?case
    by (rule layered_ok_start_hand [OF layered_caller.prems(2) layered_caller.hyps(2), where h = Free]) simp_all
qed


lemma started_hand: "born_ok ra n s \<Longrightarrow> hands s w \<noteq> Unborn \<Longrightarrow> w < born s \<or> w = n \<and> all_gone n s"
  unfolding born_ok_def by (meson not_le)

lemma born_ok_set:
  assumes "born_ok ra n s" "hands s w \<notin> {Unborn, Gone, Unwound}"
    and "born s' = born s" "hands s' = (hands s)(w := h)" "h \<noteq> Unborn" "counter s \<le> counter s'"
    and "h = Gone \<longrightarrow> length ra \<le> counter s'"
  shows "born_ok ra n s'"
proof -
  consider "w < born s" "\<not> all_gone n s" | "w = n" "all_gone n s"
    using started_hand [OF assms(1), of w] assms(2)
    by (cases "all_gone n s") (auto simp: all_gone_def list_all_iff)
  then show ?thesis
  proof cases
    case 1
    then show ?thesis using assms by (auto simp: born_ok_def)
  next
    case 2
    then have "all_gone n s'" using assms(3,4) by (auto simp: all_gone_def list_all_iff)
    then show ?thesis using 2 assms by (auto simp: born_ok_def)
  qed
qed

lemma wake_kinds [simp]:
  "wake h = Unborn \<longleftrightarrow> h = Unborn" "wake h = Gone \<longleftrightarrow> h = Gone" "wake h = Unwound \<longleftrightarrow> h = Unwound"
  "wake h = Counted panicked \<longleftrightarrow> h = Counted panicked"
  by (cases h; simp)+

lemma nobody_sleeps [simp]: "wake h \<noteq> Asleep i"
  by (cases h) simp_all

lemma born_ok_wake: "born_ok ra n s \<Longrightarrow> born_ok ra n (s\<lparr>hands := \<lambda>v. wake (hands s v)\<rparr>)"
  by (simp add: born_ok_def all_gone_def)

text \<open>Only a thread about to notify may not change hands while another sleeps.\<close>

lemma wake_ok_set:
  assumes "wake_ok ra s" "hands s' = (hands s)(w := h)" "finished s' = finished s" "\<forall>panicked. hands s w \<noteq> Counted panicked"
    and "\<forall>i. h = Asleep i \<longrightarrow> finished s < ra ! i"
  shows "wake_ok ra s'"
  unfolding wake_ok_def assms(2,3)
proof (intro allI impI)
  fix v i
  assume v: "((hands s)(w := h)) v = Asleep i" "ra ! i \<le> finished s"
  then have "hands s v = Asleep i" using assms(5) by (auto split: if_splits)
  then obtain u panicked where "hands s u = Counted panicked" using assms(1) v(2) unfolding wake_ok_def by blast
  moreover from this have "u \<noteq> w" using assms(4) by auto
  ultimately show "\<exists>u panicked. ((hands s)(w := h)) u = Counted panicked" by auto
qed

lemma layered_step_born:
  assumes "layered_step ra n may_panic s s'" "born_ok ra n s"
  shows "born_ok ra n s'"
  using assms
proof (induction rule: layered_step.induct)
  case (layered_spawn s)
  then show ?case by (auto simp: born_ok_def all_gone_def)
next
  case (layered_lost s)
  then show ?case by (auto simp: born_ok_def all_gone_def)
next
  case (layered_caller s)
  then show ?case by (auto simp: born_ok_def all_gone_def list_all_iff)
next
  case (layered_claim s w)
  show ?case
    by (rule born_ok_set [OF layered_claim.prems, where w = w and h = "if counter s \<ge> length ra then Gone else At_Gate (counter s)"])
      (use layered_claim.hyps in auto)
next
  case (layered_begin s w i)
  show ?case by (rule born_ok_set [OF layered_begin.prems, where w = w and h = "On i"]) (use layered_begin.hyps in auto)
next
  case (layered_sleep s w i)
  show ?case by (rule born_ok_set [OF layered_sleep.prems, where w = w and h = "Asleep i"]) (use layered_sleep.hyps in auto)
next
  case (layered_count s w i panicked)
  show ?case
    by (rule born_ok_set [OF layered_count.prems, where w = w and h = "Counted panicked"]) (use layered_count.hyps in auto)
next
  case (layered_notify s w panicked)
  show ?case
    by (rule born_ok_set [OF born_ok_wake [OF layered_notify.prems], where w = w and h = "if panicked then Unwound else Free"])
      (use layered_notify.hyps in auto)
qed

lemma layered_step_wake:
  assumes "layered_step ra n may_panic s s'" "wake_ok ra s" "born_ok ra n s"
  shows "wake_ok ra s'"
  using assms
proof (induction rule: layered_step.induct)
  case (layered_spawn s)
  then have "hands s (born s) = Unborn" by (force simp: born_ok_def)
  then show ?case by (intro wake_ok_set [OF layered_spawn.prems(1), where w = "born s" and h = Free]) simp_all
next
  case (layered_lost s)
  then have "hands s (born s) = Unborn" by (force simp: born_ok_def)
  then show ?case by (intro wake_ok_set [OF layered_lost.prems(1), where w = "born s" and h = Gone]) simp_all
next
  case (layered_caller s)
  then show ?case by (intro wake_ok_set [OF layered_caller.prems(1), where w = n and h = Free]) simp_all
next
  case (layered_claim s w)
  then show ?case
    by (intro wake_ok_set [OF layered_claim.prems(1), where w = w and h = "if counter s \<ge> length ra then Gone else At_Gate (counter s)"])
      simp_all
next
  case (layered_begin s w i)
  then show ?case by (intro wake_ok_set [OF layered_begin.prems(1), where w = w and h = "On i"]) simp_all
next
  case (layered_sleep s w i)
  then show ?case by (intro wake_ok_set [OF layered_sleep.prems(1), where w = w and h = "Asleep i"]) simp_all
next
  case (layered_count s w i panicked)
  show ?case unfolding wake_ok_def by (auto intro!: exI [of _ w])
next
  case (layered_notify s w panicked)
  show ?case by (simp add: wake_ok_def)
qed

lemma layered_start_ok [simp]: "layered_ok ra layered_start" "born_ok ra n layered_start" "wake_ok ra layered_start"
  by (simp_all add: layered_ok_def born_ok_def wake_ok_def layered_start_def hand_ok_def)

lemma layered_reachable_ok:
  assumes "layered_reachable ra n may_panic s" "layers_ok ra"
  shows "layered_ok ra s \<and> born_ok ra n s \<and> wake_ok ra s"
  using assms
  by (induction rule: layered_reachable.induct) (simp, blast intro: layered_step_ok layered_step_born layered_step_wake)

lemma begun_waits:
  "layered_reachable ra n may_panic s \<Longrightarrow> layers_ok ra \<Longrightarrow> i \<in> set (begun s) \<Longrightarrow> i < length ra \<and> {..<ra ! i} \<subseteq> set (ended s)"
  using layered_reachable_ok [of ra n may_panic s] unfolding layered_ok_def by blast

lemma two_layers: "layers_ok [0, 1]"
  by (auto simp: layers_ok_def less_Suc_eq)

lemma two_layers_run:
  "layered_reachable [0, 1] 0 may_panic \<lparr>counter = 2, born = 0, finished = 1,
     hands = (\<lambda>w. Unborn)(0 := On 1), begun = [0, 1], ended = [0]\<rparr>"
proof -
  let ?at = "\<lambda>k f h bs es. \<lparr>counter = k, born = 0, finished = f, hands = (\<lambda>w. Unborn)(0 := h), begun = bs, ended = es\<rparr>"
  let ?reached = "layered_reachable [0, 1] 0 may_panic"
  have "?reached (?at 0 0 Free [] [])"
    using layered_next [OF layered_init layered_caller, of 0 "[0, 1]" may_panic]
    by (simp add: all_gone_def layered_start_def)
  then have "?reached (?at 1 0 (At_Gate 0) [] [])"
    using layered_next [OF _ layered_claim [where w = 0 and s = "?at 0 0 Free [] []"], of "[0, 1]" 0 may_panic] by simp
  then have "?reached (?at 1 0 (On 0) [0] [])"
    using layered_next [OF _ layered_begin [where w = 0 and i = 0 and s = "?at 1 0 (At_Gate 0) [] []"], of "[0, 1]" 0 may_panic] by simp
  then have "?reached (?at 1 1 (Counted False) [0] [0])"
    using layered_next [OF _ layered_count [where w = 0 and i = 0 and panicked = False and s = "?at 1 0 (On 0) [0] []"], of "[0, 1]" 0 may_panic]
    by simp
  then have "?reached (?at 1 1 Free [0] [0])"
    using layered_next [OF _ layered_notify [where w = 0 and panicked = False and s = "?at 1 1 (Counted False) [0] [0]"], of "[0, 1]" 0 may_panic]
    by (simp add: fun_upd_def if_distrib [of wake] cong: if_cong)
  then have "?reached (?at 2 1 (At_Gate 1) [0] [0])"
    using layered_next [OF _ layered_claim [where w = 0 and s = "?at 1 1 Free [0] [0]"], of "[0, 1]" 0 may_panic]
    by (simp add: numeral_2_eq_2)
  then show ?thesis
    using layered_next [OF _ layered_begin [where w = 0 and i = 1 and s = "?at 2 1 (At_Gate 1) [0] [0]"], of "[0, 1]" 0 may_panic] by simp
qed

subsection \<open>Every layered run ends\<close>

fun hand_steps :: "nat \<Rightarrow> hand \<Rightarrow> nat" where
  "hand_steps n Unborn = 2"
| "hand_steps n Free = 1"
| "hand_steps n (At_Gate i) = n + 6"
| "hand_steps n (Asleep i) = n + 5"
| "hand_steps n (On i) = n + 4"
| "hand_steps n (Counted panicked) = n + 3"
| "hand_steps n _ = 0"

text \<open>A notification may send each of the other \<open>n\<close> threads back to its gate.\<close>

definition layered_left :: "nat \<Rightarrow> nat \<Rightarrow> layered \<Rightarrow> nat" where
  "layered_left count n s = (n + 6) * (count - counter s) + (\<Sum>w \<le> n. hand_steps n (hands s w))"

lemma hands_split: "w \<le> n \<Longrightarrow> sum g {..n} = g w + sum g ({..n} - {w})" for g :: "nat \<Rightarrow> nat"
  by (simp add: sum.remove)

lemma layered_left_less:
  assumes w: "w \<le> n" and step: "hands s' = (hands s)(w := h)"
    and less: "(n + 6) * (count - counter s') + hand_steps n h < (n + 6) * (count - counter s) + hand_steps n (hands s w)"
  shows "layered_left count n s' < layered_left count n s"
proof -
  have "(\<Sum>v \<in> {..n} - {w}. hand_steps n (hands s' v)) = (\<Sum>v \<in> {..n} - {w}. hand_steps n (hands s v))"
    by (rule sum.cong) (auto simp: step)
  then show ?thesis
    using hands_split [OF w, of "\<lambda>v. hand_steps n (hands s' v)"] hands_split [OF w, of "\<lambda>v. hand_steps n (hands s v)"] less
    by (simp add: layered_left_def step)
qed

lemma wake_steps: "hand_steps n (wake h) \<le> Suc (hand_steps n h)"
  by (cases h) simp_all

lemma layered_left_notify:
  assumes w: "w \<le> n" and hand: "hands s w = Counted panicked" "h \<in> {Free, Unwound}"
    and step: "hands s' = (\<lambda>v. wake (hands s v))(w := h)" "counter s' = counter s"
  shows "layered_left count n s' < layered_left count n s"
proof -
  have "(\<Sum>v \<in> {..n} - {w}. hand_steps n (hands s' v)) \<le> (\<Sum>v \<in> {..n} - {w}. hand_steps n (hands s v) + 1)"
    by (rule sum_mono) (simp add: step wake_steps)
  also have "\<dots> = (\<Sum>v \<in> {..n} - {w}. hand_steps n (hands s v)) + n"
    using w by (simp add: sum_Suc)
  finally show ?thesis
    using hands_split [OF w, of "\<lambda>v. hand_steps n (hands s' v)"] hands_split [OF w, of "\<lambda>v. hand_steps n (hands s v)"] hand
    by (auto simp: layered_left_def step)
qed

lemma active_hand: "born_ok ra n s \<Longrightarrow> hands s w \<noteq> Unborn \<Longrightarrow> w \<le> n"
  using started_hand [of ra n s w] by (auto simp: born_ok_def)

lemma layered_step_left:
  assumes "layered_step ra n may_panic s s'" "born_ok ra n s"
  shows "layered_left (length ra) n s' < layered_left (length ra) n s"
  using assms
proof (induction rule: layered_step.induct)
  case (layered_spawn s)
  then have "hands s (born s) = Unborn" by (force simp: born_ok_def)
  then show ?case by (intro layered_left_less [of "born s"]) (use layered_spawn.hyps in auto)
next
  case (layered_lost s)
  then have "hands s (born s) = Unborn" by (force simp: born_ok_def)
  then show ?case by (intro layered_left_less [of "born s"]) (use layered_lost.hyps in auto)
next
  case (layered_caller s)
  then show ?case by (intro layered_left_less [of n]) auto
next
  case (layered_claim s w)
  then have "w \<le> n" using active_hand by fastforce
  moreover have "(n + 6) * (length ra - counter s) = (n + 6) * (length ra - Suc (counter s)) + (n + 6)"
    if "\<not> length ra \<le> counter s"
    using that by (metis Suc_diff_Suc not_le mult_Suc_right add.commute)
  ultimately show ?case by (intro layered_left_less [of w]) (use layered_claim.hyps in auto)
next
  case (layered_begin s w i)
  then have "w \<le> n" using active_hand by fastforce
  then show ?case by (rule layered_left_less) (use layered_begin.hyps in auto)
next
  case (layered_sleep s w i)
  then have "w \<le> n" using active_hand by fastforce
  then show ?case by (rule layered_left_less) (use layered_sleep.hyps in auto)
next
  case (layered_count s w i panicked)
  then have "w \<le> n" using active_hand by fastforce
  then show ?case by (rule layered_left_less) (use layered_count.hyps in auto)
next
  case (layered_notify s w panicked)
  then have "w \<le> n" using active_hand by fastforce
  then show ?case using layered_notify.hyps by (rule layered_left_notify) simp_all
qed

text \<open>The least item that has not finished is never held back.\<close>

lemma stuck_items_ended:
  assumes layers: "layers_ok ra" and ok: "layered_ok ra s" "wake_ok ra s" and stuck: "\<nexists>s'. layered_step ra n may_panic s s'"
    and i: "i < counter s" "i < length ra"
  shows "i \<in> set (ended s)"
  using i
proof (induction i rule: less_induct)
  case (less i)
  note parts = ok(1) [unfolded layered_ok_def]
  then obtain c where "\<And>w. hand_ok (length ra) (counter s) c (begun s) (ended s) w (hands s w)" by blast
  then have hand: "i \<in> set (ended s) \<or> hands s (c i) = At_Gate i \<or> hands s (c i) = Asleep i \<or> hands s (c i) = On i"
    using less.prems by (auto simp: hand_ok_def)
  have "{..<i} \<subseteq> set (ended s)" using less by auto
  then have "card {..<i} \<le> card (set (ended s))" by (intro card_mono) auto
  then have "i \<le> finished s" using parts by (simp add: distinct_card)
  then have "ra ! i \<le> finished s" using layers less.prems by (force simp: layers_ok_def)
  then have "hands s (c i) \<noteq> Asleep i" using ok(2) stuck layered_notify unfolding wake_ok_def by blast
  then show ?case using hand stuck \<open>ra ! i \<le> finished s\<close> layered_begin layered_count [where panicked = False] by blast
qed

text \<open>
  C35. For layers as \<open>layers_ok\<close> asks, where no item waits for more items than are in front of it, a
  layered run neither deadlocks nor goes on forever, however few of its workers start and whatever
  panics: every step uses up one of finitely many, no thread sleeps through the notification it
  waits for, and where no step is left the calling thread has returned with every item begun and
  finished once, or a panic on its own item unwound it.
\<close>

theorem layered_run_ends:
  assumes "layered_reachable ra n may_panic s" "layers_ok ra"
  shows "(\<forall>s'. layered_step ra n may_panic s s' \<longrightarrow> layered_left (length ra) n s' < layered_left (length ra) n s) \<and>
    ((\<nexists>s'. layered_step ra n may_panic s s') \<longrightarrow>
       hands s n = Unwound \<or>
       hands s n = Gone \<and> distinct (ended s) \<and> set (ended s) = {..<length ra} \<and> set (begun s) = set (ended s))"
proof (intro conjI allI impI)
  have ok: "layered_ok ra s" and born: "born_ok ra n s" and woken: "wake_ok ra s"
    using layered_reachable_ok [OF assms] by blast+
  show "layered_left (length ra) n s' < layered_left (length ra) n s" if "layered_step ra n may_panic s s'" for s'
    using layered_step_left [OF that born] .
  assume stuck: "\<nexists>s'. layered_step ra n may_panic s s'"
  note parts = ok [unfolded layered_ok_def]
  note all_ended = stuck_items_ended [OF assms(2) ok woken stuck]
  obtain c where c: "\<And>w. hand_ok (length ra) (counter s) c (begun s) (ended s) w (hands s w)" using parts by blast
  have idle: "hands s w \<in> {Gone, Unwound, Unborn}" for w
  proof (cases "hands s w")
    case Free
    then show ?thesis using layered_claim stuck by blast
  next
    case (At_Gate i)
    then have "i < counter s" "i < length ra" "i \<notin> set (begun s)" using c [of w] by (auto simp: hand_ok_def)
    then show ?thesis using all_ended parts by blast
  next
    case (Asleep i)
    then have "i < counter s" "i < length ra" "i \<notin> set (begun s)" using c [of w] by (auto simp: hand_ok_def)
    then show ?thesis using all_ended parts by blast
  next
    case (On i)
    then show ?thesis using layered_count [where panicked = False] stuck by blast
  next
    case (Counted panicked)
    then show ?thesis using layered_notify stuck by blast
  qed simp_all
  have "born s = n" using layered_spawn [of s n ra may_panic] stuck born by (force simp: born_ok_def)
  then have gone: "all_gone n s" using idle born unfolding all_gone_def born_ok_def list_all_iff by fastforce
  then have "hands s n \<noteq> Unborn" using layered_caller stuck by blast
  moreover have "{..<length ra} \<subseteq> set (ended s)" if "hands s n = Gone"
  proof -
    have "length ra \<le> counter s" using that born unfolding born_ok_def by blast
    then show ?thesis using all_ended by auto
  qed
  moreover have "set (begun s) \<subseteq> {..<length ra}" "set (ended s) \<subseteq> set (begun s)" using parts by auto
  ultimately show "hands s n = Unwound \<or> hands s n = Gone \<and> distinct (ended s) \<and> set (ended s) = {..<length ra} \<and> set (begun s) = set (ended s)"
    using idle [of n] parts by auto
qed

lemma layered_run_ends_witness:
  "layered_left 2 0 (layered_start\<lparr>hands := (hands layered_start)(0 := Free)\<rparr>) < layered_left 2 0 layered_start"
proof -
  have "layered_step [0, 1] 0 (\<lambda>i. True) layered_start (layered_start\<lparr>hands := (hands layered_start)(0 := Free)\<rparr>)"
    by (rule layered_caller) (simp_all add: all_gone_def layered_start_def)
  with layered_run_ends [OF layered_init two_layers, where n = 0 and may_panic = "\<lambda>i. True"]
  show ?thesis by (simp add: numeral_2_eq_2)
qed

text \<open>
  That the bounds are in order is not enough: an item asked to wait for more items than are in front
  of it blocks its thread, although \<open>ready_after\<close> is non-decreasing.
\<close>

lemma sorted_layers_deadlock:
  "\<exists>s. layered_reachable [1] 0 may_panic s \<and> hands s 0 = Asleep 0 \<and> (\<nexists>s'. layered_step [1] 0 may_panic s s')"
proof -
  let ?at = "\<lambda>k h. \<lparr>counter = k, born = 0, finished = 0, hands = (\<lambda>w. Unborn)(0 := h), begun = [], ended = []\<rparr>"
  have "layered_reachable [1] 0 may_panic (?at 0 Free)"
    using layered_next [OF layered_init layered_caller, of 0 "[1]" may_panic]
    by (simp add: all_gone_def layered_start_def)
  then have "layered_reachable [1] 0 may_panic (?at 1 (At_Gate 0))"
    using layered_next [OF _ layered_claim [where w = 0 and s = "?at 0 Free"], of "[1]" 0 may_panic] by simp
  then have "layered_reachable [1] 0 may_panic (?at 1 (Asleep 0))"
    using layered_next [OF _ layered_sleep [where w = 0 and i = 0 and s = "?at 1 (At_Gate 0)"], of "[1]" 0 may_panic] by simp
  moreover have "\<not> layered_step [1] 0 may_panic (?at 1 (Asleep 0)) s'" for s'
    by (rule notI, erule layered_step.cases) (auto split: if_splits)
  ultimately show ?thesis by (intro exI [of _ "?at 1 (Asleep 0)"]) simp
qed

end
