(* ===== verification/Blade_Order.thy ===== *)
theory Blade_Order
  imports Layered_Pool "HOL-Library.Multiset"
begin

section \<open>The order templates are refreshed in\<close>

text \<open>
  \<open>blade_render_order\<close> of \<open>src/blade/call_site_refresh.rs\<close> and \<open>canonical_view_name\<close> of
  \<open>src/virtual_members/laravel/view_names.rs\<close>: the templates of a refresh pass, layer by layer, so
  that each comes behind all that render it.  What a template is called and what it renders come
  from the file system and the symbol maps; they are arguments.
\<close>

subsection \<open>View names\<close>

fun split_colons :: "str \<Rightarrow> (str \<times> str) option" where
  "split_colons (c # d # s) =
     (if c = CHR '':'' \<and> d = CHR '':'' then Some ([], s)
      else map_option (\<lambda>(before, after). (c # before, after)) (split_colons (d # s)))"
| "split_colons _ = None"

definition normalised_view :: "str \<Rightarrow> str" where
  "normalised_view view =
     map (\<lambda>c. if c = CHR ''/'' then CHR ''.'' else c) (dropWhile (\<lambda>c. c \<in> {CHR ''/'', CHR ''.''}) view)"

definition canonical_view_name :: "str \<Rightarrow> str" where
  "canonical_view_name name =
     (let (namespace, view) = (case split_colons name of
            Some (namespace, view) \<Rightarrow> (Some namespace, view) | None \<Rightarrow> (None, name))
      in if CHR ''/'' \<notin> set view \<and> \<not> starts_with view ''.'' then name
         else case namespace of
           Some namespace \<Rightarrow> namespace @ ''::'' @ normalised_view view
         | None \<Rightarrow> normalised_view view)"

subsection \<open>Who renders whom\<close>

type_synonym templates_graph = "nat list list \<times> nat list"

text \<open>Which template each canonical name stands for; the last template of a name keeps it.\<close>

definition name_templates :: "(str \<Rightarrow> str list) \<Rightarrow> str list \<Rightarrow> (str \<rightharpoonup> nat)" where
  "name_templates view_names uris =
     fold (\<lambda>(index, uri). fold (\<lambda>name m. m(canonical_view_name name \<mapsto> index)) (view_names uri))
       (enumerate 0 uris) Map.empty"

definition add_render :: "(str \<rightharpoonup> nat) \<Rightarrow> nat \<Rightarrow> str \<Rightarrow> templates_graph \<Rightarrow> templates_graph" where
  "add_render rendered_by_name index name g =
     (case g of (renders, renderers) \<Rightarrow>
        (case rendered_by_name (canonical_view_name name) of
           None \<Rightarrow> (renders, renderers)
         | Some target \<Rightarrow>
             if target = index \<or> target \<in> set (renders ! index) then (renders, renderers)
             else (renders[index := renders ! index @ [target]], renderers[target := renderers ! target + 1])))"

definition render_graph :: "(str \<Rightarrow> str list) \<Rightarrow> (str \<Rightarrow> str list) \<Rightarrow> str list \<Rightarrow> templates_graph" where
  "render_graph view_names rendered_names uris =
     fold (\<lambda>(index, uri). fold (add_render (name_templates view_names uris) index) (rendered_names uri))
       (enumerate 0 uris) (replicate (length uris) [], replicate (length uris) 0)"

subsection \<open>Layer by layer\<close>

text \<open>
  A template whose last renderer is placed joins the next layer.  Every index is that of a template;
  one out of range, a panic of the code, is never met.
\<close>

definition release_rendered :: "nat \<Rightarrow> nat list \<times> nat list \<Rightarrow> nat list \<times> nat list" where
  "release_rendered target s =
     (case s of (renderers, next_layer) \<Rightarrow>
        let renderers = renderers[target := renderers ! target - 1]
        in (renderers, if renderers ! target = 0 then next_layer @ [target] else next_layer))"

definition renders_at :: "nat list list \<Rightarrow> nat \<Rightarrow> nat list" where
  "renders_at renders index = (if index < length renders then renders ! index else [])"

definition place :: "nat \<Rightarrow> nat list list \<times> nat list \<times> nat list \<Rightarrow> nat list list \<times> nat list \<times> nat list" where
  "place index s =
     (case s of (renders, renderers, next_layer) \<Rightarrow>
        (renders[index := []], fold release_rendered (renders_at renders index) (renderers, next_layer)))"

definition renders_left :: "nat list list \<Rightarrow> nat" where
  "renders_left renders = sum_list (map length renders)"

lemma renders_left_clear: "renders_at renders i \<noteq> [] \<Longrightarrow> renders_left (renders[i := []]) < renders_left renders"
proof (simp add: renders_at_def split: if_splits)
  assume i: "i < length renders" "renders ! i \<noteq> []"
  have "map length renders ! i \<le> sum_list (map length renders)" using i by (intro elem_le_sum_list) simp
  moreover from i have "0 < map length renders ! i" by simp
  ultimately have "0 < sum_list (map length renders)" by linarith
  then show "renders_left (renders[i := []]) < renders_left renders"
    using i by (simp add: renders_left_def map_update sum_list_update)
qed

lemma renders_left_place:
  "fold place xs (renders, renderers, nx) = (renders', renderers', nx') \<Longrightarrow>
     renders_left renders' < renders_left renders \<or> renders_left renders' = renders_left renders \<and> nx' = nx"
proof (induction xs arbitrary: renders renderers nx)
  case (Cons i xs)
  obtain r n where rn: "fold release_rendered (renders_at renders i) (renderers, nx) = (r, n)" by fastforce
  note step = Cons.IH [of "renders[i := []]" r n]
  show ?case
  proof (cases "renders_at renders i = []")
    case True
    then have "renders[i := []] = renders" by (metis list_update_id list_update_beyond not_le renders_at_def)
    then show ?thesis using step True Cons.prems rn by (auto simp: place_def)
  next
    case False
    then have "renders_left (renders[i := []]) < renders_left renders" by (rule renders_left_clear)
    then show ?thesis using step Cons.prems rn by (auto simp: place_def)
  qed
qed simp

function walk_layers :: "nat list list \<Rightarrow> nat list \<Rightarrow> nat list \<Rightarrow> nat list \<Rightarrow> nat list \<Rightarrow> nat list \<times> nat list" where
  "walk_layers renders renderers order ready_after layer =
     (if layer = [] then (order, ready_after)
      else case fold place layer (renders, renderers, []) of
        (renders', renderers', next_layer) \<Rightarrow>
          walk_layers renders' renderers' (order @ layer)
            (ready_after @ replicate (length layer) (length order)) (sort next_layer))"
  by pat_completeness auto
termination
  by (relation "measures [\<lambda>(renders, _). renders_left renders, \<lambda>(_, _, _, _, layer). length layer]")
    (auto dest!: renders_left_place [OF sym])
declare walk_layers.simps [simp del]

text \<open>The order by index: the layers, then what the walk does not reach, each on its own.\<close>

definition layered_order :: "templates_graph \<Rightarrow> nat list \<times> nat list" where
  "layered_order g =
     (case g of (renders, renderers) \<Rightarrow>
        let n = length renders;
            (order, ready_after) = walk_layers renders renderers [] [] (filter (\<lambda>i. renderers ! i = 0) [0..<n]);
            rest = filter (\<lambda>i. i \<notin> set order) [0..<n]
        in (order @ rest, ready_after @ [length order..<length order + length rest]))"

definition blade_render_order :: "(str \<Rightarrow> str list) \<Rightarrow> (str \<Rightarrow> str list) \<Rightarrow> str list \<Rightarrow> str list \<times> nat list" where
  "blade_render_order view_names rendered_names uris =
     (let uris = sort uris;
          (order, ready_after) = layered_order (render_graph view_names rendered_names uris)
      in (map (\<lambda>i. uris ! i) order, ready_after))"

subsection \<open>What a layer does to the counts\<close>

lemma fold_release:
  assumes "fold release_rendered ts (r, nx) = (r', nx')"
    and "\<forall>j. count_list ts j \<le> r ! j \<or> j \<ge> length r" "set ts \<subseteq> {..<length r}" "distinct nx" "\<forall>j \<in> set nx. r ! j = 0"
  shows "length r' = length r \<and> (\<forall>j < length r. r' ! j = r ! j - count_list ts j) \<and> distinct nx' \<and>
    set nx' = set nx \<union> {j \<in> set ts. r ! j = count_list ts j}"
  using assms
proof (induction ts arbitrary: r nx)
  case (Cons t ts)
  define r1 where "r1 = r[t := r ! t - 1]"
  define nx1 where "nx1 = (if r1 ! t = 0 then nx @ [t] else nx)"
  have t: "t < length r" "Suc (count_list ts t) \<le> r ! t"
    using Cons.prems(3) spec [OF Cons.prems(2), of t] by auto
  have fold1: "fold release_rendered ts (r1, nx1) = (r', nx')"
    using Cons.prems(1) unfolding r1_def nx1_def fold.simps comp_apply by (simp only: release_rendered_def Let_def prod.case)
  have at: "r1 ! j = (if j = t then r ! t - 1 else r ! j)" for j using t(1) by (simp add: r1_def nth_list_update)
  have "t \<notin> set nx" using Cons.prems(5) t(2) by auto
  then have nx: "distinct nx1" "\<forall>j \<in> set nx1. r1 ! j = 0" using Cons.prems(4,5) by (auto simp: nx1_def at)
  have counts: "\<forall>j. count_list ts j \<le> r1 ! j \<or> j \<ge> length r1"
  proof
    fix j show "count_list ts j \<le> r1 ! j \<or> j \<ge> length r1"
      using spec [OF Cons.prems(2), of j] t by (auto simp: at r1_def split: if_splits)
  qed
  have len: "length r1 = length r" by (simp add: r1_def)
  note IH = Cons.IH [OF fold1 counts _ nx, unfolded len]
  then have "length r' = length r" "\<forall>j < length r. r' ! j = r1 ! j - count_list ts j" "distinct nx'"
    "set nx' = set nx1 \<union> {j \<in> set ts. r1 ! j = count_list ts j}" using Cons.prems(3) by auto
  moreover have "0 < count_list ts t \<longleftrightarrow> t \<in> set ts" using count_list_0_iff [of ts t] by auto
  then have "set nx1 \<union> {j \<in> set ts. r1 ! j = count_list ts j} =
      set nx \<union> {j \<in> set (t # ts). r ! j = count_list (t # ts) j}"
    using t by (auto simp: nx1_def at split: if_splits)
  ultimately show ?case using t by (auto simp: at)
qed simp

lemma fold_place:
  "distinct xs \<Longrightarrow> fold place xs (renders, s) =
     (fold (\<lambda>i r. r[i := []]) xs renders, fold release_rendered (concat (map (renders_at renders) xs)) s)"
proof (induction xs arbitrary: renders s)
  case (Cons i xs)
  have same: "map (renders_at (renders[i := []])) xs = map (renders_at renders) xs"
    using Cons.prems by (intro map_cong refl, unfold renders_at_def length_list_update) (metis distinct.simps(2) nth_list_update_neq)
  show ?case using Cons by (cases s) (simp add: place_def same)
qed simp

lemma nth_cleared:
  "j < length renders \<Longrightarrow> fold (\<lambda>i r. r[i := []]) xs renders ! j = (if j \<in> set xs then [] else renders ! j)"
  by (induction xs arbitrary: renders) (auto simp: nth_list_update)

lemma cleared_length [simp]: "length (fold (\<lambda>i r. r[i := []]) xs renders) = length renders"
  by (induction xs arbitrary: renders) simp_all

lemma distinct_once: "distinct xs \<Longrightarrow> count_list xs j = (if j \<in> set xs then 1 else 0)"
  by (induction xs) auto

lemma count_concat_map:
  assumes "distinct xs" "\<And>i. i \<in> set xs \<Longrightarrow> distinct (f i)"
  shows "count_list (concat (map f xs)) j = card {i \<in> set xs. j \<in> set (f i)}"
  using assms
proof (induction xs)
  case (Cons x xs)
  have "count_list (f x) j = (if j \<in> set (f x) then 1 else 0)"
    using Cons.prems(2) [of x] by (simp add: distinct_once)
  moreover have "{i \<in> set (x # xs). j \<in> set (f i)} =
      (if j \<in> set (f x) then insert x {i \<in> set xs. j \<in> set (f i)} else {i \<in> set xs. j \<in> set (f i)})" by auto
  ultimately show ?case using Cons by auto
qed simp


subsection \<open>The layers\<close>

definition renders_edge :: "nat list list \<Rightarrow> (nat \<times> nat) set" where
  "renders_edge renders = {(i, j). i < length renders \<and> j \<in> set (renders ! i)}"

text \<open>
  The graph as it is built: the targets of a template differ, and \<open>renderers\<close> counts who renders it.
\<close>

definition graph_ok :: "templates_graph \<Rightarrow> bool" where
  "graph_ok g \<longleftrightarrow> (case g of (renders, renderers) \<Rightarrow> length renderers = length renders \<and>
     (\<forall>i < length renders. distinct (renders ! i) \<and> set (renders ! i) \<subseteq> {..<length renders} - {i}) \<and>
     (\<forall>j < length renders. renderers ! j = card {i. (i, j) \<in> renders_edge renders}))"

text \<open>What holds between two layers, \<open>g\<close> being the graph the walk started with.\<close>

definition walk_ok :: "nat list list \<Rightarrow> nat list list \<Rightarrow> nat list \<Rightarrow> nat list \<Rightarrow> nat list \<Rightarrow> nat list \<Rightarrow> bool" where
  "walk_ok g renders renderers order ready_after layer \<longleftrightarrow>
     length renders = length g \<and> length renderers = length g \<and>
     (\<forall>i < length g. renders ! i = (if i \<in> set order then [] else g ! i)) \<and>
     (\<forall>j < length g. renderers ! j = card {i. (i, j) \<in> renders_edge g \<and> i \<notin> set order}) \<and>
     (\<forall>j < length g. renderers ! j = 0 \<longleftrightarrow> j \<in> set order \<union> set layer) \<and>
     distinct (order @ layer) \<and> set (order @ layer) \<subseteq> {..<length g} \<and>
     length ready_after = length order \<and> layers_ok ready_after \<and>
     (\<forall>p < length order. \<forall>i. (i, order ! p) \<in> renders_edge g \<longrightarrow> (\<exists>q < ready_after ! p. order ! q = i))"

lemma finite_renderers [simp]: "finite {i. (i, j) \<in> renders_edge g \<and> P i}"
  by (rule finite_subset [of _ "{..<length g}"]) (auto simp: renders_edge_def)

lemma layers_ok_append:
  "layers_ok ra \<Longrightarrow> layers_ok (ra @ replicate n (length ra))"
  by (auto simp: layers_ok_def nth_append)

lemma graph_targets:
  "graph_ok (g, r) \<Longrightarrow> i < length g \<Longrightarrow> distinct (g ! i) \<and> set (g ! i) \<subseteq> {..<length g}"
  by (auto simp: graph_ok_def)

lemma place_layer_ok:
  assumes g: "graph_ok (g, r0)" and ok: "walk_ok g renders renderers order ready_after layer"
    and placed: "fold place layer (renders, renderers, []) = (renders', renderers', nx)"
  shows "walk_ok g renders' renderers' (order @ layer) (ready_after @ replicate (length layer) (length order)) (sort nx)"
proof -
  note parts = ok [unfolded walk_ok_def]
  have dist: "distinct layer" "set layer \<inter> set order = {}" using parts by auto
  have layer_lt: "\<And>i. i \<in> set layer \<Longrightarrow> i < length g" using parts by auto
  let ?ts = "concat (map (renders_at renders) layer)"
  have at: "renders_at renders i = g ! i" if "i \<in> set layer" for i
    using parts that dist layer_lt by (auto simp: renders_at_def)
  have renders': "renders' = fold (\<lambda>i r. r[i := []]) layer renders"
    and released: "fold release_rendered ?ts (renderers, []) = (renderers', nx)"
    using placed dist(1) by (simp_all add: fold_place)
  have count: "count_list ?ts j = card {i \<in> set layer. j \<in> set (g ! i)}" for j
  proof -
    have "{i \<in> set layer. j \<in> set (renders_at renders i)} = {i \<in> set layer. j \<in> set (g ! i)}" using at by auto
    then show ?thesis using count_concat_map [of layer "renders_at renders" j] dist at graph_targets [OF g] layer_lt by auto
  qed
  have split: "{i. (i, j) \<in> renders_edge g \<and> i \<notin> set order} =
      {i. (i, j) \<in> renders_edge g \<and> i \<notin> set (order @ layer)} \<union> {i \<in> set layer. j \<in> set (g ! i)}" for j
    using dist layer_lt by (auto simp: renders_edge_def)
  have sum: "renderers ! j = card {i. (i, j) \<in> renders_edge g \<and> i \<notin> set (order @ layer)} + count_list ?ts j"
    if "j < length g" for j
  proof -
    have "renderers ! j = card {i. (i, j) \<in> renders_edge g \<and> i \<notin> set order}" using parts that by blast
    also have "\<dots> = card {i. (i, j) \<in> renders_edge g \<and> i \<notin> set (order @ layer)} + count_list ?ts j"
      unfolding split count by (rule card_Un_disjoint) auto
    finally show ?thesis .
  qed
  have len: "length renderers = length g" using parts by blast
  have some: "0 < count_list ?ts j \<longleftrightarrow> j \<in> set ?ts" for j using count_list_0_iff [of ?ts j] by linarith
  have ts_lt: "set ?ts \<subseteq> {..<length renderers}"
  proof
    fix t assume "t \<in> set ?ts"
    then obtain i where "i \<in> set layer" "t \<in> set (g ! i)" using at by auto
    then show "t \<in> {..<length renderers}" using graph_targets [OF g, of i] layer_lt len by auto
  qed
  have "\<forall>j. count_list ?ts j \<le> renderers ! j \<or> j \<ge> length renderers" 
  proof
    fix j show "count_list ?ts j \<le> renderers ! j \<or> j \<ge> length renderers"
      using sum [of j] unfolding len by linarith
  qed
  note new = fold_release [OF released this ts_lt, unfolded len, simplified]
  have count': "\<forall>j < length g. renderers' ! j = card {i. (i, j) \<in> renders_edge g \<and> i \<notin> set (order @ layer)}"
    using new sum by auto
  have old_zero: "\<forall>j < length g. renderers ! j = 0 \<longleftrightarrow> j \<in> set order \<union> set layer" using parts by blast
  have nx_lt: "set nx \<subseteq> {..<length g}" using new ts_lt len by auto
  have nx_new: "j \<notin> set order \<union> set layer" if "j \<in> set nx" for j
  proof -
    have "j \<in> set ?ts" "renderers ! j = count_list ?ts j" using new that by auto
    then show ?thesis using some [of j] old_zero nx_lt that by auto
  qed
  have zero': "\<forall>j < length g. renderers' ! j = 0 \<longleftrightarrow> j \<in> set (order @ layer) \<union> set nx"
  proof (intro allI impI)
    fix j assume j: "j < length g"
    have "renderers' ! j = renderers ! j - count_list ?ts j" "count_list ?ts j \<le> renderers ! j"
      using new sum [OF j] j by auto
    moreover have "j \<in> set nx \<longleftrightarrow> j \<in> set ?ts \<and> renderers ! j = count_list ?ts j" using new by auto
    ultimately show "renderers' ! j = 0 \<longleftrightarrow> j \<in> set (order @ layer) \<union> set nx"
      using some [of j] old_zero j by auto
  qed
  let ?ra = "ready_after @ replicate (length layer) (length order)"
  have ra: "length ready_after = length order" "layers_ok ready_after" using parts by auto
  have older: "\<forall>p < length order. \<forall>i. (i, order ! p) \<in> renders_edge g \<longrightarrow> (\<exists>q < ready_after ! p. order ! q = i)"
    using parts by blast
  have before': "\<exists>q < ?ra ! p. (order @ layer) ! q = i"
    if p: "p < length (order @ layer)" and i: "(i, (order @ layer) ! p) \<in> renders_edge g" for p i
  proof (cases "p < length order")
    case True
    moreover from this have "(i, order ! p) \<in> renders_edge g" using i by (simp add: nth_append)
    ultimately obtain q where "q < ready_after ! p" "order ! q = i" using older by blast
    moreover have "ready_after ! p \<le> p" using ra True by (simp add: layers_ok_def)
    ultimately show ?thesis using True ra(1) by (intro exI [of _ q]) (auto simp: nth_append)
  next
    case False
    let ?j = "layer ! (p - length order)"
    have j: "?j \<in> set layer" using p False by auto
    then have "card {i. (i, ?j) \<in> renders_edge g \<and> i \<notin> set order} = 0" using parts layer_lt old_zero by auto
    then have "i \<in> set order" using i False by (auto simp: nth_append)
    then obtain q where "q < length order" "order ! q = i" by (auto simp: in_set_conv_nth)
    then show ?thesis using False p ra(1) by (intro exI [of _ q]) (auto simp: nth_append)
  qed
  show ?thesis
    unfolding walk_ok_def
  proof (intro conjI)
    show "\<forall>i < length g. renders' ! i = (if i \<in> set (order @ layer) then [] else g ! i)"
      using parts by (auto simp: renders' nth_cleared)
    show "layers_ok ?ra" using layers_ok_append [OF ra(2)] ra(1) by simp
    have "distinct (order @ layer)" using parts by blast
    moreover have "distinct nx" using new by blast
    moreover have "set (order @ layer) \<inter> set nx = {}" using nx_new by fastforce
    ultimately show "distinct ((order @ layer) @ sort nx)" by auto
    show "set ((order @ layer) @ sort nx) \<subseteq> {..<length g}" using parts nx_lt by auto
    show "\<forall>p < length (order @ layer). \<forall>i. (i, (order @ layer) ! p) \<in> renders_edge g \<longrightarrow> (\<exists>q < ?ra ! p. (order @ layer) ! q = i)"
      using before' by blast
    show "length renders' = length g" using parts by (simp add: renders')
    show "length ?ra = length (order @ layer)" using ra(1) by simp
  qed (use new count' zero' in auto)
qed

text \<open>Where the walk stops, every template left has a renderer that is left.\<close>

lemma walk_layers_ok:
  assumes "graph_ok (g, r0)" "walk_ok g renders renderers order ready_after layer"
    and "walk_layers renders renderers order ready_after layer = (order', ready')"
  shows "\<exists>renders' renderers'. walk_ok g renders' renderers' order' ready' []"
  using assms
proof (induction renders renderers order ready_after layer rule: walk_layers.induct)
  case (1 renders renderers order ready_after layer)
  show ?case
  proof (cases "layer = []")
    case True
    then show ?thesis using "1.prems" by (auto simp: walk_layers.simps)
  next
    case False
    obtain renders' renderers' nx where placed: "fold place layer (renders, renderers, []) = (renders', renderers', nx)"
      by (metis prod.exhaust)
    then show ?thesis
      using "1.IH" [OF False placed [symmetric] refl "1.prems"(1) place_layer_ok [OF "1.prems"(1,2) placed]] "1.prems"(3) False
      by (simp add: walk_layers.simps [of renders])
  qed
qed

lemma walk_start_ok:
  assumes "graph_ok (g, r)"
  shows "walk_ok g g r [] [] (filter (\<lambda>i. r ! i = 0) [0..<length g])"
  using assms unfolding walk_ok_def graph_ok_def by (auto simp: layers_ok_def)


text \<open>A template below a cycle: one it renders, through any number of templates.\<close>

definition below_cycle :: "('a \<times> 'a) set \<Rightarrow> 'a \<Rightarrow> bool" where
  "below_cycle E j \<longleftrightarrow> (\<exists>k. (k, k) \<in> E\<^sup>+ \<and> (k, j) \<in> E\<^sup>*)"

lemma backwards_cycle:
  assumes "finite U" "j \<in> U" "\<And>v. v \<in> U \<Longrightarrow> \<exists>u \<in> U. (u, v) \<in> E"
  shows "below_cycle E j"
proof (rule ccontr)
  assume none: "\<not> below_cycle E j"
  let ?A = "{u \<in> U. (u, j) \<in> E\<^sup>*}" and ?F = "{(u, v). (u, v) \<in> E \<and> u \<in> U \<and> v \<in> U \<and> (v, j) \<in> E\<^sup>*}"
  have "finite ?F" by (rule finite_subset [of _ "U \<times> U"]) (use assms(1) in auto)
  moreover have "acyclic ?F"
  proof (rule acyclicI, intro allI notI)
    fix k assume k: "(k, k) \<in> ?F\<^sup>+"
    then have "(k, k) \<in> E\<^sup>+" by (rule trancl_mono) auto
    moreover have "(k, j) \<in> E\<^sup>*" using tranclD2 [OF k] by auto
    ultimately show False using none by (auto simp: below_cycle_def)
  qed
  ultimately have "wf ?F" by (rule finite_acyclic_wf)
  then obtain m where m: "m \<in> ?A" "\<And>u. (u, m) \<in> ?F \<Longrightarrow> u \<notin> ?A"
    using wfE_min [of ?F j ?A] assms(2) by auto
  then obtain u where "u \<in> U" "(u, m) \<in> E" using assms(3) [of m] by auto
  then show False using m(2) [of u] m(1) by (auto intro: converse_rtrancl_into_rtrancl)
qed

lemma placed_no_cycle:
  assumes pos: "\<And>p i. p < length order \<Longrightarrow> (i, order ! p) \<in> E \<Longrightarrow> \<exists>q < p. order ! q = i"
    and "distinct order" "p < length order"
  shows "\<not> below_cycle E (order ! p)"
proof
  have step: "\<exists>q < p. order ! q = k" if "(k, j) \<in> E\<^sup>+" "j = order ! p" "p < length order" for k j p
    using that
  proof (induction arbitrary: p rule: trancl_induct)
    case (base j)
    then show ?case using pos by blast
  next
    case (step j l)
    then obtain q where "q < p" "order ! q = j" using pos by blast
    moreover from this obtain q' where "q' < q" "order ! q' = k" using step.IH [of q] step.prems by auto
    ultimately show ?case by (intro exI [of _ q']) simp
  qed
  assume "below_cycle E (order ! p)"
  then obtain k where k: "(k, k) \<in> E\<^sup>+" "(k, order ! p) \<in> E\<^sup>*" by (auto simp: below_cycle_def)
  then have "(k, order ! p) \<in> E\<^sup>+" by (rule trancl_rtrancl_trancl)
  then obtain q where "q < p" "order ! q = k" using step [of k "order ! p" p] assms(3) by auto
  then have q: "q < length order" "order ! q = k" using assms(3) by simp_all
  then obtain q' where "q' < q" "order ! q' = k" using step [OF k(1) _ q(1)] by auto
  then show False using q assms(2) by (auto simp: nth_eq_iff_index_eq)
qed

lemma layered_order_ok:
  assumes g: "graph_ok (g, r)" and run: "layered_order (g, r) = (order, ready_after)"
  shows "distinct order" "set order = {..<length g}" "length ready_after = length order" "layers_ok ready_after"
    and "p < length order \<Longrightarrow> below_cycle (renders_edge g) (order ! p) \<Longrightarrow> ready_after ! p = p"
    and "p < length order \<Longrightarrow> \<not> below_cycle (renders_edge g) (order ! p) \<Longrightarrow> (i, order ! p) \<in> renders_edge g \<Longrightarrow>
      \<exists>q < ready_after ! p. order ! q = i"
proof -
  obtain ord ra where walk: "walk_layers g r [] [] (filter (\<lambda>i. r ! i = 0) [0..<length g]) = (ord, ra)" by fastforce
  define rest where "rest = filter (\<lambda>i. i \<notin> set ord) [0..<length g]"
  have order: "order = ord @ rest" "ready_after = ra @ [length ord..<length ord + length rest]"
    using run walk by (simp_all add: layered_order_def rest_def Let_def)
  obtain renders renderers where "walk_ok g renders renderers ord ra []"
    using walk_layers_ok [OF g walk_start_ok [OF g] walk] by blast
  note parts = this [unfolded walk_ok_def]
  then have ra: "length ra = length ord" "layers_ok ra" and ord: "distinct ord" "set ord \<subseteq> {..<length g}"
    and older: "\<forall>p < length ord. \<forall>i. (i, ord ! p) \<in> renders_edge g \<longrightarrow> (\<exists>q < ra ! p. ord ! q = i)" by auto
  show dist: "distinct order" and all: "set order = {..<length g}" using ord by (auto simp: order rest_def)
  show "length ready_after = length order" using ra by (simp add: order)
  show "layers_ok ready_after" using ra by (auto simp: order layers_ok_def nth_append)
  have left: "below_cycle (renders_edge g) j" if "j \<in> set rest" for j
  proof (rule backwards_cycle [OF _ that])
    fix v assume "v \<in> set rest"
    then have v: "v < length g" "v \<notin> set ord" by (auto simp: rest_def)
    then have "renderers ! v \<noteq> 0" using parts by (metis UnE empty_iff list.set(1))
    then have "card {i. (i, v) \<in> renders_edge g \<and> i \<notin> set ord} \<noteq> 0" using parts v(1) by metis
    then have "{i. (i, v) \<in> renders_edge g \<and> i \<notin> set ord} \<noteq> {}" by (metis card.empty)
    then obtain u where "(u, v) \<in> renders_edge g" "u \<notin> set ord" by blast
    then show "\<exists>u \<in> set rest. (u, v) \<in> renders_edge g" by (auto simp: rest_def renders_edge_def)
  qed simp
  have placed: "\<not> below_cycle (renders_edge g) (ord ! p)" if "p < length ord" for p
  proof (rule placed_no_cycle [OF _ ord(1) that])
    fix p i assume p: "p < length ord" "(i, ord ! p) \<in> renders_edge g"
    then obtain q where "q < ra ! p" "ord ! q = i" using older by blast
    moreover have "ra ! p \<le> p" using ra p(1) by (simp add: layers_ok_def)
    ultimately show "\<exists>q < p. ord ! q = i" by (intro exI [of _ q]) simp
  qed
  show "ready_after ! p = p" if "p < length order" "below_cycle (renders_edge g) (order ! p)"
    using that placed [of p] ra by (auto simp: order nth_append)
  show "\<exists>q < ready_after ! p. order ! q = i"
    if p: "p < length order" "\<not> below_cycle (renders_edge g) (order ! p)" "(i, order ! p) \<in> renders_edge g"
  proof -
    have lt: "p < length ord"
    proof (rule ccontr)
      assume "\<not> p < length ord"
      then have "order ! p \<in> set rest" using p(1) by (auto simp: order nth_append)
      then show False using left p(2) by blast
    qed
    then obtain q where "q < ra ! p" "ord ! q = i" using older p(3) by (auto simp: order nth_append)
    moreover have "ra ! p \<le> p" using ra lt by (simp add: layers_ok_def)
    ultimately show ?thesis using lt ra by (intro exI [of _ q]) (auto simp: order nth_append)
  qed
qed

subsection \<open>The graph that is built\<close>

lemma add_render_ok:
  assumes ok: "graph_ok g" and index: "index < length (fst g)" and ran: "ran names \<subseteq> {..<length (fst g)}"
  shows "graph_ok (add_render names index name g)" "length (fst (add_render names index name g)) = length (fst g)"
    "renders_edge (fst (add_render names index name g)) = renders_edge (fst g) \<union>
       {(i, t). i = index \<and> names (canonical_view_name name) = Some t \<and> t \<noteq> index}"
proof -
  obtain renders renderers where g: "g = (renders, renderers)" by fastforce
  let ?g' = "add_render names index name g"
  have "graph_ok ?g' \<and> length (fst ?g') = length (fst g) \<and> renders_edge (fst ?g') = renders_edge (fst g) \<union>
       {(i, t). i = index \<and> names (canonical_view_name name) = Some t \<and> t \<noteq> index}"
  proof (cases "names (canonical_view_name name)")
    case None
    then show ?thesis using ok by (simp add: add_render_def g)
  next
    case (Some target)
    then have target: "target < length renders" using ran by (auto simp: g ran_def)
    show ?thesis
    proof (cases "target = index \<or> target \<in> set (renders ! index)")
      case True
      then show ?thesis using ok Some index by (auto simp: add_render_def g renders_edge_def)
    next
      case False
      let ?rs = "renders[index := renders ! index @ [target]]"
      have edges: "renders_edge ?rs = insert (index, target) (renders_edge renders)"
        using index by (auto simp: renders_edge_def g nth_list_update split: if_splits)
      have counts: "card {i. (i, j) \<in> renders_edge ?rs} = card {i. (i, j) \<in> renders_edge renders} + (if j = target then 1 else 0)" for j
      proof -
        have "{i. (i, j) \<in> renders_edge ?rs} = (if j = target then insert index else id) {i. (i, j) \<in> renders_edge renders}"
          unfolding edges by auto
        moreover have "(index, target) \<notin> renders_edge renders" using False by (simp add: renders_edge_def)
        ultimately show ?thesis using finite_renderers [of j renders "\<lambda>i. True"] by (cases "j = target") simp_all
      qed
      have "graph_ok ?g'"
        using ok False Some index target
        by (auto simp: add_render_def g graph_ok_def counts nth_list_update)
      then show ?thesis using False Some edges by (auto simp: add_render_def g)
    qed
  qed
  then show "graph_ok ?g'" "length (fst ?g') = length (fst g)"
    "renders_edge (fst ?g') = renders_edge (fst g) \<union>
       {(i, t). i = index \<and> names (canonical_view_name name) = Some t \<and> t \<noteq> index}" by blast+
qed

lemma add_renders_ok:
  assumes "graph_ok g" "index < length (fst g)" "ran names \<subseteq> {..<length (fst g)}"
  shows "graph_ok (fold (add_render names index) rendered g) \<and>
    length (fst (fold (add_render names index) rendered g)) = length (fst g) \<and>
    renders_edge (fst (fold (add_render names index) rendered g)) = renders_edge (fst g) \<union>
      {(i, t). i = index \<and> (\<exists>name \<in> set rendered. names (canonical_view_name name) = Some t) \<and> t \<noteq> index}"
  using assms
proof (induction rendered arbitrary: g)
  case (Cons name rendered)
  note step = add_render_ok [OF Cons.prems, of name]
  show ?case
    using Cons.IH [of "add_render names index name g"] Cons.prems step by auto
qed auto


lemma add_all_renders_ok:
  assumes "graph_ok g" "\<forall>(index, uri) \<in> set templates. index < length (fst g)" "ran names \<subseteq> {..<length (fst g)}"
  shows "graph_ok (fold (\<lambda>(index, uri). fold (add_render names index) (rendered uri)) templates g) \<and>
    length (fst (fold (\<lambda>(index, uri). fold (add_render names index) (rendered uri)) templates g)) = length (fst g) \<and>
    renders_edge (fst (fold (\<lambda>(index, uri). fold (add_render names index) (rendered uri)) templates g)) =
      renders_edge (fst g) \<union> {(i, t). \<exists>uri. (i, uri) \<in> set templates \<and>
        (\<exists>name \<in> set (rendered uri). names (canonical_view_name name) = Some t) \<and> t \<noteq> i}"
  using assms
proof (induction templates arbitrary: g)
  case (Cons template templates)
  obtain index uri where template: "template = (index, uri)" by fastforce
  let ?g = "fold (add_render names index) (rendered uri) g"
  have step: "graph_ok ?g" "length (fst ?g) = length (fst g)"
    "renders_edge (fst ?g) = renders_edge (fst g) \<union>
      {(i, t). i = index \<and> (\<exists>name \<in> set (rendered uri). names (canonical_view_name name) = Some t) \<and> t \<noteq> index}"
    using add_renders_ok [of g index names "rendered uri"] Cons.prems by (auto simp: template)
  show ?case using Cons.IH [of ?g] Cons.prems step by (auto simp: template)
qed simp

text \<open>A name stands for the last template, in URI order, that has it.\<close>

definition template_named :: "(str \<Rightarrow> str list) \<Rightarrow> str list \<Rightarrow> str \<Rightarrow> str option" where
  "template_named view_names uris name =
     (case filter (\<lambda>uri. canonical_view_name name \<in> canonical_view_name ` set (view_names uri)) (sort uris) of
        [] \<Rightarrow> None
      | named \<Rightarrow> Some (last named))"

lemma names_of_template:
  "fold (\<lambda>name m. m(canonical_view_name name \<mapsto> index)) names m c =
     (if c \<in> canonical_view_name ` set names then Some index else m c)"
  by (induction names arbitrary: m) auto

lemma name_templates_snoc:
  "name_templates view_names (uris @ [uri]) c =
     (if c \<in> canonical_view_name ` set (view_names uri) then Some (length uris) else name_templates view_names uris c)"
  by (simp add: name_templates_def enumerate_append_eq names_of_template)

lemma name_templates_Nil [simp]: "name_templates view_names [] = Map.empty"
  by (simp add: name_templates_def)

lemma name_templates_lt: "name_templates view_names uris c = Some i \<Longrightarrow> i < length uris"
  by (induction uris rule: rev_induct) (auto simp: name_templates_snoc less_Suc_eq split: if_splits)

lemma name_templates_last:
  "map_option ((!) uris) (name_templates view_names uris c) =
     (case filter (\<lambda>uri. c \<in> canonical_view_name ` set (view_names uri)) uris of [] \<Rightarrow> None | named \<Rightarrow> Some (last named))"
proof (induction uris rule: rev_induct)
  case (snoc uri uris)
  have "map_option ((!) (uris @ [uri])) (name_templates view_names uris c) = map_option ((!) uris) (name_templates view_names uris c)"
    using name_templates_lt [of view_names uris c] by (cases "name_templates view_names uris c") (auto simp: nth_append)
  then show ?case using snoc by (auto simp: name_templates_snoc split: list.splits)
qed simp

definition renders_uri :: "(str \<Rightarrow> str list) \<Rightarrow> (str \<Rightarrow> str list) \<Rightarrow> str list \<Rightarrow> (str \<times> str) set" where
  "renders_uri view_names rendered_names uris =
     {(u, v). u \<in> set uris \<and> u \<noteq> v \<and> (\<exists>name \<in> set (rendered_names u). template_named view_names uris name = Some v)}"

lemma render_graph_ok:
  assumes "sorted us" "distinct us"
  shows "graph_ok (render_graph view_names rendered_names us)" "length (fst (render_graph view_names rendered_names us)) = length us"
    "renders_uri view_names rendered_names us = map_prod ((!) us) ((!) us) ` renders_edge (fst (render_graph view_names rendered_names us))"
proof -
  let ?g0 = "(replicate (length us) [], replicate (length us) 0) :: templates_graph"
  let ?names = "name_templates view_names us"
  let ?E = "{(i, t). \<exists>uri. (i, uri) \<in> set (enumerate 0 us) \<and>
     (\<exists>name \<in> set (rendered_names uri). ?names (canonical_view_name name) = Some t) \<and> t \<noteq> i}"
  have none: "renders_edge (fst ?g0) = {}" by (auto simp: renders_edge_def)
  have "graph_ok ?g0" using none by (simp add: graph_ok_def)
  moreover have "ran ?names \<subseteq> {..<length (fst ?g0)}" by (auto simp: ran_def name_templates_lt)
  moreover have "\<forall>(index, uri) \<in> set (enumerate 0 us). index < length (fst ?g0)" by (auto simp: in_set_enumerate_eq)
  ultimately have all: "graph_ok (render_graph view_names rendered_names us)"
    "length (fst (render_graph view_names rendered_names us)) = length us"
    "renders_edge (fst (render_graph view_names rendered_names us)) = ?E"
    using add_all_renders_ok [of ?g0 "enumerate 0 us" ?names rendered_names] none
    by (simp_all add: render_graph_def)
  then show "graph_ok (render_graph view_names rendered_names us)"
    "length (fst (render_graph view_names rendered_names us)) = length us" by simp_all
  have named: "template_named view_names us name = map_option ((!) us) (?names (canonical_view_name name))" for name
    using assms(1) by (simp add: template_named_def name_templates_last sorted_sort_id)
  have E: "?E = {(i, t). i < length us \<and> t \<noteq> i \<and> (\<exists>name \<in> set (rendered_names (us ! i)). ?names (canonical_view_name name) = Some t)}"
    by (auto simp: in_set_enumerate_eq)
  show "renders_uri view_names rendered_names us = map_prod ((!) us) ((!) us) ` renders_edge (fst (render_graph view_names rendered_names us))"
  proof (intro equalityI subsetI)
    fix x assume "x \<in> renders_uri view_names rendered_names us"
    then obtain u v name t where x: "x = (u, v)" "u \<in> set us" "u \<noteq> v" "name \<in> set (rendered_names u)"
      "?names (canonical_view_name name) = Some t" "v = us ! t"
      by (auto simp: renders_uri_def named)
    then obtain i where "i < length us" "us ! i = u" by (auto simp: in_set_conv_nth)
    then show "x \<in> map_prod ((!) us) ((!) us) ` renders_edge (fst (render_graph view_names rendered_names us))"
      using x unfolding all(3) E by (intro image_eqI [of _ _ "(i, t)"]) auto
  next
    fix x assume "x \<in> map_prod ((!) us) ((!) us) ` renders_edge (fst (render_graph view_names rendered_names us))"
    then obtain i t name where "x = (us ! i, us ! t)" "i < length us" "t \<noteq> i" "name \<in> set (rendered_names (us ! i))"
      "?names (canonical_view_name name) = Some t"
      unfolding all(3) E by auto
    moreover from this have "us ! i \<noteq> us ! t" using assms(2) name_templates_lt [of view_names us] by (auto simp: nth_eq_iff_index_eq)
    ultimately show "x \<in> renders_uri view_names rendered_names us" by (auto simp: renders_uri_def named)
  qed
qed

lemma trancl_image:
  assumes "inj_on f A" "E \<subseteq> A \<times> A"
  shows "(x, y) \<in> (map_prod f f ` E)\<^sup>+ \<longleftrightarrow> (\<exists>a b. (a, b) \<in> E\<^sup>+ \<and> x = f a \<and> y = f b)"
proof
  assume "(x, y) \<in> (map_prod f f ` E)\<^sup>+"
  then show "\<exists>a b. (a, b) \<in> E\<^sup>+ \<and> x = f a \<and> y = f b"
  proof (induction rule: trancl_induct)
    case (step y z)
    then obtain a b b' c where ab: "(a, b) \<in> E\<^sup>+" "x = f a" "y = f b" and bc: "(b', c) \<in> E" "y = f b'" "z = f c" by auto
    have "b \<in> A" using trancl_subset_Sigma [OF assms(2)] ab(1) by auto
    then have "b = b'" using assms ab bc by (auto dest: inj_onD)
    then show ?case using ab bc by (blast intro: trancl_into_trancl)
  qed auto
next
  assume "\<exists>a b. (a, b) \<in> E\<^sup>+ \<and> x = f a \<and> y = f b"
  then obtain a b where "(a, b) \<in> E\<^sup>+" "x = f a" "y = f b" by blast
  then show "(x, y) \<in> (map_prod f f ` E)\<^sup>+"
    by (induction arbitrary: y rule: trancl_induct) (auto intro: trancl_into_trancl)
qed

lemma below_cycle_image:
  assumes inj: "inj_on f A" and E: "E \<subseteq> A \<times> A" and j: "j \<in> A"
  shows "below_cycle (map_prod f f ` E) (f j) \<longleftrightarrow> below_cycle E j"
proof -
  have pairs: "(f k, f l) \<in> (map_prod f f ` E)\<^sup>+ \<longleftrightarrow> (k, l) \<in> E\<^sup>+" if "k \<in> A" "l \<in> A" for k l
  proof -
    have "a = k \<and> b = l" if "(a, b) \<in> E\<^sup>+" "f k = f a" "f l = f b" for a b
      using trancl_subset_Sigma [OF E] that \<open>k \<in> A\<close> \<open>l \<in> A\<close> inj by (blast dest: inj_onD)
    then show ?thesis using trancl_image [OF inj E] by blast
  qed
  then have cyc: "(f k, f k) \<in> (map_prod f f ` E)\<^sup>+ \<longleftrightarrow> (k, k) \<in> E\<^sup>+" if "k \<in> A" for k using that by blast
  have star: "(f k, f j) \<in> (map_prod f f ` E)\<^sup>* \<longleftrightarrow> (k, j) \<in> E\<^sup>*" if "k \<in> A" for k
    using pairs [OF that j] that j inj unfolding rtrancl_eq_or_trancl by (auto dest: inj_onD)
  have "k \<in> A" if "(k, k) \<in> E\<^sup>+" for k using trancl_subset_Sigma [OF E] that by auto
  moreover have "\<exists>k \<in> A. x = f k" if "(x, x) \<in> (map_prod f f ` E)\<^sup>+" for x
    using trancl_image [OF inj E] trancl_subset_Sigma [OF E] that by blast
  ultimately show ?thesis unfolding below_cycle_def using cyc star by metis
qed


subsection \<open>The order of the pass\<close>

lemma blade_order_ok:
  assumes "distinct uris" "blade_render_order view_names rendered_names uris = (order, ready_after)"
  shows "mset order = mset uris \<and> length ready_after = length order \<and> layers_ok ready_after \<and>
    (\<forall>p < length order. \<forall>u. (u, order ! p) \<in> renders_uri view_names rendered_names uris \<longrightarrow>
       (if below_cycle (renders_uri view_names rendered_names uris) (order ! p) then ready_after ! p = p
        else \<exists>q < ready_after ! p. order ! q = u))"
proof -
  define us where "us = sort uris"
  define g where "g = render_graph view_names rendered_names us"
  define R where "R = renders_uri view_names rendered_names uris"
  have us: "sorted us" "distinct us" "set us = set uris" "mset us = mset uris" using assms(1) by (simp_all add: us_def)
  have R: "R = renders_uri view_names rendered_names us"
    by (simp add: R_def renders_uri_def template_named_def us_def sorted_sort_id)
  note graph = render_graph_ok [OF us(1,2), of view_names rendered_names, folded g_def R]
  obtain idx where idx: "layered_order (fst g, snd g) = (idx, ready_after)" "order = map ((!) us) idx"
    using assms(2) by (simp add: blade_render_order_def us_def [symmetric] g_def [symmetric] split: prod.splits)
  note ok = layered_order_ok [OF _ idx(1)]
  have gok: "graph_ok (fst g, snd g)" using graph(1) by simp
  have all: "distinct idx" "set idx = {..<length us}" using ok(1,2) [OF gok] graph(2) by simp_all
  have edges: "renders_edge (fst g) \<subseteq> {..<length us} \<times> {..<length us}"
  proof (rule subrelI)
    fix i j assume "(i, j) \<in> renders_edge (fst g)"
    then have "i < length (fst g)" "j \<in> set (fst g ! i)" by (auto simp: renders_edge_def)
    then show "(i, j) \<in> {..<length us} \<times> {..<length us}" using graph_targets [OF gok] graph(2) unfolding mem_Sigma_iff lessThan_iff by (metis lessThan_iff subsetD)
  qed
  have inj: "inj_on ((!) us) {..<length us}" using us(2) by (auto simp: inj_on_def nth_eq_iff_index_eq)
  have "mset idx = mset [0..<length us]" 
    using all set_eq_iff_mset_eq_distinct [of idx "[0..<length us]"] by (simp add: atLeast0LessThan)
  then have "mset order = mset (map ((!) us) [0..<length us])" by (simp add: idx(2))
  then have perm: "mset order = mset uris" by (simp add: map_nth us(4))
  have waits: "if below_cycle R (order ! p) then ready_after ! p = p else \<exists>q < ready_after ! p. order ! q = u"
    if p: "p < length order" and u: "(u, order ! p) \<in> R" for p u
  proof -
    have p': "p < length idx" using p by (simp add: idx(2))
    then have "idx ! p \<in> {..<length us}" unfolding all(2) [symmetric] by (rule nth_mem)
    note j = p' this
    have below: "below_cycle R (order ! p) \<longleftrightarrow> below_cycle (renders_edge (fst g)) (idx ! p)"
      using below_cycle_image [OF inj edges j(2)] j(1) by (simp add: graph(3) idx(2))
    obtain i k where ik: "(i, k) \<in> renders_edge (fst g)" "u = us ! i" "us ! (idx ! p) = us ! k"
      using u j(1) by (auto simp: graph(3) idx(2))
    then have k: "k = idx ! p" using inj edges j(2) by (auto dest: inj_onD)
    show ?thesis
    proof (cases "below_cycle R (order ! p)")
      case True
      then show ?thesis using ok(5) [OF gok j(1)] below by simp
    next
      case False
      then obtain q where "q < ready_after ! p" "idx ! q = i" using ok(6) [OF gok j(1)] below ik(1) k by blast
      moreover have "ready_after ! p \<le> p" using ok(3,4) [OF gok] j(1) by (simp add: layers_ok_def)
      ultimately have "q < ready_after ! p \<and> order ! q = u" using j(1) ik(2) by (simp add: idx(2))
      then show ?thesis using False by auto
    qed
  qed
  show ?thesis using perm ok(3,4) [OF gok] waits idx(2) unfolding R_def by auto
qed


text \<open>
  C33. A refresh pass covers each template once, in layers that the pool can run, and places each
  template in a layer above all the templates that render it; a template below a cycle of renders,
  for which there is no such order, is a layer of its own.
\<close>

theorem blade_order_layers:
  assumes "distinct uris" "blade_render_order view_names rendered_names uris = (order, ready_after)"
  shows "mset order = mset uris \<and> length ready_after = length order \<and> layers_ok ready_after \<and>
    (\<forall>p < length order. \<forall>u. (u, order ! p) \<in> renders_uri view_names rendered_names uris \<longrightarrow>
       (if below_cycle (renders_uri view_names rendered_names uris) (order ! p) then ready_after ! p = p
        else \<exists>q < ready_after ! p. order ! q = u))"
  by (rule blade_order_ok [OF assms])

text \<open>A page \<open>b\<close> that renders a partial \<open>a\<close>: the partial comes second, in a layer above.\<close>

definition page_first :: "str \<Rightarrow> str list" where
  "page_first uri = (if uri = ''b'' then [''/a''] else [])"

lemma page_first_order:
  "blade_render_order (\<lambda>uri. [uri]) page_first [''a'', ''b''] = ([''b'', ''a''], [0, 1])"
  by code_simp

lemma page_first_renders: "renders_uri (\<lambda>uri. [uri]) page_first [''a'', ''b''] = {(''b'', ''a'')}"
proof -
  have "template_named (\<lambda>uri. [uri]) [''a'', ''b''] ''/a'' = Some ''a''" by code_simp
  then show ?thesis by (auto simp: renders_uri_def page_first_def)
qed

lemma page_first_no_cycle: "\<not> below_cycle {(''b'', ''a'')} ''a''"
proof -
  have "(k, l) \<in> {(''b'', ''a'')}\<^sup>+ \<Longrightarrow> k = ''b'' \<and> l = ''a''" for k l
    by (induction rule: trancl_induct) auto
  then show ?thesis by (auto simp: below_cycle_def)
qed

lemma blade_order_layers_witness:
  "\<exists>q < [0, 1 :: nat] ! 1. [''b'', ''a''] ! q = ''b''"
proof -
  have "distinct [''a'', ''b'']" by simp
  from blade_order_layers [OF this page_first_order, unfolded page_first_renders]
  show ?thesis using page_first_no_cycle by simp
qed

text \<open>
  C34. In a refresh pass the re-inference of a template begins only when that of every template
  that renders it has finished, whatever the number of workers and their interleaving; only below a
  cycle of renders this does not hold.
\<close>

theorem blade_refresh_waits:
  assumes "distinct uris" "blade_render_order view_names rendered_names uris = (order, ready_after)"
    and "layered_reachable ready_after n may_panic s" "p \<in> set (begun s)"
    and "(u, order ! p) \<in> renders_uri view_names rendered_names uris"
    and "\<not> below_cycle (renders_uri view_names rendered_names uris) (order ! p)"
  shows "\<exists>q \<in> set (ended s). order ! q = u"
proof -
  note order = blade_order_ok [OF assms(1,2)]
  have "p < length ready_after" "{..<ready_after ! p} \<subseteq> set (ended s)"
    using begun_waits [OF assms(3) _ assms(4)] order by blast+
  moreover from this obtain q where "q < ready_after ! p" "order ! q = u" using order assms(5,6) by fastforce
  ultimately show ?thesis by auto
qed

lemma blade_refresh_waits_witness:
  "\<exists>q \<in> set (ended \<lparr>counter = 2, born = 0, finished = 1, hands = (\<lambda>w. Unborn)(0 := On 1), begun = [0, 1], ended = [0]\<rparr>).
     [''b'', ''a''] ! q = ''b''"
proof -
  have "distinct [''a'', ''b'']" by simp
  from blade_refresh_waits [OF this page_first_order two_layers_run, where p = 1 and u = "''b''", unfolded page_first_renders]
  show ?thesis using page_first_no_cycle by simp
qed

subsection \<open>Canonical names\<close>

text \<open>The canonical form of a name is canonical, with or without a namespace.\<close>

lemma split_colons_Some: "split_colons s = Some (a, b) \<Longrightarrow> s = a @ ''::'' @ b \<and> split_colons (a @ ''::'' @ c) = Some (a, c)"
proof (induction s arbitrary: a rule: split_colons.induct)
  case (1 x y s)
  show ?case
  proof (cases "x = CHR '':'' \<and> y = CHR '':''")
    case False
    then obtain a' where a: "a = x # a'" "split_colons (y # s) = Some (a', b)" using "1.prems" by auto
    then have IH: "y # s = a' @ ''::'' @ b" "split_colons (a' @ ''::'' @ c) = Some (a', c)" using "1.IH" [OF False] by auto
    moreover have "split_colons (x # a' @ ''::'' @ c) = map_option (\<lambda>(before, after). (x # before, after)) (split_colons (a' @ ''::'' @ c))"
      using IH(1) False by (cases a') auto
    ultimately show ?thesis using a by simp
  qed (use "1.prems" in auto)
qed simp_all

lemma normalised_clean: "CHR ''/'' \<notin> set (normalised_view v) \<and> \<not> starts_with (normalised_view v) ''.''"
proof (cases "dropWhile (\<lambda>c. c \<in> {CHR ''/'', CHR ''.''}) v")
  case (Cons c t)
  then have "c \<notin> {CHR ''/'', CHR ''.''}" by (metis hd_dropWhile list.distinct(1) list.sel(1))
  then show ?thesis unfolding normalised_view_def Cons by (auto simp: starts_with_def)
next
  case Nil
  show ?thesis unfolding normalised_view_def Nil by (simp add: starts_with_def)
qed

lemma split_colons_tail: "split_colons (c # s) = None \<Longrightarrow> split_colons s = None"
  by (cases s) (auto split: if_splits)

lemma split_colons_normalised: "split_colons v = None \<Longrightarrow> split_colons (normalised_view v) = None"
proof -
  have map: "split_colons s = None \<Longrightarrow> split_colons (map (\<lambda>c. if c = CHR ''/'' then CHR ''.'' else c) s) = None" for s
    by (induction s rule: split_colons.induct) (auto split: if_splits)
  have drop: "split_colons s = None \<Longrightarrow> split_colons (dropWhile P s) = None" for s P
    by (induction s) (auto dest: split_colons_tail)
  assume "split_colons v = None"
  then show ?thesis unfolding normalised_view_def by (intro map drop)
qed

lemma canonical_view_name_idem: "canonical_view_name (canonical_view_name name) = canonical_view_name name"
proof (cases "split_colons name")
  case None
  then show ?thesis
    using normalised_clean [of name] split_colons_normalised [OF None]
    by (simp add: canonical_view_name_def)
next
  case (Some parts)
  obtain a b where parts: "parts = (a, b)" by fastforce
  show ?thesis
    using split_colons_Some [of name a b "normalised_view b"] normalised_clean [of b] Some
    by (auto simp: canonical_view_name_def parts)
qed

end
