(* ===== verification/Spec2Isabelle.thy ===== *)
theory Spec2Isabelle
  imports Ci_Map Toposort Nominal_Subtyping Int_Interval Publication_Epoch Parse_Inflight Incremental
    Trie_Diff Scope_Locals Proof_Map Union_Values Element_Unset Phar_Archive Worker_Pool Blade_Order
begin

text \<open>
  A verification development for PHPantom, a PHP language server (\<open>src/\<close>).

  The server parses PHP, infers the types of its expressions and answers an editor from them.  The
  parser and most walks over a program work on the syntax trees of an external crate and are not
  modelled; what is modelled is the data the server reasons with and the algorithms on it.  Each
  theory reads like the file it models, with the source's names; where a Rust name is a constant
  of HOL or belongs to several types, a prefix or suffix tells them apart (\<open>trie_insert\<close>,
  \<open>ci_insert\<close>, \<open>li_position\<close>).

  \<^bold>\<open>Ground.\<close>  \<open>Prelude\<close> has byte strings, the ASCII and prefix helpers of \<open>str\<close>, \<open>find_map\<close> and the
  list lemmas everything shares.  \<open>Int_Text\<close> has \<open>i64\<close> with its bounds, the integer parser and printer
  of the standard library and the integer readings of \<open>php_type/parse.rs\<close>.

  \<^bold>\<open>Types (\<open>src/php_type/\<close>).\<close>  \<open>Keywords\<close> (\<open>keywords.rs\<close>) classifies names.  \<open>Php_Type\<close> (\<open>mod.rs\<close>,
  \<open>constructors.rs\<close>) is the interned node tree as a datatype, pointer equality of nodes being equality.
  \<open>Php_Literal\<close> (\<open>literal.rs\<close>, \<open>text_scan.rs\<close>) reads and compares literals, \<open>Shape_Keys\<close>
  (\<open>shape_keys.rs\<close>) the keys of array shapes, \<open>Type_Predicates\<close> (\<open>predicates.rs\<close>) asks what a type is.
  \<open>Named_Lattice\<close> and \<open>Subtype\<close> are the two halves of \<open>subtype.rs\<close>, the lattice of names and the
  structural test; \<open>Type_Dedup\<close>, \<open>Type_Equivalence\<close> and \<open>Type_Union\<close> are \<open>normalize.rs\<close> and the union
  constructor; \<open>Truthiness\<close> and \<open>Element_Unset\<close> are \<open>truthiness.rs\<close>; \<open>Int_Interval\<close> is
  \<open>type_engine/type_ops/int_interval.rs\<close>.  They call each other as the code does: the structural test
  asks the lattice, the union asks equivalence, hash and intervals, the truthy part of a type builds a
  union.

  The reference of this group is \<open>Type_Values\<close> (the PHP values a name admits) and \<open>Type_Semantics\<close>
  (\<open>holds\<close>, the values of a type).  What the type layer cannot see is an argument, the \<open>world\<close>: what is
  callable, which strings name a class, what an object is an instance of, and what conditional types
  and the like evaluate to.  Against it \<open>Type_Values\<close> and \<open>Subtype_Sound\<close> show that the subtype tests
  accept only inclusions, \<open>Union_Values\<close> that a union holds the values of its members whatever its
  passes do, \<open>Truthiness\<close> that narrowing by a test neither invents a value nor loses one, and
  \<open>Element_Unset\<close> that the type after an \<open>unset\<close> holds what is left.  Each names the types it holds
  for (\<open>left_ok\<close>, \<open>member_ok\<close>, \<open>truth_node\<close>, \<open>unset_ok\<close>), and the lemmas behind the theorems show
  what the code does to the others.

  \<^bold>\<open>Classes.\<close>  \<open>Class_Info\<close> has the fields of \<open>types/class_info.rs\<close> the walks read.  \<open>Ancestry\<close>
  (\<open>inheritance/ancestry.rs\<close>) has the bounded walks over traits, parents and interfaces; the locale
  \<open>bounded_walk\<close> states what such a walk lists and is interpreted on traits, supertypes and interfaces.
  \<open>Nominal_Subtyping\<close> (\<open>class_lookup/subtyping.rs\<close>) is measured against reachability, \<open>Toposort\<close>
  (\<open>toposort.rs\<close>) is the iterative depth-first search with its explicit stack.  The loader of classes
  is an argument everywhere.

  \<^bold>\<open>Tables.\<close>  \<open>Ci_Map\<close> (\<open>ci_map.rs\<close>) is the case-insensitive map, through the locale \<open>folded_map\<close>.
  \<open>Atom_Trie\<close>, \<open>Trie_Map\<close> and \<open>Trie_Diff\<close> (\<open>scope_state/trie.rs\<close>) are the hash array mapped trie of a
  variable scope: its invariant, its interface as the locale \<open>key_map\<close> refining a finite map, and the
  difference of two tries.  \<open>Scope_Locals\<close> (\<open>locals.rs\<close>) and \<open>Proof_Map\<close> (\<open>proof_map.rs\<close>) keep an index
  beside such a map; the lemmas show the index exact and retaining through it equal to a full walk.

  \<^bold>\<open>Texts and diagnostics.\<close>  \<open>Text_Position\<close> and \<open>Text_Edits\<close> (\<open>text_position.rs\<close>) convert between byte
  offsets and editor positions and apply edits.  \<open>Publication_Epoch\<close> (\<open>diagnostics/incremental/epoch.rs\<close>)
  is the wrapping counters with their guard, as traces of atomic steps.  \<open>Incremental\<close> (\<open>units.rs\<close>,
  \<open>shift.rs\<close>, \<open>region.rs\<close>, \<open>mod.rs\<close>) decides from both which bodies changed and which diagnostics of the
  last pass stay, and moves those.

  \<^bold>\<open>Threads.\<close>  \<open>Parse_Inflight\<close> (\<open>resolution/inflight.rs\<close> and its callers) shares a parse between
  threads; \<open>Worker_Pool\<close> and \<open>Layered_Pool\<close> (\<open>parallel.rs\<close>) are the pools; \<open>Blade_Order\<close>
  (\<open>blade/call_site_refresh.rs\<close>) computes the layers a pool runs.  Each is a step relation whose steps are
  the sections that run under a lock or on an atomic; a thread asleep on a condition variable is a
  state of its own that only a notification ends, and the notification is a step of its own.
  Invariants by rule induction give exclusion, no lost wake-up and no deadlock; a measure every step
  decreases gives termination.

  \<^bold>\<open>Archives.\<close>  \<open>Phar_Archive\<close> (\<open>phar.rs\<close>) is the manifest parser over bytes with every bound and early
  return, and the reads from disk; the reference is a writer of the format.

  \<^bold>\<open>Bounds and recursion.\<close>  The walks of \<open>Ancestry\<close> carry the source's depth limits (20, so 21 levels);
  theorems that need a whole hierarchy say so.  The structural subtype test rewrites a type into larger
  ones, so it runs with a depth that the weight of the two types bounds; \<open>Subtype\<close> shows the depth is
  enough and that the recursion the code writes has the test as its only solution.  Every other
  function terminates by structure or by a measure.  Integers that may wrap are words (the epochs,
  the trie's hashes and bitmaps, the numbers of a phar), \<open>i64\<close> arithmetic checks its bounds as
  \<open>checked_add\<close> does; \<open>usize\<close> offsets into a text in memory are natural numbers.

  \<^bold>\<open>Arguments.\<close>  The standard hasher is any function of the tokens fed to it, the hash of an atom any
  function of the name; a pointer comparison in the trie is any relation that implies equality; the
  number of cores, refused spawns and panics are arbitrary; the disk of a phar is a map.

  \<^bold>\<open>Not modelled.\<close>  The walks over syntax trees (expression and statement inference, the collectors of
  diagnostics, symbol maps, completion, navigation, code actions), docblock parsing, the framework
  plug-ins but for Laravel's view names and the Blade order, the translation of templates, and
  the protocol, file and process I/O around them; of the modelled files, memory accounting, debug
  printing, logging and thread names.
\<close>

end
